(* ===== verification/TS_Prelude.thy ===== *)
theory TS_Prelude
  imports Complex_Main "HOL-Library.AList" "HOL-Library.Char_ord" "HOL-Library.List_Lexorder"
    "HOL-Library.Product_Lexorder" "HOL-Library.While_Combinator" "HOL-Library.Multiset"
begin

text \<open>
  Shared vocabulary of the development: the exceptions the Python sources raise and the
  result type that carries them, the dictionary and string helpers the sources use from
  the language, integer helpers (ceiling division, alignment, bit length), and the generic
  lemmas the component theories rely on.

  Python integers are \<^typ>\<open>int\<close> (unbounded, floor division, as in Python); strings
  are \<^typ>\<open>string\<close>; an insertion-ordered dict is an association list updated with
  \<open>AList.update\<close>, which keeps the position of an existing key and appends a new one, as
  Python does.
\<close>

section \<open>Exceptions and results\<close>

text \<open>
  An exception is its class and the constant head of its message, so two checks of one
  function stay distinguishable.
\<close>

datatype py_error =
    ValueError string
  | IndexError string
  | KeyError string
  | TypeError string
  | RuntimeError string

type_synonym 'a result = "py_error + 'a"

definition bindE :: "'a result \<Rightarrow> ('a \<Rightarrow> 'b result) \<Rightarrow> 'b result" where
  "bindE r f = (case r of Inl e \<Rightarrow> Inl e | Inr x \<Rightarrow> f x)"

text \<open>A statement \<open>if c: raise e\<close> followed by the rest of the function.\<close>

definition raise_if :: "bool \<Rightarrow> py_error \<Rightarrow> 'a result \<Rightarrow> 'a result" where
  "raise_if c e k = (if c then Inl e else k)"

text \<open>A loop whose body may raise and appends one value per element.\<close>

fun mapE :: "('a \<Rightarrow> 'b result) \<Rightarrow> 'a list \<Rightarrow> 'b list result" where
  "mapE f [] = Inr []"
| "mapE f (x # xs) = bindE (f x) (\<lambda>y. bindE (mapE f xs) (\<lambda>ys. Inr (y # ys)))"

text \<open>A loop whose body may raise and updates one accumulator.\<close>

fun foldE :: "('s \<Rightarrow> 'a \<Rightarrow> 's result) \<Rightarrow> 's \<Rightarrow> 'a list \<Rightarrow> 's result" where
  "foldE f s [] = Inr s"
| "foldE f s (x # xs) = bindE (f s x) (\<lambda>s'. foldE f s' xs)"

definition is_ok :: "'a result \<Rightarrow> bool" where
  "is_ok r = (case r of Inl _ \<Rightarrow> False | Inr _ \<Rightarrow> True)"

section \<open>Dictionaries and lists of the language\<close>

text \<open>\<open>d.get(k, v)\<close>, \<open>d[k]\<close> with its KeyError, and \<open>d[k]\<close> where the key is known to be
  present.\<close>

definition dict_get :: "('k \<times> 'v) list \<Rightarrow> 'k \<Rightarrow> 'v \<Rightarrow> 'v" where
  "dict_get d k v = (case map_of d k of None \<Rightarrow> v | Some x \<Rightarrow> x)"

definition dict_at :: "('k \<times> 'v) list \<Rightarrow> 'k \<Rightarrow> 'v result" where
  "dict_at d k = (case map_of d k of None \<Rightarrow> Inl (KeyError []) | Some x \<Rightarrow> Inr x)"

text \<open>\<open>d.update(other)\<close>.\<close>

definition dict_update :: "('k \<times> 'v) list \<Rightarrow> ('k \<times> 'v) list \<Rightarrow> ('k \<times> 'v) list" where
  "dict_update d other = fold (\<lambda>(k, v) acc. AList.update k v acc) other d"

text \<open>\<open>itertools.pairwise\<close>.\<close>

fun pairwise :: "'a list \<Rightarrow> ('a \<times> 'a) list" where
  "pairwise (x # y # zs) = (x, y) # pairwise (y # zs)"
| "pairwise _ = []"

text \<open>\<open>range(a, b)\<close>.\<close>

definition py_range :: "int \<Rightarrow> int \<Rightarrow> int list" where
  "py_range a b = [a..b - 1]"

text \<open>\<open>xs[i]\<close> for a non-negative index, raising past the end.\<close>

definition list_at :: "'a list \<Rightarrow> int \<Rightarrow> 'a result" where
  "list_at xs i =
     (if 0 \<le> i \<and> i < int (length xs) then Inr (xs ! nat i) else Inl (IndexError []))"

section \<open>Strings\<close>

text \<open>\<open>s.startswith(p)\<close> and \<open>s.removeprefix(p)\<close>.\<close>

definition startswith :: "string \<Rightarrow> string \<Rightarrow> bool" where
  "startswith s p \<longleftrightarrow> take (length p) s = p"

definition removeprefix :: "string \<Rightarrow> string \<Rightarrow> string" where
  "removeprefix s p = (if startswith s p then drop (length p) s else s)"

text \<open>\<open>s.split(sep, maxsplit)\<close> for a one-character separator.\<close>

fun split_max :: "nat \<Rightarrow> char \<Rightarrow> string \<Rightarrow> string list" where
  "split_max 0 c s = [s]"
| "split_max (Suc n) c s =
     (if c \<in> set s
      then takeWhile (\<lambda>x. x \<noteq> c) s # split_max n c (tl (dropWhile (\<lambda>x. x \<noteq> c) s))
      else [s])"

definition is_digit :: "char \<Rightarrow> bool" where
  "is_digit c \<longleftrightarrow> 48 \<le> (of_char c :: nat) \<and> (of_char c :: nat) \<le> 57"

definition digit_value :: "char \<Rightarrow> int" where
  "digit_value c = int (of_char c) - 48"

text \<open>\<open>s.isdigit()\<close> on ASCII text.\<close>

definition py_isdigit :: "string \<Rightarrow> bool" where
  "py_isdigit s \<longleftrightarrow> s \<noteq> [] \<and> list_all is_digit s"

text \<open>
  \<open>int(s)\<close> on ASCII text: surrounding white space is dropped, one sign is allowed, and
  single underscores may separate digits. \<open>None\<close> is the ValueError.
\<close>

definition is_space :: "char \<Rightarrow> bool" where
  "is_space c \<longleftrightarrow> (of_char c :: nat) \<in> {9, 10, 11, 12, 13, 28, 29, 30, 31, 32}"

definition py_strip :: "string \<Rightarrow> string" where
  "py_strip s = rev (dropWhile is_space (rev (dropWhile is_space s)))"

fun py_digits :: "bool \<Rightarrow> int \<Rightarrow> string \<Rightarrow> int option" where
  "py_digits after_digit acc [] = (if after_digit then Some acc else None)"
| "py_digits after_digit acc (c # cs) =
     (if is_digit c then py_digits True (10 * acc + digit_value c) cs
      else if c = CHR ''_'' \<and> after_digit then py_digits False acc cs
      else None)"

definition py_int :: "string \<Rightarrow> int option" where
  "py_int s =
     (case py_strip s of
        [] \<Rightarrow> None
      | c # cs \<Rightarrow>
          if c = CHR ''-'' then map_option uminus (py_digits False 0 cs)
          else if c = CHR ''+'' then py_digits False 0 cs
          else py_digits False 0 (c # cs))"

text \<open>The decimal text \<open>f"{n}"\<close> of an integer.\<close>

definition digit_char :: "nat \<Rightarrow> char" where
  "digit_char d = char_of (48 + d)"

fun nat_str :: "nat \<Rightarrow> string" where
  "nat_str n = (if n < 10 then [digit_char n] else nat_str (n div 10) @ [digit_char (n mod 10)])"

declare nat_str.simps [simp del]

definition int_str :: "int \<Rightarrow> string" where
  "int_str i = (if i < 0 then CHR ''-'' # nat_str (nat (- i)) else nat_str (nat i))"

section \<open>Integers\<close>

definition ceil_div :: "int \<Rightarrow> int \<Rightarrow> int" where
  "ceil_div a b = (a + b - 1) div b"

text \<open>\<open>n.bit_length()\<close> for non-negative \<open>n\<close>.\<close>

fun bit_length_nat :: "nat \<Rightarrow> nat" where
  "bit_length_nat n = (if n = 0 then 0 else Suc (bit_length_nat (n div 2)))"

declare bit_length_nat.simps [simp del]

definition bit_length :: "int \<Rightarrow> nat" where
  "bit_length n = bit_length_nat (nat \<bar>n\<bar>)"

section \<open>Lemma collections\<close>

named_theorems result_simps \<open>unfolding of the result monad\<close>
named_theorems dict_simps \<open>lookups in updated dictionaries\<close>

section \<open>Generic lemmas\<close>

lemma bindE_Inr_iff [result_simps]: "bindE r f = Inr y \<longleftrightarrow> (\<exists>x. r = Inr x \<and> f x = Inr y)"
  by (cases r) (auto simp: bindE_def)

lemma bindE_Inl_iff [result_simps]:
  "bindE r f = Inl e \<longleftrightarrow> r = Inl e \<or> (\<exists>x. r = Inr x \<and> f x = Inl e)"
  by (cases r) (auto simp: bindE_def)

lemma bindE_simps [simp]: "bindE (Inr x) f = f x" "bindE (Inl e) f = Inl e"
  by (simp_all add: bindE_def)

lemma raise_if_simps [simp]: "raise_if True e k = Inl e" "raise_if False e k = k"
  by (simp_all add: raise_if_def)

lemma raise_if_Inr_iff [result_simps]: "raise_if c e k = Inr y \<longleftrightarrow> \<not> c \<and> k = Inr y"
  by (simp add: raise_if_def)

lemma raise_if_Inl_iff [result_simps]: "raise_if c e k = Inl e' \<longleftrightarrow> (c \<and> e' = e) \<or> (\<not> c \<and> k = Inl e')"
  by (auto simp: raise_if_def)

lemma is_ok_iff [simp]: "is_ok r \<longleftrightarrow> (\<exists>x. r = Inr x)"
  by (cases r) (auto simp: is_ok_def)

lemma mapE_Inr_iff: "mapE f xs = Inr ys \<longleftrightarrow> list_all2 (\<lambda>x y. f x = Inr y) xs ys"
proof (induction xs arbitrary: ys)
  case Nil
  then show ?case by auto
next
  case (Cons x xs)
  then show ?case by (auto simp: result_simps list_all2_Cons1)
qed

lemma mapE_all: "(\<And>x. x \<in> set xs \<Longrightarrow> f x = Inr (g x)) \<Longrightarrow> mapE f xs = Inr (map g xs)"
  by (induction xs) auto

lemma mapE_length: "mapE f xs = Inr ys \<Longrightarrow> length ys = length xs"
  by (auto simp: mapE_Inr_iff dest: list_all2_lengthD)

lemma mapE_ok_iff: "(\<exists>ys. mapE f xs = Inr ys) \<longleftrightarrow> (\<forall>x \<in> set xs. \<exists>y. f x = Inr y)"
proof (induction xs)
  case (Cons x xs)
  then show ?case by (cases "f x") (auto simp: result_simps)
qed simp

lemma dict_at_Inr_iff: "dict_at d k = Inr x \<longleftrightarrow> map_of d k = Some x"
  by (simp add: dict_at_def split: option.split)

lemma foldE_append: "foldE f s (xs @ ys) = bindE (foldE f s xs) (\<lambda>s'. foldE f s' ys)"
proof (induction xs arbitrary: s)
  case (Cons x xs)
  then show ?case by (cases "f s x") auto
qed simp

lemma foldE_invariant:
  assumes "foldE f s xs = Inr t" and "P s"
    and "\<And>s x s'. x \<in> set xs \<Longrightarrow> P s \<Longrightarrow> f s x = Inr s' \<Longrightarrow> P s'"
  shows "P t"
  using assms
proof (induction xs arbitrary: s)
  case (Cons x xs)
  from Cons.prems(1) obtain s' where s': "f s x = Inr s'" "foldE f s' xs = Inr t"
    by (auto simp: result_simps)
  with Cons.prems have "P s'" by auto
  with s' Cons show ?case by auto
qed simp

lemma int_le_div_iff: "0 < (q::int) \<Longrightarrow> r \<le> p div q \<longleftrightarrow> r * q \<le> p"
proof
  assume q: "0 < q" and "r \<le> p div q"
  then have "r * q \<le> p div q * q" by (simp add: mult_right_mono)
  also have "\<dots> \<le> p" using q by (metis minus_mod_eq_div_mult diff_le_eq le_add_same_cancel1 pos_mod_sign)
  finally show "r * q \<le> p" .
next
  assume q: "0 < q" and "r * q \<le> p"
  then have "r * q div q \<le> p div q" by (intro zdiv_mono1)
  with q show "r \<le> p div q" by simp
qed

lemma int_div_less_iff: "0 < (q::int) \<Longrightarrow> p div q < r \<longleftrightarrow> p < r * q"
  using int_le_div_iff[of q r p] by linarith

lemma int_div_bounds:
  assumes "0 < k"
  shows "a div k * k \<le> a" and "a < (a div k + 1) * (k::int)"
  using assms int_le_div_iff [OF assms, of "a div k" a] int_div_less_iff [OF assms, of a "a div k + 1"] by auto

lemma ceil_div_le_iff: "0 < b \<Longrightarrow> ceil_div a b \<le> k \<longleftrightarrow> a \<le> k * b"
  using int_div_less_iff[of b "a + b - 1" "k + 1"] by (auto simp: ceil_div_def algebra_simps)

lemma ceil_div_cover: "0 < b \<Longrightarrow> a \<le> ceil_div a b * b"
  using ceil_div_le_iff[of b a "ceil_div a b"] by simp

lemma ceil_div_tight: "0 < b \<Longrightarrow> ceil_div a b * b < a + b"
  using int_le_div_iff[of b "ceil_div a b" "a + b - 1"] by (simp add: ceil_div_def)

lemma dict_get_update [dict_simps]:
  "dict_get (AList.update k v d) k' w = (if k' = k then v else dict_get d k' w)"
  by (simp add: dict_get_def update_conv')

lemma dict_get_Nil [simp]: "dict_get [] k v = v"
  by (simp add: dict_get_def)

lemma dict_update_conv [dict_simps]:
  "map_of (dict_update d other) = map_of d ++ map_of (rev other)"
proof (induction other arbitrary: d)
  case (Cons p other)
  then show ?case by (cases p) (simp add: dict_update_def update_conv' map_add_def fun_eq_iff split: option.split)
qed (simp add: dict_update_def)

lemma map_of_rev_distinct: "distinct (map fst xs) \<Longrightarrow> map_of (rev xs) = map_of xs"
proof (induction xs)
  case (Cons p xs)
  have "map_of xs (fst p) = None"
    using Cons.prems by (auto simp: map_of_eq_None_iff)
  then show ?case
    using Cons by (auto simp: map_add_def fun_eq_iff split: option.split)
qed simp

lemma dict_update_distinct:
  "distinct (map fst other) \<Longrightarrow> map_of (dict_update d other) = map_of d ++ map_of other"
  by (simp add: dict_update_conv map_of_rev_distinct)

lemma dict_update_keys: "set (map fst (dict_update d other)) = set (map fst d) \<union> set (map fst other)"
proof (induction other arbitrary: d)
  case (Cons p other)
  have "set (map fst (AList.update (fst p) (snd p) d)) = insert (fst p) (set (map fst d))"
    by (simp only: update_keys) auto
  with Cons show ?case by (cases p) (simp add: dict_update_def)
qed (simp add: dict_update_def)

lemma distinct_dict_update: "distinct (map fst d) \<Longrightarrow> distinct (map fst (dict_update d other))"
proof (induction other arbitrary: d)
  case (Cons p other)
  then show ?case by (cases p) (simp add: dict_update_def distinct_update)
qed (simp add: dict_update_def)

text \<open>A key all of whose entries agree.\<close>

lemma map_of_unique: "(k, x) \<in> set xs \<Longrightarrow> (\<And>y. (k, y) \<in> set xs \<Longrightarrow> y = x) \<Longrightarrow> map_of xs k = Some x"
  by (metis map_of_SomeD weak_map_of_SomeI)

lemma map_of_sort_key: "distinct (map fst xs) \<Longrightarrow> map_of (sort_key f xs) = map_of xs"
proof -
  assume d: "distinct (map fst xs)"
  have "mset (map fst (sort_key f xs)) = mset (map fst xs)" by (simp only: mset_map mset_sort)
  then have "distinct (map fst (sort_key f xs))" using d mset_eq_imp_distinct_iff by blast
  with d show ?thesis by (intro ext option.expand) (metis map_of_eq_Some_iff option.exhaust_sel set_sort)+
qed

lemma pairwise_set: "(x, y) \<in> set (pairwise xs) \<Longrightarrow> x \<in> set xs \<and> y \<in> set xs"
  by (induction xs rule: pairwise.induct) auto

lemma set_py_range [simp]: "set (py_range a b) = {a..<b}"
  by (auto simp: py_range_def)

lemma list_at_Inr_iff [result_simps]:
  "list_at xs i = Inr x \<longleftrightarrow> 0 \<le> i \<and> i < int (length xs) \<and> x = xs ! nat i"
  by (auto simp: list_at_def)

section \<open>Decimal text\<close>

lemma digit_char_value: "d < 10 \<Longrightarrow> digit_value (digit_char d) = int d"
  by (simp add: digit_value_def digit_char_def of_char_of)

lemma digit_char_is_digit: "d < 10 \<Longrightarrow> is_digit (digit_char d)"
  by (simp add: is_digit_def digit_char_def of_char_of)

lemma nat_str_nonempty [simp]: "nat_str n \<noteq> []"
  by (subst nat_str.simps) simp

lemma nat_str_digits: "c \<in> set (nat_str n) \<Longrightarrow> is_digit c"
proof (induction n rule: nat_str.induct)
  case (1 n)
  then show ?case by (auto simp: nat_str.simps [of n] digit_char_is_digit split: if_splits)
qed

lemma is_digit_not_space: "is_digit c \<Longrightarrow> \<not> is_space c"
  by (auto simp: is_digit_def is_space_def)

lemma is_digit_char: "is_digit c \<Longrightarrow> c \<notin> {CHR ''.'', CHR ''-'', CHR ''+'', CHR ''_''}"
  by (auto simp: is_digit_def)

lemma py_strip_id: "(\<And>c. c \<in> set s \<Longrightarrow> \<not> is_space c) \<Longrightarrow> py_strip s = s"
proof -
  have *: "dropWhile is_space s = s" if "\<And>c. c \<in> set s \<Longrightarrow> \<not> is_space c" for s
    using that by (cases s) auto
  assume "\<And>c. c \<in> set s \<Longrightarrow> \<not> is_space c"
  then show ?thesis using * [of s] * [of "rev s"] by (simp add: py_strip_def)
qed

lemma py_digits_nat_str:
  "py_digits b acc (nat_str n @ cs) = py_digits True (acc * 10 ^ length (nat_str n) + int n) cs"
proof (induction n arbitrary: b acc cs rule: nat_str.induct)
  case (1 n)
  show ?case
  proof (cases "n < 10")
    case True
    then show ?thesis by (simp add: nat_str.simps [of n] digit_char_is_digit digit_char_value mult.commute)
  next
    case False
    have "int n = 10 * int (n div 10) + int (n mod 10)"
      by (metis of_nat_add of_nat_mult of_nat_numeral mult_div_mod_eq)
    then have e: "10 * (acc * 10 ^ length (nat_str (n div 10)) + int (n div 10)) + int (n mod 10) =
        acc * 10 ^ Suc (length (nat_str (n div 10))) + int n" by (simp add: algebra_simps)
    have s: "nat_str n = nat_str (n div 10) @ [digit_char (n mod 10)]"
      using False by (simp add: nat_str.simps [of n])
    have "py_digits b acc (nat_str n @ cs) =
        py_digits True (10 * (acc * 10 ^ length (nat_str (n div 10)) + int (n div 10)) + int (n mod 10)) cs"
      unfolding s using "1.IH" [OF False, of b acc "digit_char (n mod 10) # cs"]
      by (simp add: digit_char_is_digit digit_char_value)
    also have "\<dots> = py_digits True (acc * 10 ^ length (nat_str n) + int n) cs" unfolding e by (simp add: s)
    finally show ?thesis .
  qed
qed

lemma py_int_int_str: "0 \<le> i \<Longrightarrow> py_int (int_str i) = Some i"
proof -
  assume i: "0 \<le> i"
  have strip: "py_strip (nat_str (nat i)) = nat_str (nat i)"
    by (intro py_strip_id is_digit_not_space nat_str_digits)
  obtain c cs where c: "nat_str (nat i) = c # cs" by (cases "nat_str (nat i)") auto
  then have "is_digit c" using nat_str_digits [of c "nat i"] by simp
  then have "py_int (int_str i) = py_digits False 0 (nat_str (nat i))"
    using i is_digit_char [of c] by (simp add: py_int_def int_str_def strip [unfolded c] c)
  then show ?thesis using py_digits_nat_str [of False 0 "nat i" "[]"] i by simp
qed

lemma split_max_Suc:
  "c \<notin> set a \<Longrightarrow> split_max (Suc n) c (a @ c # b) = a # split_max n c b"
  by (induction a) auto

text \<open>Integer division of Triton programs truncates toward zero.\<close>

definition tdiv :: "int \<Rightarrow> int \<Rightarrow> int" where
  "tdiv a b = sgn a * sgn b * (\<bar>a\<bar> div \<bar>b\<bar>)"

definition tmod :: "int \<Rightarrow> int \<Rightarrow> int" where
  "tmod a b = a - tdiv a b * b"

lemma tdiv_nonneg: "0 \<le> a \<Longrightarrow> 0 < b \<Longrightarrow> tdiv a b = a div b"
  by (cases "a = 0") (simp_all add: tdiv_def)

lemma tmod_nonneg: "0 \<le> a \<Longrightarrow> 0 < b \<Longrightarrow> tmod a b = a mod b"
  by (simp add: tmod_def tdiv_nonneg minus_div_mult_eq_mod)

text \<open>A number lies between the powers of two that its bit length names.\<close>

lemma bits_upper: "n < 2 ^ bit_length_nat n"
proof (induction n rule: bit_length_nat.induct)
  case (1 n)
  then show ?case by (subst bit_length_nat.simps) (cases "n = 0", auto)
qed

lemma bits_lower: "0 < n \<Longrightarrow> 2 ^ (bit_length_nat n - 1) \<le> n"
proof (induction n rule: bit_length_nat.induct)
  case (1 n)
  show ?case
  proof (cases "n div 2 = 0")
    case True
    then show ?thesis using 1(2) by (simp add: bit_length_nat.simps [of n] bit_length_nat.simps [of 0])
  next
    case False
    then have "bit_length_nat (n div 2) = Suc (bit_length_nat (n div 2) - 1)" by (simp add: bit_length_nat.simps [of "n div 2"])
    moreover have "2 ^ (bit_length_nat (n div 2) - 1) \<le> n div 2" using 1(1) 1(2) False by simp
    ultimately have "2 ^ bit_length_nat (n div 2) \<le> 2 * (n div 2)" by (metis mult_le_mono2 power_Suc)
    also have "\<dots> \<le> n" by simp
    finally show ?thesis using 1(2) by (simp add: bit_length_nat.simps [of n])
  qed
qed

end
