(* ===== verification/Group_Spec.thy ===== *)
theory Group_Spec
  imports TS_Prelude
begin

text \<open>
  The scheduler-facing description of one cache group:
  \<^verbatim>\<open>CacheGroupSpec\<close> of \<^verbatim>\<open>kv_cache/recipes/spec.py\<close> with its construction checks and
  derived properties, the decode capture width
  \<^verbatim>\<open>compute_max_logical_pages_for_capture\<close>, and the two start-up checks of a backend
  against a pool's groups. The layer walk that produces the specs is in theory
  \<open>Layer_Groups\<close>.
\<close>

section \<open>Model\<close>

text \<open>The literals of \<^verbatim>\<open>AttnKind\<close> and \<^verbatim>\<open>TransferPolicy\<close>; a value outside them is
  the unknown-kind error of \<^verbatim>\<open>__post_init__\<close>, kept by \<open>attn_kind_of_name\<close>.\<close>

datatype attn_kind = Full_history | Sliding_window | State

datatype transfer_policy = Full_suffix | Latest_snapshot

definition attn_kind_of_name :: "string \<Rightarrow> attn_kind result" where
  "attn_kind_of_name name =
     (if name = ''full_history'' then Inr Full_history
      else if name = ''sliding_window'' then Inr Sliding_window
      else if name = ''state'' then Inr State
      else Inl (ValueError ''unknown cache-group kind''))"

definition STATE_INPUT_SLOT :: int where "STATE_INPUT_SLOT = 0"
definition STATE_LIVE_SLOT :: int where "STATE_LIVE_SLOT = 1"
definition STATE_TABLE_SLOTS :: int where "STATE_TABLE_SLOTS = 2"

record cache_group_spec =
  gs_group_id :: string
  gs_attn_kind :: attn_kind
  gs_rows_per_page :: "int option"
  gs_entry_stride_tokens :: "int option"
  gs_sliding_window_tokens :: "int option"
  gs_replayable :: bool
  gs_transfer_policy :: "transfer_policy option"
  gs_shard_count :: int

text \<open>\<^verbatim>\<open>CacheGroupSpec.__post_init__\<close> on a spec whose kind is one of the literals and whose shard count is an
  integer, check by check in source order; the result is the constructed spec.\<close>

definition check_group_spec :: "cache_group_spec \<Rightarrow> cache_group_spec result" where
  "check_group_spec s =
     raise_if (gs_shard_count s \<le> 0) (ValueError ''shard_count must be a positive integer'')
    (raise_if (gs_attn_kind s = Sliding_window \<and>
        (case gs_sliding_window_tokens s of None \<Rightarrow> True | Some w \<Rightarrow> w \<le> 0))
        (ValueError ''a sliding-window group needs a positive sliding_window_tokens'')
    (raise_if (gs_attn_kind s \<noteq> Sliding_window \<and> gs_sliding_window_tokens s \<noteq> None)
        (ValueError ''only a sliding-window group carries sliding_window_tokens'')
    (raise_if (gs_replayable s \<and> gs_attn_kind s \<noteq> Sliding_window)
        (ValueError ''only a sliding-window group can be regenerated by bounded replay'')
    (if gs_attn_kind s = State
     then raise_if (gs_rows_per_page s \<noteq> None \<or> gs_entry_stride_tokens s \<noteq> None)
        (ValueError ''a state group holds one state per block'') (Inr s)
     else
       (case (gs_rows_per_page s, gs_entry_stride_tokens s) of
          (Some rows, Some stride) \<Rightarrow>
            raise_if (rows \<le> 0 \<or> stride \<le> 0)
              (ValueError ''rows_per_page and entry_stride_tokens must be > 0'') (Inr s)
        | _ \<Rightarrow> Inl (ValueError ''a group declares row geometry''))))))"

text \<open>The whole constructor: the kind is the name the caller wrote, and the shard count is any Python value; a bool is not
  a count although Python's \<^verbatim>\<open>bool\<close> is an \<^verbatim>\<open>int\<close>.\<close>

datatype py_count = Py_int int | Py_bool bool | Py_other

definition make_group_spec :: "string \<Rightarrow> py_count \<Rightarrow> cache_group_spec \<Rightarrow> cache_group_spec result" where
  "make_group_spec attn_kind shard_count s =
     (case shard_count of
        Py_int n \<Rightarrow>
          raise_if (n \<le> 0) (ValueError ''shard_count must be a positive integer'')
         (bindE (attn_kind_of_name attn_kind) (\<lambda>k. check_group_spec (s\<lparr>gs_attn_kind := k, gs_shard_count := n\<rparr>)))
      | _ \<Rightarrow> Inl (ValueError ''shard_count must be a positive integer''))"

text \<open>The \<^verbatim>\<open>page_size\<close> property and its alias \<^verbatim>\<open>block_granularity\<close>.\<close>

definition page_size :: "cache_group_spec \<Rightarrow> int result" where
  "page_size s =
     (case (gs_rows_per_page s, gs_entry_stride_tokens s) of
        (Some rows, Some stride) \<Rightarrow> Inr (rows * stride)
      | _ \<Rightarrow> Inl (TypeError ''page_size is undefined for a state group''))"

definition block_granularity :: "cache_group_spec \<Rightarrow> int result" where
  "block_granularity s = page_size s"

text \<open>\<^verbatim>\<open>compute_max_logical_pages_for_capture\<close>.\<close>

definition compute_max_logical_pages_for_capture ::
  "cache_group_spec \<Rightarrow> int \<Rightarrow> int \<Rightarrow> int \<Rightarrow> int result" where
  "compute_max_logical_pages_for_capture spec max_context_len max_tokens_per_req
     overlap_schedule_depth =
     raise_if (max_context_len < 0) (ValueError ''max_context_len must be >= 0'')
    (raise_if (max_tokens_per_req \<le> 0) (ValueError ''max_tokens_per_req must be > 0'')
    (raise_if (overlap_schedule_depth \<notin> {0, 1})
        (ValueError ''overlap_schedule_depth must be 0 or 1'')
    (if gs_attn_kind spec = State then Inr STATE_TABLE_SLOTS
     else bindE (block_granularity spec) (\<lambda>block_granularity.
       let reservation_horizon = (overlap_schedule_depth + 1) * max_tokens_per_req in
       if gs_attn_kind spec = Sliding_window
       then (case gs_sliding_window_tokens spec of
               None \<Rightarrow> Inl (TypeError ''min of None'')
             | Some w \<Rightarrow>
                 let retained = min w max_context_len;
                     live_tokens = retained + reservation_horizon
                 in Inr (ceil_div live_tokens block_granularity + 1))
       else let live_tokens = max_context_len + reservation_horizon
            in Inr (ceil_div live_tokens block_granularity)))))"

text \<open>\<^verbatim>\<open>validate_scheduler_config\<close> and \<^verbatim>\<open>validate_state_checkpoint_in_forward\<close>; the
  backend enters through the two attributes the functions read.\<close>

definition validate_scheduler_config ::
  "attn_kind list \<Rightarrow> cache_group_spec list \<Rightarrow> unit result" where
  "validate_scheduler_config cache_consumer_attn_kinds group_specs =
     (let missing_kinds = set (map gs_attn_kind group_specs) - set cache_consumer_attn_kinds
      in raise_if (missing_kinds \<noteq> {})
           (RuntimeError ''cache pool requires consumers for cache-group kinds'') (Inr ()))"

definition validate_state_checkpoint_in_forward ::
  "bool \<Rightarrow> cache_group_spec list \<Rightarrow> unit result" where
  "validate_state_checkpoint_in_forward stores_in_forward_state_checkpoints group_specs =
     (let has_state = list_ex (\<lambda>spec. gs_attn_kind spec = State) group_specs
      in raise_if (has_state \<and> \<not> stores_in_forward_state_checkpoints)
           (ValueError ''--enable-state-checkpoint-in-forward'') (Inr ()))"

text \<open>\<^verbatim>\<open>apply_pd_transfer_policies\<close>. \<^verbatim>\<open>dataclasses.replace\<close> runs the construction
  checks again.\<close>

definition apply_pd_transfer_policies ::
  "cache_group_spec list \<Rightarrow> cache_group_spec list result" where
  "apply_pd_transfer_policies specs =
     mapE (\<lambda>spec. check_group_spec
       (spec\<lparr>gs_transfer_policy :=
          Some (if gs_attn_kind spec = State then Latest_snapshot else Full_suffix)\<rparr>)) specs"

section \<open>Well-formed specs\<close>

text \<open>What a constructed spec guarantees, by kind.\<close>

definition group_spec_ok :: "cache_group_spec \<Rightarrow> bool" where
  "group_spec_ok s \<longleftrightarrow>
     0 < gs_shard_count s \<and>
     (case gs_attn_kind s of
        State \<Rightarrow> gs_rows_per_page s = None \<and> gs_entry_stride_tokens s = None \<and>
                 gs_sliding_window_tokens s = None \<and> \<not> gs_replayable s
      | Full_history \<Rightarrow> (\<exists>rows stride. gs_rows_per_page s = Some rows \<and>
                 gs_entry_stride_tokens s = Some stride \<and> 0 < rows \<and> 0 < stride) \<and>
                 gs_sliding_window_tokens s = None \<and> \<not> gs_replayable s
      | Sliding_window \<Rightarrow> (\<exists>rows stride. gs_rows_per_page s = Some rows \<and>
                 gs_entry_stride_tokens s = Some stride \<and> 0 < rows \<and> 0 < stride) \<and>
                 (\<exists>w. gs_sliding_window_tokens s = Some w \<and> 0 < w))"

lemma check_group_spec_same: "check_group_spec s = Inr t \<Longrightarrow> t = s"
  by (auto simp: check_group_spec_def result_simps split: if_splits option.splits)

lemma check_group_spec_iff: "check_group_spec s = Inr s \<longleftrightarrow> group_spec_ok s"
proof (cases "gs_attn_kind s")
  case Full_history
  then show ?thesis
    by (auto simp: check_group_spec_def group_spec_ok_def result_simps split: option.splits)
next
  case Sliding_window
  then show ?thesis
    by (auto simp: check_group_spec_def group_spec_ok_def result_simps split: option.splits)
next
  case State
  then show ?thesis
    by (auto simp: check_group_spec_def group_spec_ok_def result_simps split: option.splits)
qed

lemma page_size_ok:
  assumes "group_spec_ok s" and "gs_attn_kind s \<noteq> State"
  obtains n where "page_size s = Inr n" and "0 < n"
  using assms by (cases "gs_attn_kind s") (auto simp: group_spec_ok_def page_size_def)

text \<open>
  Blocks touched by the token positions \<open>[lo, hi)\<close> of a request when one block spans
  \<open>g\<close> tokens: from the block of \<open>lo\<close> to the block of \<open>hi - 1\<close>.
\<close>

definition blocks_touched :: "int \<Rightarrow> int \<Rightarrow> int \<Rightarrow> int" where
  "blocks_touched g lo hi = (if lo < hi then (hi - 1) div g - lo div g + 1 else 0)"

lemma blocks_touched_aligned:
  assumes "0 < g" and "0 \<le> hi"
  shows "blocks_touched g 0 hi \<le> ceil_div hi g"
proof (cases "0 < hi")
  case True
  have "(hi + g - 1) div g = (hi - 1) div g + 1"
    using assms by (metis add.commute add_diff_eq div_add_self1 less_numeral_extra(3) diff_add_eq)
  then show ?thesis using True by (simp add: blocks_touched_def ceil_div_def)
next
  case False
  with assms have "hi = 0" by simp
  then show ?thesis using assms by (simp add: blocks_touched_def ceil_div_def)
qed

lemma blocks_touched_any:
  assumes "0 < g" and "lo \<le> hi"
  shows "blocks_touched g lo hi \<le> ceil_div (hi - lo) g + 1"
proof (cases "lo < hi")
  case True
  let ?q = "ceil_div (hi - lo) g"
  have "hi - lo \<le> ?q * g" using ceil_div_cover[OF assms(1)] by simp
  then have "hi - 1 < lo + ?q * g" by simp
  moreover have "lo < (lo div g + 1) * g"
    using assms(1) by (metis add.commute mult.commute distrib_left mult.right_neutral
        div_mult_mod_eq pos_mod_bound add_less_cancel_left)
  ultimately have "hi - 1 < (lo div g + 1 + ?q) * g" by (simp add: algebra_simps)
  then have "(hi - 1) div g < lo div g + 1 + ?q"
    using assms(1) by (simp add: int_div_less_iff)
  then show ?thesis using True by (simp add: blocks_touched_def)
next
  case False
  then have "0 \<le> ceil_div (hi - lo) g"
    using assms by (simp add: ceil_div_def pos_imp_zdiv_nonneg_iff)
  then show ?thesis using False by (simp add: blocks_touched_def)
qed

text \<open>The number of blocks a token range touches, as a count of block numbers.\<close>

lemma card_blocks_touched:
  assumes "0 < g"
  shows "int (card {i div g | i. lo \<le> i \<and> i < hi}) \<le> blocks_touched g lo hi"
proof (cases "lo < hi")
  case True
  have "{i div g | i. lo \<le> i \<and> i < hi} \<subseteq> {lo div g .. (hi - 1) div g}"
    using zdiv_mono1 [OF _ assms] by auto
  then have "card {i div g | i. lo \<le> i \<and> i < hi} \<le> card {lo div g .. (hi - 1) div g}"
    by (intro card_mono) auto
  moreover have "lo div g \<le> (hi - 1) div g" using True assms by (intro zdiv_mono1) auto
  ultimately show ?thesis using True by (simp add: blocks_touched_def)
next
  case False
  then have "{i div g | i. lo \<le> i \<and> i < hi} = {}" by auto
  then show ?thesis using False by (simp add: blocks_touched_def)
qed

section \<open>Properties\<close>

text \<open>C21: the block-table width captured for a full-history or sliding-window group covers every
  state of a request: with at most \<^verbatim>\<open>max_context_len\<close> committed tokens and a reservation of at
  most \<^verbatim>\<open>overlap_schedule_depth + 1\<close> steps of \<^verbatim>\<open>max_tokens_per_req\<close> tokens, the blocks touched
  by the live tokens (for a sliding window, those still inside the window) never exceed it.\<close>

theorem capture_width_covers:
  assumes "group_spec_ok s" and "gs_attn_kind s \<noteq> State"
    and "compute_max_logical_pages_for_capture s ctx tokens depth = Inr width"
    and "page_size s = Inr g" and "0 \<le> committed" and "committed \<le> ctx"
    and "0 \<le> reserved" and "reserved \<le> (depth + 1) * tokens"
    and "lo = (case gs_sliding_window_tokens s of None \<Rightarrow> 0 | Some w \<Rightarrow> max 0 (committed - w))"
  shows "int (card {i div g | i. lo \<le> i \<and> i < committed + reserved}) \<le> width"
proof -
  obtain n where "page_size s = Inr n" "0 < n" by (rule page_size_ok [OF assms(1,2)])
  then have g: "0 < g" using assms(4) by simp
  have mono: "ceil_div a g \<le> ceil_div b g" if "a \<le> b" for a b
    using g that by (auto simp: ceil_div_def intro!: zdiv_mono1)
  have touched: "int (card {i div g | i. lo \<le> i \<and> i < committed + reserved}) \<le>
      blocks_touched g lo (committed + reserved)" by (rule card_blocks_touched [OF g])
  show ?thesis
  proof (cases "gs_attn_kind s")
    case Full_history
    then have lo: "lo = 0" using assms(1,9) by (auto simp: group_spec_ok_def)
    have w: "width = ceil_div (ctx + (depth + 1) * tokens) g"
      using assms(3,4) Full_history
      by (auto simp: compute_max_logical_pages_for_capture_def block_granularity_def result_simps Let_def)
    have "blocks_touched g 0 (committed + reserved) \<le> ceil_div (committed + reserved) g"
      using assms(5,7) by (intro blocks_touched_aligned [OF g]) simp
    also have "\<dots> \<le> width" unfolding w using assms(6,8) by (intro mono) simp
    finally show ?thesis using touched lo by simp
  next
    case Sliding_window
    then obtain win where win: "gs_sliding_window_tokens s = Some win" "0 < win"
      using assms(1) by (auto simp: group_spec_ok_def)
    have w: "width = ceil_div (min win ctx + (depth + 1) * tokens) g + 1"
      using assms(3,4) Sliding_window win
      by (auto simp: compute_max_logical_pages_for_capture_def block_granularity_def result_simps Let_def)
    have lo: "lo = max 0 (committed - win)" using assms(9) win by simp
    have "blocks_touched g lo (committed + reserved) \<le> ceil_div (committed + reserved - lo) g + 1"
      using assms(5,7) lo win by (intro blocks_touched_any [OF g]) simp
    also have "\<dots> \<le> width" unfolding w lo using assms(5,6,8) by (auto intro: mono)
    finally show ?thesis using touched by simp
  next
    case State
    with assms(2) show ?thesis by simp
  qed
qed

definition demo_window_spec :: cache_group_spec where
  "demo_window_spec = \<lparr>gs_group_id = ''w'', gs_attn_kind = Sliding_window, gs_rows_per_page = Some 4,
     gs_entry_stride_tokens = Some 1, gs_sliding_window_tokens = Some 6, gs_replayable = True,
     gs_transfer_policy = None, gs_shard_count = 1\<rparr>"

theorem capture_width_covers_witness:
  "int (card {i div 4 | i. (3::int) \<le> i \<and> i < 9 + 2}) \<le> 3"
proof -
  have "group_spec_ok demo_window_spec" by (simp add: group_spec_ok_def demo_window_spec_def)
  moreover have "compute_max_logical_pages_for_capture demo_window_spec 20 1 1 = Inr 3" by code_simp
  moreover have "page_size demo_window_spec = Inr 4" by code_simp
  ultimately show ?thesis
    by (intro capture_width_covers [of demo_window_spec 20 1 1]) (auto simp: demo_window_spec_def)
qed

text \<open>The disaggregation policy pass gives every group exactly one policy by its kind, snapshots
  for state groups and the full suffix otherwise, and keeps every other attribute; it never
  fails on well-formed specs.\<close>

theorem apply_pd_transfer_policies_total:
  assumes "list_all group_spec_ok specs"
  shows "apply_pd_transfer_policies specs =
     Inr (map (\<lambda>s. s\<lparr>gs_transfer_policy :=
       Some (if gs_attn_kind s = State then Latest_snapshot else Full_suffix)\<rparr>) specs)"
proof -
  have "group_spec_ok (s\<lparr>gs_transfer_policy := x\<rparr>) = group_spec_ok s" for s x
    by (simp add: group_spec_ok_def split: attn_kind.split)
  then show ?thesis
    using assms unfolding apply_pd_transfer_policies_def
    by (intro mapE_all) (simp add: check_group_spec_iff list_all_iff)
qed

theorem apply_pd_transfer_policies_total_witness:
  "apply_pd_transfer_policies [demo_window_spec] = Inr [demo_window_spec\<lparr>gs_transfer_policy := Some Full_suffix\<rparr>]"
  using apply_pd_transfer_policies_total [of "[demo_window_spec]"]
  by (simp add: group_spec_ok_def demo_window_spec_def)

end
