(* ===== verification/Machine_Numbers.thy ===== *)
theory Machine_Numbers
  imports TS_Prelude
begin

text \<open>
  The numbers of the sources that are not Python integers: signed 32-bit integers of index tensors and Triton
  programs, and Python's floats. A 32-bit operation is the operation on \<^typ>\<open>int\<close> followed by
  \<open>wrap32\<close>. A finite float is its rational value; an operation on floats is the exact operation followed by
  \<open>double\<close>, which rounds to 53 significant bits, to nearest and ties to even, as IEEE 754 binary64 does. The range
  of the exponent is left open: the only floats the sources compute are ratios of byte counts below \<open>2^63\<close>,
  whose nonzero values and differences stay far from the ends of the range.
\<close>

section \<open>Signed 32-bit integers\<close>

definition wrap32 :: "int \<Rightarrow> int" where
  "wrap32 x = (x + 2 ^ 31) mod 2 ^ 32 - 2 ^ 31"

lemma wrap32_id: "- (2 ^ 31) \<le> x \<Longrightarrow> x < 2 ^ 31 \<Longrightarrow> wrap32 x = x"
  by (simp add: wrap32_def)

lemma wrap32_small: "0 \<le> x \<Longrightarrow> x < 2 ^ 31 \<Longrightarrow> wrap32 x = x"
  by (rule wrap32_id) simp_all

lemma wrap32_range: "- (2 ^ 31) \<le> wrap32 x" "wrap32 x < 2 ^ 31"
proof -
  have "0 \<le> (x + 2 ^ 31) mod 2 ^ 32" "(x + 2 ^ 31) mod 2 ^ 32 < 2 ^ 32" by simp_all
  then show "- (2 ^ 31) \<le> wrap32 x" "wrap32 x < 2 ^ 31" by (simp_all add: wrap32_def)
qed

section \<open>Floats\<close>

definition pow2 :: "int \<Rightarrow> rat" where
  "pow2 e = (if 0 \<le> e then 2 ^ nat e else 1 / 2 ^ nat (- e))"

definition round_half_even :: "rat \<Rightarrow> int" where
  "round_half_even x =
     (let n = \<lfloor>x\<rfloor>; rest = x - of_int n
      in if rest < 1 / 2 then n else if rest > 1 / 2 then n + 1 else if even n then n else n + 1)"

text \<open>The weight of the last of 53 significant bits of a nonzero number.\<close>

definition last_bit :: "rat \<Rightarrow> int" where
  "last_bit x =
     (case quotient_of x of (p, q) \<Rightarrow>
        let e = int (bit_length p) - int (bit_length q) - 53
        in if \<bar>x\<bar> < pow2 (e + 53) then e else e + 1)"

definition double :: "rat \<Rightarrow> rat" where
  "double x = (if x = 0 then 0 else of_int (round_half_even (x / pow2 (last_bit x))) * pow2 (last_bit x))"

datatype py_float = Finite rat | Inf | Neg_inf | NaN

text \<open>\<open>a < b\<close> on floats; every comparison with \<open>nan\<close> is false.\<close>

fun float_less :: "py_float \<Rightarrow> py_float \<Rightarrow> bool" where
  "float_less (Finite a) (Finite b) = (a < b)"
| "float_less (Finite a) Inf = True"
| "float_less Neg_inf (Finite b) = True"
| "float_less Neg_inf Inf = True"
| "float_less _ _ = False"

lemma float_less_Finite: "float_less (Finite a) (Finite b) \<longleftrightarrow> a < b"
  by simp

subsection \<open>The error of one rounding\<close>

lemma pow2_pos: "0 < pow2 e"
  by (simp add: pow2_def)

lemma pow2_Suc: "pow2 (e + 1) = 2 * pow2 e"
proof (cases "0 \<le> e")
  case True
  then show ?thesis by (simp add: pow2_def nat_add_distrib)
next
  case False
  then have "nat (- e) = Suc (nat (- (e + 1)))" by simp
  with False show ?thesis by (auto simp: pow2_def)
qed

lemma pow2_add_nat: "pow2 (e + int n) = 2 ^ n * pow2 e"
proof (induction n)
  case (Suc n)
  have "pow2 (e + int (Suc n)) = pow2 ((e + int n) + 1)" by (simp add: algebra_simps)
  then show ?case using Suc by (simp add: pow2_Suc)
qed simp

lemma pow2_diff: "pow2 (int a - int b) = 2 ^ a / 2 ^ b"
proof -
  have "pow2 (int a) = 2 ^ b * pow2 (int a - int b)" using pow2_add_nat [of "int a - int b" b] by simp
  then show ?thesis by (simp add: pow2_def field_simps)
qed

lemma round_half_even_error: "\<bar>of_int (round_half_even x) - x\<bar> \<le> 1 / 2"
proof -
  have "of_int \<lfloor>x\<rfloor> \<le> x" "x < of_int \<lfloor>x\<rfloor> + 1" by linarith+
  then show ?thesis by (auto simp: round_half_even_def Let_def)
qed

lemma last_bit_weight:
  assumes "x \<noteq> 0"
  shows "2 ^ 52 * pow2 (last_bit x) \<le> \<bar>x\<bar>"
proof -
  obtain p q where pq: "quotient_of x = (p, q)" by (metis surj_pair)
  have q: "0 < q" using quotient_of_denom_pos [OF pq] .
  have x: "x = of_int p / of_int q" using quotient_of_div [OF pq] .
  have p: "p \<noteq> 0" using x assms by auto
  let ?a = "bit_length p" and ?b = "bit_length q"
  let ?e = "int ?a - int ?b - 53"
  have a: "2 ^ (?a - 1) \<le> nat \<bar>p\<bar>" "0 < ?a" using bits_lower [of "nat \<bar>p\<bar>"] p
    by (simp_all add: bit_length_def) (subst bit_length_nat.simps, simp)
  have b: "nat q < 2 ^ ?b" using bits_upper [of "nat q"] q by (simp add: bit_length_def)
  have pa: "(2 :: rat) ^ (?a - 1) \<le> of_int \<bar>p\<bar>"
  proof -
    have "int (2 ^ (?a - 1)) \<le> \<bar>p\<bar>" using a(1) by (simp add: le_nat_iff)
    then have "(of_int (int (2 ^ (?a - 1))) :: rat) \<le> of_int \<bar>p\<bar>" by (simp only: of_int_le_iff)
    then show ?thesis by simp
  qed
  have qb: "(of_int q :: rat) \<le> 2 ^ ?b"
  proof -
    have "q \<le> int (2 ^ ?b)" using b by (simp add: nat_less_iff)
    then have "(of_int q :: rat) \<le> of_int (int (2 ^ ?b))" by (simp only: of_int_le_iff)
    then show ?thesis by simp
  qed
  have abs: "\<bar>x\<bar> = of_int \<bar>p\<bar> / of_int q" using q by (simp add: x)
  have "pow2 (?e + 52) = 2 ^ (?a - 1) / 2 ^ ?b"
    using pow2_diff [of "?a - 1" ?b] a(2) by (simp add: algebra_simps)
  also have "\<dots> \<le> of_int \<bar>p\<bar> / of_int q" by (rule frac_le) (use pa qb q in simp_all)
  finally have low: "2 ^ 52 * pow2 ?e \<le> \<bar>x\<bar>" using pow2_add_nat [of ?e 52] by (simp add: abs)
  show ?thesis
  proof (cases "\<bar>x\<bar> < pow2 (?e + 53)")
    case True
    then show ?thesis using low by (simp add: last_bit_def pq Let_def)
  next
    case False
    then have "2 ^ 53 * pow2 ?e \<le> \<bar>x\<bar>" using pow2_add_nat [of ?e 53] by simp
    then have "2 ^ 52 * pow2 (?e + 1) \<le> \<bar>x\<bar>" unfolding pow2_Suc by simp
    moreover have "last_bit x = ?e + 1" using False by (simp add: last_bit_def pq Let_def)
    ultimately show ?thesis by metis
  qed
qed

lemma double_error: "\<bar>double x - x\<bar> \<le> \<bar>x\<bar> / 2 ^ 53"
proof (cases "x = 0")
  case False
  let ?w = "pow2 (last_bit x)"
  have w: "0 < ?w" by (rule pow2_pos)
  have "double x - x = (of_int (round_half_even (x / ?w)) - x / ?w) * ?w" using False w by (simp add: double_def left_diff_distrib)
  then have "\<bar>double x - x\<bar> = \<bar>of_int (round_half_even (x / ?w)) - x / ?w\<bar> * ?w" using w by (simp add: abs_mult)
  also have "\<dots> \<le> 1 / 2 * ?w" by (rule mult_right_mono [OF round_half_even_error]) (use w in simp)
  also have "\<dots> \<le> \<bar>x\<bar> / 2 ^ 53" using last_bit_weight [OF False] by simp
  finally show ?thesis .
qed (simp add: double_def)

lemma double_pos:
  assumes "0 \<le> x"
  shows "x * (1 - 1 / 2 ^ 53) \<le> double x" "double x \<le> x * (1 + 1 / 2 ^ 53)"
proof -
  have "\<bar>double x - x\<bar> \<le> x / 2 ^ 53" using double_error [of x] assms by (simp only: abs_of_nonneg)
  then have "x - x / 2 ^ 53 \<le> double x" "double x \<le> x + x / 2 ^ 53" by linarith+
  then show "x * (1 - 1 / 2 ^ 53) \<le> double x" "double x \<le> x * (1 + 1 / 2 ^ 53)"
    by (simp_all only: right_diff_distrib distrib_left mult_1_right times_divide_eq_right)
qed

end
