(* ===== verification/Memory_Plan.thy ===== *)
theory Memory_Plan
  imports Group_Spec Machine_Numbers
begin

text \<open>
  The LCM arena planner, \<^verbatim>\<open>kv_cache/recipes/plan.py\<close>: cache dtypes and field ids, the
  declared fields, \<^verbatim>\<open>pack\<close> (how declared bytes sit inside one physical parent),
  \<^verbatim>\<open>CacheLayout.bind\<close> (the plan at a parent count), and the byte addressing of the bound
  plan. The solver \<^verbatim>\<open>_solve_packing\<close> is in theory \<open>Packing_Solver\<close> with its
  correctness proof; the geometry theorems of this model are in theory \<open>Plan_Geometry\<close>.

  The padding budget of \<^verbatim>\<open>pack\<close> and the utilisation of \<^verbatim>\<open>capacity_report\<close> are floats, rounded as in
  theory \<open>Machine_Numbers\<close>.
\<close>

section \<open>Dtypes and field ids\<close>

text \<open>\<^verbatim>\<open>_CACHE_DTYPE_BYTES\<close>: the table of names and widths. A record's dtype is a
  constructor of \<open>cache_dtype\<close>, since \<^verbatim>\<open>__post_init__\<close> refuses any other name.\<close>

datatype cache_dtype =
    DT_uint8 | DT_int8 | DT_float8_e4m3fn | DT_float8_e5m2 | DT_float8_e8m0fnu
  | DT_bfloat16 | DT_float16 | DT_int32 | DT_float32 | DT_int64 | DT_float64

definition cache_dtypes :: "(string \<times> cache_dtype) list" where
  "cache_dtypes =
     [(''uint8'', DT_uint8), (''int8'', DT_int8), (''float8_e4m3fn'', DT_float8_e4m3fn),
      (''float8_e5m2'', DT_float8_e5m2), (''float8_e8m0fnu'', DT_float8_e8m0fnu),
      (''bfloat16'', DT_bfloat16), (''float16'', DT_float16), (''int32'', DT_int32),
      (''float32'', DT_float32), (''int64'', DT_int64), (''float64'', DT_float64)]"

fun dtype_bytes :: "cache_dtype \<Rightarrow> int" where
  "dtype_bytes DT_uint8 = 1"
| "dtype_bytes DT_int8 = 1"
| "dtype_bytes DT_float8_e4m3fn = 1"
| "dtype_bytes DT_float8_e5m2 = 1"
| "dtype_bytes DT_float8_e8m0fnu = 1"
| "dtype_bytes DT_bfloat16 = 2"
| "dtype_bytes DT_float16 = 2"
| "dtype_bytes DT_int32 = 4"
| "dtype_bytes DT_float32 = 4"
| "dtype_bytes DT_int64 = 8"
| "dtype_bytes DT_float64 = 8"

definition cache_dtype_name :: "string \<Rightarrow> cache_dtype result" where
  "cache_dtype_name dtype =
     (case map_of cache_dtypes (removeprefix dtype ''torch.'') of
        None \<Rightarrow> Inl (ValueError ''unsupported cache dtype'')
      | Some d \<Rightarrow> Inr d)"

definition scatter_stored_dtype_name :: "string \<Rightarrow> cache_dtype result" where
  "scatter_stored_dtype_name dtype =
     bindE (cache_dtype_name dtype) (\<lambda>name.
       Inr (if name \<in> {DT_float8_e5m2, DT_float8_e4m3fn} then DT_uint8 else name))"

definition cache_dtype_bytes :: "string \<Rightarrow> int result" where
  "cache_dtype_bytes dtype_name =
     (case map_of cache_dtypes dtype_name of
        None \<Rightarrow> Inl (ValueError ''unsupported cache dtype'')
      | Some d \<Rightarrow> Inr (dtype_bytes d))"

text \<open>\<^verbatim>\<open>_split_cache_field_id\<close>: \<^verbatim>\<open>layer.<id>.<plane>\<close>.\<close>

definition split_cache_field_id :: "string \<Rightarrow> (int \<times> string) result" where
  "split_cache_field_id field_id =
     (case split_max 2 (CHR ''.'') field_id of
        [p0, p1, p2] \<Rightarrow>
          raise_if (p0 \<noteq> ''layer'') (ValueError ''is not owned by a model layer'')
            (case py_int p1 of
               None \<Rightarrow> Inl (ValueError ''has an invalid layer id'')
             | Some layer_id \<Rightarrow>
                 raise_if (layer_id < 0) (ValueError ''has an invalid layer id'')
                   (Inr (layer_id, p2)))
      | _ \<Rightarrow> Inl (ValueError ''is not owned by a model layer''))"

definition cache_field_layer_id :: "string \<Rightarrow> int result" where
  "cache_field_layer_id field_id = bindE (split_cache_field_id field_id) (\<lambda>r. Inr (fst r))"

definition cache_field_plane :: "string \<Rightarrow> string result" where
  "cache_field_plane field_id = bindE (split_cache_field_id field_id) (\<lambda>r. Inr (snd r))"

text \<open>The field id the recipes write, \<^verbatim>\<open>f"layer.{layer_id}.{plane}"\<close>.\<close>

definition layer_field_id :: "int \<Rightarrow> string \<Rightarrow> string" where
  "layer_field_id layer_id plane = ''layer.'' @ int_str layer_id @ ''.'' @ plane"

section \<open>The bound plan\<close>

record cache_group_layout =
  gl_group_id :: string
  gl_cache_blocks_per_lcm_block :: int
  gl_page_count :: int

record cache_plane_layout =
  pl_plane_id :: string
  pl_bytes_per_lcm_block :: int
  pl_arena_offset_bytes :: int

record cache_field_layout =
  fl_group_id :: string
  fl_field_id :: string
  fl_plane_id :: string
  fl_shape :: "int list"
  fl_dtype :: cache_dtype
  fl_field_offset_bytes :: int
  fl_page_stride_bytes :: int

definition fl_element_size :: "cache_field_layout \<Rightarrow> int" where
  "fl_element_size f = dtype_bytes (fl_dtype f)"

definition fl_payload_bytes :: "cache_field_layout \<Rightarrow> int" where
  "fl_payload_bytes f = prod_list (fl_shape f) * fl_element_size f"

record cache_memory_plan =
  mp_prefix_granularity :: int
  mp_lcm_block_bytes :: int
  mp_num_lcm_blocks :: int
  mp_groups :: "cache_group_layout list"
  mp_planes :: "cache_plane_layout list"
  mp_fields :: "cache_field_layout list"
  mp_resident_block_bytes :: "int option"

definition arena_bytes :: "cache_memory_plan \<Rightarrow> int" where
  "arena_bytes p =
     (let per_parent = (case mp_resident_block_bytes p of
                          Some r \<Rightarrow> r | None \<Rightarrow> mp_lcm_block_bytes p)
      in (mp_num_lcm_blocks p + 1) * per_parent)"

text \<open>\<^verbatim>\<open>narrow_to_layers\<close>: the loop keeps a plane only if a kept field lives on it and
  re-packs the kept planes from offset zero.\<close>

definition owned_by_window :: "int \<Rightarrow> int \<Rightarrow> cache_field_layout \<Rightarrow> bool" where
  "owned_by_window first_layer last_layer f =
     (case cache_field_layer_id (fl_field_id f) of
        Inl _ \<Rightarrow> True
      | Inr layer_id \<Rightarrow> first_layer \<le> layer_id \<and> layer_id < last_layer)"

fun pack_planes :: "int \<Rightarrow> int \<Rightarrow> (string \<times> int) list \<Rightarrow> cache_plane_layout list" where
  "pack_planes num_lcm_blocks arena_offset [] = []"
| "pack_planes num_lcm_blocks arena_offset ((plane_id, bytes) # rest) =
     \<lparr>pl_plane_id = plane_id, pl_bytes_per_lcm_block = bytes,
      pl_arena_offset_bytes = arena_offset\<rparr>
     # pack_planes num_lcm_blocks (arena_offset + (num_lcm_blocks + 1) * bytes) rest"

definition narrow_to_layers :: "cache_memory_plan \<Rightarrow> int \<Rightarrow> int \<Rightarrow> cache_memory_plan" where
  "narrow_to_layers p first_layer last_layer =
     (let kept_fields = filter (owned_by_window first_layer last_layer) (mp_fields p);
          kept_plane_ids = set (map fl_plane_id kept_fields);
          kept = filter (\<lambda>plane. pl_plane_id plane \<in> kept_plane_ids) (mp_planes p);
          planes = pack_planes (mp_num_lcm_blocks p) 0
                     (map (\<lambda>plane. (pl_plane_id plane, pl_bytes_per_lcm_block plane)) kept);
          resident = sum_list (map pl_bytes_per_lcm_block planes)
      in p\<lparr>mp_planes := planes, mp_fields := kept_fields,
           mp_resident_block_bytes := Some resident\<rparr>)"

text \<open>The three cached dictionaries; a later duplicate wins, as in a dict comprehension.\<close>

definition dict_by :: "('a \<Rightarrow> 'k) \<Rightarrow> 'a list \<Rightarrow> ('k \<times> 'a) list" where
  "dict_by key xs = dict_update [] (map (\<lambda>x. (key x, x)) xs)"

definition plan_group :: "cache_memory_plan \<Rightarrow> string \<Rightarrow> cache_group_layout result" where
  "plan_group p group_id = dict_at (dict_by gl_group_id (mp_groups p)) group_id"

definition plan_field :: "cache_memory_plan \<Rightarrow> string \<Rightarrow> cache_field_layout result" where
  "plan_field p field_id = dict_at (dict_by fl_field_id (mp_fields p)) field_id"

definition plan_plane :: "cache_memory_plan \<Rightarrow> string \<Rightarrow> cache_plane_layout result" where
  "plan_plane p plane_id = dict_at (dict_by pl_plane_id (mp_planes p)) plane_id"

definition field_page_byte_offset :: "cache_memory_plan \<Rightarrow> string \<Rightarrow> int \<Rightarrow> int result" where
  "field_page_byte_offset p field_id page_id =
     bindE (plan_field p field_id) (\<lambda>field.
     bindE (plan_group p (fl_group_id field)) (\<lambda>grp.
     raise_if (page_id < 0 \<or> page_id \<ge> gl_page_count grp) (IndexError ''page_id outside'')
       (bindE (plan_plane p (fl_plane_id field)) (\<lambda>plane.
          Inr (pl_arena_offset_bytes plane + pl_bytes_per_lcm_block plane
               - fl_page_stride_bytes field + page_id * fl_page_stride_bytes field
               + fl_field_offset_bytes field)))))"

definition block_byte_layouts ::
  "cache_memory_plan \<Rightarrow> (string \<times> int \<times> (int \<times> int \<times> int) list) list result" where
  "block_byte_layouts p =
     bindE (mapE (\<lambda>grp.
         bindE (mapE (\<lambda>field.
             bindE (field_page_byte_offset p (fl_field_id field) 0) (\<lambda>base.
             Inr (base, fl_page_stride_bytes field, fl_payload_bytes field)))
           (filter (\<lambda>field. fl_group_id field = gl_group_id grp) (mp_fields p)))
         (\<lambda>fields. Inr (gl_group_id grp, gl_page_count grp, fields)))
       (mp_groups p))
     (\<lambda>rows. Inr (dict_update [] rows))"

definition page_field_layout ::
  "cache_memory_plan \<Rightarrow> string \<Rightarrow> (int \<times> (int \<times> int \<times> int) list) result" where
  "page_field_layout p group_id = bindE (block_byte_layouts p) (\<lambda>d. dict_at d group_id)"

definition block_byte_segments ::
  "cache_memory_plan \<Rightarrow> string \<Rightarrow> int list \<Rightarrow> (int \<times> int) list result" where
  "block_byte_segments p group_id block_ids =
     bindE (page_field_layout p group_id) (\<lambda>(page_count, fields).
     raise_if (list_ex (\<lambda>b. b < 0 \<or> b \<ge> page_count) block_ids) (IndexError ''page_id outside'')
       (Inr (concat (map (\<lambda>block_id.
          map (\<lambda>(base, stride, size). (base + block_id * stride, size)) fields) block_ids))))"

text \<open>\<^verbatim>\<open>capacity_report\<close>. \<^verbatim>\<open>max_num_seqs\<close> of \<^verbatim>\<open>None\<close> and of 0 are both falsy.\<close>

datatype capacity_unit = Unit_requests | Unit_tokens

record group_capacity =
  gc_unit :: capacity_unit
  gc_capacity :: int
  gc_supported_requests :: "int option"
  gc_dead_bytes :: "int option"
  gc_binding_utilization :: rat

definition group_bytes_per_block :: "cache_memory_plan \<Rightarrow> string \<Rightarrow> int" where
  "group_bytes_per_block p group_id =
     sum_list (map fl_payload_bytes (filter (\<lambda>f. fl_group_id f = group_id) (mp_fields p)))"

definition group_capacity_of ::
  "cache_memory_plan \<Rightarrow> (string \<times> int) list \<Rightarrow> (string \<times> int) list \<Rightarrow> int option \<Rightarrow>
   cache_group_layout \<Rightarrow> group_capacity" where
  "group_capacity_of p window_tokens per_request_blocks max_num_seqs grp =
     (let group_id = gl_group_id grp;
          usable_pages = mp_num_lcm_blocks p * gl_cache_blocks_per_lcm_block grp;
          block_bytes = group_bytes_per_block p group_id;
          binding_utilization =
            (if mp_lcm_block_bytes p \<noteq> 0
             then double (of_int (gl_cache_blocks_per_lcm_block grp * block_bytes)
                  / of_int (mp_lcm_block_bytes p)) else 0);
          seqs = (case max_num_seqs of None \<Rightarrow> 0 | Some n \<Rightarrow> n)
      in case map_of per_request_blocks group_id of
           Some blocks \<Rightarrow>
             let blocks_per_req = max 1 blocks;
                 supported = usable_pages div blocks_per_req
             in \<lparr>gc_unit = Unit_requests, gc_capacity = supported,
                 gc_supported_requests = Some supported,
                 gc_dead_bytes =
                   (if seqs \<noteq> 0
                    then Some (max 0 (usable_pages - seqs * blocks_per_req) * block_bytes)
                    else None),
                 gc_binding_utilization = binding_utilization\<rparr>
         | None \<Rightarrow>
             let token_capacity = usable_pages * mp_prefix_granularity p
             in (case map_of window_tokens group_id of
                  Some w \<Rightarrow>
                    let window = max 1 w
                    in \<lparr>gc_unit = Unit_tokens, gc_capacity = token_capacity,
                        gc_supported_requests = Some (token_capacity div window),
                        gc_dead_bytes =
                          (if seqs \<noteq> 0
                           then Some (max 0 (token_capacity - seqs * window)
                                      div mp_prefix_granularity p * block_bytes)
                           else None),
                        gc_binding_utilization = binding_utilization\<rparr>
                | None \<Rightarrow>
                    \<lparr>gc_unit = Unit_tokens, gc_capacity = token_capacity,
                     gc_supported_requests = None, gc_dead_bytes = Some 0,
                     gc_binding_utilization = binding_utilization\<rparr>))"

definition capacity_report ::
  "cache_memory_plan \<Rightarrow> (string \<times> int) list \<Rightarrow> (string \<times> int) list \<Rightarrow> int option \<Rightarrow>
   (string \<times> group_capacity) list" where
  "capacity_report p window_tokens per_request_blocks max_num_seqs =
     dict_update [] (map (\<lambda>grp.
       (gl_group_id grp,
        group_capacity_of p window_tokens per_request_blocks max_num_seqs grp)) (mp_groups p))"

section \<open>Declared fields\<close>

record cache_field_spec =
  fs_field_id :: string
  fs_plane_id :: string
  fs_shape :: "int list"
  fs_dtype :: cache_dtype
  fs_exact_page_stride :: bool
  fs_page_stride_alignment_bytes :: int

definition fs_element_size :: "cache_field_spec \<Rightarrow> int" where
  "fs_element_size f = dtype_bytes (fs_dtype f)"

definition fs_payload_bytes :: "cache_field_spec \<Rightarrow> int" where
  "fs_payload_bytes f = prod_list (fs_shape f) * fs_element_size f"

definition MXFP8_KV_SCALE_TILE_TOKENS :: int where "MXFP8_KV_SCALE_TILE_TOKENS = 128"
definition MXFP8_SCALE_BLOCK_SIZE :: int where "MXFP8_SCALE_BLOCK_SIZE = 32"

definition mxfp8_kv_scale_fields ::
  "int \<Rightarrow> int \<Rightarrow> int \<Rightarrow> int \<Rightarrow> int \<Rightarrow> cache_field_spec list result" where
  "mxfp8_kv_scale_fields layer_id occurrence kv_heads head_dim prefix_granularity =
     raise_if (prefix_granularity mod MXFP8_KV_SCALE_TILE_TOKENS \<noteq> 0 \<or> kv_heads \<le> 0)
       (ValueError ''mxfp8 KV scales need a page span'')
    (raise_if (head_dim mod MXFP8_SCALE_BLOCK_SIZE \<noteq> 0)
       (ValueError ''mxfp8 head_dim must be a multiple of'')
    (let scale_dim = head_dim div MXFP8_SCALE_BLOCK_SIZE;
         shape = [kv_heads, prefix_granularity div MXFP8_KV_SCALE_TILE_TOKENS, 32,
                  scale_dim, scale_dim]
     in Inr (map (\<lambda>plane.
          \<lparr>fs_field_id = layer_field_id layer_id (plane @ ''_scale''),
           fs_plane_id = ''unit.'' @ int_str occurrence @ ''.'' @ plane @ ''_scale'',
           fs_shape = shape, fs_dtype = DT_float8_e8m0fnu,
           fs_exact_page_stride = True, fs_page_stride_alignment_bytes = 1\<rparr>)
          [''k'', ''v''])))"

section \<open>The layout and its binding\<close>

record cache_layout =
  cl_prefix_granularity :: int
  cl_lcm_block_bytes :: int
  cl_group_packing :: "(string \<times> int) list"
  cl_plane_bytes :: "(string \<times> int) list"
  cl_fields :: "cache_field_layout list"

definition MAX_LCM_BLOCK_BYTES :: int where "MAX_LCM_BLOCK_BYTES = 2 ^ 63 - 1"
definition MAX_KERNEL_PAGE_ID :: int where "MAX_KERNEL_PAGE_ID = 2 ^ 31 - 1"

definition bind :: "cache_layout \<Rightarrow> int \<Rightarrow> cache_memory_plan result" where
  "bind layout num_lcm_blocks =
     raise_if (num_lcm_blocks < 1) (ValueError ''num_lcm_blocks must be a positive integer'')
    (bindE (mapE (\<lambda>(group_id, count).
        raise_if (num_lcm_blocks * count > MAX_KERNEL_PAGE_ID)
          (ValueError ''kernel page id exceeds'')
          (Inr \<lparr>gl_group_id = group_id, gl_cache_blocks_per_lcm_block = count,
                gl_page_count = 1 + num_lcm_blocks * count\<rparr>)) (cl_group_packing layout))
     (\<lambda>groups. Inr
        \<lparr>mp_prefix_granularity = cl_prefix_granularity layout,
         mp_lcm_block_bytes = cl_lcm_block_bytes layout,
         mp_num_lcm_blocks = num_lcm_blocks,
         mp_groups = groups,
         mp_planes = pack_planes num_lcm_blocks 0 (cl_plane_bytes layout),
         mp_fields = cl_fields layout,
         mp_resident_block_bytes = None\<rparr>))"

definition align_up :: "int \<Rightarrow> int \<Rightarrow> int" where
  "align_up value alignment = ((value + alignment - 1) div alignment) * alignment"

section \<open>Properties\<close>

text \<open>C29: a field id written for a layer and a plane name is read back as that layer and that
  plane, whatever the plane name contains.\<close>

theorem field_id_roundtrip:
  assumes "0 \<le> layer_id"
  shows "cache_field_layer_id (layer_field_id layer_id plane) = Inr layer_id \<and>
         cache_field_plane (layer_field_id layer_id plane) = Inr plane"
proof -
  have "CHR ''.'' \<notin> set (int_str layer_id)"
    using assms nat_str_digits is_digit_char by (auto simp: int_str_def)
  then have "split_max 2 (CHR ''.'') (layer_field_id layer_id plane) = [''layer'', int_str layer_id, plane]"
    using split_max_Suc [of "CHR ''.''" "''layer''" 1 "int_str layer_id @ ''.'' @ plane"]
      split_max_Suc [of "CHR ''.''" "int_str layer_id" 0 plane]
    by (simp add: layer_field_id_def numeral_2_eq_2)
  then show ?thesis
    using assms by (simp add: cache_field_layer_id_def cache_field_plane_def split_cache_field_id_def py_int_int_str)
qed

theorem field_id_roundtrip_witness:
  "cache_field_layer_id (layer_field_id 17 ''k.scale'') = Inr 17 \<and>
   cache_field_plane (layer_field_id 17 ''k.scale'') = Inr ''k.scale''"
  using field_id_roundtrip [of 17 "''k.scale''"] by simp

text \<open>The capacity report of a group with a fixed number of blocks per request. Its
  \<^verbatim>\<open>supported_requests\<close> is the exact maximum of requests whose blocks fit in the group's
  usable pages, and for a planned concurrency the dead bytes are the payload of the pages
  no planned request can use.\<close>

theorem capacity_report_requests:
  assumes "distinct (map gl_group_id (mp_groups p))" and "grp \<in> set (mp_groups p)"
    and "map_of per_request (gl_group_id grp) = Some blocks" and "0 < n"
  shows "\<exists>c s. map_of (capacity_report p windows per_request (Some n)) (gl_group_id grp) = Some c \<and>
     gc_supported_requests c = Some s \<and>
     (\<forall>k. k * max 1 blocks \<le> mp_num_lcm_blocks p * gl_cache_blocks_per_lcm_block grp \<longleftrightarrow> k \<le> s) \<and>
     gc_dead_bytes c = Some ((if n \<le> s
        then mp_num_lcm_blocks p * gl_cache_blocks_per_lcm_block grp - n * max 1 blocks else 0) *
        group_bytes_per_block p (gl_group_id grp))"
proof -
  let ?u = "mp_num_lcm_blocks p * gl_cache_blocks_per_lcm_block grp"
  let ?c = "group_capacity_of p windows per_request (Some n) grp"
  let ?rows = "map (\<lambda>grp. (gl_group_id grp, group_capacity_of p windows per_request (Some n) grp)) (mp_groups p)"
  have d: "distinct (map fst ?rows)" using assms(1) by (simp add: comp_def)
  then have look: "map_of (capacity_report p windows per_request (Some n)) (gl_group_id grp) = Some ?c"
    using assms(2) by (simp add: capacity_report_def dict_update_conv map_of_rev_distinct)
  have fits: "k * max 1 blocks \<le> ?u \<longleftrightarrow> k \<le> ?u div max 1 blocks" for k
    by (simp add: int_le_div_iff)
  have "max 0 (?u - n * max 1 blocks) = (if n \<le> ?u div max 1 blocks then ?u - n * max 1 blocks else 0)"
    using fits [of n] by auto
  then show ?thesis using assms(3,4) look fits
    by (intro exI [of _ ?c] exI [of _ "?u div max 1 blocks"]) (simp add: group_capacity_of_def Let_def)
qed

definition demo_capacity_plan :: cache_memory_plan where
  "demo_capacity_plan = \<lparr>mp_prefix_granularity = 16, mp_lcm_block_bytes = 64, mp_num_lcm_blocks = 5,
     mp_groups = [\<lparr>gl_group_id = ''s'', gl_cache_blocks_per_lcm_block = 2, gl_page_count = 11\<rparr>],
     mp_planes = [], mp_fields = [], mp_resident_block_bytes = None\<rparr>"

theorem capacity_report_requests_witness:
  "\<exists>c s. map_of (capacity_report demo_capacity_plan [] [(''s'', 3)] (Some 2)) ''s'' = Some c \<and>
     gc_supported_requests c = Some s \<and> (\<forall>k. k * 3 \<le> (10::int) \<longleftrightarrow> k \<le> s)"
  using capacity_report_requests [of demo_capacity_plan
      "\<lparr>gl_group_id = ''s'', gl_cache_blocks_per_lcm_block = 2, gl_page_count = 11\<rparr>" "[(''s'', 3)]" 3 2 "[]"]
  by (auto simp: demo_capacity_plan_def)

end
