(* ===== verification/Packing_Solver.thy ===== *)
theory Packing_Solver
  imports Memory_Plan
begin

text \<open>
  \<^verbatim>\<open>_solve_packing\<close> of \<^verbatim>\<open>kv_cache/recipes/plan.py\<close>: from the exact-page-stride
  fields, how many CacheBlocks of each group share one LCM block. The source keeps a
  union-find forest of groups in which every edge carries the ratio of two packing counts.

  The correctness argument is one invariant: after any number of merges the forest
  represents exactly the equations processed so far (a positive count assignment satisfies
  the equations iff it respects every edge's ratio). Soundness of a returned packing,
  unsatisfiability when the solver gives up, and termination of \<^verbatim>\<open>resolve\<close> follow from it.
\<close>

section \<open>Model\<close>

type_synonym entry = "string \<times> cache_field_spec"

definition exact_by_plane :: "entry list \<Rightarrow> (string \<times> (string \<times> int) list) list" where
  "exact_by_plane entries =
     fold (\<lambda>(group_id, field) d.
       if fs_exact_page_stride field
       then let plane = dict_get d (fs_plane_id field) []
            in AList.update (fs_plane_id field)
                 (AList.update group_id (dict_get plane group_id 0 + fs_payload_bytes field) plane) d
       else d) entries []"

text \<open>The forest: \<^verbatim>\<open>root\<close> and \<^verbatim>\<open>ratio\<close> start as the identity and \<open>(1, 1)\<close> on every
  group.\<close>

record packing_forest =
  pf_root :: "string \<Rightarrow> string"
  pf_ratio :: "string \<Rightarrow> int \<times> int"

definition init_forest :: packing_forest where
  "init_forest = \<lparr>pf_root = (\<lambda>g. g), pf_ratio = (\<lambda>_. (1, 1))\<rparr>"

text \<open>\<^verbatim>\<open>resolve\<close>'s while loop; \<open>None\<close> would be a loop that never ends.\<close>

definition resolve_from ::
  "packing_forest \<Rightarrow> string \<times> int \<times> int \<Rightarrow> (string \<times> int \<times> int) option" where
  "resolve_from st = while_option (\<lambda>(g, _). pf_root st g \<noteq> g)
     (\<lambda>(g, num, den). (pf_root st g, num * fst (pf_ratio st g), den * snd (pf_ratio st g)))"

definition resolve :: "packing_forest \<Rightarrow> string \<Rightarrow> (string \<times> int \<times> int) option" where
  "resolve st g = resolve_from st (g, 1, 1)"

text \<open>\<open>Unsat\<close> is the source's \<^verbatim>\<open>return None\<close>; \<open>Loops\<close> is a diverging \<^verbatim>\<open>resolve\<close>.\<close>

datatype 'a outcome = Loops | Unsat | Done 'a

type_synonym tenant_pair = "(string \<times> int) \<times> (string \<times> int)"

fun merge_tenants :: "packing_forest \<Rightarrow> tenant_pair \<Rightarrow> packing_forest outcome" where
  "merge_tenants st ((first_id, first_bytes), (other_id, other_bytes)) =
     (case (resolve st first_id, resolve st other_id) of
        (Some (first_root, f_num, f_den), Some (other_root, o_num, o_den)) \<Rightarrow>
          if first_root = other_root
          then (if f_num * o_den * first_bytes \<noteq> o_num * f_den * other_bytes
                then Unsat else Done st)
          else let num = f_num * o_den * first_bytes;
                   den = o_num * f_den * other_bytes;
                   common = gcd num den
               in Done (st\<lparr>pf_root := (pf_root st)(other_root := first_root),
                           pf_ratio := (pf_ratio st)(other_root := (num div common, den div common))\<rparr>)
      | _ \<Rightarrow> Loops)"

fun merge_all :: "packing_forest \<Rightarrow> tenant_pair list \<Rightarrow> packing_forest outcome" where
  "merge_all st [] = Done st"
| "merge_all st (p # ps) =
     (case merge_tenants st p of Done st' \<Rightarrow> merge_all st' ps | Unsat \<Rightarrow> Unsat | Loops \<Rightarrow> Loops)"

definition tenant_pairs :: "entry list \<Rightarrow> tenant_pair list" where
  "tenant_pairs entries =
     (let d = exact_by_plane entries
      in concat (map (\<lambda>plane_id. pairwise (sort (dict_get d plane_id []))) (sort (map fst d))))"

text \<open>The members of every component, as \<^verbatim>\<open>members.setdefault(...).append(...)\<close> builds
  them over the sorted groups.\<close>

fun resolve_members ::
  "packing_forest \<Rightarrow> string list \<Rightarrow> (string \<times> (string \<times> int \<times> int) list) list \<Rightarrow>
   (string \<times> (string \<times> int \<times> int) list) list option" where
  "resolve_members st [] members = Some members"
| "resolve_members st (g # gs) members =
     (case resolve st g of
        None \<Rightarrow> None
      | Some (component, fraction) \<Rightarrow>
          resolve_members st gs
            (AList.update component (dict_get members component [] @ [(g, fraction)]) members))"

definition scale_of :: "(string \<times> int \<times> int) list \<Rightarrow> int" where
  "scale_of ms = fold (\<lambda>(_, _, den) scale. scale * den div gcd scale den) ms 1"

definition counts_of :: "(string \<times> int \<times> int) list \<Rightarrow> (string \<times> int) list" where
  "counts_of ms = map (\<lambda>(g, num, den). (g, num * scale_of ms div den)) ms"

definition smallest_of :: "(string \<times> int) list \<Rightarrow> int" where
  "smallest_of counts = fold (\<lambda>(_, count) smallest. gcd smallest count) counts 0"

definition component_packing :: "(string \<times> int \<times> int) list \<Rightarrow> (string \<times> int) list" where
  "component_packing ms =
     (if length ms = 1 then []
      else let counts = counts_of ms; smallest = smallest_of counts
           in map (\<lambda>(g, count). (g, count div smallest)) counts)"

definition solve_packing :: "entry list \<Rightarrow> (string \<times> int) list outcome" where
  "solve_packing entries =
     (case merge_all init_forest (tenant_pairs entries) of
        Loops \<Rightarrow> Loops
      | Unsat \<Rightarrow> Unsat
      | Done st \<Rightarrow>
          (case resolve_members st (sort (remdups (map fst entries))) [] of
             None \<Rightarrow> Loops
           | Some members \<Rightarrow>
               Done (fold (\<lambda>(_, ms) packing. dict_update packing (component_packing ms)) members [])))"

section \<open>What the equations say\<close>

text \<open>The bytes of one group's exact entries on one plane, and an assignment of packing
  counts that gives every exact tenant of a plane the same plane bytes.\<close>

definition exact_bytes :: "entry list \<Rightarrow> string \<Rightarrow> string \<Rightarrow> int" where
  "exact_bytes entries plane_id group_id =
     sum_list (map (\<lambda>(_, f). fs_payload_bytes f)
       (filter (\<lambda>(g, f). g = group_id \<and> fs_plane_id f = plane_id \<and> fs_exact_page_stride f) entries))"

definition exact_tenant :: "entry list \<Rightarrow> string \<Rightarrow> string \<Rightarrow> bool" where
  "exact_tenant entries plane_id group_id \<longleftrightarrow>
     (\<exists>f. (group_id, f) \<in> set entries \<and> fs_plane_id f = plane_id \<and> fs_exact_page_stride f)"

definition packing_solves :: "entry list \<Rightarrow> (string \<Rightarrow> rat) \<Rightarrow> bool" where
  "packing_solves entries K \<longleftrightarrow>
     (\<forall>plane g h. exact_tenant entries plane g \<and> exact_tenant entries plane h \<longrightarrow>
        K g * of_int (exact_bytes entries plane g) = K h * of_int (exact_bytes entries plane h))"

definition sat :: "(string \<Rightarrow> rat) \<Rightarrow> tenant_pair list \<Rightarrow> bool" where
  "sat K ps \<longleftrightarrow> (\<forall>((g, b), (h, c)) \<in> set ps. K g * of_int b = K h * of_int c)"

definition ratio_val :: "int \<times> int \<Rightarrow> rat" where
  "ratio_val q = of_int (fst q) / of_int (snd q)"

definition tied :: "packing_forest \<Rightarrow> (string \<Rightarrow> rat) \<Rightarrow> bool" where
  "tied st K \<longleftrightarrow> (\<forall>g. pf_root st g \<noteq> g \<longrightarrow> K g = ratio_val (pf_ratio st g) * K (pf_root st g))"

definition forest :: "packing_forest \<Rightarrow> bool" where
  "forest st \<longleftrightarrow> (\<exists>d::string \<Rightarrow> nat. \<forall>g. pf_root st g \<noteq> g \<longrightarrow> d (pf_root st g) < d g)"

definition ratios_pos :: "packing_forest \<Rightarrow> bool" where
  "ratios_pos st \<longleftrightarrow> (\<forall>g. 0 < fst (pf_ratio st g) \<and> 0 < snd (pf_ratio st g))"

section \<open>Resolving\<close>

lemma resolve_from_unfold:
  "resolve_from st (g, n, d) =
     (if pf_root st g \<noteq> g
      then resolve_from st (pf_root st g, n * fst (pf_ratio st g), d * snd (pf_ratio st g))
      else Some (g, n, d))"
  unfolding resolve_from_def by (subst while_option_unfold) simp

lemma resolve_from_scale:
  assumes "forest st"
  shows "\<exists>r a b. resolve_from st (g, 1, 1) = Some (r, a, b) \<and> pf_root st r = r \<and>
           (\<forall>n d. resolve_from st (g, n, d) = Some (r, n * a, d * b))"
proof -
  from assms obtain d :: "string \<Rightarrow> nat"
    where d: "\<And>g. pf_root st g \<noteq> g \<Longrightarrow> d (pf_root st g) < d g"
    unfolding forest_def by blast
  show ?thesis
  proof (induction g rule: measure_induct_rule [where f = d])
    case (less g)
    show ?case
    proof (cases "pf_root st g = g")
      case True
      then show ?thesis by (simp add: resolve_from_unfold [of st g])
    next
      case False
      from less [OF d [OF False]] obtain r a b
        where "pf_root st r = r"
          and IH: "\<And>n m. resolve_from st (pf_root st g, n, m) = Some (r, n * a, m * b)"
        by blast
      moreover obtain u v where "pf_ratio st g = (u, v)" by fastforce
      ultimately show ?thesis using False
        by (auto simp: resolve_from_unfold [of st g] mult.assoc)
    qed
  qed
qed

lemma resolve_total: "forest st \<Longrightarrow> \<exists>r a b. resolve st g = Some (r, a, b)"
  using resolve_from_scale [of st g] by (auto simp: resolve_def)

text \<open>Root and accumulated ratio of a group, and their one-step equations.\<close>

definition root_of :: "packing_forest \<Rightarrow> string \<Rightarrow> string" where
  "root_of st g = fst (the (resolve st g))"

definition frac_of :: "packing_forest \<Rightarrow> string \<Rightarrow> int \<times> int" where
  "frac_of st g = snd (the (resolve st g))"

lemma resolve_eq: "forest st \<Longrightarrow> resolve st g = Some (root_of st g, frac_of st g)"
  using resolve_total [of st g] by (auto simp: root_of_def frac_of_def)

lemma root_of_root: "forest st \<Longrightarrow> pf_root st (root_of st g) = root_of st g"
  using resolve_from_scale [of st g] by (auto simp: root_of_def resolve_def)

lemma resolve_step:
  assumes "forest st" and "pf_root st g \<noteq> g"
  shows "root_of st g = root_of st (pf_root st g)"
    and "frac_of st g = (fst (pf_ratio st g) * fst (frac_of st (pf_root st g)),
                         snd (pf_ratio st g) * snd (frac_of st (pf_root st g)))"
proof -
  obtain r a b where *: "\<And>n m. resolve_from st (pf_root st g, n, m) = Some (r, n * a, m * b)"
    using resolve_from_scale [OF assms(1)] by blast
  obtain u v where "pf_ratio st g = (u, v)" by fastforce
  then show "root_of st g = root_of st (pf_root st g)"
    "frac_of st g = (fst (pf_ratio st g) * fst (frac_of st (pf_root st g)),
                     snd (pf_ratio st g) * snd (frac_of st (pf_root st g)))"
    using assms(2) by (simp_all add: root_of_def frac_of_def resolve_def resolve_from_unfold [of st g] *)
qed

lemma resolve_root: "pf_root st g = g \<Longrightarrow> root_of st g = g \<and> frac_of st g = (1, 1)"
  by (simp add: root_of_def frac_of_def resolve_def resolve_from_unfold [of st g])

text \<open>Induction along the parent edges of a forest.\<close>

lemma forest_induct [consumes 1, case_names step]:
  assumes "forest st"
    and "\<And>g. (pf_root st g \<noteq> g \<Longrightarrow> P (pf_root st g)) \<Longrightarrow> P g"
  shows "P g"
proof -
  from assms(1) obtain d :: "string \<Rightarrow> nat"
    where d: "\<And>g. pf_root st g \<noteq> g \<Longrightarrow> d (pf_root st g) < d g"
    unfolding forest_def by blast
  show ?thesis
    by (induction g rule: measure_induct_rule [where f = d]) (blast intro: assms(2) d)
qed

lemma frac_of_pos:
  assumes "forest st" and "ratios_pos st"
  shows "0 < fst (frac_of st g) \<and> 0 < snd (frac_of st g)"
  using assms(1)
proof (induction g rule: forest_induct)
  case (step g)
  then show ?case
    using assms resolve_root [of st g] resolve_step [OF assms(1), of g]
    by (cases "pf_root st g = g") (auto simp: ratios_pos_def)
qed

lemma frac_of_step:
  assumes "forest st" and "pf_root st g \<noteq> g"
  shows "ratio_val (frac_of st g) = ratio_val (pf_ratio st g) * ratio_val (frac_of st (pf_root st g))"
  using resolve_step(2) [OF assms] by (simp add: ratio_val_def)

lemma tied_resolve:
  assumes "forest st" and "tied st K"
  shows "K g = ratio_val (frac_of st g) * K (root_of st g)"
  using assms(1)
proof (induction g rule: forest_induct)
  case (step g)
  show ?case
  proof (cases "pf_root st g = g")
    case True
    then show ?thesis using resolve_root [of st g] by (simp add: ratio_val_def)
  next
    case False
    then show ?thesis
      using step assms(2) frac_of_step [OF assms(1) False] resolve_step(1) [OF assms(1) False]
      by (simp add: tied_def)
  qed
qed

text \<open>Any positive choice of one constant per component gives an assignment the forest
  allows.\<close>

lemma tied_of_components:
  assumes "forest st"
  shows "tied st (\<lambda>g. ratio_val (frac_of st g) * C (root_of st g))"
  using frac_of_step [OF assms] resolve_step(1) [OF assms] by (simp add: tied_def mult.assoc)

section \<open>Merging\<close>

lemma gcd_div_frac:
  assumes "0 < a" and "0 < (b::int)"
  shows "0 < a div gcd a b" and "0 < b div gcd a b"
    and "ratio_val (a div gcd a b, b div gcd a b) = ratio_val (a, b)"
proof -
  have g: "0 < gcd a b" using assms by (simp add: gcd_pos_int)
  obtain a' b' where ab: "a = gcd a b * a'" "b = gcd a b * b'"
    by (meson dvd_def gcd_dvd1 gcd_dvd2)
  have "0 < a'" "0 < b'" using ab assms g by (metis zero_less_mult_pos)+
  moreover have "a div gcd a b = a'" "b div gcd a b = b'"
    using ab g by (metis nonzero_mult_div_cancel_left less_numeral_extra(3))+
  moreover have "(of_int (gcd a b) :: rat) \<noteq> 0" using g by simp
  moreover have "(of_int a :: rat) = of_int (gcd a b) * of_int a'"
    "(of_int b :: rat) = of_int (gcd a b) * of_int b'"
    using ab by (metis of_int_mult)+
  ultimately show "0 < a div gcd a b" "0 < b div gcd a b"
    "ratio_val (a div gcd a b, b div gcd a b) = ratio_val (a, b)"
    by (simp_all add: ratio_val_def)
qed

lemma forest_link:
  assumes "forest st" and "pf_root st a = a" and "pf_root st b = b" and "a \<noteq> b"
  shows "forest (st\<lparr>pf_root := (pf_root st)(b := a), pf_ratio := q\<rparr>)"
proof -
  from assms(1) obtain d :: "string \<Rightarrow> nat"
    where d: "\<And>g. pf_root st g \<noteq> g \<Longrightarrow> d (pf_root st g) < d g"
    unfolding forest_def by blast
  let ?d = "\<lambda>g. if root_of st g = b then d g + d a + 1 else d g"
  have "root_of st a = a" "root_of st b = b"
    using assms resolve_root by blast+
  then have "?d (((pf_root st)(b := a)) g) < ?d g" if "((pf_root st)(b := a)) g \<noteq> g" for g
    using that d [of g] resolve_step(1) [OF assms(1), of g] assms(4)
    by (cases "g = b") auto
  moreover have "pf_root (st\<lparr>pf_root := (pf_root st)(b := a), pf_ratio := q\<rparr>) = (pf_root st)(b := a)"
    by simp
  ultimately show ?thesis
    unfolding forest_def by (intro exI [of _ ?d] allI impI) (simp only:)
qed

text \<open>The invariant of the merge loop.\<close>

definition represents :: "packing_forest \<Rightarrow> tenant_pair list \<Rightarrow> bool" where
  "represents st ps \<longleftrightarrow> forest st \<and> ratios_pos st \<and>
     (\<forall>K. (\<forall>g. 0 < K g) \<longrightarrow> (sat K ps \<longleftrightarrow> tied st K))"

lemma represents_init: "represents init_forest []"
  by (simp add: represents_def forest_def ratios_pos_def sat_def tied_def init_forest_def)

lemma sat_append: "sat K (ps @ qs) \<longleftrightarrow> sat K ps \<and> sat K qs"
  by (simp add: sat_def ball_Un)

lemma sat_snoc: "sat K (ps @ [((g, b), (h, c))]) \<longleftrightarrow> sat K ps \<and> K g * of_int b = K h * of_int c"
  by (simp add: sat_append) (simp add: sat_def)

lemma frac_mult_eq_iff:
  assumes "0 < n" "0 < d" "0 < n'" "0 < d'" and "(0::rat) < k"
  shows "ratio_val (n, d) * k * of_int b = ratio_val (n', d') * k * of_int c \<longleftrightarrow> n * d' * b = n' * d * c"
proof -
  have "ratio_val (n, d) * k * of_int b = ratio_val (n', d') * k * of_int c \<longleftrightarrow>
        (of_int (n * d' * b) :: rat) = of_int (n' * d * c)"
    using assms by (simp add: ratio_val_def field_simps)
  then show ?thesis by (simp only: of_int_eq_iff)
qed

lemma frac_link_iff:
  assumes "0 < n" "0 < d" "0 < n'" "0 < d'" "0 < b" "0 < c"
  shows "ratio_val (n, d) * x * of_int b = ratio_val (n', d') * y * of_int c \<longleftrightarrow>
         y = ratio_val (n * d' * b, n' * d * c) * x"
  using assms by (auto simp: ratio_val_def field_simps)

lemma merge_represents:
  assumes R: "represents st ps" and pos: "0 < b" "0 < c"
  shows "case merge_tenants st ((g, b), (h, c)) of
           Loops \<Rightarrow> False
         | Unsat \<Rightarrow> (\<forall>K. (\<forall>g. 0 < K g) \<longrightarrow> \<not> sat K (ps @ [((g, b), (h, c))]))
         | Done st' \<Rightarrow> represents st' (ps @ [((g, b), (h, c))])"
proof -
  have F: "forest st" and P: "ratios_pos st"
    and S: "\<And>K. (\<And>g. 0 < K g) \<Longrightarrow> sat K ps \<longleftrightarrow> tied st K"
    using R by (auto simp: represents_def)
  obtain fn fd where f: "frac_of st g = (fn, fd)" and fpos: "0 < fn" "0 < fd"
    using frac_of_pos [OF F P, of g] by (cases "frac_of st g") auto
  obtain n d where o: "frac_of st h = (n, d)" and opos: "0 < n" "0 < d"
    using frac_of_pos [OF F P, of h] by (cases "frac_of st h") auto
  let ?a = "root_of st g" and ?b = "root_of st h"
  have res: "resolve st g = Some (?a, fn, fd)" "resolve st h = Some (?b, n, d)"
    using resolve_eq [OF F] f o by auto
  have K: "K g = ratio_val (fn, fd) * K ?a" "K h = ratio_val (n, d) * K ?b" if "tied st K" for K
    using tied_resolve [OF F that] f o by metis+
  show ?thesis
  proof (cases "?a = ?b")
    case same: True
    show ?thesis
    proof (cases "fn * d * b = n * fd * c")
      case True
      have "sat K (ps @ [((g, b), (h, c))]) \<longleftrightarrow> tied st K" if "\<And>g. 0 < K g" for K
        using S [OF that] K [of K] frac_mult_eq_iff [OF fpos opos that [of ?a], of b c] True same
        by (auto simp: sat_snoc)
      then have "represents st (ps @ [((g, b), (h, c))])"
        using F P by (simp add: represents_def)
      moreover have "merge_tenants st ((g, b), (h, c)) = Done st"
        using res same True by simp
      ultimately show ?thesis by simp
    next
      case False
      have "\<not> sat K (ps @ [((g, b), (h, c))])" if "\<And>g. 0 < K g" for K
        using S [OF that] K [of K] frac_mult_eq_iff [OF fpos opos that [of ?a], of b c] False same
        by (auto simp: sat_snoc)
      then show ?thesis using res same False by simp
    qed
  next
    case False
    let ?num = "fn * d * b" and ?den = "n * fd * c"
    let ?q = "(?num div gcd ?num ?den, ?den div gcd ?num ?den)"
    let ?st = "st\<lparr>pf_root := (pf_root st)(?b := ?a), pf_ratio := (pf_ratio st)(?b := ?q)\<rparr>"
    have numpos: "0 < ?num" "0 < ?den" using fpos opos pos by simp_all
    note q = gcd_div_frac [OF numpos]
    have "forest ?st"
      by (rule forest_link [OF F root_of_root [OF F] root_of_root [OF F] False])
    moreover have "ratios_pos ?st"
      using P q(1,2) by (simp add: ratios_pos_def)
    moreover have "sat K (ps @ [((g, b), (h, c))]) \<longleftrightarrow> tied ?st K" if "\<And>g. 0 < K g" for K
    proof -
      have "tied ?st K \<longleftrightarrow> tied st K \<and> K ?b = ratio_val ?q * K ?a"
        using root_of_root [OF F, of h] False by (auto simp: tied_def)
      then show ?thesis
        using S [OF that] K [of K] frac_link_iff [OF fpos opos pos, of "K ?a" "K ?b"] q(3)
        by (auto simp: sat_snoc)
    qed
    ultimately have "represents ?st (ps @ [((g, b), (h, c))])"
      by (simp add: represents_def)
    moreover have "merge_tenants st ((g, b), (h, c)) = Done ?st"
      using res False by (simp add: Let_def)
    ultimately show ?thesis by simp
  qed
qed

definition bytes_pos :: "tenant_pair list \<Rightarrow> bool" where
  "bytes_pos ps \<longleftrightarrow> (\<forall>((g, b), (h, c)) \<in> set ps. 0 < b \<and> 0 < c)"

lemma merge_all_represents:
  assumes "represents st ds" and "bytes_pos ps"
  shows "case merge_all st ps of
           Loops \<Rightarrow> False
         | Unsat \<Rightarrow> (\<forall>K. (\<forall>g. 0 < K g) \<longrightarrow> \<not> sat K (ds @ ps))
         | Done st' \<Rightarrow> represents st' (ds @ ps)"
  using assms
proof (induction ps arbitrary: st ds)
  case Nil
  then show ?case by simp
next
  case (Cons p ps)
  obtain g b h c where p: "p = ((g, b), (h, c))" by (metis surj_pair)
  with Cons.prems have pos: "0 < b" "0 < c" "bytes_pos ps" by (auto simp: bytes_pos_def)
  note M = merge_represents [OF Cons.prems(1) pos(1,2), of g h, folded p]
  show ?case
  proof (cases "merge_tenants st p")
    case (Done st')
    with M Cons.IH [of st' "ds @ [p]"] pos(3) show ?thesis by (simp split: outcome.splits)
  next
    case Unsat
    with M show ?thesis using sat_append [of _ "ds @ [p]" ps] by auto
  next
    case Loops
    with M show ?thesis by simp
  qed
qed


section \<open>The equations of the exact fields\<close>

text \<open>The nested dictionary holds, per plane and group, the summed bytes of the exact
  fields.\<close>

lemma exact_bytes_Cons:
  "exact_bytes ((g', f) # es) p g =
     (if g' = g \<and> fs_plane_id f = p \<and> fs_exact_page_stride f then fs_payload_bytes f else 0)
     + exact_bytes es p g"
  by (simp add: exact_bytes_def)

lemma exact_tenant_Cons:
  "exact_tenant ((g', f) # es) p g \<longleftrightarrow>
     (g' = g \<and> fs_plane_id f = p \<and> fs_exact_page_stride f) \<or> exact_tenant es p g"
  by (auto simp: exact_tenant_def)

definition exact_step ::
  "entry \<Rightarrow> (string \<times> (string \<times> int) list) list \<Rightarrow> (string \<times> (string \<times> int) list) list" where
  "exact_step e d =
     (let (group_id, field) = e in
      if fs_exact_page_stride field
      then let plane = dict_get d (fs_plane_id field) []
           in AList.update (fs_plane_id field)
                (AList.update group_id (dict_get plane group_id 0 + fs_payload_bytes field) plane) d
      else d)"

lemma exact_by_plane_fold: "exact_by_plane es = fold exact_step es []"
  unfolding exact_by_plane_def exact_step_def by (rule arg_cong2 [where f = "\<lambda>F d. fold F es d"]) auto

lemma exact_step_lookup:
  "dict_get (dict_get (exact_step (g', f) d) p []) g 0 =
     dict_get (dict_get d p []) g 0 + exact_bytes [(g', f)] p g"
  by (auto simp: exact_step_def exact_bytes_def dict_simps Let_def)

lemma exact_step_keys:
  "fst ` set (dict_get (exact_step (g', f) d) p []) =
     fst ` set (dict_get d p []) \<union> {g. exact_tenant [(g', f)] p g}"
  by (auto simp: exact_step_def exact_tenant_def dict_simps Let_def dom_map_of_conv_image_fst
      simp flip: dom_map_of_conv_image_fst) (auto simp: update_conv' dom_map_of_conv_image_fst split: if_splits)

lemma exact_fold_lookup:
  "dict_get (dict_get (fold exact_step es d) p []) g 0 =
     dict_get (dict_get d p []) g 0 + exact_bytes es p g"
proof (induction es arbitrary: d)
  case Nil
  then show ?case by (simp add: exact_bytes_def)
next
  case (Cons e es)
  then show ?case
    by (cases e) (simp add: exact_step_lookup exact_bytes_Cons [of _ _ es] exact_bytes_Cons [of _ _ "[]"]
        exact_bytes_def [of "[]"])
qed

lemma exact_fold_keys:
  "fst ` set (dict_get (fold exact_step es d) p []) =
     fst ` set (dict_get d p []) \<union> {g. exact_tenant es p g}"
proof (induction es arbitrary: d)
  case Nil
  then show ?case by (simp add: exact_tenant_def)
next
  case (Cons e es)
  then show ?case
    by (cases e) (auto simp: exact_step_keys exact_tenant_Cons [of _ _ es] exact_tenant_Cons [of _ _ "[]"]
        exact_tenant_def [of "[]"])
qed

lemma exact_fold_distinct:
  assumes "\<And>p. distinct (map fst (dict_get d p []))" and "distinct (map fst d)"
  shows "distinct (map fst (dict_get (fold exact_step es d) p []))"
    and "distinct (map fst (fold exact_step es d))"
proof -
  have "(\<forall>p. distinct (map fst (dict_get (fold exact_step es d) p []))) \<and>
        distinct (map fst (fold exact_step es d))"
    using assms
  proof (induction es arbitrary: d)
    case Nil
    then show ?case by simp
  next
    case (Cons e es)
    have "distinct (map fst (dict_get (exact_step e d) p []))" for p
      using Cons.prems(1) by (cases e) (auto simp: exact_step_def dict_simps Let_def distinct_update)
    moreover have "distinct (map fst (exact_step e d))"
      using Cons.prems(2) by (cases e) (auto simp: exact_step_def Let_def distinct_update)
    ultimately show ?case using Cons.IH [of "exact_step e d"] by simp
  qed
  then show "distinct (map fst (dict_get (fold exact_step es d) p []))"
    and "distinct (map fst (fold exact_step es d))" by blast+
qed

lemma exact_tenants:
  "set (dict_get (exact_by_plane es) p []) = {(g, exact_bytes es p g) | g. exact_tenant es p g}"
  (is "set ?ts = _")
proof -
  have dist: "distinct (map fst ?ts)"
    unfolding exact_by_plane_fold by (rule exact_fold_distinct) simp_all
  have keys: "fst ` set ?ts = {g. exact_tenant es p g}"
    using exact_fold_keys [of es "[]" p] by (simp add: exact_by_plane_fold)
  have val: "b = exact_bytes es p g" if "(g, b) \<in> set ?ts" for g b
  proof -
    have "map_of ?ts g = Some b" using that dist by simp
    then show ?thesis
      using exact_fold_lookup [of es "[]" p g] by (simp add: exact_by_plane_fold dict_get_def)
  qed
  show ?thesis
  proof (intro set_eqI iffI)
    fix x assume x: "x \<in> set ?ts"
    then have "exact_tenant es p (fst x)" using keys by (metis image_eqI mem_Collect_eq)
    moreover have "snd x = exact_bytes es p (fst x)" using x by (intro val) simp
    ultimately show "x \<in> {(g, exact_bytes es p g) | g. exact_tenant es p g}"
      by (metis (mono_tags, lifting) mem_Collect_eq prod.collapse)
  next
    fix x assume "x \<in> {(g, exact_bytes es p g) | g. exact_tenant es p g}"
    then obtain g where x: "x = (g, exact_bytes es p g)" and g: "g \<in> fst ` set ?ts"
      using keys by blast
    from g obtain b where b: "(g, b) \<in> set ?ts" by force
    with val [OF b] x show "x \<in> set ?ts" by simp
  qed
qed

lemma all_equal_iff:
  "y \<in> A \<Longrightarrow> (\<forall>a \<in> A. \<forall>b \<in> A. K (fst a) * of_int (snd a) = (K (fst b) * of_int (snd b) :: rat)) \<longleftrightarrow>
     (\<forall>a \<in> A. K (fst a) * of_int (snd a) = K (fst y) * of_int (snd y))"
  by metis

lemma sat_pairwise:
  "sat K (pairwise ts) \<longleftrightarrow>
     (\<forall>x \<in> set ts. \<forall>y \<in> set ts. K (fst x) * of_int (snd x) = K (fst y) * of_int (snd y))"
proof (induction ts rule: pairwise.induct)
  case (1 x y zs)
  have "sat K (pairwise (x # y # zs)) \<longleftrightarrow>
        K (fst x) * of_int (snd x) = K (fst y) * of_int (snd y) \<and> sat K (pairwise (y # zs))"
    by (cases x; cases y) (simp add: sat_def)
  also have "\<dots> \<longleftrightarrow> (\<forall>a \<in> set (x # y # zs). \<forall>b \<in> set (x # y # zs).
      K (fst a) * of_int (snd a) = K (fst b) * of_int (snd b))"
    unfolding 1 by (simp only: all_equal_iff [of y "set (y # zs)"] all_equal_iff [of y "set (x # y # zs)"]
        list.set_intros) auto
  finally show ?case .
qed (auto simp: sat_def)

lemma sat_tenant_pairs: "sat K (tenant_pairs es) \<longleftrightarrow> packing_solves es K"
proof -
  let ?d = "exact_by_plane es"
  have "sat K (tenant_pairs es) \<longleftrightarrow> (\<forall>p \<in> set (map fst ?d). sat K (pairwise (sort (dict_get ?d p []))))"
    by (auto simp: tenant_pairs_def Let_def sat_def)
  also have "\<dots> \<longleftrightarrow> (\<forall>p. sat K (pairwise (sort (dict_get ?d p []))))"
  proof -
    have "dict_get ?d p [] = []" if "p \<notin> set (map fst ?d)" for p
    proof -
      have "map_of ?d p = None" using that by (simp add: map_of_eq_None_iff)
      then show ?thesis by (simp add: dict_get_def)
    qed
    then have "sat K (pairwise (sort (dict_get ?d p [])))" if "p \<notin> set (map fst ?d)" for p
      using that by (simp add: sat_def)
    then show ?thesis by blast
  qed
  also have "\<dots> \<longleftrightarrow> packing_solves es K"
    by (auto simp: sat_pairwise exact_tenants packing_solves_def)
  finally show ?thesis .
qed

definition payloads_pos :: "entry list \<Rightarrow> bool" where
  "payloads_pos es \<longleftrightarrow> (\<forall>(g, f) \<in> set es. 0 < fs_payload_bytes f)"

lemma exact_bytes_pos:
  assumes "payloads_pos es" and "exact_tenant es p g"
  shows "0 < exact_bytes es p g"
  using assms
proof (induction es)
  case (Cons e es)
  obtain g' f where e: "e = (g', f)" by fastforce
  have "0 \<le> exact_bytes es p g"
    using Cons.prems(1) unfolding exact_bytes_def payloads_pos_def
    by (intro sum_list_nonneg) fastforce
  moreover have "0 < fs_payload_bytes f" and "payloads_pos es"
    using Cons.prems(1) e by (auto simp: payloads_pos_def)
  ultimately show ?case using Cons e by (auto simp: exact_bytes_Cons exact_tenant_Cons)
qed (simp add: exact_tenant_def)

lemma tenant_pairs_pos:
  assumes "payloads_pos es"
  shows "bytes_pos (tenant_pairs es)"
proof -
  have "0 < b \<and> 0 < c" if m: "((g, b), (h, c)) \<in> set (tenant_pairs es)" for g b h c
  proof -
    from m obtain p where "((g, b), (h, c)) \<in> set (pairwise (sort (dict_get (exact_by_plane es) p [])))"
      by (auto simp: tenant_pairs_def Let_def)
    from pairwise_set [OF this] show ?thesis
      using exact_bytes_pos [OF assms] by (auto simp: exact_tenants)
  qed
  then show ?thesis by (auto simp: bytes_pos_def)
qed


section \<open>Reading the packing off the forest\<close>

lemma resolve_members_spec:
  assumes "forest st"
  shows "\<exists>ms'. resolve_members st gs ms = Some ms' \<and>
           (\<forall>c. dict_get ms' c [] = dict_get ms c []
              @ map (\<lambda>g. (g, frac_of st g)) (filter (\<lambda>g. root_of st g = c) gs)) \<and>
           set (map fst ms') = set (map fst ms) \<union> root_of st ` set gs \<and>
           (distinct (map fst ms) \<longrightarrow> distinct (map fst ms'))"
proof (induction gs arbitrary: ms)
  case Nil
  then show ?case by simp
next
  case (Cons g gs)
  let ?ms = "AList.update (root_of st g) (dict_get ms (root_of st g) [] @ [(g, frac_of st g)]) ms"
  obtain ms' where "resolve_members st gs ?ms = Some ms'"
    "\<forall>c. dict_get ms' c [] = dict_get ?ms c []
       @ map (\<lambda>g. (g, frac_of st g)) (filter (\<lambda>g. root_of st g = c) gs)"
    "set (map fst ms') = set (map fst ?ms) \<union> root_of st ` set gs"
    "distinct (map fst ?ms) \<longrightarrow> distinct (map fst ms')"
    using Cons.IH [of ?ms] by blast
  then show ?case
    using resolve_eq [OF assms, of g]
    by (auto simp: dict_simps update_keys distinct_update)
qed

lemma lcm_step_dvd:
  assumes "0 < a" and "0 < (b::int)"
  shows "a dvd a * b div gcd a b" and "b dvd a * b div gcd a b" and "0 < a * b div gcd a b"
proof -
  have "a * b div gcd a b = lcm a b"
    using assms by (simp add: lcm_int_def lcm_nat_def gcd_int_def zdiv_int nat_mult_distrib abs_mult)
  then show "a dvd a * b div gcd a b" "b dvd a * b div gcd a b" "0 < a * b div gcd a b"
    using assms by (simp_all add: lcm_pos_int)
qed

lemma scale_fold:
  assumes "0 < (s::int)" and "\<forall>(g, n, d) \<in> set ms. 0 < d"
  shows "0 < fold (\<lambda>(_, _, den) scale. scale * den div gcd scale den) ms s \<and>
         s dvd fold (\<lambda>(_, _, den) scale. scale * den div gcd scale den) ms s \<and>
         (\<forall>(g, n, d) \<in> set ms. d dvd fold (\<lambda>(_, _, den) scale. scale * den div gcd scale den) ms s)"
  using assms
proof (induction ms arbitrary: s)
  case (Cons m ms)
  obtain g n d where m: "m = (g, n, d)" by (metis surj_pair)
  with Cons.prems have "0 < d" by simp
  note step = lcm_step_dvd [OF Cons.prems(1) this]
  from Cons.IH [OF step(3)] Cons.prems(2) m step(1,2) show ?case
    by (auto intro: dvd_trans)
qed simp

lemma smallest_fold:
  "(\<forall>(g, c) \<in> set cs. fold (\<lambda>(_, count) smallest. gcd smallest count) cs (s::int) dvd c) \<and>
   fold (\<lambda>(_, count) smallest. gcd smallest count) cs s dvd s \<and>
   (0 \<le> s \<longrightarrow> 0 \<le> fold (\<lambda>(_, count) smallest. gcd smallest count) cs s)"
proof (induction cs arbitrary: s)
  case (Cons x cs)
  obtain g c where x: "x = (g, c)" by fastforce
  from Cons.IH [of "gcd s c"] x show ?case by (auto intro: dvd_trans)
qed simp

text \<open>Within one component the packing is the accumulated ratio times one positive
  constant.\<close>

lemma component_packing_value:
  assumes "distinct (map fst ms)" and pos: "\<forall>(g, n, d) \<in> set ms. 0 < n \<and> 0 < d" and "length ms \<noteq> 1"
    and "ms \<noteq> []"
  shows "\<exists>C > 0. \<forall>(g, n, d) \<in> set ms. \<exists>k. map_of (component_packing ms) g = Some k \<and> 0 < k \<and>
           of_int k = ratio_val (n, d) * C"
proof -
  let ?s = "scale_of ms" and ?c = "counts_of ms"
  let ?m = "smallest_of ?c"
  have s: "0 < ?s" "\<And>g n d. (g, n, d) \<in> set ms \<Longrightarrow> d dvd ?s"
    using scale_fold [of 1 ms] pos unfolding scale_of_def by fastforce+
  have count: "0 < n * ?s div d \<and> of_int (n * ?s div d) = ratio_val (n, d) * (of_int ?s :: rat)"
    if gm: "(g, n, d) \<in> set ms" for g n d
  proof -
    have nd: "0 < n" "0 < d" using pos gm by auto
    obtain e where e: "?s = d * e" using s(2) [OF gm] by blast
    with s(1) nd have "0 < e" by (simp add: zero_less_mult_iff)
    moreover have "n * ?s div d = n * e"
      using e nd by (metis mult.left_commute nonzero_mult_div_cancel_left less_irrefl)
    ultimately show ?thesis using nd e by (simp add: ratio_val_def)
  qed
  have small: "?m dvd c" "0 \<le> ?m" if "(g, c) \<in> set ?c" for g c
    using smallest_fold [of ?c 0] that unfolding smallest_of_def by auto
  obtain g0 n0 d0 where m0: "(g0, n0, d0) \<in> set ms"
    using assms(4) by (metis list.set_intros(1) neq_Nil_conv prod_cases3)
  then have in0: "(g0, n0 * ?s div d0) \<in> set ?c" by (force simp: counts_of_def)
  have m: "0 < ?m"
    using small [OF in0] count [OF m0] by (metis dvd_0_left less_irrefl order_less_le)
  have "\<exists>k. map_of (component_packing ms) g = Some k \<and> 0 < k \<and>
          of_int k = ratio_val (n, d) * (of_int ?s / of_int ?m)" if g: "(g, n, d) \<in> set ms" for g n d
  proof -
    let ?k = "n * ?s div d div ?m"
    have inc: "(g, n * ?s div d) \<in> set ?c" using g by (force simp: counts_of_def)
    then obtain e where e: "n * ?s div d = ?m * e" using small(1) by blast
    have "?k = e" using e m by simp
    moreover have "0 < e" using count [OF g] e m by (metis zero_less_mult_pos)
    moreover have "of_int e = ratio_val (n, d) * (of_int ?s / of_int ?m)"
    proof -
      have "of_int ?m * of_int e = ratio_val (n, d) * (of_int ?s :: rat)"
        using count [OF g] e by (metis of_int_mult)
      then show ?thesis using m by (simp add: field_simps)
    qed
    moreover have "map_of (component_packing ms) g = Some ?k"
    proof -
      have "distinct (map fst (component_packing ms))"
        using assms(1,3) by (simp add: component_packing_def counts_of_def Let_def case_prod_beta comp_def)
      moreover have "(g, ?k) \<in> set (component_packing ms)"
        using inc assms(3) by (force simp: component_packing_def Let_def)
      ultimately show ?thesis by simp
    qed
    ultimately show ?thesis by auto
  qed
  moreover have "0 < (of_int ?s / of_int ?m :: rat)" using s m by simp
  ultimately show ?thesis by (intro exI [of _ "of_int ?s / of_int ?m"]) auto
qed

lemma component_packing_keys:
  "map fst (component_packing ms) = (if length ms = 1 then [] else map fst ms)"
  by (simp add: component_packing_def counts_of_def Let_def case_prod_beta comp_def)

lemma component_packing_distinct:
  "distinct (map fst ms) \<Longrightarrow> distinct (map fst (component_packing ms))"
  by (simp add: component_packing_keys)

lemma fold_packing_lookup:
  assumes "\<forall>(c, ms) \<in> set xs. distinct (map fst ms) \<and>
             map_of (component_packing ms) g \<in> {None, Some v}"
    and "map_of acc g = Some v \<or> (\<exists>(c, ms) \<in> set xs. map_of (component_packing ms) g = Some v)"
  shows "map_of (fold (\<lambda>(_, ms) packing. dict_update packing (component_packing ms)) xs acc) g = Some v"
  using assms
proof (induction xs arbitrary: acc)
  case (Cons x xs)
  obtain c ms where x: "x = (c, ms)" by fastforce
  have d: "distinct (map fst (component_packing ms))"
    using Cons.prems(1) x by (simp add: component_packing_distinct)
  have "map_of (dict_update acc (component_packing ms)) g = Some v \<or>
        (\<exists>(c, ms) \<in> set xs. map_of (component_packing ms) g = Some v)"
    using Cons.prems x by (auto simp: dict_update_distinct [OF d] map_add_def split: option.splits)
  with Cons x show ?case by simp
qed simp


definition component_members :: "packing_forest \<Rightarrow> string list \<Rightarrow> string \<Rightarrow> (string \<times> int \<times> int) list" where
  "component_members st gs c = map (\<lambda>g. (g, frac_of st g)) (filter (\<lambda>g. root_of st g = c) gs)"

lemma component_constant:
  assumes "forest st" and "ratios_pos st" and "distinct gs"
  shows "\<exists>C. (\<forall>c. 0 < C c) \<and> (\<forall>c. 1 < length (component_members st gs c) \<longrightarrow>
     (\<forall>g \<in> set gs. root_of st g = c \<longrightarrow>
        (\<exists>k. map_of (component_packing (component_members st gs c)) g = Some k \<and> 0 < k \<and>
             (of_int k :: rat) = ratio_val (frac_of st g) * C c)))"
proof -
  have "\<exists>C > 0. 1 < length (component_members st gs c) \<longrightarrow>
     (\<forall>g \<in> set gs. root_of st g = c \<longrightarrow>
        (\<exists>k. map_of (component_packing (component_members st gs c)) g = Some k \<and> 0 < k \<and>
             (of_int k :: rat) = ratio_val (frac_of st g) * C))" for c
  proof (cases "1 < length (component_members st gs c)")
    case True
    let ?ms = "component_members st gs c"
    have "distinct (map fst ?ms)" using assms(3) by (simp add: component_members_def comp_def)
    moreover have "\<forall>(g, n, d) \<in> set ?ms. 0 < n \<and> 0 < d"
      using frac_of_pos [OF assms(1,2)] by (auto simp: component_members_def) (metis fst_conv snd_conv)+
    ultimately obtain C where "0 < C" and
      C: "\<forall>(g, n, d) \<in> set ?ms. \<exists>k. map_of (component_packing ?ms) g = Some k \<and> 0 < k \<and>
           of_int k = ratio_val (n, d) * C"
      using component_packing_value [of ?ms] True by force
    have "\<exists>k. map_of (component_packing ?ms) g = Some k \<and> 0 < k \<and>
        of_int k = ratio_val (frac_of st g) * C" if "g \<in> set gs" "root_of st g = c" for g
    proof -
      have "(g, fst (frac_of st g), snd (frac_of st g)) \<in> set ?ms"
        using that by (auto simp: component_members_def)
      with C show ?thesis by fastforce
    qed
    with \<open>0 < C\<close> show ?thesis by blast
  next
    case False
    then show ?thesis by (intro exI [of _ 1]) simp
  qed
  then show ?thesis by metis
qed

text \<open>Two exact tenants of one plane end in one component: otherwise scaling one
  component alone would break an equation the forest represents.\<close>

lemma tenants_same_root:
  assumes R: "represents st (tenant_pairs es)" and "payloads_pos es"
    and g: "exact_tenant es p g" and h: "exact_tenant es p h"
  shows "root_of st g = root_of st h"
proof (rule ccontr)
  assume ne: "root_of st g \<noteq> root_of st h"
  have F: "forest st" and P: "ratios_pos st"
    using R by (auto simp: represents_def)
  let ?K = "\<lambda>C g. ratio_val (frac_of st g) * C (root_of st g)"
  have pos: "0 < ratio_val (frac_of st x)" for x
    using frac_of_pos [OF F P, of x] by (simp add: ratio_val_def)
  have eq: "?K C g * of_int (exact_bytes es p g) = ?K C h * of_int (exact_bytes es p h)"
    if C: "\<And>c. 0 < C c" for C
  proof -
    have "\<forall>x. 0 < ?K C x" using pos C by simp
    then have "sat (?K C) (tenant_pairs es)"
      using R tied_of_components [OF F] by (auto simp: represents_def)
    then have "packing_solves es (?K C)" by (simp only: sat_tenant_pairs)
    then show ?thesis using g h unfolding packing_solves_def by blast
  qed
  have "0 < exact_bytes es p g" by (rule exact_bytes_pos [OF assms(2) g])
  then have "0 < ratio_val (frac_of st g) * of_int (exact_bytes es p g)" using pos by simp
  moreover have "?K (\<lambda>_. 1) g * of_int (exact_bytes es p g) = ?K (\<lambda>_. 1) h * of_int (exact_bytes es p h)"
    by (rule eq) simp
  moreover have "?K (\<lambda>c. if c = root_of st g then 2 else 1) g * of_int (exact_bytes es p g) =
      ?K (\<lambda>c. if c = root_of st g then 2 else 1) h * of_int (exact_bytes es p h)"
    by (rule eq) simp
  ultimately show False using ne by simp
qed

lemma solve_packing_done:
  assumes pp: "payloads_pos es" and S: "solve_packing es = Done packing"
  shows "\<exists>K. (\<forall>g. 0 < K g) \<and> packing_solves es K \<and>
     (\<forall>p g h. exact_tenant es p g \<and> exact_tenant es p h \<and> g \<noteq> h \<longrightarrow>
        (\<exists>k. map_of packing g = Some k \<and> 0 < k \<and> K g = of_int k))"
proof -
  obtain st where st: "merge_all init_forest (tenant_pairs es) = Done st"
    using S by (auto simp: solve_packing_def split: outcome.splits)
  have R: "represents st (tenant_pairs es)"
    using merge_all_represents [OF represents_init tenant_pairs_pos [OF pp]] st by simp
  then have F: "forest st" and P: "ratios_pos st" by (auto simp: represents_def)
  let ?gs = "sort (remdups (map fst es))"
  let ?M = "component_members st ?gs"
  obtain members where m: "resolve_members st ?gs [] = Some members"
    and look: "\<And>c. dict_get members c [] = ?M c"
    and dist: "distinct (map fst members)"
    using resolve_members_spec [OF F, of ?gs "[]"] by (auto simp: component_members_def)
  have mem: "ms = ?M c" if "(c, ms) \<in> set members" for c ms
    using that dist look [of c] by (simp add: dict_get_def)
  have packing: "packing = fold (\<lambda>(_, ms) packing. dict_update packing (component_packing ms)) members []"
    using S st m by (simp add: solve_packing_def)
  have "distinct ?gs" by simp
  from component_constant [OF F P this] obtain C
    where C: "\<And>c. 0 < C c" and val: "\<And>c g. 1 < length (?M c) \<Longrightarrow> g \<in> set ?gs \<Longrightarrow> root_of st g = c \<Longrightarrow>
      (\<exists>k. map_of (component_packing (?M c)) g = Some k \<and> 0 < k \<and>
           (of_int k :: rat) = ratio_val (frac_of st g) * C c)"
    by blast
  define K where "K = (\<lambda>g. ratio_val (frac_of st g) * C (root_of st g))"
  have Kpos: "\<forall>g. 0 < K g"
    using frac_of_pos [OF F P] C by (simp add: K_def ratio_val_def)
  moreover have "packing_solves es K"
    using R tied_of_components [OF F, of C] Kpos
    by (simp add: represents_def K_def flip: sat_tenant_pairs)
  moreover have "\<exists>k. map_of packing g = Some k \<and> 0 < k \<and> K g = of_int k"
    if t: "exact_tenant es p g" "exact_tenant es p h" "g \<noteq> h" for p g h
  proof -
    let ?c = "root_of st g"
    have in_gs: "g \<in> set ?gs" "h \<in> set ?gs" using t by (auto simp: exact_tenant_def image_iff) force+
    have "root_of st h = ?c" using tenants_same_root [OF R pp t(1,2)] by simp
    then have "{(g, frac_of st g), (h, frac_of st h)} \<subseteq> set (?M ?c)"
      using in_gs by (auto simp: component_members_def)
    then have "card {(g, frac_of st g), (h, frac_of st h)} \<le> length (?M ?c)"
      by (meson List.finite_set card_length card_mono order_trans)
    with t(3) have len: "1 < length (?M ?c)" by simp
    obtain k where k: "map_of (component_packing (?M ?c)) g = Some k" "0 < k" "of_int k = K g"
      using val [OF len in_gs(1) refl] by (auto simp: K_def)
    have other: "map_of (component_packing (?M c')) g \<in> {None, Some k}" for c'
    proof (cases "c' = ?c")
      case False
      then have "g \<notin> fst ` set (?M c')" by (auto simp: component_members_def)
      then have "g \<notin> set (map fst (component_packing (?M c')))" by (simp add: component_packing_keys)
      then show ?thesis by (simp add: map_of_eq_None_iff)
    qed (simp add: k)
    have "?c \<in> set (map fst members)"
      using in_gs(1) resolve_members_spec [OF F, of ?gs "[]"] m by auto
    then obtain ms where "(?c, ms) \<in> set members" by auto
    then have "(?c, ?M ?c) \<in> set members" using mem by blast
    then have found: "\<exists>(c, ms) \<in> set members. map_of (component_packing ms) g = Some k"
      using k(1) by blast
    have "distinct (map fst (?M c'))" for c'
      by (simp add: component_members_def comp_def)
    then have "\<forall>(c, ms) \<in> set members. distinct (map fst ms) \<and>
        map_of (component_packing ms) g \<in> {None, Some k}"
      using other mem by (metis (no_types, lifting) case_prodI2)
    then have "map_of packing g = Some k"
      unfolding packing using found by (intro fold_packing_lookup disjI2)
    with k show ?thesis by auto
  qed
  ultimately show ?thesis by blast
qed


lemma merge_all_outcome:
  assumes "payloads_pos es"
  shows "case merge_all init_forest (tenant_pairs es) of
           Loops \<Rightarrow> False
         | Unsat \<Rightarrow> (\<nexists>K. (\<forall>g. 0 < K g) \<and> packing_solves es K)
         | Done st \<Rightarrow> forest st"
  using merge_all_represents [OF represents_init tenant_pairs_pos [OF assms]]
  by (auto simp: sat_tenant_pairs represents_def split: outcome.splits)

lemma solve_packing_outcome:
  assumes "payloads_pos es"
  shows "case solve_packing es of
           Loops \<Rightarrow> False
         | Unsat \<Rightarrow> (\<nexists>K. (\<forall>g. 0 < K g) \<and> packing_solves es K)
         | Done packing \<Rightarrow> (\<exists>K. (\<forall>g. 0 < K g) \<and> packing_solves es K)"
proof (cases "merge_all init_forest (tenant_pairs es)")
  case (Done st)
  then have "forest st" using merge_all_outcome [OF assms] by simp
  then obtain members where "resolve_members st (sort (remdups (map fst es))) [] = Some members"
    using resolve_members_spec by blast
  with Done obtain packing where p: "solve_packing es = Done packing" by (simp add: solve_packing_def)
  from solve_packing_done [OF assms p] have "\<exists>K. (\<forall>g. 0 < K g) \<and> packing_solves es K" by blast
  with p show ?thesis by simp
next
  case Unsat
  with merge_all_outcome [OF assms] show ?thesis by (simp add: solve_packing_def)
next
  case Loops
  with merge_all_outcome [OF assms] show ?thesis by simp
qed

text \<open>Every count the solver returns is positive and belongs to a declared group.\<close>

lemma fold_packing_from:
  assumes "\<forall>(c, ms) \<in> set xs. distinct (map fst ms)"
    and "map_of (fold (\<lambda>(_, ms) packing. dict_update packing (component_packing ms)) xs acc) g = Some v"
  shows "map_of acc g = Some v \<or> (\<exists>(c, ms) \<in> set xs. map_of (component_packing ms) g = Some v)"
  using assms
proof (induction xs arbitrary: acc)
  case (Cons x xs)
  obtain c ms where x: "x = (c, ms)" by fastforce
  have d: "distinct (map fst (component_packing ms))"
    using Cons.prems(1) x by (simp add: component_packing_distinct)
  have "map_of (dict_update acc (component_packing ms)) g = Some v \<or>
        (\<exists>(c, ms) \<in> set xs. map_of (component_packing ms) g = Some v)"
    using Cons.IH [of "dict_update acc (component_packing ms)"] Cons.prems x by simp
  then show ?case
    using x by (auto simp: dict_update_distinct [OF d] map_add_def split: option.splits)
qed simp

lemma solve_packing_positive:
  assumes pp: "payloads_pos es" and S: "solve_packing es = Done packing"
    and k: "map_of packing g = Some k"
  shows "0 < k \<and> g \<in> set (map fst es)"
proof -
  obtain st where st: "merge_all init_forest (tenant_pairs es) = Done st"
    using S by (auto simp: solve_packing_def split: outcome.splits)
  have "represents st (tenant_pairs es)"
    using merge_all_represents [OF represents_init tenant_pairs_pos [OF pp]] st by simp
  then have F: "forest st" and P: "ratios_pos st" by (auto simp: represents_def)
  let ?gs = "sort (remdups (map fst es))"
  let ?M = "component_members st ?gs"
  obtain members where m: "resolve_members st ?gs [] = Some members"
    and look: "\<And>c. dict_get members c [] = ?M c" and dist: "distinct (map fst members)"
    using resolve_members_spec [OF F, of ?gs "[]"] by (auto simp: component_members_def)
  have mem: "ms = ?M c" if "(c, ms) \<in> set members" for c ms
    using that dist look [of c] by (simp add: dict_get_def)
  have dM: "distinct (map fst (?M c))" for c by (simp add: component_members_def comp_def)
  have "packing = fold (\<lambda>(_, ms) packing. dict_update packing (component_packing ms)) members []"
    using S st m by (simp add: solve_packing_def)
  moreover have "\<forall>(c, ms) \<in> set members. distinct (map fst ms)" using mem dM by fast
  ultimately have "\<exists>(c, ms) \<in> set members. map_of (component_packing ms) g = Some k"
    using fold_packing_from [of members "[]" g k] k by simp
  then obtain c where c: "map_of (component_packing (?M c)) g = Some k" using mem by blast
  then have "g \<in> set (map fst (component_packing (?M c)))" by (force dest: map_of_SomeD)
  then have g: "g \<in> set ?gs" "root_of st g = c" and len: "length (?M c) \<noteq> 1"
    by (auto simp: component_packing_keys component_members_def split: if_splits)
  then have "(g, frac_of st g) \<in> set (?M c)" by (simp add: component_members_def)
  then have "1 < length (?M c)" using len by (cases "?M c") auto
  moreover have "distinct ?gs" by simp
  ultimately obtain k' where "map_of (component_packing (?M c)) g = Some k'" "0 < k'"
    using component_constant [OF F P, of ?gs] g by blast
  with c g show ?thesis by simp
qed

section \<open>Properties\<close>

text \<open>C10: the packing \<^verbatim>\<open>_solve_packing\<close> returns is sound: any two groups with exact
  fields on one plane get positive counts under which both fill the plane with the same
  number of bytes, so each walks the plane by its own payload-sized stride.\<close>

theorem solve_packing_sound:
  assumes "payloads_pos es" and "solve_packing es = Done packing"
    and "exact_tenant es plane g" and "exact_tenant es plane h" and "g \<noteq> h"
  shows "\<exists>m n. map_of packing g = Some m \<and> map_of packing h = Some n \<and> 0 < m \<and> 0 < n \<and>
           m * exact_bytes es plane g = n * exact_bytes es plane h"
proof -
  obtain K where K: "packing_solves es K"
    and val: "\<And>p g h. exact_tenant es p g \<Longrightarrow> exact_tenant es p h \<Longrightarrow> g \<noteq> h \<Longrightarrow>
        \<exists>k. map_of packing g = Some k \<and> 0 < k \<and> K g = of_int k"
    using solve_packing_done [OF assms(1,2)] by blast
  obtain m n where m: "map_of packing g = Some m" "0 < m" "K g = of_int m"
    and n: "map_of packing h = Some n" "0 < n" "K h = of_int n"
    using val [OF assms(3-5)] val [OF assms(4,3)] assms(5) by blast
  have "K g * of_int (exact_bytes es plane g) = K h * of_int (exact_bytes es plane h)"
    using K assms(3,4) unfolding packing_solves_def by blast
  then have "m * exact_bytes es plane g = n * exact_bytes es plane h"
    unfolding m n by (simp flip: of_int_mult)
  with m n show ?thesis by blast
qed

text \<open>C18: \<^verbatim>\<open>_solve_packing\<close> terminates on every declaration with positive payloads, and it
  gives up (the source's \<^verbatim>\<open>return None\<close>) exactly when no positive assignment of packing
  counts satisfies the exact-stride equations of all planes at once.\<close>

theorem solve_packing_complete:
  assumes "payloads_pos es"
  shows "solve_packing es \<noteq> Loops \<and>
         (solve_packing es = Unsat \<longleftrightarrow> (\<nexists>K. (\<forall>g. 0 < K g) \<and> packing_solves es K))"
  using solve_packing_outcome [OF assms] by (auto split: outcome.splits)

definition demo_field :: "string \<Rightarrow> string \<Rightarrow> int list \<Rightarrow> bool \<Rightarrow> cache_field_spec" where
  "demo_field fid plane shape exact =
     \<lparr>fs_field_id = fid, fs_plane_id = plane, fs_shape = shape, fs_dtype = DT_uint8,
      fs_exact_page_stride = exact, fs_page_stride_alignment_bytes = 1\<rparr>"

definition demo_entries :: "entry list" where
  "demo_entries = [(''a'', demo_field ''layer.0.k'' ''u'' [6] True),
                   (''b'', demo_field ''layer.1.k'' ''u'' [4] True)]"

lemma demo_payloads: "payloads_pos demo_entries"
  by (simp add: payloads_pos_def demo_entries_def demo_field_def fs_payload_bytes_def fs_element_size_def)

lemma demo_solved: "solve_packing demo_entries = Done [(''a'', 2), (''b'', 3)]"
  by code_simp

theorem solve_packing_sound_witness:
  "\<exists>m n. map_of [(''a'', 2), (''b'', 3)] ''a'' = Some m \<and> map_of [(''a'', 2), (''b'', 3)] ''b'' = Some n \<and>
     0 < m \<and> 0 < n \<and>
     m * exact_bytes demo_entries ''u'' ''a'' = n * exact_bytes demo_entries ''u'' ''b''"
  by (rule solve_packing_sound [OF demo_payloads demo_solved])
     (auto simp: exact_tenant_def demo_entries_def demo_field_def)

theorem solve_packing_complete_witness:
  "solve_packing demo_entries \<noteq> Loops \<and>
   (solve_packing demo_entries = Unsat \<longleftrightarrow> (\<nexists>K. (\<forall>g. 0 < K g) \<and> packing_solves demo_entries K))"
  by (rule solve_packing_complete [OF demo_payloads])

end
