(* ===== verification/Byte_Regions.thy ===== *)
theory Byte_Regions
  imports TS_Prelude
begin

text \<open>
  Byte memory and the contract of a region layout: a layout names regions of one arena,
  each inside the arena and no two overlapping. The clients' lemmas (a region reads back
  what was written to it, and a write to one region leaves every other untouched) are
  proved once here and reach the pages of a cache group, the leased pages of a whole plan and
  the blocks of the compact Host storage through interpretations.
\<close>

type_synonym memory = "int \<Rightarrow> int"

definition write_bytes :: "memory \<Rightarrow> int \<Rightarrow> int list \<Rightarrow> memory" where
  "write_bytes m start bs =
     (\<lambda>a. if start \<le> a \<and> a < start + int (length bs) then bs ! nat (a - start) else m a)"

definition read_bytes :: "memory \<Rightarrow> int \<Rightarrow> int \<Rightarrow> int list" where
  "read_bytes m start n = map m [start..start + n - 1]"

text \<open>Two half-open byte ranges that share no byte.\<close>

definition disjoint_ranges :: "int \<Rightarrow> int \<Rightarrow> int \<Rightarrow> int \<Rightarrow> bool" where
  "disjoint_ranges a n b m \<longleftrightarrow> a + n \<le> b \<or> b + m \<le> a"

lemma disjoint_ranges_commute: "disjoint_ranges a n b m \<longleftrightarrow> disjoint_ranges b m a n"
  by (auto simp: disjoint_ranges_def)

lemma disjoint_ranges_mono:
  "disjoint_ranges a n b m \<Longrightarrow> a \<le> a' \<Longrightarrow> a' + n' \<le> a + n \<Longrightarrow> b \<le> b' \<Longrightarrow> b' + m' \<le> b + m \<Longrightarrow>
   disjoint_ranges a' n' b' m'"
  by (auto simp: disjoint_ranges_def)

lemma read_write_same: "int (length bs) = n \<Longrightarrow> read_bytes (write_bytes m a bs) a n = bs"
  by (rule nth_equalityI) (auto simp: read_bytes_def write_bytes_def)

lemma read_write_disjoint:
  "int (length bs) = n \<Longrightarrow> disjoint_ranges a n b k \<Longrightarrow>
   read_bytes (write_bytes m a bs) b k = read_bytes m b k"
  by (auto simp: read_bytes_def write_bytes_def disjoint_ranges_def)

locale byte_regions =
  fixes inv :: "'l \<Rightarrow> bool"
    and regions :: "'l \<Rightarrow> 'r set"
    and start :: "'l \<Rightarrow> 'r \<Rightarrow> int"
    and extent :: "'l \<Rightarrow> 'r \<Rightarrow> int"
    and total :: "'l \<Rightarrow> int"
  assumes inside: "inv l \<Longrightarrow> r \<in> regions l \<Longrightarrow> 0 \<le> start l r \<and> start l r + extent l r \<le> total l"
    and apart: "inv l \<Longrightarrow> r \<in> regions l \<Longrightarrow> r' \<in> regions l \<Longrightarrow> r \<noteq> r' \<Longrightarrow>
                disjoint_ranges (start l r) (extent l r) (start l r') (extent l r')"
begin

lemma read_back:
  "int (length bs) = extent l r \<Longrightarrow>
   read_bytes (write_bytes m (start l r) bs) (start l r) (extent l r) = bs"
  by (rule read_write_same)

lemma frame:
  assumes "inv l" and "r \<in> regions l" and "r' \<in> regions l" and "r \<noteq> r'"
    and "int (length bs) = extent l r"
  shows "read_bytes (write_bytes m (start l r) bs) (start l r') (extent l r') =
         read_bytes m (start l r') (extent l r')"
  using read_write_disjoint [OF assms(5) apart [OF assms(1-4)]] .

lemma stays_inside:
  assumes "inv l" and "r \<in> regions l" and "int (length bs) = extent l r"
    and "a < 0 \<or> total l \<le> a"
  shows "write_bytes m (start l r) bs a = m a"
  using inside [OF assms(1,2)] assms(3,4) by (auto simp: write_bytes_def)

text \<open>A batch of writes to distinct regions: every region of the batch holds its own bytes
  afterwards, whatever the order.\<close>

lemma batch:
  assumes "inv l" and "set (map fst ws) \<subseteq> regions l" and "distinct (map fst ws)"
    and "\<forall>(r, bs) \<in> set ws. int (length bs) = extent l r" and "r \<in> regions l"
  shows "read_bytes (fold (\<lambda>(r, bs) m. write_bytes m (start l r) bs) ws m) (start l r) (extent l r) =
         (case map_of ws r of None \<Rightarrow> read_bytes m (start l r) (extent l r) | Some bs \<Rightarrow> bs)"
  using assms(2-4)
proof (induction ws arbitrary: m)
  case (Cons w ws)
  obtain r0 bs0 where w: "w = (r0, bs0)" by fastforce
  have IH: "read_bytes (fold (\<lambda>(r, bs) m. write_bytes m (start l r) bs) ws m) (start l r) (extent l r) =
         (case map_of ws r of None \<Rightarrow> read_bytes m (start l r) (extent l r) | Some bs \<Rightarrow> bs)" for m
    using Cons.prems by (intro Cons.IH) auto
  show ?case
  proof (cases "r = r0")
    case True
    then have "map_of ws r = None" using Cons.prems(2) w by (auto simp: map_of_eq_None_iff)
    moreover have "int (length bs0) = extent l r" using Cons.prems(3) w True by simp
    ultimately show ?thesis using IH True w by (simp add: read_back)
  next
    case False
    have "int (length bs0) = extent l r0" "r0 \<in> regions l" using Cons.prems w by auto
    then have "read_bytes (write_bytes m (start l r0) bs0) (start l r) (extent l r) =
               read_bytes m (start l r) (extent l r)"
      using frame assms(1,5) False by metis
    then show ?thesis using IH False w by (simp split: option.split)
  qed
qed simp

end

end
