(* ===== verification/Pack.thy ===== *)
theory Pack
  imports Packing_Solver Byte_Regions
begin

text \<open>
  \<^verbatim>\<open>pack\<close> of \<^verbatim>\<open>kv_cache/recipes/plan.py\<close>: declared cache groups to one
  capacity-independent LCM block. The stages of the source are one definition each: the
  declaration checks, the packing counts, the field offsets inside a group's page, the
  flexible groups' counts, the plane sizes, the exact-stride check, the padding budget.

  The central lemma is that a returned layout is well formed (\<open>layout_ok\<close>): every page
  stride times the group's packing is the plane's bytes, the fields of a group's page are
  disjoint and inside the stride, and exact fields get a payload-sized stride.
\<close>

section \<open>Model\<close>

text \<open>Keys of a dict in insertion order: the first occurrence of every element.\<close>

definition first_seen :: "'a list \<Rightarrow> 'a list" where
  "first_seen xs = rev (remdups (rev xs))"

text \<open>The entries of the declaration, sorted by plane, group and field id.\<close>

definition ordered_fields :: "(cache_group_spec \<times> cache_field_spec list) list \<Rightarrow> entry list" where
  "ordered_fields groups =
     sort_key (\<lambda>(g, f). (fs_plane_id f, g, fs_field_id f))
       (concat (map (\<lambda>(spec, fs). map (\<lambda>f. (gs_group_id spec, f)) fs) groups))"

text \<open>The checks before the packing is chosen, with \<^verbatim>\<open>raw_by_group\<close> as the result.\<close>

definition field_geometry_ok :: "cache_field_spec \<Rightarrow> bool" where
  "field_geometry_ok f \<longleftrightarrow>
     fs_shape f \<noteq> [] \<and> \<not> list_ex (\<lambda>extent. extent \<le> 0) (fs_shape f) \<and>
     0 < fs_page_stride_alignment_bytes f"

definition raw_by_group :: "entry list \<Rightarrow> (string \<times> int) list result" where
  "raw_by_group entries =
     foldE (\<lambda>raw (group_id, field).
       raise_if (group_id = [] \<or> fs_field_id field = [] \<or> fs_plane_id field = [])
         (ValueError ''cache group id, field id and plane id must be non-empty'')
      (raise_if (\<not> field_geometry_ok field) (ValueError ''has invalid geometry'')
         (Inr (AList.update group_id (dict_get raw group_id 0 + fs_payload_bytes field) raw))))
     [] entries"

definition packing_by_group_ratio :: "(string \<times> int) list \<Rightarrow> (string \<times> int) list" where
  "packing_by_group_ratio raw =
     (let largest_payload = Max (set (map snd raw))
      in map (\<lambda>(group_id, payload).
           (group_id, 2 ^ (bit_length (largest_payload div payload) - 1))) raw)"

text \<open>The packing before the flexible groups are refined. A diverging solver would be the
  \<open>RuntimeError\<close>; \<open>solve_packing_complete\<close> shows it does not happen.\<close>

definition derive_packing ::
  "entry list \<Rightarrow> (string \<times> int) list \<Rightarrow> (string \<times> int) list \<Rightarrow> (string \<times> int) list result" where
  "derive_packing entries raw pinned =
     (if set (map fst pinned) = set (map fst raw) then Inr pinned
      else (case solve_packing entries of
              Loops \<Rightarrow> Inl (RuntimeError ''does not terminate'')
            | Unsat \<Rightarrow> Inr (dict_update (packing_by_group_ratio raw) pinned)
            | Done constrained \<Rightarrow>
                Inr (dict_update (dict_update (packing_by_group_ratio raw) constrained) pinned)))"

text \<open>\<^verbatim>\<open>plane_fields\<close>: the planes, the groups of a plane, a group's fields on a plane.\<close>

definition plane_ids :: "entry list \<Rightarrow> string list" where
  "plane_ids entries = first_seen (map (\<lambda>(_, f). fs_plane_id f) entries)"

definition plane_groups :: "entry list \<Rightarrow> string \<Rightarrow> string list" where
  "plane_groups entries plane_id =
     first_seen (map fst (filter (\<lambda>(_, f). fs_plane_id f = plane_id) entries))"

definition group_fields :: "entry list \<Rightarrow> string \<Rightarrow> string \<Rightarrow> cache_field_spec list" where
  "group_fields entries plane_id group_id =
     map snd (filter (\<lambda>(g, f). fs_plane_id f = plane_id \<and> g = group_id) entries)"

text \<open>The inner offset loop: each field starts at the next multiple of its element size.\<close>

fun place_fields :: "int \<Rightarrow> cache_field_spec list \<Rightarrow> (string \<times> int) list \<times> int" where
  "place_fields off [] = ([], off)"
| "place_fields off (f # fs) =
     (let start = align_up off (fs_element_size f);
          rest = place_fields (start + fs_payload_bytes f) fs
      in ((fs_field_id f, start) # fst rest, snd rest))"

definition field_offsets :: "entry list \<Rightarrow> (string \<times> int) list" where
  "field_offsets entries =
     dict_update [] (concat (map (\<lambda>plane_id. concat (map (\<lambda>group_id.
       fst (place_fields 0 (group_fields entries plane_id group_id)))
       (plane_groups entries plane_id))) (plane_ids entries)))"

definition group_plane_bytes :: "entry list \<Rightarrow> string \<Rightarrow> string \<Rightarrow> int" where
  "group_plane_bytes entries group_id plane_id =
     snd (place_fields 0 (group_fields entries plane_id group_id))"

text \<open>\<^verbatim>\<open>a // gcd(a, b) * b\<close>, the running least common multiple.\<close>

definition lcm_step :: "int \<Rightarrow> int \<Rightarrow> int" where
  "lcm_step a b = a div gcd a b * b"

text \<open>Subscripts \<^verbatim>\<open>packing[g]\<close>: every group of the plan has an entry
  (\<open>derive_packing_covers\<close>).\<close>

definition packing_at :: "(string \<times> int) list \<Rightarrow> string \<Rightarrow> int" where
  "packing_at packing g = the (map_of packing g)"

definition exact_groups :: "entry list \<Rightarrow> string list" where
  "exact_groups entries = map fst (filter (\<lambda>(_, f). fs_exact_page_stride f) entries)"

text \<open>The flexible-group stage: plane bytes fixed by the exact groups, then the largest
  count that divides them.\<close>

definition fixed_plane :: "entry list \<Rightarrow> (string \<times> int) list \<Rightarrow> int \<Rightarrow> string \<Rightarrow> int option" where
  "fixed_plane entries packing alignment plane_id =
     (let fixed = filter (\<lambda>g. g \<in> set (exact_groups entries)) (plane_groups entries plane_id);
          fixed_required = fold (\<lambda>g acc. max acc (packing_at packing g * group_plane_bytes entries g plane_id))
                             fixed 0;
          fixed_alignment = fold (\<lambda>g acc. fold (\<lambda>f acc'.
                                 lcm_step acc' (packing_at packing g * fs_element_size f))
                               (group_fields entries plane_id g) acc) fixed alignment
      in if fixed_required \<noteq> 0 then Some (align_up fixed_required fixed_alignment) else None)"

definition refine_flexible ::
  "entry list \<Rightarrow> (string \<Rightarrow> int option) \<Rightarrow> string \<Rightarrow> (string \<times> int) list \<Rightarrow> (string \<times> int) list" where
  "refine_flexible entries fixed_bytes group_id packing =
     (let occupied = filter (\<lambda>plane_id. group_fields entries plane_id group_id \<noteq> []) (plane_ids entries)
      in if \<not> list_all (\<lambda>plane_id. fixed_bytes plane_id \<noteq> None) occupied then packing
         else let upper = Min (set (map (\<lambda>plane_id.
                            the (fixed_bytes plane_id) div group_plane_bytes entries group_id plane_id)
                            occupied));
                  elt = (\<lambda>plane_id. fold (\<lambda>f acc. lcm_step acc (fs_element_size f))
                           (group_fields entries plane_id group_id) 1)
              in case find (\<lambda>k. list_all (\<lambda>plane_id.
                         the (fixed_bytes plane_id) mod (k * elt plane_id) = 0) occupied)
                       (rev [1..upper]) of
                   None \<Rightarrow> packing
                 | Some k \<Rightarrow> AList.update group_id k packing)"

definition flexible_packing ::
  "entry list \<Rightarrow> (string \<times> int) list \<Rightarrow> (string \<times> int) list \<Rightarrow> (string \<times> int) list \<Rightarrow> int \<Rightarrow>
   (string \<times> int) list" where
  "flexible_packing entries raw pinned packing alignment =
     (let flexible = filter (\<lambda>g. g \<notin> set (exact_groups entries)) (sort (map fst raw))
      in if flexible \<noteq> [] \<and> pinned = []
         then let fixed_bytes = fixed_plane entries packing alignment
              in fold (refine_flexible entries fixed_bytes) flexible packing
         else packing)"

text \<open>The plane sizes, with the limit check after every field.\<close>

definition plane_alignment_step ::
  "(string \<times> int) list \<Rightarrow> string \<Rightarrow> int \<Rightarrow> cache_field_spec \<Rightarrow> int result" where
  "plane_alignment_step packing group_id plane_alignment field =
     (let a1 = lcm_step plane_alignment (packing_at packing group_id * fs_element_size field);
          a2 = lcm_step a1 (packing_at packing group_id * fs_page_stride_alignment_bytes field)
      in raise_if (a2 > MAX_LCM_BLOCK_BYTES) (ValueError ''LCM block size alignment exceeds limit'')
           (Inr a2))"

definition plane_size ::
  "entry list \<Rightarrow> (string \<times> int) list \<Rightarrow> int \<Rightarrow> string \<Rightarrow> (string \<times> int) result" where
  "plane_size entries packing alignment plane_id =
     bindE (foldE (\<lambda>acc group_id.
        bindE (foldE (plane_alignment_step packing group_id) (fst acc)
                 (group_fields entries plane_id group_id)) (\<lambda>a.
        Inr (a, max (snd acc) (packing_at packing group_id * group_plane_bytes entries group_id plane_id))))
        (alignment, 0) (plane_groups entries plane_id))
     (\<lambda>(plane_alignment, required_bytes). Inr (plane_id, align_up required_bytes plane_alignment))"

definition check_exact_page_strides ::
  "entry list \<Rightarrow> (string \<times> int) list \<Rightarrow> (string \<times> int) list \<Rightarrow> unit result" where
  "check_exact_page_strides entries plane_bytes packing =
     raise_if (list_ex (\<lambda>(group_id, field). fs_exact_page_stride field \<and>
         the (map_of plane_bytes (fs_plane_id field)) div packing_at packing group_id
           \<noteq> fs_payload_bytes field) entries)
       (ValueError ''needs page stride'') (Inr ())"

text \<open>The padding budget is a float: each operation rounds. A Python division of two integers rounds the exact quotient
  once; an integer operand of a float operation is converted first.\<close>

definition padding_fraction :: "int \<Rightarrow> int \<Rightarrow> int \<Rightarrow> rat" where
  "padding_fraction lcm_block_bytes k raw_bytes =
     (let stride = double (of_int lcm_block_bytes / of_int k);
          base = double (of_int raw_bytes)
      in double (double (stride - base) / base))"

definition padding_too_large :: "int \<Rightarrow> (string \<times> int) list \<Rightarrow> py_float \<Rightarrow> string \<times> int \<Rightarrow> bool" where
  "padding_too_large lcm_block_bytes packing max_padding_fraction graw =
     float_less max_padding_fraction (Finite (padding_fraction lcm_block_bytes (packing_at packing (fst graw)) (snd graw)))"

definition field_layouts ::
  "entry list \<Rightarrow> (string \<times> int) list \<Rightarrow> (string \<times> int) list \<Rightarrow> cache_field_layout list" where
  "field_layouts entries plane_bytes packing =
     map (\<lambda>(group_id, field).
       \<lparr>fl_group_id = group_id, fl_field_id = fs_field_id field, fl_plane_id = fs_plane_id field,
        fl_shape = fs_shape field, fl_dtype = fs_dtype field,
        fl_field_offset_bytes = the (map_of (field_offsets entries) (fs_field_id field)),
        fl_page_stride_bytes = the (map_of plane_bytes (fs_plane_id field)) div packing_at packing group_id\<rparr>)
       entries"

text \<open>The declaration checks, up to the unique field ids.\<close>

definition check_declaration ::
  "(cache_group_spec \<times> cache_field_spec list) list \<Rightarrow> int \<Rightarrow> int \<Rightarrow> py_float \<Rightarrow> entry list result" where
  "check_declaration groups prefix_granularity alignment max_padding_fraction =
     raise_if (prefix_granularity \<le> 0) (ValueError ''prefix_granularity must be > 0'')
    (raise_if (alignment \<le> 0) (ValueError ''alignment must be > 0'')
    (raise_if (float_less max_padding_fraction (Finite 0)) (ValueError ''max_padding_fraction must be >= 0'')
    (raise_if (\<not> distinct (map (\<lambda>(spec, _). gs_group_id spec) groups))
       (ValueError ''cache group declared more than once'')
    (raise_if (list_ex (\<lambda>(_, fs). fs = []) groups) (ValueError ''declare no fields'')
    (let entries = ordered_fields groups in
     raise_if (entries = []) (ValueError ''at least one cache group is required'')
    (raise_if (\<not> distinct (map (\<lambda>(_, f). fs_field_id f) entries))
       (ValueError ''cache field ids must be unique'') (Inr entries)))))))"

definition check_pinned :: "(string \<times> int) list \<Rightarrow> (string \<times> int) list \<Rightarrow> unit result" where
  "check_pinned raw pinned =
     raise_if (set (map fst pinned) - set (map fst raw) \<noteq> {})
       (ValueError ''cache_blocks_per_lcm_block names groups outside the plan'')
    (raise_if (list_ex (\<lambda>(_, k). k < 1) pinned)
       (ValueError ''cache group packing must be a positive integer'') (Inr ()))"

text \<open>From the chosen packing to the layout: plane sizes, the stride check, the block size
  and padding limits.\<close>

definition assemble_layout ::
  "entry list \<Rightarrow> (string \<times> int) list \<Rightarrow> (string \<times> int) list \<Rightarrow> int \<Rightarrow> int \<Rightarrow> py_float \<Rightarrow>
   cache_layout result" where
  "assemble_layout entries raw packing prefix_granularity alignment max_padding_fraction =
     bindE (mapE (plane_size entries packing alignment) (plane_ids entries)) (\<lambda>plane_bytes.
     bindE (check_exact_page_strides entries plane_bytes packing) (\<lambda>_.
     let lcm_block_bytes = align_up (sum_list (map snd plane_bytes)) alignment in
     raise_if (lcm_block_bytes > MAX_LCM_BLOCK_BYTES) (ValueError ''LCM block size exceeds limit'')
    (raise_if (list_ex (padding_too_large lcm_block_bytes packing max_padding_fraction)
                (sort_key fst raw))
       (ValueError ''padding fraction exceeds limit'')
    (Inr \<lparr>cl_prefix_granularity = prefix_granularity,
          cl_lcm_block_bytes = lcm_block_bytes,
          cl_group_packing = map (\<lambda>g. (g, packing_at packing g)) (sort (map fst raw)),
          cl_plane_bytes = sort_key fst plane_bytes,
          cl_fields = field_layouts entries plane_bytes packing\<rparr>))))"

definition pack ::
  "(cache_group_spec \<times> cache_field_spec list) list \<Rightarrow> int \<Rightarrow> (string \<times> int) list \<Rightarrow> int \<Rightarrow> py_float \<Rightarrow>
   cache_layout result" where
  "pack groups prefix_granularity pinned alignment max_padding_fraction =
     bindE (check_declaration groups prefix_granularity alignment max_padding_fraction) (\<lambda>entries.
     bindE (raw_by_group entries) (\<lambda>raw.
     bindE (check_pinned raw pinned) (\<lambda>_.
     bindE (derive_packing entries raw pinned) (\<lambda>packing.
     assemble_layout entries raw (flexible_packing entries raw pinned packing alignment)
       prefix_granularity alignment max_padding_fraction))))"


section \<open>A well-formed layout\<close>

definition field_fits :: "cache_layout \<Rightarrow> cache_field_layout \<Rightarrow> bool" where
  "field_fits L f \<longleftrightarrow>
     (\<exists>k b. map_of (cl_group_packing L) (fl_group_id f) = Some k \<and>
        map_of (cl_plane_bytes L) (fl_plane_id f) = Some b \<and>
        0 < k \<and> fl_page_stride_bytes f * k = b) \<and>
     0 \<le> fl_field_offset_bytes f \<and> 0 < fl_payload_bytes f \<and>
     fl_field_offset_bytes f + fl_payload_bytes f \<le> fl_page_stride_bytes f \<and>
     fl_field_offset_bytes f mod fl_element_size f = 0 \<and>
     fl_page_stride_bytes f mod fl_element_size f = 0"

definition layout_ok :: "cache_layout \<Rightarrow> bool" where
  "layout_ok L \<longleftrightarrow>
     distinct (map fst (cl_group_packing L)) \<and> distinct (map fst (cl_plane_bytes L)) \<and>
     distinct (map fl_field_id (cl_fields L)) \<and>
     (\<forall>(p, b) \<in> set (cl_plane_bytes L). 0 \<le> b) \<and>
     (\<forall>(g, k) \<in> set (cl_group_packing L). 0 < k) \<and>
     sum_list (map snd (cl_plane_bytes L)) \<le> cl_lcm_block_bytes L \<and>
     (\<forall>f \<in> set (cl_fields L). field_fits L f) \<and>
     (\<forall>f \<in> set (cl_fields L). \<forall>f' \<in> set (cl_fields L).
        fl_field_id f \<noteq> fl_field_id f' \<and> fl_group_id f = fl_group_id f' \<and>
        fl_plane_id f = fl_plane_id f' \<longrightarrow>
        disjoint_ranges (fl_field_offset_bytes f) (fl_payload_bytes f)
                        (fl_field_offset_bytes f') (fl_payload_bytes f'))"

section \<open>Arithmetic of the stages\<close>

lemma dtype_bytes_pos [simp]: "0 < dtype_bytes d"
  by (cases d) auto

lemma fs_element_size_pos [simp]: "0 < fs_element_size f"
  by (simp add: fs_element_size_def)

lemma align_up_ge: "0 < a \<Longrightarrow> v \<le> align_up v a"
  using ceil_div_cover [of a v] by (simp add: align_up_def ceil_div_def)

lemma align_up_dvd: "a dvd align_up v a"
  by (simp add: align_up_def)

lemma align_up_nonneg: "0 < a \<Longrightarrow> 0 \<le> v \<Longrightarrow> 0 \<le> align_up v a"
  using align_up_ge [of a v] by linarith

lemma lcm_step_eq: "0 < a \<Longrightarrow> 0 < b \<Longrightarrow> lcm_step a b = lcm a b"
proof -
  assume ab: "0 < a" "0 < b"
  have "lcm_step a b * gcd a b = a * b"
    by (metis dvd_div_mult_self gcd_dvd1 lcm_step_def mult.assoc mult.commute)
  also have "a * b = lcm a b * gcd a b"
    using ab by (simp add: lcm_mult_gcd abs_mult)
  finally have "lcm_step a b * gcd a b = lcm a b * gcd a b" .
  moreover have "gcd a b \<noteq> 0" using ab by simp
  ultimately show ?thesis using mult_right_cancel by blast
qed

lemma lcm_step_props:
  assumes "0 < a" and "0 < b"
  shows "0 < lcm_step a b" and "a dvd lcm_step a b" and "b dvd lcm_step a b"
  using assms by (simp_all add: lcm_step_eq lcm_pos_int)

lemma geometry_payload_pos:
  assumes "field_geometry_ok f"
  shows "0 < fs_payload_bytes f"
proof -
  have "0 < prod_list xs" if "\<not> list_ex (\<lambda>e. e \<le> 0) xs" for xs :: "int list"
    using that by (induction xs) auto
  then show ?thesis using assms by (simp add: field_geometry_ok_def fs_payload_bytes_def)
qed

text \<open>The offset loop keeps every field inside the running extent, in order.\<close>

lemma place_fields_ids: "map fst (fst (place_fields off fs)) = map fs_field_id fs"
  by (induction off fs rule: place_fields.induct) (auto simp: Let_def)

lemma place_fields_extent:
  assumes "\<forall>f \<in> set fs. 0 < fs_payload_bytes f" and "0 \<le> off"
  shows "off \<le> snd (place_fields off fs)"
  using assms
proof (induction off fs rule: place_fields.induct)
  case (2 off f fs)
  let ?start = "align_up off (fs_element_size f)"
  have "off \<le> ?start" by (simp add: align_up_ge)
  moreover have "0 < fs_payload_bytes f" using "2.prems" by simp
  moreover have "?start + fs_payload_bytes f \<le> snd (place_fields (?start + fs_payload_bytes f) fs)"
    using "2.prems" calculation by (intro "2.IH" [OF refl]) auto
  ultimately show ?case by (simp add: Let_def)
qed simp

lemma place_fields_bounds:
  assumes "\<forall>f \<in> set fs. 0 < fs_payload_bytes f" and "0 \<le> off" and "distinct (map fs_field_id fs)"
    and "f \<in> set fs"
  shows "\<exists>x. map_of (fst (place_fields off fs)) (fs_field_id f) = Some x \<and> off \<le> x \<and>
           x mod fs_element_size f = 0 \<and> x + fs_payload_bytes f \<le> snd (place_fields off fs)"
  using assms
proof (induction off fs rule: place_fields.induct)
  case (2 off g fs)
  let ?start = "align_up off (fs_element_size g)"
  let ?next = "?start + fs_payload_bytes g"
  have start: "off \<le> ?start" by (simp add: align_up_ge)
  have gpos: "0 < fs_payload_bytes g" using "2.prems" by simp
  show ?case
  proof (cases "f = g")
    case True
    have "?next \<le> snd (place_fields ?next fs)"
      using "2.prems" start gpos by (intro place_fields_extent) auto
    moreover have "?start mod fs_element_size g = 0"
      using align_up_dvd by (simp add: dvd_eq_mod_eq_0 [symmetric])
    ultimately show ?thesis using True start by (simp add: Let_def)
  next
    case False
    then have f: "f \<in> set fs" using "2.prems" by simp
    then have ne: "fs_field_id f \<noteq> fs_field_id g"
      using "2.prems"(3) by (metis distinct.simps(2) image_eqI image_set list.simps(9))
    have "\<exists>x. map_of (fst (place_fields ?next fs)) (fs_field_id f) = Some x \<and> ?next \<le> x \<and>
       x mod fs_element_size f = 0 \<and> x + fs_payload_bytes f \<le> snd (place_fields ?next fs)"
      using "2.prems" start gpos f by (intro "2.IH" [OF refl]) auto
    then obtain x where "map_of (fst (place_fields ?next fs)) (fs_field_id f) = Some x" "?next \<le> x"
       "x mod fs_element_size f = 0" "x + fs_payload_bytes f \<le> snd (place_fields ?next fs)"
      by (elim exE conjE)
    then show ?thesis using ne start gpos by (intro exI [of _ x]) (simp add: Let_def)
  qed
qed simp

lemma place_fields_disjoint:
  assumes "\<forall>f \<in> set fs. 0 < fs_payload_bytes f" and "0 \<le> off" and "distinct (map fs_field_id fs)"
    and "f \<in> set fs" and "f' \<in> set fs" and "fs_field_id f \<noteq> fs_field_id f'"
    and "map_of (fst (place_fields off fs)) (fs_field_id f) = Some x"
    and "map_of (fst (place_fields off fs)) (fs_field_id f') = Some x'"
  shows "disjoint_ranges x (fs_payload_bytes f) x' (fs_payload_bytes f')"
  using assms
proof (induction off fs rule: place_fields.induct)
  case (2 off g fs)
  let ?start = "align_up off (fs_element_size g)"
  let ?next = "?start + fs_payload_bytes g"
  have start: "off \<le> ?start" by (simp add: align_up_ge)
  have gpos: "0 < fs_payload_bytes g" using "2.prems" by simp
  have later: "?next \<le> y"
    if "h \<in> set fs" "map_of (fst (place_fields ?next fs)) (fs_field_id h) = Some y" for h y
    using place_fields_bounds [of fs ?next h] that "2.prems" start gpos by auto
  have notin: "fs_field_id h \<noteq> fs_field_id g" if "h \<in> set fs" for h
    using that "2.prems"(3) by (metis distinct.simps(2) image_eqI image_set list.simps(9))
  consider "f = g" "f' \<in> set fs" | "f' = g" "f \<in> set fs" | "f \<in> set fs" "f' \<in> set fs"
    using "2.prems" by auto
  then show ?case
  proof cases
    case 1
    then show ?thesis
      using "2.prems" later [of f'] notin [of f'] by (auto simp: Let_def disjoint_ranges_def)
  next
    case 2
    then show ?thesis
      using "2.prems" later [of f] notin [of f] by (auto simp: Let_def disjoint_ranges_def)
  next
    case 3
    show ?thesis
      using "2.prems" start gpos 3 notin [of f] notin [of f']
      by (intro "2.IH" [OF refl]) (auto simp: Let_def)
  qed
qed simp


section \<open>The planes of an accepted packing\<close>

definition packing_covers :: "entry list \<Rightarrow> (string \<times> int) list \<Rightarrow> bool" where
  "packing_covers es packing \<longleftrightarrow> (\<forall>g \<in> fst ` set es. \<exists>k. map_of packing g = Some k \<and> 0 < k)"

lemma packing_at_pos: "packing_covers es packing \<Longrightarrow> (g, f) \<in> set es \<Longrightarrow> 0 < packing_at packing g"
  by (force simp: packing_covers_def packing_at_def)

lemma set_first_seen [simp]: "set (first_seen xs) = set xs"
  by (simp add: first_seen_def)

lemma distinct_first_seen [simp]: "distinct (first_seen xs)"
  by (simp add: first_seen_def)

lemma set_plane_groups: "g \<in> set (plane_groups es p) \<longleftrightarrow> group_fields es p g \<noteq> []"
  by (force simp: plane_groups_def group_fields_def filter_empty_conv)

lemma set_group_fields: "f \<in> set (group_fields es p g) \<longleftrightarrow> (g, f) \<in> set es \<and> fs_plane_id f = p"
  by (force simp: group_fields_def)

lemma set_plane_ids: "p \<in> set (plane_ids es) \<longleftrightarrow> (\<exists>g f. (g, f) \<in> set es \<and> fs_plane_id f = p)"
  by (force simp: plane_ids_def)

lemma plane_alignment_step_Inr:
  "plane_alignment_step packing g a f = Inr a' \<longleftrightarrow>
     a' = lcm_step (lcm_step a (packing_at packing g * fs_element_size f))
            (packing_at packing g * fs_page_stride_alignment_bytes f) \<and> a' \<le> MAX_LCM_BLOCK_BYTES"
  by (auto simp: plane_alignment_step_def Let_def result_simps)

lemma alignment_fold:
  assumes "foldE (plane_alignment_step packing g) a fs = Inr a'" and "0 < a"
    and "0 < packing_at packing g" and "\<forall>f \<in> set fs. 0 < fs_page_stride_alignment_bytes f"
  shows "0 < a' \<and> a dvd a' \<and> (\<forall>f \<in> set fs. packing_at packing g * fs_element_size f dvd a' \<and>
           packing_at packing g * fs_page_stride_alignment_bytes f dvd a')"
  using assms
proof (induction fs arbitrary: a)
  case (Cons f fs)
  let ?k = "packing_at packing g"
  let ?a1 = "lcm_step a (?k * fs_element_size f)"
  let ?a2 = "lcm_step ?a1 (?k * fs_page_stride_alignment_bytes f)"
  have 1: "0 < ?a1" "a dvd ?a1" "?k * fs_element_size f dvd ?a1"
    using Cons.prems by (auto intro!: lcm_step_props mult_pos_pos)
  have 2: "0 < ?a2" "?a1 dvd ?a2" "?k * fs_page_stride_alignment_bytes f dvd ?a2"
    using Cons.prems 1 by (auto intro!: lcm_step_props mult_pos_pos)
  have "foldE (plane_alignment_step packing g) ?a2 fs = Inr a'"
    using Cons.prems(1) by (auto simp: bindE_Inr_iff plane_alignment_step_Inr)
  from Cons.IH [OF this 2(1) Cons.prems(3)] Cons.prems(4)
  have "0 < a'" "?a2 dvd a'" "\<forall>f \<in> set fs. ?k * fs_element_size f dvd a' \<and>
      ?k * fs_page_stride_alignment_bytes f dvd a'" by auto
  with 1 2 show ?case by (auto intro: dvd_trans)
qed simp

definition plane_fits :: "entry list \<Rightarrow> (string \<times> int) list \<Rightarrow> string \<Rightarrow> int \<Rightarrow> string \<Rightarrow> int \<Rightarrow> bool" where
  "plane_fits es packing p a g req \<longleftrightarrow>
     packing_at packing g * group_plane_bytes es g p \<le> req \<and>
     (\<forall>f \<in> set (group_fields es p g). packing_at packing g * fs_element_size f dvd a \<and>
        packing_at packing g * fs_page_stride_alignment_bytes f dvd a)"

lemma plane_fold:
  assumes "foldE (\<lambda>acc g.
        bindE (foldE (plane_alignment_step packing g) (fst acc) (group_fields es p g)) (\<lambda>a.
        Inr (a, max (snd acc) (packing_at packing g * group_plane_bytes es g p)))) (a, req) gs = Inr (a', req')"
    and "0 < a" and "\<forall>g \<in> set gs. 0 < packing_at packing g \<and>
      (\<forall>f \<in> set (group_fields es p g). 0 < fs_page_stride_alignment_bytes f)"
  shows "0 < a' \<and> a dvd a' \<and> req \<le> req' \<and> (\<forall>g \<in> set gs. plane_fits es packing p a' g req')"
  using assms
proof (induction gs arbitrary: a req)
  case (Cons g gs)
  from Cons.prems(1) obtain a1 where a1: "foldE (plane_alignment_step packing g) a (group_fields es p g) = Inr a1"
    and rest: "foldE (\<lambda>acc g.
        bindE (foldE (plane_alignment_step packing g) (fst acc) (group_fields es p g)) (\<lambda>a.
        Inr (a, max (snd acc) (packing_at packing g * group_plane_bytes es g p))))
        (a1, max req (packing_at packing g * group_plane_bytes es g p)) gs = Inr (a', req')"
    by (auto simp: result_simps)
  have s1: "0 < a1" "a dvd a1" "\<forall>f \<in> set (group_fields es p g). packing_at packing g * fs_element_size f dvd a1 \<and>
      packing_at packing g * fs_page_stride_alignment_bytes f dvd a1"
    using alignment_fold [OF a1] Cons.prems by auto
  from Cons.IH [OF rest s1(1)] Cons.prems(3) have
    "0 < a'" "a1 dvd a'" "max req (packing_at packing g * group_plane_bytes es g p) \<le> req'"
    "\<forall>g \<in> set gs. plane_fits es packing p a' g req'" by auto
  with s1 show ?case by (auto simp: plane_fits_def intro: dvd_trans)
qed simp

lemma plane_size_props:
  assumes "plane_size es packing al p = Inr (p', b)" and "0 < al" and "packing_covers es packing"
    and "\<forall>(g, f) \<in> set es. field_geometry_ok f"
  shows "p' = p" and "0 \<le> b" and "al dvd b"
    and "(g, f) \<in> set es \<Longrightarrow> fs_plane_id f = p \<Longrightarrow>
         packing_at packing g * group_plane_bytes es g p \<le> b \<and>
         packing_at packing g * fs_element_size f dvd b \<and>
         packing_at packing g * fs_page_stride_alignment_bytes f dvd b"
proof -
  obtain a req where F: "foldE (\<lambda>acc g.
        bindE (foldE (plane_alignment_step packing g) (fst acc) (group_fields es p g)) (\<lambda>a.
        Inr (a, max (snd acc) (packing_at packing g * group_plane_bytes es g p)))) (al, 0)
        (plane_groups es p) = Inr (a, req)" and b: "b = align_up req a" and p: "p' = p"
    using assms(1) by (auto simp: plane_size_def result_simps)
  have "0 < packing_at packing g \<and> (\<forall>f \<in> set (group_fields es p g). 0 < fs_page_stride_alignment_bytes f)"
    if g: "g \<in> set (plane_groups es p)" for g
  proof -
    obtain f where "f \<in> set (group_fields es p g)"
      using g by (metis set_plane_groups list.set_intros(1) neq_Nil_conv)
    then have "(g, f) \<in> set es" by (simp add: set_group_fields)
    then have "0 < packing_at packing g" by (rule packing_at_pos [OF assms(3)])
    moreover have "0 < fs_page_stride_alignment_bytes f" if "f \<in> set (group_fields es p g)" for f
      using that assms(4) by (auto simp: set_group_fields field_geometry_ok_def)
    ultimately show ?thesis by blast
  qed
  then have A: "0 < a" "al dvd a" "0 \<le> req" "\<forall>g \<in> set (plane_groups es p). plane_fits es packing p a g req"
    using plane_fold [OF F assms(2)] by auto
  show "p' = p" by (rule p)
  show "0 \<le> b" using A by (simp add: b align_up_nonneg)
  show "al dvd b" using A align_up_dvd [of a req] b by (auto intro: dvd_trans)
  assume gf: "(g, f) \<in> set es" "fs_plane_id f = p"
  then have f: "f \<in> set (group_fields es p g)" by (simp add: set_group_fields)
  then have "plane_fits es packing p a g req" using A by (auto simp: set_plane_groups)
  moreover have "req \<le> b" "a dvd b" using A by (simp_all add: b align_up_ge align_up_dvd)
  ultimately show "packing_at packing g * group_plane_bytes es g p \<le> b \<and>
         packing_at packing g * fs_element_size f dvd b \<and>
         packing_at packing g * fs_page_stride_alignment_bytes f dvd b"
    using f by (auto simp: plane_fits_def intro: dvd_trans)
qed


section \<open>The packing covers the declared groups\<close>

lemma raw_fold:
  assumes "foldE (\<lambda>raw (group_id, field).
       raise_if (group_id = [] \<or> fs_field_id field = [] \<or> fs_plane_id field = [])
         (ValueError ''cache group id, field id and plane id must be non-empty'')
      (raise_if (\<not> field_geometry_ok field) (ValueError ''has invalid geometry'')
         (Inr (AList.update group_id (dict_get raw group_id 0 + fs_payload_bytes field) raw)))) acc es = Inr raw"
    and "distinct (map fst acc)"
  shows "(\<forall>(g, f) \<in> set es. field_geometry_ok f) \<and> distinct (map fst raw) \<and>
         set (map fst raw) = set (map fst acc) \<union> fst ` set es \<and>
         (\<forall>g. dict_get raw g 0 = dict_get acc g 0 +
            sum_list (map (\<lambda>(_, f). fs_payload_bytes f) (filter (\<lambda>(g', _). g' = g) es)))"
  using assms
proof (induction es arbitrary: acc)
  case (Cons e es)
  obtain g f where e: "e = (g, f)" by fastforce
  let ?acc = "AList.update g (dict_get acc g 0 + fs_payload_bytes f) acc"
  have ok: "field_geometry_ok f" using Cons.prems(1) e by (auto simp: result_simps)
  have "distinct (map fst ?acc)" using Cons.prems(2) by (simp add: distinct_update)
  from Cons.IH [OF _ this] Cons.prems(1) e ok show ?case
    by (auto simp: result_simps update_keys dict_simps)
qed simp

lemma sum_list_pos: "xs \<noteq> [] \<Longrightarrow> \<forall>x \<in> set xs. (0::int) < x \<Longrightarrow> 0 < sum_list xs"
  by (induction xs rule: list_nonempty_induct) auto

lemma raw_by_group_props:
  assumes "raw_by_group es = Inr raw"
  shows "\<forall>(g, f) \<in> set es. field_geometry_ok f" and "distinct (map fst raw)"
    and "set (map fst raw) = fst ` set es"
    and "(g, r) \<in> set raw \<Longrightarrow>
         r = sum_list (map (\<lambda>(_, f). fs_payload_bytes f) (filter (\<lambda>(g', _). g' = g) es)) \<and> 0 < r"
proof -
  note R = raw_fold [OF assms [unfolded raw_by_group_def]]
  show geo: "\<forall>(g, f) \<in> set es. field_geometry_ok f" and d: "distinct (map fst raw)"
    and keys: "set (map fst raw) = fst ` set es"
    using R by simp_all
  assume gr: "(g, r) \<in> set raw"
  let ?xs = "map (\<lambda>(_, f). fs_payload_bytes f) (filter (\<lambda>(g', _). g' = g) es)"
  have "map_of raw g = Some r" using gr d by simp
  moreover have "dict_get raw g 0 = sum_list ?xs" using R by simp
  ultimately have r: "r = sum_list ?xs" by (simp add: dict_get_def)
  have "g \<in> fst ` set es" using gr keys by force
  then have "?xs \<noteq> []" by (force simp: filter_empty_conv)
  moreover have "\<forall>x \<in> set ?xs. 0 < x" using geo geometry_payload_pos by fastforce
  ultimately have "0 < sum_list ?xs" by (rule sum_list_pos)
  with r show "r = sum_list ?xs \<and> 0 < r" by simp
qed

lemma ratio_packing_lookup:
  assumes "g \<in> set (map fst raw)"
  shows "\<exists>k. map_of (packing_by_group_ratio raw) g = Some k \<and> 0 < k"
proof -
  have "g \<in> set (map fst (packing_by_group_ratio raw))"
    using assms by (force simp: packing_by_group_ratio_def Let_def)
  then obtain k where "map_of (packing_by_group_ratio raw) g = Some k"
    by (metis map_of_eq_None_iff option.exhaust set_map)
  moreover from this have "0 < k"
    by (auto simp: packing_by_group_ratio_def Let_def dest!: map_of_SomeD)
  ultimately show ?thesis by blast
qed

lemma dict_update_covers:
  assumes "\<exists>k. map_of d g = Some k \<and> (0::int) < k" and "\<forall>(g, k) \<in> set other. 0 < k"
  shows "\<exists>k. map_of (dict_update d other) g = Some k \<and> 0 < k"
  using assms by (auto simp: dict_update_conv map_add_def split: option.split dest!: map_of_SomeD)

lemma solve_packing_distinct:
  assumes "solve_packing es = Done packing"
  shows "distinct (map fst packing)"
proof -
  have "distinct (map fst (fold (\<lambda>(_, ms) packing. dict_update packing (component_packing ms)) xs acc))"
    if "distinct (map fst acc)" for xs and acc :: "(string \<times> int) list"
    using that by (induction xs arbitrary: acc) (auto simp: distinct_dict_update)
  from this [of "[]"]
  show ?thesis using assms by (auto simp: solve_packing_def split: outcome.splits option.splits)
qed

lemma derive_packing_covers:
  assumes "derive_packing es raw pinned = Inr packing" and "raw_by_group es = Inr raw"
    and "\<forall>(g, k) \<in> set pinned. 0 < k"
  shows "packing_covers es packing"
proof -
  note raw = raw_by_group_props [OF assms(2)]
  have pp: "payloads_pos es" using raw(1) geometry_payload_pos by (auto simp: payloads_pos_def)
  have "\<exists>k. map_of packing g = Some k \<and> 0 < k" if g: "g \<in> set (map fst raw)" for g
  proof (cases "set (map fst pinned) = set (map fst raw)")
    case True
    then have "packing = pinned" using assms(1) by (simp add: derive_packing_def)
    moreover obtain k where "map_of pinned g = Some k"
      using g True by (metis map_of_eq_None_iff option.exhaust set_map)
    ultimately show ?thesis using assms(3) by (auto dest: map_of_SomeD)
  next
    case False
    note base = ratio_packing_lookup [OF g]
    show ?thesis
    proof (cases "solve_packing es")
      case Unsat
      with False assms(1) have "packing = dict_update (packing_by_group_ratio raw) pinned"
        by (simp add: derive_packing_def)
      then show ?thesis using dict_update_covers [OF base assms(3)] by simp
    next
      case (Done constrained)
      with False assms(1)
      have "packing = dict_update (dict_update (packing_by_group_ratio raw) constrained) pinned"
        by (simp add: derive_packing_def)
      moreover have "\<forall>(g, k) \<in> set constrained. 0 < k"
        using solve_packing_positive [OF pp Done] solve_packing_distinct [OF Done] by auto
      ultimately show ?thesis using dict_update_covers [OF dict_update_covers [OF base]] assms(3) by simp
    next
      case Loops
      with False assms(1) show ?thesis by (simp add: derive_packing_def)
    qed
  qed
  then show ?thesis using raw(3) by (simp add: packing_covers_def)
qed

lemma refine_flexible_covers:
  assumes "packing_covers es packing"
  shows "packing_covers es (refine_flexible es fixed_bytes g packing)"
proof -
  have up: "packing_covers es (AList.update g k packing)" if "1 \<le> k" for k
    using assms that by (auto simp: packing_covers_def update_conv')
  have "1 \<le> k" if "find P (rev [1..n]) = Some k" for P n k
    using that by (metis atLeastAtMost_iff find_Some_iff nth_mem set_rev set_upto)
  with up assms show ?thesis by (auto simp: refine_flexible_def Let_def split: option.split)
qed

lemma flexible_packing_covers:
  assumes "packing_covers es packing"
  shows "packing_covers es (flexible_packing es raw pinned packing alignment)"
proof -
  have "packing_covers es packing \<Longrightarrow> packing_covers es (fold (refine_flexible es fb) gs packing)" for gs fb packing
    by (induction gs arbitrary: packing) (auto simp: refine_flexible_covers)
  from this [OF assms] assms show ?thesis by (simp add: flexible_packing_def Let_def)
qed

section \<open>The assembled layout\<close>

lemma distinct_group_fields:
  "distinct (map (\<lambda>(_, f). fs_field_id f) es) \<Longrightarrow> distinct (map fs_field_id (group_fields es p g))"
  by (induction es) (auto simp: group_fields_def)

lemma field_id_unique:
  assumes "distinct (map (\<lambda>(_, f). fs_field_id f) es)" and "(g, f) \<in> set es" and "(g', f') \<in> set es"
    and "fs_field_id f = fs_field_id f'"
  shows "g' = g \<and> f' = f"
  using assms by (metis (mono_tags, lifting) case_prod_conv distinct_map inj_onD prod.inject)

lemma field_offsets_at:
  assumes d: "distinct (map (\<lambda>(_, f). fs_field_id f) es)" and gf: "(g, f) \<in> set es"
    and pos: "\<forall>(g, f) \<in> set es. 0 < fs_payload_bytes f"
  shows "map_of (field_offsets es) (fs_field_id f) =
         map_of (fst (place_fields 0 (group_fields es (fs_plane_id f) g))) (fs_field_id f)"
proof -
  let ?X = "concat (map (\<lambda>p. concat (map (\<lambda>g. fst (place_fields 0 (group_fields es p g)))
       (plane_groups es p))) (plane_ids es))"
  let ?P = "\<lambda>p g. fst (place_fields 0 (group_fields es p g))"
  have fin: "f \<in> set (group_fields es (fs_plane_id f) g)" using gf by (simp add: set_group_fields)
  have dk: "distinct (map fst (?P p h))" for p h
    by (simp only: place_fields_ids distinct_group_fields [OF d])
  have "\<forall>f \<in> set (group_fields es (fs_plane_id f) g). 0 < fs_payload_bytes f"
    using pos by (auto simp: set_group_fields)
  from place_fields_bounds [OF this order_refl distinct_group_fields [OF d] fin]
  obtain x where x: "map_of (?P (fs_plane_id f) g) (fs_field_id f) = Some x" by blast
  then have xin: "(fs_field_id f, x) \<in> set (?P (fs_plane_id f) g)" by (rule map_of_SomeD)
  moreover have "fs_plane_id f \<in> set (plane_ids es)" "g \<in> set (plane_groups es (fs_plane_id f))"
    using gf fin by (auto simp: set_plane_ids set_plane_groups)
  ultimately have mem: "(fs_field_id f, x) \<in> set (rev ?X)" by auto
  have "y = x" if y: "(fs_field_id f, y) \<in> set (rev ?X)" for y
  proof -
    from y obtain p h where ph: "(fs_field_id f, y) \<in> set (?P p h)" by auto
    then have "fs_field_id f \<in> set (map fst (?P p h))" by force
    then obtain f' where "f' \<in> set (group_fields es p h)" "fs_field_id f = fs_field_id f'"
      by (auto simp only: place_fields_ids set_map)
    then have "h = g" "p = fs_plane_id f"
      using field_id_unique [OF d gf] by (auto simp: set_group_fields)
    with ph xin dk show ?thesis by (metis eq_key_imp_eq_value)
  qed
  then have "map_of (rev ?X) (fs_field_id f) = Some x" using mem by (rule map_of_unique [rotated])
  moreover have "map_of (field_offsets es) = map_of (rev ?X)"
    unfolding field_offsets_def dict_update_conv by simp
  ultimately show ?thesis using x by (simp only:)
qed

text \<open>What \<^verbatim>\<open>assemble_layout\<close> gives one declared field.\<close>

lemma field_layout_fits:
  assumes d: "distinct (map (\<lambda>(_, f). fs_field_id f) es)" and gf: "(g, f) \<in> set es"
    and geo: "\<forall>(g, f) \<in> set es. field_geometry_ok f" and cov: "packing_covers es packing" and "0 < al"
    and b: "plane_size es packing al (fs_plane_id f) = Inr (p, b)"
  shows "\<exists>x. map_of (field_offsets es) (fs_field_id f) = Some x \<and> 0 \<le> x \<and> x mod fs_element_size f = 0 \<and>
           x + fs_payload_bytes f \<le> b div packing_at packing g \<and>
           b div packing_at packing g * packing_at packing g = b \<and>
           (b div packing_at packing g) mod fs_element_size f = 0 \<and> 0 \<le> b"
proof -
  let ?k = "packing_at packing g" and ?fs = "group_fields es (fs_plane_id f) g"
  have k: "0 < ?k" by (rule packing_at_pos [OF cov gf])
  note B = plane_size_props [OF b \<open>0 < al\<close> cov geo]
  have need: "?k * group_plane_bytes es g (fs_plane_id f) \<le> b" "?k * fs_element_size f dvd b"
    using B(4) [OF gf] by auto
  have pos: "\<forall>(g, f) \<in> set es. 0 < fs_payload_bytes f" using geo geometry_payload_pos by auto
  then have fpos: "\<forall>f \<in> set ?fs. 0 < fs_payload_bytes f" by (auto simp: set_group_fields)
  have fin: "f \<in> set ?fs" using gf by (simp add: set_group_fields)
  obtain x where x: "map_of (fst (place_fields 0 ?fs)) (fs_field_id f) = Some x" "0 \<le> x"
    "x mod fs_element_size f = 0" "x + fs_payload_bytes f \<le> group_plane_bytes es g (fs_plane_id f)"
    using place_fields_bounds [OF fpos order_refl distinct_group_fields [OF d] fin]
    unfolding group_plane_bytes_def by (elim exE conjE)
  from need(2) obtain c where c: "b = ?k * fs_element_size f * c" by (rule dvdE)
  then have stride: "b div ?k = fs_element_size f * c" using k by (simp add: mult.assoc)
  have "group_plane_bytes es g (fs_plane_id f) \<le> b div ?k"
    using need(1) k by (simp add: int_le_div_iff mult.commute)
  then have "x + fs_payload_bytes f \<le> b div ?k" using x(4) by linarith
  moreover have "b div ?k * ?k = b" using c stride by simp
  moreover have "(b div ?k) mod fs_element_size f = 0" using stride by simp
  ultimately show ?thesis using x field_offsets_at [OF d gf pos] B(2) by (intro exI [of _ x]) simp
qed

text \<open>The stages of an accepted \<^verbatim>\<open>assemble_layout\<close>, named.\<close>

lemma assemble_layout_stages:
  assumes "assemble_layout es raw packing pg al mp = Inr L"
  obtains pb where "list_all2 (\<lambda>p y. plane_size es packing al p = Inr y) (plane_ids es) pb"
    and "\<forall>(g, f) \<in> set es. fs_exact_page_stride f \<longrightarrow>
           the (map_of pb (fs_plane_id f)) div packing_at packing g = fs_payload_bytes f"
    and "align_up (sum_list (map snd pb)) al \<le> MAX_LCM_BLOCK_BYTES"
    and "\<forall>gr \<in> set raw. \<not> padding_too_large (align_up (sum_list (map snd pb)) al) packing mp gr"
    and "L = \<lparr>cl_prefix_granularity = pg, cl_lcm_block_bytes = align_up (sum_list (map snd pb)) al,
          cl_group_packing = map (\<lambda>g. (g, packing_at packing g)) (sort (map fst raw)),
          cl_plane_bytes = sort_key fst pb, cl_fields = field_layouts es pb packing\<rparr>"
  using assms
  by (auto simp: assemble_layout_def Let_def result_simps mapE_Inr_iff check_exact_page_strides_def
      list_ex_iff split: prod.splits)

lemma plane_sizes_lookup:
  assumes all: "list_all2 (\<lambda>p y. plane_size es packing al p = Inr y) (plane_ids es) pb"
    and al: "0 < al" and cov: "packing_covers es packing" and geo: "\<forall>(g, f) \<in> set es. field_geometry_ok f"
  shows "map fst pb = plane_ids es" and "\<forall>(p, b) \<in> set pb. 0 \<le> b"
    and "(g, f) \<in> set es \<Longrightarrow> \<exists>b. map_of pb (fs_plane_id f) = Some b \<and>
           plane_size es packing al (fs_plane_id f) = Inr (fs_plane_id f, b)"
proof -
  have step: "list_all2 (\<lambda>p y. plane_size es packing al p = Inr y \<and> fst y = p \<and> 0 \<le> snd y) (plane_ids es) pb"
    using all
  proof (rule list_all2_mono)
    fix p y assume y: "plane_size es packing al p = Inr y"
    then have "plane_size es packing al p = Inr (fst y, snd y)" by simp
    from plane_size_props(1,2) [OF this al cov geo] y
    show "plane_size es packing al p = Inr y \<and> fst y = p \<and> 0 \<le> snd y" by blast
  qed
  then show keys: "map fst pb = plane_ids es" by (auto simp: list_all2_conv_all_nth intro: nth_equalityI)
  show "\<forall>(p, b) \<in> set pb. 0 \<le> b" using step by (fastforce simp: list_all2_conv_all_nth in_set_conv_nth)
  assume "(g, f) \<in> set es"
  then have "fs_plane_id f \<in> set (plane_ids es)" by (auto simp: set_plane_ids)
  then obtain i where i: "i < length pb" "plane_ids es ! i = fs_plane_id f"
    using keys by (metis in_set_conv_nth length_map)
  with step have y: "plane_size es packing al (fs_plane_id f) = Inr (pb ! i)" "fst (pb ! i) = fs_plane_id f"
    by (auto simp: list_all2_conv_all_nth)
  moreover have "distinct (map fst pb)" by (simp add: keys plane_ids_def)
  ultimately show "\<exists>b. map_of pb (fs_plane_id f) = Some b \<and>
           plane_size es packing al (fs_plane_id f) = Inr (fs_plane_id f, b)"
    using i(1) by (intro exI [of _ "snd (pb ! i)"]) (metis map_of_is_SomeI nth_mem prod.collapse)
qed

lemma group_packing_lookup:
  "g \<in> set (map fst raw) \<Longrightarrow>
   map_of (map (\<lambda>g. (g, packing_at packing g)) (sort (map fst raw))) g = Some (packing_at packing g)"
  by (simp add: map_of_map_restrict)

lemma assemble_layout_ok:
  assumes L: "assemble_layout es raw packing pg al mp = Inr L" and raw: "raw_by_group es = Inr raw"
    and cov: "packing_covers es packing" and al: "0 < al"
    and d: "distinct (map (\<lambda>(_, f). fs_field_id f) es)"
  shows "layout_ok L"
proof -
  from L obtain pb where all: "list_all2 (\<lambda>p y. plane_size es packing al p = Inr y) (plane_ids es) pb"
    and Leq: "L = \<lparr>cl_prefix_granularity = pg, cl_lcm_block_bytes = align_up (sum_list (map snd pb)) al,
          cl_group_packing = map (\<lambda>g. (g, packing_at packing g)) (sort (map fst raw)),
          cl_plane_bytes = sort_key fst pb, cl_fields = field_layouts es pb packing\<rparr>"
    by (rule assemble_layout_stages)
  note R = raw_by_group_props [OF raw]
  note P = plane_sizes_lookup [OF all al cov R(1)]
  have dpb: "distinct (map fst pb)" by (simp add: P(1) plane_ids_def)
  have pos: "\<forall>(g, f) \<in> set es. 0 < fs_payload_bytes f" using R(1) geometry_payload_pos by auto
  let ?lay = "\<lambda>(g, f). \<lparr>fl_group_id = g, fl_field_id = fs_field_id f, fl_plane_id = fs_plane_id f,
        fl_shape = fs_shape f, fl_dtype = fs_dtype f,
        fl_field_offset_bytes = the (map_of (field_offsets es) (fs_field_id f)),
        fl_page_stride_bytes = the (map_of pb (fs_plane_id f)) div packing_at packing g\<rparr>"
  have cf: "cl_fields L = map ?lay es" by (simp add: Leq field_layouts_def)
  have pay: "fl_payload_bytes (?lay (g, f)) = fs_payload_bytes f"
    "fl_element_size (?lay (g, f)) = fs_element_size f" for g f
    by (simp_all add: fl_payload_bytes_def fs_payload_bytes_def fl_element_size_def fs_element_size_def)
  have fits: "field_fits L (?lay (g, f))" if gf: "(g, f) \<in> set es" for g f
  proof -
    obtain b where b: "map_of pb (fs_plane_id f) = Some b"
      and psz: "plane_size es packing al (fs_plane_id f) = Inr (fs_plane_id f, b)" using P(3) [OF gf] by blast
    have g: "g \<in> set (map fst raw)" using gf R(3) by force
    from field_layout_fits [OF d gf R(1) cov al psz] packing_at_pos [OF cov gf] gf pos b
    show ?thesis
      unfolding field_fits_def pay
      by (auto simp: Leq group_packing_lookup [OF g] map_of_sort_key [OF dpb])
  qed
  have disj: "disjoint_ranges (fl_field_offset_bytes (?lay (g, f))) (fs_payload_bytes f)
                (fl_field_offset_bytes (?lay (g, f'))) (fs_payload_bytes f')"
    if gf: "(g, f) \<in> set es" "(g, f') \<in> set es" "fs_field_id f \<noteq> fs_field_id f'"
      "fs_plane_id f = fs_plane_id f'" for g f f'
  proof -
    let ?fs = "group_fields es (fs_plane_id f) g"
    have in2: "f \<in> set ?fs" "f' \<in> set ?fs" using gf by (auto simp: set_group_fields)
    have fpos: "\<forall>f \<in> set ?fs. 0 < fs_payload_bytes f" using pos by (auto simp: set_group_fields)
    note bnd = place_fields_bounds [OF fpos order_refl distinct_group_fields [OF d]]
    from bnd [OF in2(1)] bnd [OF in2(2)] obtain x x' where
      x: "map_of (fst (place_fields 0 ?fs)) (fs_field_id f) = Some x"
         "map_of (fst (place_fields 0 ?fs)) (fs_field_id f') = Some x'" by (elim exE conjE)
    from place_fields_disjoint [OF fpos order_refl distinct_group_fields [OF d] in2 gf(3) x] x
    show ?thesis using field_offsets_at [OF d gf(1) pos] field_offsets_at [OF d gf(2) pos] gf(4) by simp
  qed
  show ?thesis
    unfolding layout_ok_def
  proof (intro conjI)
    show "distinct (map fst (cl_group_packing L))" using R(2) by (simp add: Leq comp_def)
    show "distinct (map fst (cl_plane_bytes L))"
      using dpb mset_eq_imp_distinct_iff [of "map fst (sort_key fst pb)" "map fst pb"] by (simp add: Leq)
    show "distinct (map fl_field_id (cl_fields L))"
      using d by (simp add: cf comp_def case_prod_unfold)
    show "\<forall>(p, b) \<in> set (cl_plane_bytes L). 0 \<le> b" using P(2) by (simp add: Leq)
    show "\<forall>(g, k) \<in> set (cl_group_packing L). 0 < k"
    proof (intro ballI, clarify)
      fix g k assume "(g, k) \<in> set (cl_group_packing L)"
      then have "g \<in> set (map fst raw)" "k = packing_at packing g" by (auto simp: Leq)
      moreover from this(1) obtain f where "(g, f) \<in> set es" using R(3) by force
      ultimately show "0 < k" by (simp add: packing_at_pos [OF cov])
    qed
    have "mset (map snd (sort_key fst pb)) = mset (map snd pb)" by (simp only: mset_map mset_sort)
    then have "sum_list (map snd (sort_key fst pb)) = sum_list (map snd pb)"
      by (metis sum_mset_sum_list)
    then show "sum_list (map snd (cl_plane_bytes L)) \<le> cl_lcm_block_bytes L"
      using al by (simp add: Leq align_up_ge)
    show "\<forall>f \<in> set (cl_fields L). field_fits L f" using fits by (auto simp only: cf set_map)
    show "\<forall>f \<in> set (cl_fields L). \<forall>f' \<in> set (cl_fields L).
        fl_field_id f \<noteq> fl_field_id f' \<and> fl_group_id f = fl_group_id f' \<and>
        fl_plane_id f = fl_plane_id f' \<longrightarrow>
        disjoint_ranges (fl_field_offset_bytes f) (fl_payload_bytes f)
                        (fl_field_offset_bytes f') (fl_payload_bytes f')"
    proof (intro ballI impI, elim conjE)
      fix l l' assume in2: "l \<in> set (cl_fields L)" "l' \<in> set (cl_fields L)"
        and ne: "fl_field_id l \<noteq> fl_field_id l'" and g: "fl_group_id l = fl_group_id l'"
        and p: "fl_plane_id l = fl_plane_id l'"
      from in2 obtain g f g' f' where e: "(g, f) \<in> set es" "(g', f') \<in> set es"
        and l: "l = ?lay (g, f)" "l' = ?lay (g', f')" by (auto simp only: cf set_map image_iff)
      from g l have "g' = g" by simp
      with disj [OF e(1), of f'] e ne p
      show "disjoint_ranges (fl_field_offset_bytes l) (fl_payload_bytes l)
                        (fl_field_offset_bytes l') (fl_payload_bytes l')"
        unfolding l pay by simp
    qed
  qed
qed

lemma pack_stages:
  assumes "pack groups pg pinned al mp = Inr L"
  obtains raw packing where "raw_by_group (ordered_fields groups) = Inr raw"
    and "derive_packing (ordered_fields groups) raw pinned = Inr packing"
    and "assemble_layout (ordered_fields groups) raw
           (flexible_packing (ordered_fields groups) raw pinned packing al) pg al mp = Inr L"
    and "0 < al" and "\<not> float_less mp (Finite 0)" and "distinct (map (\<lambda>(_, f). fs_field_id f) (ordered_fields groups))"
    and "set (map fst pinned) \<subseteq> set (map fst raw)" and "\<forall>(g, k) \<in> set pinned. 0 < k"
  using assms
  by (force simp: pack_def check_declaration_def check_pinned_def Let_def result_simps list_ex_iff not_le not_less)

lemma pack_covers:
  assumes "raw_by_group es = Inr raw" and "derive_packing es raw pinned = Inr packing"
    and "\<forall>(g, k) \<in> set pinned. 0 < k"
  shows "packing_covers es (flexible_packing es raw pinned packing al)"
  by (intro flexible_packing_covers derive_packing_covers [OF assms(2,1,3)])

lemma mset_ordered_fields:
  "mset (ordered_fields groups) = mset (concat (map (\<lambda>(spec, fs). map (\<lambda>f. (gs_group_id spec, f)) fs) groups))"
  by (simp only: ordered_fields_def mset_sort)

lemma set_ordered_fields:
  "set (ordered_fields groups) = {(gs_group_id spec, f) | spec f fs. (spec, fs) \<in> set groups \<and> f \<in> set fs}"
  by (subst mset_eq_setD [OF mset_ordered_fields]) force

lemma pinned_kept:
  assumes "derive_packing es raw pinned = Inr packing" and "distinct (map fst pinned)" and "(g, k) \<in> set pinned"
  shows "packing_at (flexible_packing es raw pinned packing al) g = k"
proof -
  have look: "map_of pinned g = Some k" "map_of (rev pinned) g = Some k"
    using assms(2,3) by (simp_all add: map_of_rev_distinct)
  then have "map_of packing g = Some k"
    using assms(1) by (auto simp: derive_packing_def dict_update_conv split: if_splits outcome.splits)
  moreover have "flexible_packing es raw pinned packing al = packing"
    using assms(3) by (auto simp: flexible_packing_def Let_def)
  ultimately show ?thesis by (simp add: packing_at_def)
qed

lemma packed_layout_ok: "pack groups pg pinned al mp = Inr L \<Longrightarrow> layout_ok L"
  by (erule pack_stages) (rule assemble_layout_ok [OF _ _ pack_covers])

text \<open>C2: a layout that \<^verbatim>\<open>pack\<close> returns is well formed. Group ids, plane ids and field ids are
  unique; the planes fit in the block; every field's page stride times its group's packing
  is exactly its plane's bytes; the field lies inside its page, element aligned; and two
  fields of one group on one plane never overlap inside a page.\<close>

theorem pack_layout_ok:
  assumes "pack groups pg pinned al mp = Inr L"
  shows "layout_ok L"
  by (rule packed_layout_ok [OF assms])

lemma group_payload_sum:
  "sum_list (map (\<lambda>(_, f). fs_payload_bytes f) (filter (\<lambda>(g', _). g' = g) (ordered_fields groups))) =
   sum_list (map (\<lambda>(spec, fs). if gs_group_id spec = g then sum_list (map fs_payload_bytes fs) else 0) groups)"
proof -
  let ?D = "concat (map (\<lambda>(spec, fs). map (\<lambda>f. (gs_group_id spec, f)) fs) groups)"
  let ?h = "\<lambda>es. sum_list (map (\<lambda>(_, f). fs_payload_bytes f) (filter (\<lambda>(g', _). g' = g) es))"
  have "?h (ordered_fields groups) = sum_mset (image_mset (\<lambda>(_, f). fs_payload_bytes f)
          (filter_mset (\<lambda>(g', _). g' = g) (mset (ordered_fields groups))))"
    by (metis (no_types, lifting) mset_filter mset_map sum_mset_sum_list)
  also have "\<dots> = ?h ?D"
    unfolding mset_ordered_fields by (metis (no_types, lifting) mset_filter mset_map sum_mset_sum_list)
  also have "?h ?D = sum_list (map (\<lambda>(spec, fs).
      if gs_group_id spec = g then sum_list (map fs_payload_bytes fs) else 0) groups)"
    by (induction groups) (auto simp: comp_def filter_map)
  finally show ?thesis .
qed

text \<open>Facts of an accepted declaration, one declared field or group at a time.\<close>

lemma assembled_field:
  assumes L: "assemble_layout es raw packing pg al mp = Inr L" and raw: "raw_by_group es = Inr raw"
    and cov: "packing_covers es packing" and al: "0 < al" and gf: "(g, f) \<in> set es"
  shows "\<exists>l \<in> set (cl_fields L). fl_group_id l = g \<and> fl_field_id l = fs_field_id f \<and>
           fl_plane_id l = fs_plane_id f \<and> fl_shape l = fs_shape f \<and> fl_dtype l = fs_dtype f \<and>
           fs_page_stride_alignment_bytes f dvd fl_page_stride_bytes l \<and>
           (fs_exact_page_stride f \<longrightarrow> fl_page_stride_bytes l = fs_payload_bytes f)"
proof -
  from L obtain pb where all: "list_all2 (\<lambda>p y. plane_size es packing al p = Inr y) (plane_ids es) pb"
    and ex: "\<forall>(g, f) \<in> set es. fs_exact_page_stride f \<longrightarrow>
           the (map_of pb (fs_plane_id f)) div packing_at packing g = fs_payload_bytes f"
    and cf: "cl_fields L = field_layouts es pb packing"
    by (rule assemble_layout_stages) simp
  note R = raw_by_group_props(1) [OF raw]
  obtain b where b: "map_of pb (fs_plane_id f) = Some b"
    and psz: "plane_size es packing al (fs_plane_id f) = Inr (fs_plane_id f, b)"
    using plane_sizes_lookup(3) [OF all al cov R gf] by blast
  have "packing_at packing g * fs_page_stride_alignment_bytes f dvd b"
    using plane_size_props(4) [OF psz al cov R gf] by simp
  then have "fs_page_stride_alignment_bytes f dvd b div packing_at packing g"
    using packing_at_pos [OF cov gf] by (auto elim!: dvdE simp: mult.assoc)
  moreover have "fs_exact_page_stride f \<longrightarrow> b div packing_at packing g = fs_payload_bytes f"
    using ex gf b by auto
  ultimately show ?thesis
    unfolding cf field_layouts_def using gf b by (intro rev_bexI [OF imageI [OF gf], folded set_map]) auto
qed

text \<open>A padding fraction within the budget bounds the exact padding, up to its four roundings.\<close>

lemma padding_fraction_bound:
  assumes "0 \<le> a" "0 < k" "0 < raw" "0 \<le> b" "padding_fraction a k raw \<le> b"
  shows "of_int a \<le> (1 + b) * (1 + 1 / 2 ^ 50) * of_int (k * raw)"
proof -
  let ?c = "1 - 1 / 2 ^ 53 :: rat"
  define s where "s = double (of_int a / of_int k)"
  define r where "r = double (of_int raw)"
  have s: "of_int a / of_int k * ?c \<le> s" unfolding s_def by (rule double_pos) (use assms in simp)
  have raw: "0 \<le> (of_int raw :: rat)" using assms(3) by simp
  have "of_int raw * ?c \<le> r" and r: "r \<le> of_int raw * (1 + 1 / 2 ^ 53)" unfolding r_def by (rule double_pos [OF raw])+
  moreover have "0 < of_int raw * ?c" using assms(3) by simp
  ultimately have pos: "0 < r" by linarith
  have "?c ^ 2 * (s - r) \<le> b * r"
  proof (cases "s \<le> r")
    case True
    then have "?c ^ 2 * (s - r) \<le> 0" by (intro mult_nonneg_nonpos) simp_all
    also have "0 \<le> b * r" using assms(4) pos by simp
    finally show ?thesis .
  next
    case False
    let ?d = "double (s - r)"
    have d: "(s - r) * ?c \<le> ?d" using double_pos(1) [of "s - r"] False by simp
    then have "0 \<le> ?d" using False by (simp add: mult_nonneg_nonneg order_trans [OF _ d])
    then have "?d / r * ?c \<le> double (?d / r)" using pos by (intro double_pos(1)) simp
    also have "\<dots> \<le> b" using assms(5) by (simp add: padding_fraction_def Let_def s_def r_def)
    finally have "?d * ?c \<le> b * r" using pos by (simp add: field_simps)
    moreover have "(s - r) * ?c * ?c \<le> ?d * ?c" by (rule mult_right_mono [OF d]) simp
    ultimately show ?thesis by (simp add: power2_eq_square algebra_simps)
  qed
  then have "?c ^ 2 * s \<le> (?c ^ 2 + b) * r" by (simp add: algebra_simps)
  also have "\<dots> \<le> (1 + b) * r" by (rule mult_right_mono) (use pos in \<open>simp_all add: power2_eq_square\<close>)
  also have "\<dots> \<le> (1 + b) * (of_int raw * (1 + 1 / 2 ^ 53))" by (rule mult_left_mono [OF r]) (use assms(4) in simp)
  finally have "?c ^ 2 * s \<le> (1 + b) * (of_int raw * (1 + 1 / 2 ^ 53))" .
  moreover have "?c ^ 2 * (of_int a / of_int k * ?c) \<le> ?c ^ 2 * s" by (rule mult_left_mono [OF s]) simp
  ultimately have "?c ^ 3 * (of_int a / of_int k) \<le> (1 + b) * of_int raw * (1 + 1 / 2 ^ 53)" by (simp add: power3_eq_cube power2_eq_square algebra_simps)
  also have "\<dots> \<le> (1 + b) * of_int raw * (?c ^ 3 * (1 + 1 / 2 ^ 50))"
    by (rule mult_left_mono) (use assms(3,4) in \<open>simp_all add: power3_eq_cube\<close>)
  finally have "?c ^ 3 * (of_int a / of_int k) \<le> ?c ^ 3 * ((1 + b) * of_int raw * (1 + 1 / 2 ^ 50))" by (simp only: ac_simps)
  then have "of_int a / of_int k \<le> (1 + b) * of_int raw * (1 + 1 / 2 ^ 50)" by (rule mult_left_le_imp_le) simp
  then show ?thesis using assms(2) by (simp add: field_simps)
qed

lemma assembled_padding:
  assumes L: "assemble_layout es raw packing pg al (Finite b) = Inr L" and raw: "raw_by_group es = Inr raw"
    and cov: "packing_covers es packing" and al: "0 < al" and gr: "(g, r) \<in> set raw" and b: "0 \<le> b"
  shows "of_int (cl_lcm_block_bytes L) \<le> (1 + b) * (1 + 1 / 2 ^ 50) * of_int (packing_at packing g * r)"
proof -
  have p: "\<not> padding_too_large (cl_lcm_block_bytes L) packing (Finite b) (g, r)"
    using L by (rule assemble_layout_stages) (use gr in auto)
  have r: "0 < r" using raw_by_group_props(4) [OF raw gr] by simp
  obtain f where "(g, f) \<in> set es" using gr raw_by_group_props(3) [OF raw] by force
  then have k: "0 < packing_at packing g" by (rule packing_at_pos [OF cov])
  have frac: "padding_fraction (cl_lcm_block_bytes L) (packing_at packing g) r \<le> b"
    using p by (simp add: padding_too_large_def)
  show ?thesis
  proof (cases "0 \<le> cl_lcm_block_bytes L")
    case True
    then show ?thesis by (rule padding_fraction_bound [OF _ k r b frac])
  next
    case False
    then have "(of_int (cl_lcm_block_bytes L) :: rat) \<le> 0" by simp
    also have "0 \<le> (1 + b) * (1 + 1 / 2 ^ 50) * of_int (packing_at packing g * r)" using b k r by simp
    finally show ?thesis .
  qed
qed

text \<open>C9: an accepted declaration is honoured in full. Every declared field is in the layout
  with its plane, shape and dtype, and no other field is; its page stride is a multiple of
  the alignment the field asks for and, for an exact field, equals its payload. A pinned
  packing is kept. The block size is aligned and within the limit. When the padding budget is a
  finite float, the share of the block of every group's page exceeds its payload by at most the budget,
  up to the roundings of the float check, a factor of \<open>1 + 2^-50\<close>; an infinite budget accepts any padding.\<close>

theorem pack_honours_declaration:
  assumes "pack groups pg pinned al mp = Inr L" and "distinct (map fst pinned)"
  shows "(\<forall>(spec, fs) \<in> set groups. \<forall>f \<in> set fs. \<exists>l \<in> set (cl_fields L).
            fl_group_id l = gs_group_id spec \<and> fl_field_id l = fs_field_id f \<and>
            fl_plane_id l = fs_plane_id f \<and> fl_shape l = fs_shape f \<and> fl_dtype l = fs_dtype f \<and>
            fs_page_stride_alignment_bytes f dvd fl_page_stride_bytes l \<and>
            (fs_exact_page_stride f \<longrightarrow> fl_page_stride_bytes l = fs_payload_bytes f)) \<and>
         length (cl_fields L) = sum_list (map (\<lambda>(_, fs). length fs) groups) \<and>
         (\<forall>(g, k) \<in> set pinned. map_of (cl_group_packing L) g = Some k) \<and>
         al dvd cl_lcm_block_bytes L \<and> cl_lcm_block_bytes L \<le> MAX_LCM_BLOCK_BYTES \<and>
         cl_prefix_granularity L = pg \<and>
         (\<forall>b. mp = Finite b \<longrightarrow> 0 \<le> b \<and> (\<forall>(g, k) \<in> set (cl_group_packing L).
            of_int (cl_lcm_block_bytes L) \<le> (1 + b) * (1 + 1 / 2 ^ 50) * of_int (k *
              sum_list (map (\<lambda>(spec, fs). if gs_group_id spec = g then sum_list (map fs_payload_bytes fs) else 0)
                groups))))"
proof -
  let ?es = "ordered_fields groups"
  from assms(1) obtain raw packing where raw: "raw_by_group ?es = Inr raw"
    and dp: "derive_packing ?es raw pinned = Inr packing"
    and A: "assemble_layout ?es raw (flexible_packing ?es raw pinned packing al) pg al mp = Inr L"
    and al: "0 < al" and sub: "set (map fst pinned) \<subseteq> set (map fst raw)"
    and pos: "\<forall>(g, k) \<in> set pinned. 0 < k"
    by (rule pack_stages)
  let ?pk = "flexible_packing ?es raw pinned packing al"
  note cov = pack_covers [OF raw dp pos, of al]
  from A obtain pb where Leq: "L = \<lparr>cl_prefix_granularity = pg,
          cl_lcm_block_bytes = align_up (sum_list (map snd pb)) al,
          cl_group_packing = map (\<lambda>g. (g, packing_at ?pk g)) (sort (map fst raw)),
          cl_plane_bytes = sort_key fst pb, cl_fields = field_layouts ?es pb ?pk\<rparr>"
    and lim: "align_up (sum_list (map snd pb)) al \<le> MAX_LCM_BLOCK_BYTES"
    by (rule assemble_layout_stages)
  show ?thesis
  proof (intro conjI)
    show "\<forall>(spec, fs) \<in> set groups. \<forall>f \<in> set fs. \<exists>l \<in> set (cl_fields L).
            fl_group_id l = gs_group_id spec \<and> fl_field_id l = fs_field_id f \<and>
            fl_plane_id l = fs_plane_id f \<and> fl_shape l = fs_shape f \<and> fl_dtype l = fs_dtype f \<and>
            fs_page_stride_alignment_bytes f dvd fl_page_stride_bytes l \<and>
            (fs_exact_page_stride f \<longrightarrow> fl_page_stride_bytes l = fs_payload_bytes f)"
    proof (intro ballI, clarify)
      fix spec fs f assume "(spec, fs) \<in> set groups" "f \<in> set fs"
      then have "(gs_group_id spec, f) \<in> set ?es" by (auto simp: set_ordered_fields)
      from assembled_field [OF A raw cov al this]
      show "\<exists>l \<in> set (cl_fields L).
            fl_group_id l = gs_group_id spec \<and> fl_field_id l = fs_field_id f \<and>
            fl_plane_id l = fs_plane_id f \<and> fl_shape l = fs_shape f \<and> fl_dtype l = fs_dtype f \<and>
            fs_page_stride_alignment_bytes f dvd fl_page_stride_bytes l \<and>
            (fs_exact_page_stride f \<longrightarrow> fl_page_stride_bytes l = fs_payload_bytes f)" .
    qed
    show "length (cl_fields L) = sum_list (map (\<lambda>(_, fs). length fs) groups)"
      by (simp add: Leq field_layouts_def ordered_fields_def length_concat comp_def case_prod_unfold)
    show "\<forall>(g, k) \<in> set pinned. map_of (cl_group_packing L) g = Some k"
    proof (intro ballI, clarify)
      fix g k assume gk: "(g, k) \<in> set pinned"
      then have "g \<in> set (map fst raw)" using sub by force
      with pinned_kept [OF dp assms(2) gk, of al] show "map_of (cl_group_packing L) g = Some k"
        by (simp add: Leq group_packing_lookup del: set_map)
    qed
    show "al dvd cl_lcm_block_bytes L" "cl_lcm_block_bytes L \<le> MAX_LCM_BLOCK_BYTES"
      "cl_prefix_granularity L = pg" using lim by (simp_all add: Leq align_up_dvd)
    have "0 \<le> b" if "mp = Finite b" for b
      using assms(1) that by (auto simp: pack_def check_declaration_def result_simps)
    moreover have "of_int (cl_lcm_block_bytes L) \<le> (1 + b) * (1 + 1 / 2 ^ 50) * of_int (k *
        sum_list (map (\<lambda>(spec, fs). if gs_group_id spec = g then sum_list (map fs_payload_bytes fs) else 0) groups))"
      if mp: "mp = Finite b" "0 \<le> b" and gk: "(g, k) \<in> set (cl_group_packing L)" for b g k
    proof -
      from gk obtain r where gr: "(g, r) \<in> set raw" and k: "k = packing_at ?pk g" by (auto simp: Leq)
      have "r = sum_list (map (\<lambda>(spec, fs). if gs_group_id spec = g then sum_list (map fs_payload_bytes fs) else 0)
              groups)"
        using raw_by_group_props(4) [OF raw gr] by (simp only: group_payload_sum)
      with assembled_padding [OF A [unfolded mp(1)] raw cov al gr mp(2)] k show ?thesis by (simp only:)
    qed
    ultimately show "\<forall>b. mp = Finite b \<longrightarrow> 0 \<le> b \<and> (\<forall>(g, k) \<in> set (cl_group_packing L).
            of_int (cl_lcm_block_bytes L) \<le> (1 + b) * (1 + 1 / 2 ^ 50) * of_int (k *
              sum_list (map (\<lambda>(spec, fs). if gs_group_id spec = g then sum_list (map fs_payload_bytes fs) else 0)
                groups)))" by blast
  qed
qed

section \<open>A concrete declaration\<close>

definition demo_spec :: "string \<Rightarrow> cache_group_spec" where
  "demo_spec g = \<lparr>gs_group_id = g, gs_attn_kind = Full_history, gs_rows_per_page = Some 2,
     gs_entry_stride_tokens = Some 1, gs_sliding_window_tokens = None, gs_replayable = False,
     gs_transfer_policy = None, gs_shard_count = 1\<rparr>"

definition demo_groups :: "(cache_group_spec \<times> cache_field_spec list) list" where
  "demo_groups = [(demo_spec ''a'', [demo_field ''layer.0.k'' ''u'' [6] True, demo_field ''layer.0.s'' ''v'' [3] False]),
                  (demo_spec ''b'', [demo_field ''layer.1.k'' ''u'' [4] True])]"

definition demo_layout :: cache_layout where
  "demo_layout = \<lparr>cl_prefix_granularity = 2, cl_lcm_block_bytes = 18,
     cl_group_packing = [(''a'', 2), (''b'', 3)], cl_plane_bytes = [(''u'', 12), (''v'', 6)],
     cl_fields = [
      \<lparr>fl_group_id = ''a'', fl_field_id = ''layer.0.k'', fl_plane_id = ''u'', fl_shape = [6],
        fl_dtype = DT_uint8, fl_field_offset_bytes = 0, fl_page_stride_bytes = 6\<rparr>,
      \<lparr>fl_group_id = ''b'', fl_field_id = ''layer.1.k'', fl_plane_id = ''u'', fl_shape = [4],
        fl_dtype = DT_uint8, fl_field_offset_bytes = 0, fl_page_stride_bytes = 4\<rparr>,
      \<lparr>fl_group_id = ''a'', fl_field_id = ''layer.0.s'', fl_plane_id = ''v'', fl_shape = [3],
        fl_dtype = DT_uint8, fl_field_offset_bytes = 0, fl_page_stride_bytes = 3\<rparr>]\<rparr>"

lemma demo_packed: "pack demo_groups 2 [] 2 (Finite 1) = Inr demo_layout"
  by code_simp

theorem pack_layout_ok_witness: "layout_ok demo_layout"
  by (rule pack_layout_ok [OF demo_packed])

theorem pack_honours_declaration_witness:
  "length (cl_fields demo_layout) = 3 \<and> 2 dvd cl_lcm_block_bytes demo_layout \<and>
   (18 :: rat) \<le> (1 + 1) * (1 + 1 / 2 ^ 50) * of_int (2 * (6 + 3))"
proof -
  have "distinct (map fst ([] :: (string \<times> int) list))" by simp
  note H = pack_honours_declaration [OF demo_packed this]
  have "(''a'', 2) \<in> set (cl_group_packing demo_layout)" by (simp add: demo_layout_def)
  with H have "of_int (cl_lcm_block_bytes demo_layout) \<le> (1 + 1 :: rat) * (1 + 1 / 2 ^ 50) * of_int (2 *
      sum_list (map (\<lambda>(spec, fs). if gs_group_id spec = ''a'' then sum_list (map fs_payload_bytes fs) else 0) demo_groups))" by blast
  with H show ?thesis
    by (simp add: demo_groups_def demo_spec_def demo_layout_def demo_field_def fs_payload_bytes_def)
qed

end
