(* ===== verification/Layer_Groups.thy ===== *)
theory Layer_Groups
  imports Pack
begin

text \<open>
  How layers become cache groups, \<^verbatim>\<open>kv_cache/recipes/spec.py\<close>: the label vocabulary, the
  per-layer windows, the group ids derived from labels, the slab count of hybrid models, the
  split of recurrent runs, and \<^verbatim>\<open>group\<close>, the walk that builds every group's spec and field
  list together. The recipe's \<^verbatim>\<open>fields_for_layer\<close> callback is a parameter of \<open>group_layers\<close>.
\<close>

section \<open>Model\<close>

definition FULL_ATTENTION :: string where "FULL_ATTENTION = ''full_attention''"
definition LINEAR_ATTENTION :: string where "LINEAR_ATTENTION = ''linear_attention''"

definition LAYER_TYPE_ATTN_KIND :: "(string \<times> attn_kind) list" where
  "LAYER_TYPE_ATTN_KIND =
     [(FULL_ATTENTION, Full_history), (''sliding_attention'', Sliding_window),
      (LINEAR_ATTENTION, State), (''deepseek_sparse_attention'', Full_history)]"

definition STATE_LAYER_TYPES :: "string list" where
  "STATE_LAYER_TYPES = map fst (filter (\<lambda>(_, attn_kind). attn_kind = State) LAYER_TYPE_ATTN_KIND)"

definition SLIDING_SUBGROUP_PREFIX :: string where
  "SLIDING_SUBGROUP_PREFIX = ''sliding_attention_''"

definition attn_kind_for_label :: "string \<Rightarrow> attn_kind option" where
  "attn_kind_for_label label =
     (case map_of LAYER_TYPE_ATTN_KIND label of
        Some attn_kind \<Rightarrow> Some attn_kind
      | None \<Rightarrow>
          if startswith label SLIDING_SUBGROUP_PREFIX \<and>
             py_isdigit (drop (length SLIDING_SUBGROUP_PREFIX) label)
          then Some Sliding_window else None)"

text \<open>The three spellings of the windows: \<^verbatim>\<open>None\<close>, one integer, one entry per layer. Values
  of any other type are refused by the source and have no constructor.\<close>

datatype window_tokens = No_window | One_window int | Layer_windows "int option list"

definition windows_per_layer :: "window_tokens \<Rightarrow> nat \<Rightarrow> (int option list \<times> bool) result" where
  "windows_per_layer sliding_window_tokens num_layers =
     (case sliding_window_tokens of
        No_window \<Rightarrow> Inr (replicate num_layers None, True)
      | One_window w \<Rightarrow> Inr (replicate num_layers (Some w), True)
      | Layer_windows windows \<Rightarrow>
          raise_if (length windows \<noteq> num_layers) (ValueError ''sliding_window_tokens has entries'')
            (Inr (windows, False)))"

definition label_counts :: "string list \<Rightarrow> (string \<times> int) list" where
  "label_counts layer_types =
     fold (\<lambda>label counts. AList.update label (dict_get counts label 0 + 1) counts) layer_types []"

definition hybrid_slab_group_size :: "string list option \<Rightarrow> window_tokens \<Rightarrow> int option" where
  "hybrid_slab_group_size layer_types sliding_window_tokens =
     (case layer_types of
        None \<Rightarrow> None
      | Some labels \<Rightarrow>
          if labels = [] \<or> list_ex (\<lambda>label. attn_kind_for_label label \<in> {None, Some State}) labels
          then None
          else let counts = label_counts labels
               in if length counts < 2 then None
                  else (case sliding_window_tokens of
                          Layer_windows windows \<Rightarrow>
                            if length windows \<noteq> length labels then None
                            else let distinct_windows = set (map (\<lambda>(_, w). the w)
                                       (filter (\<lambda>(label, w). attn_kind_for_label label = Some Sliding_window \<and>
                                          w \<noteq> None \<and> the w > 0) (zip labels windows)))
                                 in if card distinct_windows > 1 then None
                                    else Some (Max (set (map snd counts)))
                        | _ \<Rightarrow> Some (Max (set (map snd counts)))))"

definition layer_policy :: "bool \<Rightarrow> string \<times> int option \<Rightarrow> (attn_kind \<times> int option) result" where
  "layer_policy broadcast entry =
     (case attn_kind_for_label (fst entry) of
        None \<Rightarrow> Inl (ValueError ''unknown layer_type'')
      | Some attn_kind \<Rightarrow>
          if attn_kind = Sliding_window
          then (case snd entry of
                  None \<Rightarrow> Inl (ValueError ''is sliding but its window is not a positive int'')
                | Some w \<Rightarrow>
                    raise_if (w \<le> 0) (ValueError ''is sliding but its window is not a positive int'')
                      (Inr (attn_kind, Some w)))
          else raise_if (\<not> broadcast \<and> (case snd entry of None \<Rightarrow> False | Some w \<Rightarrow> w > 0))
                 (ValueError ''carries sliding window; mislabeled layer_type?'')
                 (Inr (attn_kind, None)))"

definition layer_attn_kind_windows ::
  "string list \<Rightarrow> window_tokens \<Rightarrow> (attn_kind \<times> int option) list result" where
  "layer_attn_kind_windows layer_types sliding_window_tokens =
     bindE (windows_per_layer sliding_window_tokens (length layer_types)) (\<lambda>(windows, broadcast).
       mapE (layer_policy broadcast) (zip layer_types windows))"

definition layer_group_ids :: "string list \<Rightarrow> window_tokens \<Rightarrow> string list result" where
  "layer_group_ids layer_types sliding_window_tokens =
     bindE (layer_attn_kind_windows layer_types sliding_window_tokens) (\<lambda>rows.
       let distinct_windows = set (map snd (filter (\<lambda>(k, _). k = Sliding_window) rows));
           multi_window = card distinct_windows > 1
       in Inr (map (\<lambda>(label, (attn_kind, window)).
            if multi_window \<and> attn_kind = Sliding_window
            then label @ ''_'' @ int_str (the window) else label) (zip layer_types rows)))"

fun split_states_from :: "nat \<Rightarrow> string list \<Rightarrow> string list" where
  "split_states_from state_position [] = []"
| "split_states_from state_position (label # labels) =
     (if label \<in> set STATE_LAYER_TYPES
      then (label @ ''_'' @ nat_str state_position) # split_states_from (state_position + 1) labels
      else label # split_states_from 0 labels)"

definition split_recurrent_state_groups :: "string list \<Rightarrow> string list" where
  "split_recurrent_state_groups layer_types = split_states_from 0 layer_types"

definition layer_group_spec :: "string \<Rightarrow> attn_kind \<Rightarrow> int option \<Rightarrow> int \<Rightarrow> cache_group_spec result" where
  "layer_group_spec group_id attn_kind window block_tokens =
     (if attn_kind = State
      then check_group_spec \<lparr>gs_group_id = group_id, gs_attn_kind = attn_kind, gs_rows_per_page = None,
             gs_entry_stride_tokens = None, gs_sliding_window_tokens = None, gs_replayable = False,
             gs_transfer_policy = None, gs_shard_count = 1\<rparr>
      else check_group_spec \<lparr>gs_group_id = group_id, gs_attn_kind = attn_kind,
             gs_rows_per_page = Some block_tokens, gs_entry_stride_tokens = Some 1,
             gs_sliding_window_tokens = window, gs_replayable = False,
             gs_transfer_policy = None, gs_shard_count = 1\<rparr>)"

text \<open>The walk's state: \<^verbatim>\<open>specs\<close>, \<^verbatim>\<open>fields\<close> and \<^verbatim>\<open>occurrences\<close>, three dicts.\<close>

record group_walk =
  gw_specs :: "(string \<times> cache_group_spec) list"
  gw_fields :: "(string \<times> cache_field_spec list) list"
  gw_occurrences :: "(string \<times> int) list"

type_synonym layer_fields = "int \<Rightarrow> string \<Rightarrow> int \<Rightarrow> cache_field_spec list result"
type_synonym layer_row = "nat \<times> (attn_kind \<times> int option) \<times> string"

definition group_specs_step :: "int \<Rightarrow> group_walk \<Rightarrow> layer_row \<Rightarrow> (string \<times> cache_group_spec) list result" where
  "group_specs_step prefix_granularity st row =
     (case row of (_, (attn_kind, window), gid) \<Rightarrow>
        (case map_of (gw_specs st) gid of
           Some existing \<Rightarrow>
             raise_if ((gs_attn_kind existing, gs_sliding_window_tokens existing) \<noteq> (attn_kind, window))
               (ValueError ''mixes incompatible layer policies'') (Inr (gw_specs st))
         | None \<Rightarrow> bindE (layer_group_spec gid attn_kind window prefix_granularity) (\<lambda>spec.
             Inr (AList.update gid spec (gw_specs st)))))"

definition group_step :: "layer_fields \<Rightarrow> int \<Rightarrow> group_walk \<Rightarrow> layer_row \<Rightarrow> group_walk result" where
  "group_step fields_for_layer prefix_granularity st row =
     (let layer_id = int (fst row); gid = snd (snd row); occurrence = dict_get (gw_occurrences st) gid 0 in
      bindE (group_specs_step prefix_granularity st row) (\<lambda>specs.
      bindE (fields_for_layer layer_id gid occurrence) (\<lambda>declared.
        Inr (if declared \<noteq> []
             then \<lparr>gw_specs = specs,
                   gw_fields = AList.update gid (dict_get (gw_fields st) gid [] @ declared) (gw_fields st),
                   gw_occurrences = AList.update gid (occurrence + 1) (gw_occurrences st)\<rparr>
             else st\<lparr>gw_specs := specs\<rparr>))))"

definition group_layers ::
  "string list \<Rightarrow> string list \<Rightarrow> window_tokens \<Rightarrow> int \<Rightarrow> layer_fields \<Rightarrow> bool \<Rightarrow>
   (cache_group_spec \<times> cache_field_spec list) list result" where
  "group_layers layer_types group_ids sliding_window_tokens prefix_granularity fields_for_layer
     pd_disaggregation_enabled =
     raise_if (group_ids = []) (ValueError ''group requires per-layer group_ids'')
    (raise_if (length group_ids \<noteq> length layer_types) (ValueError ''group_ids has entries but layer_types'')
    (bindE (layer_attn_kind_windows layer_types sliding_window_tokens) (\<lambda>layer_policies.
     bindE (foldE (group_step fields_for_layer prefix_granularity)
              \<lparr>gw_specs = [], gw_fields = [], gw_occurrences = []\<rparr>
              (List.enumerate 0 (zip layer_policies group_ids))) (\<lambda>st.
     raise_if (set (map fst (gw_specs st)) - set (map fst (gw_fields st)) \<noteq> {})
       (ValueError ''declare no fields'')
    (bindE (if pd_disaggregation_enabled then apply_pd_transfer_policies (map snd (gw_specs st))
            else Inr (map snd (gw_specs st))) (\<lambda>published.
       Inr (map (\<lambda>spec. (spec, dict_get (gw_fields st) (gs_group_id spec) [])) published)))))))"

section \<open>Group ids determine the layer policy\<close>

lemma layer_attn_kind_windows_Inr:
  assumes "layer_attn_kind_windows layer_types w = Inr rows"
  obtains broadcast windows where "windows_per_layer w (length layer_types) = Inr (windows, broadcast)"
    and "length windows = length layer_types" and "length rows = length layer_types"
    and "\<forall>i < length rows. layer_policy broadcast (layer_types ! i, windows ! i) = Inr (rows ! i)"
proof -
  from assms obtain windows broadcast where w: "windows_per_layer w (length layer_types) = Inr (windows, broadcast)"
    and m: "mapE (layer_policy broadcast) (zip layer_types windows) = Inr rows"
    by (auto simp: layer_attn_kind_windows_def result_simps)
  have len: "length windows = length layer_types"
    using w by (auto simp: windows_per_layer_def result_simps split: window_tokens.splits)
  then have "length rows = length layer_types" using mapE_length [OF m] by simp
  moreover have "layer_policy broadcast (layer_types ! i, windows ! i) = Inr (rows ! i)" if "i < length rows" for i
    using m that len by (auto simp: mapE_Inr_iff list_all2_conv_all_nth)
  ultimately show ?thesis using that w len by blast
qed

lemma layer_policy_kind:
  "layer_policy b (label, w) = Inr (k, v) \<Longrightarrow> attn_kind_for_label label = Some k \<and>
     (if k = Sliding_window then \<exists>x. v = Some x \<and> 0 < x else v = None)"
  by (auto simp: layer_policy_def result_simps split: option.splits if_splits)

lemma int_str_no_underscore: "0 \<le> i \<Longrightarrow> CHR ''_'' \<notin> set (int_str i)"
  using nat_str_digits [of "CHR ''_''" "nat i"] is_digit_char [of "CHR ''_''"] by (auto simp: int_str_def)

text \<open>The text after the last separator decides both parts.\<close>

lemma suffix_split_unique:
  assumes "a @ c # x = b @ c # y" and "c \<notin> set x" and "c \<notin> set y"
  shows "a = b \<and> x = y"
  using assms
proof (induction a arbitrary: b)
  case Nil
  then show ?case by (cases b) auto
next
  case (Cons u a)
  then show ?case by (cases b) auto
qed

lemma startswith_iff: "startswith s p \<longleftrightarrow> (\<exists>t. s = p @ t)"
proof
  assume "startswith s p"
  then have "s = p @ drop (length p) s" using append_take_drop_id [of "length p" s] by (simp add: startswith_def)
  then show "\<exists>t. s = p @ t" ..
qed (auto simp: startswith_def)

lemma sliding_label_prefix:
  assumes "attn_kind_for_label label = Some Sliding_window"
  shows "startswith (label @ rest) ''sliding_attention''"
proof -
  have "label = ''sliding_attention'' \<or> startswith label (''sliding_attention'' @ ''_'')"
    using assms by (auto simp: attn_kind_for_label_def LAYER_TYPE_ATTN_KIND_def SLIDING_SUBGROUP_PREFIX_def
        split: option.splits if_splits)
  then show ?thesis unfolding startswith_iff by (elim disjE exE) simp_all
qed

lemma other_label_prefix:
  "attn_kind_for_label label = Some k \<Longrightarrow> k \<noteq> Sliding_window \<Longrightarrow> \<not> startswith (label @ rest) ''sliding_attention''"
  by (auto simp: attn_kind_for_label_def LAYER_TYPE_ATTN_KIND_def FULL_ATTENTION_def LINEAR_ATTENTION_def
      startswith_def split: option.splits if_splits)

text \<open>The policies of accepted layers, and the ids in terms of them.\<close>

definition many_windows :: "(attn_kind \<times> int option) list \<Rightarrow> bool" where
  "many_windows rows \<longleftrightarrow> (\<exists>i < length rows. \<exists>j < length rows. fst (rows ! i) = Sliding_window \<and>
     fst (rows ! j) = Sliding_window \<and> snd (rows ! i) \<noteq> snd (rows ! j))"

lemma many_windows_card: "card (set (map snd (filter (\<lambda>(k, _). k = Sliding_window) rows))) > 1 \<longleftrightarrow> many_windows rows"
proof -
  let ?W = "set (map snd (filter (\<lambda>(k, _). k = Sliding_window) rows))"
  have ex: "(\<exists>a \<in> set rows. P a) \<longleftrightarrow> (\<exists>i < length rows. P (rows ! i))" for P by (metis in_set_conv_nth)
  have "card ?W > 1 \<longleftrightarrow> \<not> (\<forall>u \<in> ?W. \<forall>v \<in> ?W. u = v)"
    unfolding card_le_Suc0_iff_eq [OF finite_set, symmetric] by linarith
  also have "\<dots> \<longleftrightarrow> (\<exists>a \<in> set rows. \<exists>b \<in> set rows. fst a = Sliding_window \<and> fst b = Sliding_window \<and> snd a \<noteq> snd b)"
    by (simp add: Bex_def split_paired_Ex)
  also have "\<dots> \<longleftrightarrow> many_windows rows" unfolding many_windows_def ex by (rule refl)
  finally show ?thesis .
qed

lemma layer_group_ids_rows:
  assumes "layer_group_ids layer_types w = Inr ids" and "layer_attn_kind_windows layer_types w = Inr rows"
  shows "length rows = length layer_types" and "length ids = length layer_types"
    and "n < length layer_types \<Longrightarrow> ids ! n = (if many_windows rows \<and> fst (rows ! n) = Sliding_window
      then layer_types ! n @ ''_'' @ int_str (the (snd (rows ! n))) else layer_types ! n)"
    and "n < length layer_types \<Longrightarrow> attn_kind_for_label (layer_types ! n) = Some (fst (rows ! n)) \<and>
      (if fst (rows ! n) = Sliding_window then \<exists>x. snd (rows ! n) = Some x \<and> 0 < x else snd (rows ! n) = None)"
proof -
  from assms(2) obtain b windows where len: "length rows = length layer_types"
    and pol: "\<forall>i < length rows. layer_policy b (layer_types ! i, windows ! i) = Inr (rows ! i)"
    by (rule layer_attn_kind_windows_Inr)
  show "length rows = length layer_types" by (rule len)
  show "length ids = length layer_types" using assms len by (auto simp: layer_group_ids_def Let_def)
  show "ids ! n = (if many_windows rows \<and> fst (rows ! n) = Sliding_window
      then layer_types ! n @ ''_'' @ int_str (the (snd (rows ! n))) else layer_types ! n)" if "n < length layer_types"
    using assms that len unfolding many_windows_card [symmetric] by (auto simp: layer_group_ids_def Let_def split: prod.split)
  show "attn_kind_for_label (layer_types ! n) = Some (fst (rows ! n)) \<and>
      (if fst (rows ! n) = Sliding_window then \<exists>x. snd (rows ! n) = Some x \<and> 0 < x else snd (rows ! n) = None)"
    if "n < length layer_types"
    using layer_policy_kind [of b "layer_types ! n" "windows ! n" "fst (rows ! n)" "snd (rows ! n)"] pol that len
    by simp
qed

text \<open>A window appended after an underscore can be read back.\<close>

lemma window_suffix_unique:
  assumes "a @ ''_'' @ int_str x = b @ ''_'' @ int_str y" and "0 < x" and "0 < y"
  shows "a = b" and "x = y"
proof -
  have s: "a = b \<and> int_str x = int_str y"
    using assms by (intro suffix_split_unique [where c = "CHR ''_''"]) (simp_all add: int_str_no_underscore)
  then show "a = b" by simp
  from s have "py_int (int_str x) = py_int (int_str y)" by simp
  then show "x = y" unfolding py_int_int_str [OF less_imp_le [OF assms(2)]] py_int_int_str [OF less_imp_le [OF assms(3)]]
    by (rule option.inject [THEN iffD1])
qed

lemma layer_group_ids_inj:
  assumes G: "layer_group_ids layer_types w = Inr ids" "layer_attn_kind_windows layer_types w = Inr rows"
    and i: "i < length layer_types" and j: "j < length layer_types" and ij: "ids ! i = ids ! j"
  shows "layer_types ! i = layer_types ! j \<and> rows ! i = rows ! j"
proof -
  note len = layer_group_ids_rows(1) [OF G]
  note ki = layer_group_ids_rows(4) [OF G i] and kj = layer_group_ids_rows(4) [OF G j]
  note ids = layer_group_ids_rows(3) [OF G]
  have pre: "startswith (ids ! n) ''sliding_attention'' \<longleftrightarrow> fst (rows ! n) = Sliding_window" if n: "n < length layer_types" for n
    using ids [OF n] layer_group_ids_rows(4) [OF G n] sliding_label_prefix [of "layer_types ! n"]
      sliding_label_prefix [of "layer_types ! n" "[]"] other_label_prefix [of "layer_types ! n" _ "[]"]
    by (cases "fst (rows ! n) = Sliding_window") auto
  have kinds: "fst (rows ! i) = Sliding_window \<longleftrightarrow> fst (rows ! j) = Sliding_window" using pre [OF i] pre [OF j] ij by simp
  show ?thesis
  proof (cases "many_windows rows \<and> fst (rows ! i) = Sliding_window")
    case True
    then obtain x y where xy: "snd (rows ! i) = Some x" "snd (rows ! j) = Some y" "0 < x" "0 < y" using ki kj kinds by auto
    then have "layer_types ! i @ ''_'' @ int_str x = layer_types ! j @ ''_'' @ int_str y"
      using ij ids [OF i] ids [OF j] True kinds by simp
    from window_suffix_unique [OF this xy(3,4)] show ?thesis using True kinds xy by (simp add: prod_eq_iff)
  next
    case False
    then have lab: "layer_types ! i = layer_types ! j" using ij ids [OF i] ids [OF j] kinds by auto
    then have "fst (rows ! i) = fst (rows ! j)" using ki kj by simp
    moreover have "snd (rows ! i) = snd (rows ! j)" using False ki kj kinds i j len by (auto simp: many_windows_def)
    ultimately show ?thesis using lab by (simp add: prod_eq_iff)
  qed
qed

text \<open>C40: the derived group ids. Two layers get one group id exactly when they have the same label, attention kind and
  window, so the grouping walk never meets a mixed group: neither labels nor the appended window text can collide.
  When all sliding layers share one window, every layer keeps its label; otherwise exactly the sliding layers get
  their window appended.\<close>

theorem layer_group_ids_policy:
  assumes "layer_group_ids layer_types w = Inr ids" and "layer_attn_kind_windows layer_types w = Inr rows"
  shows "length ids = length layer_types \<and>
    (\<forall>i < length layer_types. \<forall>j < length layer_types.
       ids ! i = ids ! j \<longleftrightarrow> layer_types ! i = layer_types ! j \<and> rows ! i = rows ! j) \<and>
    (if many_windows rows then \<forall>i < length layer_types.
         if fst (rows ! i) = Sliding_window then \<exists>x. snd (rows ! i) = Some x \<and> ids ! i = layer_types ! i @ ''_'' @ int_str x
         else ids ! i = layer_types ! i
     else ids = layer_types)"
proof -
  note R = layer_group_ids_rows [OF assms]
  have iff: "ids ! i = ids ! j \<longleftrightarrow> layer_types ! i = layer_types ! j \<and> rows ! i = rows ! j"
    if "i < length layer_types" "j < length layer_types" for i j
    using layer_group_ids_inj [OF assms that] R(3) [OF that(1)] R(3) [OF that(2)] by auto
  have many: "if fst (rows ! i) = Sliding_window then \<exists>x. snd (rows ! i) = Some x \<and> ids ! i = layer_types ! i @ ''_'' @ int_str x
      else ids ! i = layer_types ! i" if "many_windows rows" "i < length layer_types" for i
    using R(3,4) [OF that(2)] that(1) by auto
  have one: "ids = layer_types" if "\<not> many_windows rows" using R(2,3) that by (simp add: list_eq_iff_nth_eq)
  show ?thesis using R(2) iff many one by presburger
qed

definition demo_types :: "string list" where
  "demo_types = [''sliding_attention'', ''full_attention'', ''sliding_attention'', ''sliding_attention'']"

definition demo_windows :: window_tokens where
  "demo_windows = Layer_windows [Some 4, None, Some 8, Some 4]"

lemma demo_ids:
  "layer_group_ids demo_types demo_windows =
     Inr [''sliding_attention_4'', ''full_attention'', ''sliding_attention_8'', ''sliding_attention_4'']"
  "layer_attn_kind_windows demo_types demo_windows =
     Inr [(Sliding_window, Some 4), (Full_history, None), (Sliding_window, Some 8), (Sliding_window, Some 4)]"
  by code_simp+

theorem layer_group_ids_policy_witness:
  "[''sliding_attention_4'', ''full_attention'', ''sliding_attention_8'', ''sliding_attention_4''] ! 0 =
     [''sliding_attention_4'', ''full_attention'', ''sliding_attention_8'', ''sliding_attention_4''] ! 3 \<longleftrightarrow>
   demo_types ! 0 = demo_types ! 3 \<and>
   [(Sliding_window, Some (4::int)), (Full_history, None), (Sliding_window, Some 8), (Sliding_window, Some 4)] ! 0 =
     [(Sliding_window, Some 4), (Full_history, None), (Sliding_window, Some 8), (Sliding_window, Some 4)] ! 3"
proof -
  have "0 < length demo_types" "3 < length demo_types" by (simp_all add: demo_types_def)
  then show ?thesis using layer_group_ids_policy [OF demo_ids] by blast
qed

section \<open>The grouping walk\<close>

text \<open>The layers of a group among processed rows, and those of them that declared fields.\<close>

definition layers_of :: "layer_row list \<Rightarrow> string \<Rightarrow> nat list" where
  "layers_of rows g = map fst (filter (\<lambda>(_, _, gid). gid = g) rows)"

definition spec_for :: "int \<Rightarrow> string \<Rightarrow> attn_kind \<times> int option \<Rightarrow> cache_group_spec" where
  "spec_for pg g policy =
     \<lparr>gs_group_id = g, gs_attn_kind = fst policy,
      gs_rows_per_page = (if fst policy = State then None else Some pg),
      gs_entry_stride_tokens = (if fst policy = State then None else Some 1),
      gs_sliding_window_tokens = (if fst policy = State then None else snd policy),
      gs_replayable = False, gs_transfer_policy = None, gs_shard_count = 1\<rparr>"

definition walk_ok :: "layer_fields \<Rightarrow> int \<Rightarrow> layer_row list \<Rightarrow> (nat \<Rightarrow> cache_field_spec list) \<Rightarrow> group_walk \<Rightarrow> bool" where
  "walk_ok ff pg rows D st \<longleftrightarrow>
     map fst (gw_specs st) = first_seen (map (snd \<circ> snd) rows) \<and>
     (\<forall>(i, policy, g) \<in> set rows. map_of (gw_specs st) g = Some (spec_for pg g policy)) \<and>
     (\<forall>(g, spec) \<in> set (gw_specs st). group_spec_ok spec \<and> gs_group_id spec = g) \<and>
     (\<forall>g. dict_get (gw_fields st) g [] = concat (map D (layers_of rows g))) \<and>
     (\<forall>g. g \<in> set (map fst (gw_fields st)) \<longleftrightarrow> concat (map D (layers_of rows g)) \<noteq> []) \<and>
     (\<forall>g. dict_get (gw_occurrences st) g 0 = int (length (filter (\<lambda>i. D i \<noteq> []) (layers_of rows g)))) \<and>
     (\<forall>k < length rows. case rows ! k of (i, _, g) \<Rightarrow>
        ff (int i) g (int (length (filter (\<lambda>j. D j \<noteq> []) (layers_of (take k rows) g)))) = Inr (D i))"

lemma layer_group_spec_Inr:
  "layer_group_spec g k w pg = Inr spec \<Longrightarrow> k = State \<longrightarrow> w = None \<Longrightarrow> spec = spec_for pg g (k, w) \<and> group_spec_ok spec"
  using check_group_spec_same check_group_spec_iff
  by (fastforce simp: layer_group_spec_def spec_for_def split: if_splits)

lemma first_seen_snoc: "first_seen (xs @ [x]) = (if x \<in> set xs then first_seen xs else first_seen xs @ [x])"
  by (simp add: first_seen_def)

lemma update_new: "k \<notin> set (map fst d) \<Longrightarrow> AList.update k v d = d @ [(k, v)]"
  by (induction d) auto

lemma concat_fun_upd: "i \<notin> set is \<Longrightarrow> concat (map (D(i := x)) is) = concat (map D is)"
  by (induction "is") auto

lemma filter_fun_upd: "i \<notin> set is \<Longrightarrow> filter (\<lambda>j. (D(i := x)) j \<noteq> []) is = filter (\<lambda>j. D j \<noteq> []) is"
  by (induction "is") auto

lemma layers_of_snoc:
  "layers_of (rows @ [(i, p, g)]) h = (if g = h then layers_of rows h @ [i] else layers_of rows h)"
  by (simp add: layers_of_def)

lemma layers_of_fresh: "i \<notin> fst ` set rows \<Longrightarrow> i \<notin> set (layers_of rows g)"
  by (auto simp: layers_of_def)

lemma group_specs_step_ok:
  assumes ok: "walk_ok ff pg rows D st" and step: "group_specs_step pg st (i, (k, w), g) = Inr specs"
    and "k = State \<longrightarrow> w = None"
  shows "map fst specs = first_seen (map (snd \<circ> snd) (rows @ [(i, (k, w), g)]))"
    and "\<forall>(i, policy, g) \<in> set (rows @ [(i, (k, w), g)]). map_of specs g = Some (spec_for pg g policy)"
    and "\<forall>(g, spec) \<in> set specs. group_spec_ok spec \<and> gs_group_id spec = g"
proof -
  from ok have keys: "map fst (gw_specs st) = first_seen (map (snd \<circ> snd) rows)"
    unfolding walk_ok_def by (elim conjE)
  from ok have look: "\<forall>(i, policy, g) \<in> set rows. map_of (gw_specs st) g = Some (spec_for pg g policy)"
    unfolding walk_ok_def by (elim conjE)
  from ok have good: "\<forall>(g, spec) \<in> set (gw_specs st). group_spec_ok spec \<and> gs_group_id spec = g"
    unfolding walk_ok_def by (elim conjE)
  have mem: "g \<in> set (map fst (gw_specs st)) \<longleftrightarrow> g \<in> (snd \<circ> snd) ` set rows" using keys by simp
  have "map fst specs = first_seen (map (snd \<circ> snd) (rows @ [(i, (k, w), g)])) \<and>
    (\<forall>(i, policy, g) \<in> set (rows @ [(i, (k, w), g)]). map_of specs g = Some (spec_for pg g policy)) \<and>
    (\<forall>(g, spec) \<in> set specs. group_spec_ok spec \<and> gs_group_id spec = g)"
  proof (cases "map_of (gw_specs st) g")
    case (Some existing)
    then have specs: "specs = gw_specs st" and pol: "gs_attn_kind existing = k" "gs_sliding_window_tokens existing = w"
      using step by (auto simp: group_specs_step_def result_simps)
    have gin: "g \<in> set (map fst (gw_specs st))" using Some by (force dest: map_of_SomeD)
    then obtain i' p' where r: "(i', p', g) \<in> set rows" using mem by force
    then have "existing = spec_for pg g p'" using look Some by auto
    with pol assms(3) have "existing = spec_for pg g (k, w)" by (auto simp: spec_for_def)
    then show ?thesis using specs keys look good Some gin mem by (auto simp: first_seen_snoc)
  next
    case None
    then obtain spec where spec: "layer_group_spec g k w pg = Inr spec" and specs: "specs = AList.update g spec (gw_specs st)"
      using step by (auto simp: group_specs_step_def result_simps)
    note sf = layer_group_spec_Inr [OF spec assms(3)]
    have gout: "g \<notin> set (map fst (gw_specs st))" using None by (simp add: map_of_eq_None_iff)
    have "map fst specs = first_seen (map (snd \<circ> snd) (rows @ [(i, (k, w), g)]))"
      unfolding specs update_new [OF gout] using gout mem keys by (simp add: first_seen_snoc)
    moreover have "\<forall>(i, policy, g) \<in> set (rows @ [(i, (k, w), g)]). map_of specs g = Some (spec_for pg g policy)"
      using look sf gout mem by (force simp: specs update_conv')
    moreover have "set specs = insert (g, spec) (set (gw_specs st))"
      unfolding specs update_new [OF gout] by auto
    ultimately show ?thesis using good sf by (auto simp: spec_for_def)
  qed
  then show "map fst specs = first_seen (map (snd \<circ> snd) (rows @ [(i, (k, w), g)]))"
    and "\<forall>(i, policy, g) \<in> set (rows @ [(i, (k, w), g)]). map_of specs g = Some (spec_for pg g policy)"
    and "\<forall>(g, spec) \<in> set specs. group_spec_ok spec \<and> gs_group_id spec = g" by blast+
qed

lemma group_step_ok:
  assumes ok: "walk_ok ff pg rows D st" and step: "group_step ff pg st (i, (k, w), g) = Inr st'"
    and sw: "k = State \<longrightarrow> w = None" and fresh: "i \<notin> fst ` set rows"
  shows "\<exists>x. walk_ok ff pg (rows @ [(i, (k, w), g)]) (D(i := x)) st'"
proof -
  let ?occ = "dict_get (gw_occurrences st) g 0" and ?rows = "rows @ [(i, (k, w), g)]"
  from step obtain specs x where specs: "group_specs_step pg st (i, (k, w), g) = Inr specs"
    and x: "ff (int i) g ?occ = Inr x"
    and st': "st' = (if x \<noteq> []
             then \<lparr>gw_specs = specs,
                   gw_fields = AList.update g (dict_get (gw_fields st) g [] @ x) (gw_fields st),
                   gw_occurrences = AList.update g (?occ + 1) (gw_occurrences st)\<rparr>
             else st\<lparr>gw_specs := specs\<rparr>)"
    by (auto simp: group_step_def Let_def result_simps)
  note S = group_specs_step_ok [OF ok specs sw]
  have gs: "gw_specs st' = specs" by (simp add: st')
  note old = layers_of_fresh [OF fresh]
  from ok have flds: "dict_get (gw_fields st) h [] = concat (map D (layers_of rows h))" for h
    unfolding walk_ok_def by blast
  from ok have dom: "h \<in> set (map fst (gw_fields st)) \<longleftrightarrow> concat (map D (layers_of rows h)) \<noteq> []" for h
    unfolding walk_ok_def by blast
  from ok have occ: "dict_get (gw_occurrences st) h 0 = int (length (filter (\<lambda>i. D i \<noteq> []) (layers_of rows h)))" for h
    unfolding walk_ok_def by blast
  from ok have calls: "\<forall>k < length rows. case rows ! k of (i, _, g) \<Rightarrow>
        ff (int i) g (int (length (filter (\<lambda>j. D j \<noteq> []) (layers_of (take k rows) g)))) = Inr (D i)"
    unfolding walk_ok_def by (elim conjE)
  let ?D = "D(i := x)"
  have cc: "concat (map ?D (layers_of ?rows h)) = concat (map D (layers_of rows h)) @ (if g = h then x else [])" for h
    using concat_fun_upd [OF old] by (simp add: layers_of_snoc)
  have ff: "filter (\<lambda>j. ?D j \<noteq> []) (layers_of ?rows h) =
      filter (\<lambda>j. D j \<noteq> []) (layers_of rows h) @ (if g = h \<and> x \<noteq> [] then [i] else [])" for h
    using filter_fun_upd [OF old, where D = D and x = x] by (simp add: layers_of_snoc)
  have "dict_get (gw_fields st') h [] = concat (map ?D (layers_of ?rows h))" for h
    unfolding cc by (simp add: st' dict_simps flds)
  moreover have "h \<in> set (map fst (gw_fields st')) \<longleftrightarrow> concat (map ?D (layers_of ?rows h)) \<noteq> []" for h
  proof -
    have "set (map fst (AList.update g v d)) = insert g (set (map fst d))" for v :: "cache_field_spec list" and d
      by (simp only: update_keys) auto
    then show ?thesis unfolding cc using dom [of h] by (auto simp: st' simp del: set_map)
  qed
  moreover have "dict_get (gw_occurrences st') h 0 = int (length (filter (\<lambda>i. ?D i \<noteq> []) (layers_of ?rows h)))" for h
    unfolding ff by (simp add: st' dict_simps occ)
  moreover have "case ?rows ! k of (i, _, g) \<Rightarrow>
        ff (int i) g (int (length (filter (\<lambda>j. ?D j \<noteq> []) (layers_of (take k ?rows) g)))) = Inr (?D i)"
    if k: "k < length ?rows" for k
  proof (cases "k < length rows")
    case True
    obtain i' p' g' where r: "rows ! k = (i', p', g')" by (cases "rows ! k")
    then have "i' \<noteq> i" using True fresh by (metis fst_conv image_eqI nth_mem)
    moreover have "i \<notin> fst ` set (take k rows)" using fresh by (meson image_mono set_take_subset subsetD)
    note filter_fun_upd [OF layers_of_fresh [OF this], where D = D and x = x]
    ultimately show ?thesis using calls True r by (auto simp: nth_append)
  next
    case False
    then have "k = length rows" using k by simp
    moreover note filter_fun_upd [OF old, where D = D and x = x]
    ultimately show ?thesis using x occ [of g] by simp
  qed
  ultimately have "walk_ok ff pg ?rows ?D st'" unfolding walk_ok_def gs using S by blast
  then show ?thesis ..
qed

lemma group_fold_ok:
  assumes "foldE (group_step ff pg) \<lparr>gw_specs = [], gw_fields = [], gw_occurrences = []\<rparr> rows = Inr st"
    and "distinct (map fst rows)" and "\<forall>(i, (k, w), g) \<in> set rows. k = State \<longrightarrow> w = None"
  shows "\<exists>D. walk_ok ff pg rows D st"
  using assms
proof (induction rows arbitrary: st rule: rev_induct)
  case Nil
  then show ?case by (auto simp: walk_ok_def first_seen_def layers_of_def dict_get_def)
next
  case (snoc r rows)
  obtain i k w g where r: "r = (i, (k, w), g)" by (metis prod_cases3 surj_pair)
  from snoc.prems(1) obtain st0
    where st0: "foldE (group_step ff pg) \<lparr>gw_specs = [], gw_fields = [], gw_occurrences = []\<rparr> rows = Inr st0"
      and step: "group_step ff pg st0 r = Inr st"
    by (auto simp: foldE_append result_simps)
  then obtain D where D: "walk_ok ff pg rows D st0" using snoc.IH snoc.prems by auto
  have "k = State \<longrightarrow> w = None" "i \<notin> fst ` set rows" using snoc.prems(2,3) r by auto
  from group_step_ok [OF D step [unfolded r] this] show ?case unfolding r by blast
qed

lemma layers_of_enumerate:
  assumes "length ps = length gids" and "k \<le> length gids"
  shows "layers_of (take k (List.enumerate 0 (zip ps gids))) g = filter (\<lambda>i. gids ! i = g) [0..<k]"
  using assms(2)
proof (induction k)
  case (Suc k)
  then have "take (Suc k) (List.enumerate 0 (zip ps gids)) = take k (List.enumerate 0 (zip ps gids)) @ [(k, ps ! k, gids ! k)]"
    using assms(1) by (simp add: take_Suc_conv_app_nth nth_enumerate_eq)
  then show ?case using Suc by (simp add: layers_of_def)
qed (simp add: layers_of_def)

lemma layer_policies_state:
  assumes "layer_attn_kind_windows layer_types w = Inr rows" and "(k, v) \<in> set rows"
  shows "k = State \<longrightarrow> v = None"
proof -
  from assms(1) obtain b windows where len: "length rows = length layer_types"
    and pol: "\<forall>i < length rows. layer_policy b (layer_types ! i, windows ! i) = Inr (rows ! i)"
    by (rule layer_attn_kind_windows_Inr)
  from assms(2) obtain i where "i < length rows" "rows ! i = (k, v)" by (meson in_set_conv_nth)
  with pol have "layer_policy b (layer_types ! i, windows ! i) = Inr (k, v)" by simp
  from layer_policy_kind [OF this] show ?thesis by auto
qed

text \<open>What publishing does to the walk's specs: it only sets transfer policies.\<close>

lemma published_specs:
  assumes "(if pd then apply_pd_transfer_policies specs else Inr specs) = Inr published" and "list_all group_spec_ok specs"
  shows "list_all2 (\<lambda>s t. group_spec_ok t \<and> gs_group_id t = gs_group_id s \<and> gs_attn_kind t = gs_attn_kind s \<and>
           gs_sliding_window_tokens t = gs_sliding_window_tokens s) specs published"
proof (cases pd)
  case True
  then have "mapE (\<lambda>spec. check_group_spec
       (spec\<lparr>gs_transfer_policy := Some (if gs_attn_kind spec = State then Latest_snapshot else Full_suffix)\<rparr>)) specs
     = Inr published" using assms(1) by (simp add: apply_pd_transfer_policies_def)
  then have "list_all2 (\<lambda>s t. check_group_spec
       (s\<lparr>gs_transfer_policy := Some (if gs_attn_kind s = State then Latest_snapshot else Full_suffix)\<rparr>) = Inr t) specs published"
    by (simp add: mapE_Inr_iff)
  then show ?thesis
  proof (rule list_all2_mono)
    fix s t assume *: "check_group_spec
       (s\<lparr>gs_transfer_policy := Some (if gs_attn_kind s = State then Latest_snapshot else Full_suffix)\<rparr>) = Inr t"
    then have t: "t = s\<lparr>gs_transfer_policy := Some (if gs_attn_kind s = State then Latest_snapshot else Full_suffix)\<rparr>"
      by (rule check_group_spec_same)
    with * have "group_spec_ok t" by (metis check_group_spec_iff)
    with t show "group_spec_ok t \<and> gs_group_id t = gs_group_id s \<and> gs_attn_kind t = gs_attn_kind s \<and>
           gs_sliding_window_tokens t = gs_sliding_window_tokens s" by simp
  qed
next
  case False
  then have "published = specs" using assms(1) by simp
  then show ?thesis using assms(2) by (auto simp: list_all2_same list_all_iff)
qed

text \<open>C39: the grouping walk. The declared groups are the distinct group ids in order of first
  appearance; every spec is well formed and carries the attention kind and window of every
  layer of its group. The callback is asked once per layer, with the number of earlier layers of
  the same group that declared fields as its occurrence, and a group's field list is exactly
  what its layers declared, in layer order, never empty.\<close>

theorem group_layers_spec:
  assumes G: "group_layers layer_types gids w pg ff pd = Inr decls"
    and R: "layer_attn_kind_windows layer_types w = Inr rows"
  shows "map (\<lambda>(spec, _). gs_group_id spec) decls = first_seen gids \<and>
    (\<forall>(spec, fs) \<in> set decls. group_spec_ok spec \<and> fs \<noteq> [] \<and>
       (\<forall>i < length gids. gids ! i = gs_group_id spec \<longrightarrow>
          rows ! i = (gs_attn_kind spec, gs_sliding_window_tokens spec))) \<and>
    (\<exists>D. (\<forall>i < length gids.
            ff (int i) (gids ! i) (int (length (filter (\<lambda>j. gids ! j = gids ! i \<and> D j \<noteq> []) [0..<i]))) = Inr (D i)) \<and>
         (\<forall>(spec, fs) \<in> set decls.
            fs = concat (map D (filter (\<lambda>i. gids ! i = gs_group_id spec) [0..<length gids]))))"
proof -
  let ?rows = "List.enumerate 0 (zip rows gids)"
  have "length rows = length layer_types" using R by (rule layer_attn_kind_windows_Inr)
  with G R obtain st published where len: "length rows = length gids"
    and st: "foldE (group_step ff pg) \<lparr>gw_specs = [], gw_fields = [], gw_occurrences = []\<rparr> ?rows = Inr st"
    and full: "set (map fst (gw_specs st)) \<subseteq> set (map fst (gw_fields st))"
    and pub: "(if pd then apply_pd_transfer_policies (map snd (gw_specs st)) else Inr (map snd (gw_specs st))) = Inr published"
    and decls: "decls = map (\<lambda>spec. (spec, dict_get (gw_fields st) (gs_group_id spec) [])) published"
    by (auto simp: group_layers_def result_simps)
  have "\<forall>(i, (k, w), g) \<in> set ?rows. k = State \<longrightarrow> w = None"
    using layer_policies_state [OF R] by (fastforce simp: in_set_enumerate_eq dest: nth_mem)
  then obtain D where D: "walk_ok ff pg ?rows D st"
    using group_fold_ok [OF st] by (auto simp: map_fst_enumerate)
  have lof: "layers_of ?rows g = filter (\<lambda>i. gids ! i = g) [0..<length gids]" for g
    using layers_of_enumerate [OF len order_refl] len by simp
  have nth: "?rows ! i = (i, rows ! i, gids ! i)" if "i < length gids" for i
    using that len by (simp add: nth_enumerate_eq)
  from D have keys: "map fst (gw_specs st) = first_seen (map (snd \<circ> snd) ?rows)" unfolding walk_ok_def by (elim conjE)
  have gmap: "map (snd \<circ> snd) ?rows = gids" using len nth by (intro nth_equalityI) auto
  from D have good: "\<forall>(g, spec) \<in> set (gw_specs st). group_spec_ok spec \<and> gs_group_id spec = g"
    unfolding walk_ok_def by (elim conjE)
  from D have look: "\<forall>(i, policy, g) \<in> set ?rows. map_of (gw_specs st) g = Some (spec_for pg g policy)"
    unfolding walk_ok_def by (elim conjE)
  from D have flds: "dict_get (gw_fields st) g [] = concat (map D (layers_of ?rows g))" for g
    unfolding walk_ok_def by blast
  from D have dom: "g \<in> set (map fst (gw_fields st)) \<longleftrightarrow> concat (map D (layers_of ?rows g)) \<noteq> []" for g
    unfolding walk_ok_def by blast
  have "list_all group_spec_ok (map snd (gw_specs st))" using good by (auto simp: list_all_iff)
  note P = published_specs [OF pub this]
  have origin: "\<exists>s. (gs_group_id t, s) \<in> set (gw_specs st) \<and> group_spec_ok t \<and> gs_attn_kind t = gs_attn_kind s \<and>
       gs_sliding_window_tokens t = gs_sliding_window_tokens s" if "t \<in> set published" for t
  proof -
    from that obtain n where n: "n < length published" "published ! n = t" by (meson in_set_conv_nth)
    let ?s = "map snd (gw_specs st) ! n"
    have s: "?s \<in> set (map snd (gw_specs st))" using n list_all2_lengthD [OF P] by (intro nth_mem) simp
    have t: "group_spec_ok t" "gs_group_id t = gs_group_id ?s" "gs_attn_kind t = gs_attn_kind ?s"
       "gs_sliding_window_tokens t = gs_sliding_window_tokens ?s"
      using list_all2_nthD2 [OF P n(1)] n(2) by simp_all
    have "(gs_group_id ?s, ?s) \<in> set (gw_specs st)" using s good by auto
    with t show ?thesis by (intro exI [of _ ?s]) simp
  qed
  have ids: "map (\<lambda>(spec, _). gs_group_id spec) decls = first_seen gids"
  proof -
    have "map gs_group_id published = map gs_group_id (map snd (gw_specs st))"
      using P by (intro nth_equalityI) (auto simp: list_all2_conv_all_nth)
    also have "\<dots> = map fst (gw_specs st)" using good by (auto simp: comp_def)
    finally show ?thesis using keys gmap by (simp add: decls comp_def)
  qed
  have specs: "group_spec_ok spec \<and> fs \<noteq> [] \<and>
       (\<forall>i < length gids. gids ! i = gs_group_id spec \<longrightarrow> rows ! i = (gs_attn_kind spec, gs_sliding_window_tokens spec))"
    if m: "(spec, fs) \<in> set decls" for spec fs
  proof (intro conjI allI impI)
    from m have t: "spec \<in> set published" and fs: "fs = dict_get (gw_fields st) (gs_group_id spec) []"
      by (auto simp: decls)
    from origin [OF t] obtain s where s: "(gs_group_id spec, s) \<in> set (gw_specs st)" and "group_spec_ok spec"
      and same: "gs_attn_kind spec = gs_attn_kind s" "gs_sliding_window_tokens spec = gs_sliding_window_tokens s" by blast
    then show "group_spec_ok spec" by simp
    have "gs_group_id spec \<in> set (map fst (gw_fields st))" using s full by force
    then show "fs \<noteq> []" unfolding fs flds dom .
    fix i assume i: "i < length gids" "gids ! i = gs_group_id spec"
    have "(i, rows ! i, gids ! i) \<in> set ?rows" using nth [OF i(1)] len i(1) by (metis length_enumerate length_zip min.idem nth_mem)
    then have "map_of (gw_specs st) (gs_group_id spec) = Some (spec_for pg (gs_group_id spec) (rows ! i))"
      using look i(2) by fastforce
    moreover have "distinct (map fst (gw_specs st))" by (simp add: keys)
    ultimately have "s = spec_for pg (gs_group_id spec) (rows ! i)" using s by (metis map_of_is_SomeI option.inject)
    moreover have "fst (rows ! i) = State \<longrightarrow> snd (rows ! i) = None"
      using layer_policies_state [OF R, of "fst (rows ! i)" "snd (rows ! i)"] i(1) len by simp
    ultimately show "rows ! i = (gs_attn_kind spec, gs_sliding_window_tokens spec)"
      using same by (auto simp: spec_for_def prod_eq_iff)
  qed
  have calls: "ff (int i) (gids ! i) (int (length (filter (\<lambda>j. gids ! j = gids ! i \<and> D j \<noteq> []) [0..<i]))) = Inr (D i)"
    if i: "i < length gids" for i
  proof -
    from D have "\<forall>k < length ?rows. case ?rows ! k of (i, _, g) \<Rightarrow>
        ff (int i) g (int (length (filter (\<lambda>j. D j \<noteq> []) (layers_of (take k ?rows) g)))) = Inr (D i)"
      unfolding walk_ok_def by (elim conjE)
    then have "case ?rows ! i of (i', _, g) \<Rightarrow>
        ff (int i') g (int (length (filter (\<lambda>j. D j \<noteq> []) (layers_of (take i ?rows) g)))) = Inr (D i')"
      using i len by simp
    then show ?thesis
      unfolding nth [OF i] prod.case layers_of_enumerate [OF len less_imp_le [OF i]] by (simp add: conj_commute)
  qed
  have "fs = concat (map D (filter (\<lambda>i. gids ! i = gs_group_id spec) [0..<length gids]))"
    if "(spec, fs) \<in> set decls" for spec fs
    using that flds lof by (auto simp: decls)
  with ids specs calls show ?thesis by blast
qed

definition demo_layer_fields :: layer_fields where
  "demo_layer_fields layer_id gid occurrence =
     Inr [demo_field (layer_field_id layer_id ''k'') (''unit.'' @ int_str occurrence) [4] True]"

theorem group_layers_spec_witness:
  "\<exists>decls. group_layers demo_types [''w'', ''f'', ''w8'', ''w''] demo_windows 16 demo_layer_fields True = Inr decls \<and>
     map (\<lambda>(spec, _). gs_group_id spec) decls = [''w'', ''f'', ''w8'']"
proof -
  obtain decls where d: "group_layers demo_types [''w'', ''f'', ''w8'', ''w''] demo_windows 16 demo_layer_fields True = Inr decls"
  proof (cases "group_layers demo_types [''w'', ''f'', ''w8'', ''w''] demo_windows 16 demo_layer_fields True")
    case (Inl e)
    moreover have "is_ok (group_layers demo_types [''w'', ''f'', ''w8'', ''w''] demo_windows 16 demo_layer_fields True)"
      by code_simp
    ultimately show ?thesis by (simp add: is_ok_def)
  qed
  have "first_seen [''w'', ''f'', ''w8'', ''w''] = [''w'', ''f'', ''w8'']" by code_simp
  with group_layers_spec [OF d demo_ids(2)] d show ?thesis by simp
qed

section \<open>Slabs of hybrid models\<close>

lemma label_counts_lookup:
  shows "dict_get (label_counts labels) l 0 = int (count_list labels l)"
    and "set (map fst (label_counts labels)) = set labels" and "distinct (map fst (label_counts labels))"
proof -
  have *: "dict_get (label_counts (labels @ [x])) l 0 = (if l = x then dict_get (label_counts labels) x 0 + 1
      else dict_get (label_counts labels) l 0)"
    "set (map fst (label_counts (labels @ [x]))) = insert x (set (map fst (label_counts labels)))"
    "distinct (map fst (label_counts labels)) \<Longrightarrow> distinct (map fst (label_counts (labels @ [x])))" for labels x l
  proof -
    have s: "label_counts (labels @ [x]) =
        AList.update x (dict_get (label_counts labels) x 0 + 1) (label_counts labels)" by (simp add: label_counts_def)
    show "dict_get (label_counts (labels @ [x])) l 0 = (if l = x then dict_get (label_counts labels) x 0 + 1
      else dict_get (label_counts labels) l 0)" unfolding s by (simp add: dict_simps)
    show "set (map fst (label_counts (labels @ [x]))) = insert x (set (map fst (label_counts labels)))"
      unfolding s by (simp only: update_keys) auto
    show "distinct (map fst (label_counts labels)) \<Longrightarrow> distinct (map fst (label_counts (labels @ [x])))"
      unfolding s by (rule distinct_update)
  qed
  show "dict_get (label_counts labels) l 0 = int (count_list labels l)"
  proof (induction labels rule: rev_induct)
    case Nil show ?case by (simp add: label_counts_def dict_get_def)
  next
    case (snoc x labels) then show ?case using *(1) [of labels x l] by auto
  qed
  show "set (map fst (label_counts labels)) = set labels"
  proof (induction labels rule: rev_induct)
    case Nil show ?case by (simp add: label_counts_def)
  next
    case (snoc x labels) then show ?case using *(2) [of labels x] by simp
  qed
  show "distinct (map fst (label_counts labels))"
  proof (induction labels rule: rev_induct)
    case Nil show ?case by (simp add: label_counts_def)
  next
    case (snoc x labels) then show ?case by (rule *(3))
  qed
qed

lemma label_counts_values: "set (map snd (label_counts labels)) = (\<lambda>l. int (count_list labels l)) ` set labels"
proof -
  have "v = int (count_list labels l)" if "(l, v) \<in> set (label_counts labels)" for l v
    using that label_counts_lookup(1) [of labels l] label_counts_lookup(3) [of labels] by (simp add: dict_get_def)
  then have "set (map snd (label_counts labels)) = (\<lambda>l. int (count_list labels l)) ` set (map fst (label_counts labels))"
    by (force simp: image_image)
  then show ?thesis by (simp only: label_counts_lookup(2))
qed

text \<open>When the hybrid slab layout applies, the slab count it returns is tight: the model has at
  least two labels and no state layers, every layer's position inside its own label group is
  a valid slab, and some group uses every slab.\<close>

theorem hybrid_slab_group_size_tight:
  assumes "hybrid_slab_group_size (Some labels) w = Some n"
  shows "1 < card (set labels) \<and> (\<forall>l \<in> set labels. attn_kind_for_label l \<notin> {None, Some State}) \<and>
     (\<forall>i < length labels. int (count_list (take i labels) (labels ! i)) < n) \<and>
     (\<exists>l \<in> set labels. int (count_list labels l) = n)"
proof -
  have le: "count_list (take i labels) (labels ! i) < count_list labels (labels ! i)" if "i < length labels" for i
  proof -
    have "labels = take i labels @ labels ! i # drop (Suc i) labels" using that by (rule id_take_nth_drop)
    then have "count_list labels (labels ! i) =
        count_list (take i labels) (labels ! i) + Suc (count_list (drop (Suc i) labels) (labels ! i))"
      by (metis count_list.simps(2) count_list_append add_Suc_right Suc_eq_plus1 add.commute)
    then show ?thesis by simp
  qed
  have ne: "labels \<noteq> []" and kinds: "\<forall>l \<in> set labels. attn_kind_for_label l \<notin> {None, Some State}"
    and two: "\<not> length (label_counts labels) < 2" and n: "n = Max (set (map snd (label_counts labels)))"
    using assms by (auto simp: hybrid_slab_group_size_def Let_def list_ex_iff split: if_splits window_tokens.splits)
  have "card (set labels) = length (label_counts labels)"
    using distinct_card [OF label_counts_lookup(3) [of labels]] label_counts_lookup(2) [of labels] by simp
  then have card: "1 < card (set labels)" using two by simp
  have n': "n = Max ((\<lambda>l. int (count_list labels l)) ` set labels)" unfolding n label_counts_values ..
  then have "n \<in> (\<lambda>l. int (count_list labels l)) ` set labels" using ne by (simp del: image_iff)
  then have attained: "\<exists>l \<in> set labels. int (count_list labels l) = n" by auto
  have "int (count_list (take i labels) (labels ! i)) < n" if i: "i < length labels" for i
  proof -
    have "int (count_list labels (labels ! i)) \<le> n" unfolding n' using i by (intro Max_ge) auto
    then show ?thesis using le [OF i] by linarith
  qed
  with card kinds attained show ?thesis by blast
qed

theorem hybrid_slab_group_size_tight_witness:
  "\<exists>l \<in> set demo_types. int (count_list demo_types l) = 3"
proof -
  have "hybrid_slab_group_size (Some demo_types) (One_window 4) = Some 3" by code_simp
  from hybrid_slab_group_size_tight [OF this] show ?thesis by simp
qed

section \<open>Recurrent runs\<close>

lemma split_states_from_nth:
  "i < length labels \<Longrightarrow> split_states_from p labels ! i =
     (if labels ! i \<in> set STATE_LAYER_TYPES
      then labels ! i @ ''_'' @ nat_str (
        let run = length (takeWhile (\<lambda>l. l \<in> set STATE_LAYER_TYPES) (rev (take i labels)))
        in if run = i then p + i else run)
      else labels ! i)"
proof (induction p labels arbitrary: i rule: split_states_from.induct)
  case (2 p label labels)
  show ?case
  proof (cases i)
    case (Suc j)
    let ?S = "\<lambda>l. l \<in> set STATE_LAYER_TYPES"
    have tw: "length (takeWhile ?S (rev (take j labels))) \<le> j"
      using length_takeWhile_le [of ?S "rev (take j labels)"] by simp
    have run: "length (takeWhile ?S (rev (take j labels) @ [label])) =
        (if length (takeWhile ?S (rev (take j labels))) = j \<and> ?S label then Suc j
         else length (takeWhile ?S (rev (take j labels))))"
    proof (cases "\<forall>l \<in> set (rev (take j labels)). ?S l")
      case True
      then have all: "takeWhile ?S (rev (take j labels)) = rev (take j labels)" by (simp only: takeWhile_eq_all_conv)
      have "length (takeWhile ?S (rev (take j labels))) = j" unfolding all using Suc "2.prems" by simp
      moreover have "takeWhile ?S (rev (take j labels) @ [label]) = rev (take j labels) @ takeWhile ?S [label]"
        using True by (intro takeWhile_append2) blast
      ultimately show ?thesis using Suc "2.prems" by simp
    next
      case False
      then have "takeWhile ?S (rev (take j labels) @ [label]) = takeWhile ?S (rev (take j labels))"
        by (meson takeWhile_append1)
      moreover have "length (takeWhile ?S (rev (take j labels))) \<noteq> j"
        using False Suc "2.prems" by (metis length_rev length_take less_imp_le min.absorb2 Suc_less_eq length_Cons
            takeWhile_eq_all_conv takeWhile_eq_take take_all_iff order_refl)
      ultimately show ?thesis by simp
    qed
    show ?thesis
      using "2.IH" [of j] "2.prems" Suc run tw by (auto simp: Let_def)
  qed (auto simp: Let_def)
qed simp

text \<open>Splitting recurrent runs. A history layer keeps its label, and a state layer is named by
  its label and its position in the run of state layers that ends at it.\<close>

theorem split_recurrent_state_groups_nth:
  assumes "i < length labels"
  shows "split_recurrent_state_groups labels ! i =
     (if labels ! i \<in> set STATE_LAYER_TYPES
      then labels ! i @ ''_'' @
           nat_str (length (takeWhile (\<lambda>l. l \<in> set STATE_LAYER_TYPES) (rev (take i labels))))
      else labels ! i)"
  unfolding split_recurrent_state_groups_def using split_states_from_nth [OF assms, of 0]
  by (simp add: Let_def)

theorem split_recurrent_state_groups_nth_witness:
  "split_recurrent_state_groups [''linear_attention'', ''linear_attention'', ''full_attention'', ''linear_attention''] ! 1 =
     ''linear_attention_1''"
  using split_recurrent_state_groups_nth [of 1
    "[''linear_attention'', ''linear_attention'', ''full_attention'', ''linear_attention'']"]
  by code_simp

end
