(* ===== verification/Plan_Geometry.thy ===== *)
theory Plan_Geometry
  imports Pack
begin

text \<open>
  The byte geometry of a bound plan (\<^verbatim>\<open>CacheLayout.bind\<close> and the offset arithmetic of
  \<^verbatim>\<open>CacheMemoryPlan\<close>, \<^verbatim>\<open>kv_cache/recipes/plan.py\<close>). \<open>plan_ok\<close> is the invariant of a plan: it
  is established by \<open>bind\<close> on a well-formed layout and kept by \<open>narrow_to_layers\<close>. From it:
  the pages of one group never overlap, pages of different groups in different LCM parents
  never overlap, and everything is inside the arena. Both facts are interpretations of
  \<open>byte_regions\<close>, so that reads and writes of cache pages are isolated.
\<close>

section \<open>The invariant of a plan\<close>

definition field_placed :: "cache_memory_plan \<Rightarrow> cache_field_layout \<Rightarrow> bool" where
  "field_placed P f \<longleftrightarrow>
     (\<exists>g \<in> set (mp_groups P). \<exists>pl \<in> set (mp_planes P).
        gl_group_id g = fl_group_id f \<and> pl_plane_id pl = fl_plane_id f \<and>
        fl_page_stride_bytes f * gl_cache_blocks_per_lcm_block g = pl_bytes_per_lcm_block pl) \<and>
     0 \<le> fl_field_offset_bytes f \<and> 0 < fl_payload_bytes f \<and>
     fl_field_offset_bytes f + fl_payload_bytes f \<le> fl_page_stride_bytes f"

definition plane_bytes_total :: "cache_memory_plan \<Rightarrow> cache_plane_layout \<Rightarrow> int" where
  "plane_bytes_total P pl = (mp_num_lcm_blocks P + 1) * pl_bytes_per_lcm_block pl"

definition planes_ok :: "cache_memory_plan \<Rightarrow> bool" where
  "planes_ok P \<longleftrightarrow>
     (\<forall>pl \<in> set (mp_planes P). 0 \<le> pl_bytes_per_lcm_block pl \<and> 0 \<le> pl_arena_offset_bytes pl \<and>
        pl_arena_offset_bytes pl + plane_bytes_total P pl \<le> arena_bytes P) \<and>
     (\<forall>pl \<in> set (mp_planes P). \<forall>pl' \<in> set (mp_planes P). pl \<noteq> pl' \<longrightarrow>
        disjoint_ranges (pl_arena_offset_bytes pl) (plane_bytes_total P pl)
                        (pl_arena_offset_bytes pl') (plane_bytes_total P pl'))"

definition plan_ok :: "cache_memory_plan \<Rightarrow> bool" where
  "plan_ok P \<longleftrightarrow>
     1 \<le> mp_num_lcm_blocks P \<and>
     distinct (map gl_group_id (mp_groups P)) \<and> distinct (map pl_plane_id (mp_planes P)) \<and>
     distinct (map fl_field_id (mp_fields P)) \<and>
     (\<forall>g \<in> set (mp_groups P). 0 < gl_cache_blocks_per_lcm_block g \<and>
        gl_page_count g = 1 + mp_num_lcm_blocks P * gl_cache_blocks_per_lcm_block g \<and>
        gl_page_count g \<le> MAX_KERNEL_PAGE_ID + 1) \<and>
     planes_ok P \<and>
     (\<forall>f \<in> set (mp_fields P). field_placed P f) \<and>
     (\<forall>f \<in> set (mp_fields P). \<forall>f' \<in> set (mp_fields P).
        fl_field_id f \<noteq> fl_field_id f' \<and> fl_group_id f = fl_group_id f' \<and>
        fl_plane_id f = fl_plane_id f' \<longrightarrow>
        disjoint_ranges (fl_field_offset_bytes f) (fl_payload_bytes f)
                        (fl_field_offset_bytes f') (fl_payload_bytes f'))"

text \<open>The parent of a page: page 0 is the null page, pages \<open>1 .. K\<close> are in parent 1, and so on.\<close>

definition page_parent :: "cache_group_layout \<Rightarrow> int \<Rightarrow> int" where
  "page_parent g p = 1 + (p - 1) div gl_cache_blocks_per_lcm_block g"

section \<open>Lookups\<close>

lemma sum_list_filter_le:
  "\<forall>x \<in> set xs. (0::int) \<le> h x \<Longrightarrow> sum_list (map h (filter Q xs)) \<le> sum_list (map h xs)"
  by (induction xs) auto

lemma dict_by_lookup:
  assumes "distinct (map key xs)"
  shows "map_of (dict_by key xs) k = Some x \<longleftrightarrow> x \<in> set xs \<and> key x = k"
proof -
  have d: "distinct (map fst (map (\<lambda>x. (key x, x)) xs))" using assms by (simp add: comp_def)
  have "map_of (dict_by key xs) = map_of (map (\<lambda>x. (key x, x)) xs)"
    using map_of_rev_distinct [OF d] by (simp add: dict_by_def dict_update_conv)
  then show ?thesis using d by (auto simp del: map_map)
qed

lemma dict_at_by:
  assumes "distinct (map key xs)"
  shows "dict_at (dict_by key xs) k = Inr x \<longleftrightarrow> x \<in> set xs \<and> key x = k"
    and "dict_at (dict_by key xs) k = Inl (KeyError []) \<longleftrightarrow> k \<notin> key ` set xs"
proof -
  note look = dict_by_lookup [OF assms, of k]
  show "dict_at (dict_by key xs) k = Inr x \<longleftrightarrow> x \<in> set xs \<and> key x = k"
    unfolding dict_at_def look [symmetric] by (simp split: option.split)
  have "map_of (dict_by key xs) k = None \<longleftrightarrow> k \<notin> key ` set xs"
    using look by (metis (no_types, lifting) image_iff not_None_eq)
  then show "dict_at (dict_by key xs) k = Inl (KeyError []) \<longleftrightarrow> k \<notin> key ` set xs"
    unfolding dict_at_def by (cases "map_of (dict_by key xs) k") auto
qed

lemma plan_lookups:
  assumes "plan_ok P"
  shows "plan_group P gid = Inr g \<longleftrightarrow> g \<in> set (mp_groups P) \<and> gl_group_id g = gid"
    and "plan_field P fid = Inr f \<longleftrightarrow> f \<in> set (mp_fields P) \<and> fl_field_id f = fid"
    and "plan_plane P pid = Inr pl \<longleftrightarrow> pl \<in> set (mp_planes P) \<and> pl_plane_id pl = pid"
  using assms by (simp_all add: plan_ok_def plan_group_def plan_field_def plan_plane_def dict_at_by)

section \<open>Binding establishes the invariant\<close>

lemma pack_planes_ids: "map pl_plane_id (pack_planes n off pbs) = map fst pbs"
  by (induction n off pbs rule: pack_planes.induct) auto

lemma pack_planes_mem:
  "pl \<in> set (pack_planes n off pbs) \<Longrightarrow> (pl_plane_id pl, pl_bytes_per_lcm_block pl) \<in> set pbs"
  by (induction n off pbs rule: pack_planes.induct) auto

lemma pack_planes_find:
  "(p, b) \<in> set pbs \<Longrightarrow>
   \<exists>pl \<in> set (pack_planes n off pbs). pl_plane_id pl = p \<and> pl_bytes_per_lcm_block pl = b"
  by (induction n off pbs rule: pack_planes.induct) auto

lemma pack_planes_bytes: "map pl_bytes_per_lcm_block (pack_planes n off pbs) = map snd pbs"
  by (induction n off pbs rule: pack_planes.induct) auto

lemma pack_planes_bounds:
  assumes "\<forall>(p, b) \<in> set pbs. 0 \<le> b" and "0 \<le> n + 1" and "pl \<in> set (pack_planes n off pbs)"
  shows "off \<le> pl_arena_offset_bytes pl \<and>
         pl_arena_offset_bytes pl + (n + 1) * pl_bytes_per_lcm_block pl \<le> off + (n + 1) * sum_list (map snd pbs)"
  using assms
proof (induction n off pbs rule: pack_planes.induct)
  case (2 n off pid b rest)
  have s: "0 \<le> sum_list (map snd rest)" "0 \<le> b" using "2.prems"(1) by (fastforce intro!: sum_list_nonneg)+
  then have e: "0 \<le> (n + 1) * sum_list (map snd rest)" "0 \<le> (n + 1) * b"
    using "2.prems"(2) by (auto intro: mult_nonneg_nonneg)
  show ?case
  proof (cases "pl \<in> set (pack_planes n (off + (n + 1) * b) rest)")
    case True
    then have "off + (n + 1) * b \<le> pl_arena_offset_bytes pl"
      "pl_arena_offset_bytes pl + (n + 1) * pl_bytes_per_lcm_block pl \<le>
       off + (n + 1) * b + (n + 1) * sum_list (map snd rest)"
      using "2.IH" "2.prems" by auto
    then show ?thesis using e by (simp only: list.map sum_list.Cons snd_conv distrib_left) linarith
  next
    case False
    then have "pl_arena_offset_bytes pl = off" "pl_bytes_per_lcm_block pl = b" using "2.prems"(3) by auto
    then show ?thesis using e by (simp only: list.map sum_list.Cons snd_conv distrib_left) linarith
  qed
qed simp

lemma pack_planes_disjoint:
  assumes "\<forall>(p, b) \<in> set pbs. 0 \<le> b" and "0 \<le> n + 1" and "distinct (map fst pbs)"
    and "pl \<in> set (pack_planes n off pbs)" and "pl' \<in> set (pack_planes n off pbs)" and "pl \<noteq> pl'"
  shows "disjoint_ranges (pl_arena_offset_bytes pl) ((n + 1) * pl_bytes_per_lcm_block pl)
                         (pl_arena_offset_bytes pl') ((n + 1) * pl_bytes_per_lcm_block pl')"
  using assms
proof (induction n off pbs rule: pack_planes.induct)
  case (2 n off pid b rest)
  let ?rest = "pack_planes n (off + (n + 1) * b) rest"
  have later: "off + (n + 1) * b \<le> pl_arena_offset_bytes q" if "q \<in> set ?rest" for q
    using pack_planes_bounds [OF _ _ that] "2.prems" by auto
  consider "pl \<in> set ?rest" "pl' \<in> set ?rest" | "pl \<notin> set ?rest" "pl' \<in> set ?rest"
    | "pl \<in> set ?rest" "pl' \<notin> set ?rest"
    using "2.prems" by auto
  then show ?case
  proof cases
    case 1
    then show ?thesis using "2.IH" "2.prems" by auto
  next
    case 2
    then show ?thesis using "2.prems" later [of pl'] by (auto simp: disjoint_ranges_def)
  next
    case 3
    then show ?thesis using "2.prems" later [of pl] by (auto simp: disjoint_ranges_def)
  qed
qed simp

lemma packed_planes_ok:
  assumes "mp_planes P = pack_planes (mp_num_lcm_blocks P) 0 pbs" and "1 \<le> mp_num_lcm_blocks P"
    and "\<forall>(p, b) \<in> set pbs. 0 \<le> b" and "distinct (map fst pbs)"
    and "(mp_num_lcm_blocks P + 1) * sum_list (map snd pbs) \<le> arena_bytes P"
  shows "planes_ok P"
  unfolding planes_ok_def plane_bytes_total_def
proof (intro conjI ballI impI)
  fix pl assume "pl \<in> set (mp_planes P)"
  then have pl: "pl \<in> set (pack_planes (mp_num_lcm_blocks P) 0 pbs)" using assms(1) by simp
  show "0 \<le> pl_bytes_per_lcm_block pl" using pack_planes_mem [OF pl] assms(3) by auto
  have n: "0 \<le> mp_num_lcm_blocks P + 1" using assms(2) by simp
  show "0 \<le> pl_arena_offset_bytes pl"
    and "pl_arena_offset_bytes pl + (mp_num_lcm_blocks P + 1) * pl_bytes_per_lcm_block pl \<le> arena_bytes P"
    using pack_planes_bounds [OF assms(3) n pl] assms(5) by auto
  fix pl' assume "pl' \<in> set (mp_planes P)" "pl \<noteq> pl'"
  then show "disjoint_ranges (pl_arena_offset_bytes pl) ((mp_num_lcm_blocks P + 1) * pl_bytes_per_lcm_block pl)
     (pl_arena_offset_bytes pl') ((mp_num_lcm_blocks P + 1) * pl_bytes_per_lcm_block pl')"
    using pack_planes_disjoint [OF assms(3) n assms(4) pl] assms(1) by simp
qed

lemma bind_Inr:
  "bind L n = Inr P \<longleftrightarrow>
     1 \<le> n \<and> (\<forall>(g, k) \<in> set (cl_group_packing L). n * k \<le> MAX_KERNEL_PAGE_ID) \<and>
     P = \<lparr>mp_prefix_granularity = cl_prefix_granularity L, mp_lcm_block_bytes = cl_lcm_block_bytes L,
          mp_num_lcm_blocks = n,
          mp_groups = map (\<lambda>(g, k). \<lparr>gl_group_id = g, gl_cache_blocks_per_lcm_block = k,
                                     gl_page_count = 1 + n * k\<rparr>) (cl_group_packing L),
          mp_planes = pack_planes n 0 (cl_plane_bytes L), mp_fields = cl_fields L,
          mp_resident_block_bytes = None\<rparr>"
proof -
  have "mapE (\<lambda>(g, k). raise_if (n * k > MAX_KERNEL_PAGE_ID) (ValueError ''kernel page id exceeds'')
          (Inr \<lparr>gl_group_id = g, gl_cache_blocks_per_lcm_block = k, gl_page_count = 1 + n * k\<rparr>)) gps = Inr gls \<longleftrightarrow>
        (\<forall>(g, k) \<in> set gps. n * k \<le> MAX_KERNEL_PAGE_ID) \<and>
        gls = map (\<lambda>(g, k). \<lparr>gl_group_id = g, gl_cache_blocks_per_lcm_block = k, gl_page_count = 1 + n * k\<rparr>) gps"
    for gps gls
    by (induction gps arbitrary: gls) (auto simp: result_simps not_less)
  then show ?thesis by (auto simp: bind_def bindE_Inr_iff raise_if_Inr_iff)
qed

lemma bind_plan_ok:
  assumes L: "layout_ok L" and B: "bind L n = Inr P"
  shows "plan_ok P"
proof -
  have n: "1 \<le> n" and lim: "\<forall>(g, k) \<in> set (cl_group_packing L). n * k \<le> MAX_KERNEL_PAGE_ID"
    and P: "P = \<lparr>mp_prefix_granularity = cl_prefix_granularity L, mp_lcm_block_bytes = cl_lcm_block_bytes L,
          mp_num_lcm_blocks = n,
          mp_groups = map (\<lambda>(g, k). \<lparr>gl_group_id = g, gl_cache_blocks_per_lcm_block = k,
                                     gl_page_count = 1 + n * k\<rparr>) (cl_group_packing L),
          mp_planes = pack_planes n 0 (cl_plane_bytes L), mp_fields = cl_fields L,
          mp_resident_block_bytes = None\<rparr>" using B by (simp_all add: bind_Inr)
  have lay: "distinct (map fst (cl_group_packing L))" "distinct (map fst (cl_plane_bytes L))"
    "\<forall>(p, b) \<in> set (cl_plane_bytes L). 0 \<le> b" "sum_list (map snd (cl_plane_bytes L)) \<le> cl_lcm_block_bytes L"
    using L by (simp_all add: layout_ok_def)
  have "planes_ok P"
    by (rule packed_planes_ok [OF _ _ lay(3,2)]) (use P n lay(4) in \<open>simp_all add: arena_bytes_def mult_left_mono\<close>)
  moreover have "field_placed P f" if f: "f \<in> set (cl_fields L)" for f
  proof -
    obtain k b where k: "(fl_group_id f, k) \<in> set (cl_group_packing L)"
      and b: "(fl_plane_id f, b) \<in> set (cl_plane_bytes L)" and kb: "fl_page_stride_bytes f * k = b"
      and rest: "0 \<le> fl_field_offset_bytes f" "0 < fl_payload_bytes f"
        "fl_field_offset_bytes f + fl_payload_bytes f \<le> fl_page_stride_bytes f"
      using L f by (fastforce simp: layout_ok_def field_fits_def dest: map_of_SomeD)
    from pack_planes_find [OF b] obtain pl where "pl \<in> set (pack_planes n 0 (cl_plane_bytes L))"
      "pl_plane_id pl = fl_plane_id f" "pl_bytes_per_lcm_block pl = b" by blast
    then show ?thesis using k kb rest by (force simp: field_placed_def P)
  qed
  ultimately show ?thesis
    using L n lay(1,2) lim
    by (auto simp: plan_ok_def layout_ok_def P pack_planes_ids comp_def case_prod_unfold)
qed

section \<open>Narrowing keeps the invariant\<close>

lemma narrow_plan_ok:
  assumes "plan_ok P"
  shows "plan_ok (narrow_to_layers P lo hi)"
proof -
  let ?N = "narrow_to_layers P lo hi"
  let ?fields = "filter (owned_by_window lo hi) (mp_fields P)"
  let ?kept = "filter (\<lambda>pl. pl_plane_id pl \<in> set (map fl_plane_id ?fields)) (mp_planes P)"
  let ?pbs = "map (\<lambda>pl. (pl_plane_id pl, pl_bytes_per_lcm_block pl)) ?kept"
  have N: "mp_planes ?N = pack_planes (mp_num_lcm_blocks P) 0 ?pbs" "mp_fields ?N = ?fields"
    "mp_groups ?N = mp_groups P" "mp_num_lcm_blocks ?N = mp_num_lcm_blocks P"
    by (simp_all add: narrow_to_layers_def Let_def)
  have d: "distinct (map fst ?pbs)"
    using assms by (auto simp: plan_ok_def comp_def intro: distinct_map_filter)
  have nn: "\<forall>(p, b) \<in> set ?pbs. 0 \<le> b" using assms by (auto simp: plan_ok_def planes_ok_def)
  have one: "1 \<le> mp_num_lcm_blocks P" using assms by (simp add: plan_ok_def)
  have "arena_bytes ?N = (mp_num_lcm_blocks P + 1) * sum_list (map snd ?pbs)"
    by (simp add: arena_bytes_def narrow_to_layers_def Let_def pack_planes_bytes)
  then have pok: "planes_ok ?N" by (intro packed_planes_ok [OF _ _ nn d]) (simp_all add: N one)
  have placed: "field_placed ?N f" if f: "f \<in> set ?fields" for f
  proof -
    from f assms obtain g pl where g: "g \<in> set (mp_groups P)" "gl_group_id g = fl_group_id f"
      and pl: "pl \<in> set (mp_planes P)" "pl_plane_id pl = fl_plane_id f"
        "fl_page_stride_bytes f * gl_cache_blocks_per_lcm_block g = pl_bytes_per_lcm_block pl"
      by (auto simp: plan_ok_def field_placed_def)
    have "pl \<in> set ?kept" using pl f by auto
    then have "(pl_plane_id pl, pl_bytes_per_lcm_block pl) \<in> set ?pbs"
      unfolding set_map by (rule image_eqI [OF refl])
    from pack_planes_find [OF this] obtain pl' where "pl' \<in> set (mp_planes ?N)"
      "pl_plane_id pl' = fl_plane_id f" "pl_bytes_per_lcm_block pl' = pl_bytes_per_lcm_block pl"
      unfolding N pl(2) by blast
    moreover have "0 \<le> fl_field_offset_bytes f \<and> 0 < fl_payload_bytes f \<and>
        fl_field_offset_bytes f + fl_payload_bytes f \<le> fl_page_stride_bytes f"
      using f assms by (auto simp: plan_ok_def field_placed_def)
    ultimately show ?thesis using g pl(3) unfolding field_placed_def N(3) by metis
  qed
  have "distinct (map pl_plane_id (mp_planes ?N))" using d by (simp add: N pack_planes_ids)
  moreover have "distinct (map fl_field_id ?fields)" using assms by (simp add: plan_ok_def distinct_map_filter)
  ultimately show ?thesis using assms pok placed unfolding plan_ok_def N by auto
qed

section \<open>Where a page lies\<close>

text \<open>A page's bytes, in the terms of its plane: page \<open>p \<ge> 1\<close> is inside its parent's slab,
  and page 0 is the last page of the null parent.\<close>

lemma page_bounds:
  assumes P: "plan_ok P" and f: "f \<in> set (mp_fields P)" and g: "g \<in> set (mp_groups P)"
    and gid: "gl_group_id g = fl_group_id f" and p: "0 \<le> p" "p < gl_page_count g"
  shows "\<exists>pl x. pl \<in> set (mp_planes P) \<and> pl_plane_id pl = fl_plane_id f \<and>
     fl_page_stride_bytes f * gl_cache_blocks_per_lcm_block g = pl_bytes_per_lcm_block pl \<and>
     field_page_byte_offset P (fl_field_id f) p = Inr x \<and>
     x = pl_arena_offset_bytes pl + pl_bytes_per_lcm_block pl + (p - 1) * fl_page_stride_bytes f +
         fl_field_offset_bytes f \<and>
     pl_arena_offset_bytes pl \<le> x \<and>
     x + fl_payload_bytes f \<le> pl_arena_offset_bytes pl + plane_bytes_total P pl"
proof -
  obtain g' pl where g': "g' \<in> set (mp_groups P)" "gl_group_id g' = fl_group_id f"
      and pl: "pl \<in> set (mp_planes P)" "pl_plane_id pl = fl_plane_id f"
        "fl_page_stride_bytes f * gl_cache_blocks_per_lcm_block g' = pl_bytes_per_lcm_block pl"
      and off: "0 \<le> fl_field_offset_bytes f" "0 < fl_payload_bytes f"
        "fl_field_offset_bytes f + fl_payload_bytes f \<le> fl_page_stride_bytes f"
    using P f by (auto simp: plan_ok_def field_placed_def)
  have "g' = g" using g' g gid P by (metis plan_lookups(1) sum.inject(2))
  note pl = pl [unfolded this]
  let ?s = "fl_page_stride_bytes f" and ?K = "gl_cache_blocks_per_lcm_block g"
  let ?x = "pl_arena_offset_bytes pl + pl_bytes_per_lcm_block pl + (p - 1) * ?s + fl_field_offset_bytes f"
  have grp: "0 < ?K" "gl_page_count g = 1 + mp_num_lcm_blocks P * ?K"
    using P g by (auto simp: plan_ok_def)
  have s: "0 < ?s" using off by linarith
  have x: "field_page_byte_offset P (fl_field_id f) p = Inr ?x"
  proof -
    have "plan_field P (fl_field_id f) = Inr f" "plan_group P (fl_group_id f) = Inr g"
      "plan_plane P (fl_plane_id f) = Inr pl"
      using P f g gid pl by (simp_all add: plan_lookups)
    then show ?thesis using p by (simp add: field_page_byte_offset_def result_simps algebra_simps)
  qed
  have "1 * ?s \<le> ?K * ?s" using s grp by (intro mult_right_mono) auto
  then have sB: "?s \<le> pl_bytes_per_lcm_block pl" using pl(3) by (simp add: mult.commute)
  have "(-1) * ?s \<le> (p - 1) * ?s" using p s by (intro mult_right_mono) auto
  then have lo: "pl_arena_offset_bytes pl \<le> ?x" using sB off(1) by linarith
  have "p * ?s \<le> (mp_num_lcm_blocks P * ?K) * ?s" using p grp s by (intro mult_right_mono) auto
  then have "p * ?s \<le> mp_num_lcm_blocks P * pl_bytes_per_lcm_block pl"
    unfolding pl(3) [symmetric] by (simp only: ac_simps)
  then have "?x + fl_payload_bytes f \<le> pl_arena_offset_bytes pl + plane_bytes_total P pl"
    using off(3) by (simp add: plane_bytes_total_def left_diff_distrib distrib_right)
  with x lo pl show ?thesis by blast
qed

text \<open>The slab of one parent on one plane.\<close>

lemma page_in_parent_slab:
  assumes P: "plan_ok P" and f: "f \<in> set (mp_fields P)" and g: "g \<in> set (mp_groups P)"
    and gid: "gl_group_id g = fl_group_id f" and p: "1 \<le> p" "p < gl_page_count g"
    and pl: "pl \<in> set (mp_planes P)" "pl_plane_id pl = fl_plane_id f"
    and x: "field_page_byte_offset P (fl_field_id f) p = Inr x"
  shows "pl_arena_offset_bytes pl + page_parent g p * pl_bytes_per_lcm_block pl \<le> x \<and>
         x + fl_payload_bytes f \<le> pl_arena_offset_bytes pl + (page_parent g p + 1) * pl_bytes_per_lcm_block pl"
proof -
  let ?s = "fl_page_stride_bytes f" and ?K = "gl_cache_blocks_per_lcm_block g"
  have "0 \<le> p" using p by simp
  from page_bounds [OF P f g gid this p(2)] obtain pl' where
    pl': "pl' \<in> set (mp_planes P)" "pl_plane_id pl' = fl_plane_id f"
    and sK: "?s * ?K = pl_bytes_per_lcm_block pl'"
    and xe: "x = pl_arena_offset_bytes pl' + pl_bytes_per_lcm_block pl' + (p - 1) * ?s + fl_field_offset_bytes f"
    using x by auto
  have "pl' = pl" using pl pl' P by (metis plan_lookups(3) sum.inject(2))
  note sK = sK [unfolded this] and xe = xe [unfolded this]
  have off: "0 \<le> fl_field_offset_bytes f" "0 < fl_payload_bytes f"
        "fl_field_offset_bytes f + fl_payload_bytes f \<le> ?s"
    using P f by (auto simp: plan_ok_def field_placed_def)
  have K: "0 < ?K" using P g by (auto simp: plan_ok_def)
  have s: "0 < ?s" using off by linarith
  let ?q = "(p - 1) div ?K"
  have "?q * ?K \<le> p - 1" "p \<le> (?q + 1) * ?K"
    using int_div_bounds [OF K, of "p - 1"] by auto
  then have "(?q * ?K) * ?s \<le> (p - 1) * ?s" "p * ?s \<le> ((?q + 1) * ?K) * ?s"
    using s by (auto intro: mult_right_mono)
  then have "?q * pl_bytes_per_lcm_block pl \<le> (p - 1) * ?s" "p * ?s \<le> (?q + 1) * pl_bytes_per_lcm_block pl"
    unfolding sK [symmetric] by (simp_all only: ac_simps)
  then show ?thesis using off xe by (simp add: page_parent_def distrib_right left_diff_distrib)
qed

section \<open>Pages do not overlap\<close>

text \<open>Fields on different planes never meet.\<close>

lemma planes_apart:
  assumes P: "plan_ok P" and f: "f \<in> set (mp_fields P)" "f' \<in> set (mp_fields P)"
    and g: "g \<in> set (mp_groups P)" "gl_group_id g = fl_group_id f" "0 \<le> p" "p < gl_page_count g"
    and g': "g' \<in> set (mp_groups P)" "gl_group_id g' = fl_group_id f'" "0 \<le> p'" "p' < gl_page_count g'"
    and ne: "fl_plane_id f \<noteq> fl_plane_id f'"
    and x: "field_page_byte_offset P (fl_field_id f) p = Inr x"
    and x': "field_page_byte_offset P (fl_field_id f') p' = Inr x'"
  shows "disjoint_ranges x (fl_payload_bytes f) x' (fl_payload_bytes f')"
proof -
  obtain pl where pl: "pl \<in> set (mp_planes P)" "pl_plane_id pl = fl_plane_id f" "pl_arena_offset_bytes pl \<le> x"
      "x + fl_payload_bytes f \<le> pl_arena_offset_bytes pl + plane_bytes_total P pl"
    using page_bounds [OF P f(1) g] x by auto
  obtain pl' where pl': "pl' \<in> set (mp_planes P)" "pl_plane_id pl' = fl_plane_id f'" "pl_arena_offset_bytes pl' \<le> x'"
      "x' + fl_payload_bytes f' \<le> pl_arena_offset_bytes pl' + plane_bytes_total P pl'"
    using page_bounds [OF P f(2) g'] x' by auto
  have "pl \<noteq> pl'" using pl pl' ne by auto
  then have "disjoint_ranges (pl_arena_offset_bytes pl) (plane_bytes_total P pl)
                        (pl_arena_offset_bytes pl') (plane_bytes_total P pl')"
    using P pl(1) pl'(1) by (auto simp: plan_ok_def planes_ok_def)
  then show ?thesis by (rule disjoint_ranges_mono) (use pl pl' in auto)
qed

text \<open>Two pages of one group, same or different field.\<close>

lemma group_pages_apart:
  assumes P: "plan_ok P" and f: "f \<in> set (mp_fields P)" "f' \<in> set (mp_fields P)"
    and g: "g \<in> set (mp_groups P)" "gl_group_id g = fl_group_id f" "gl_group_id g = fl_group_id f'"
    and p: "0 \<le> p" "p < gl_page_count g" and p': "0 \<le> p'" "p' < gl_page_count g"
    and ne: "(fl_field_id f, p) \<noteq> (fl_field_id f', p')"
    and x: "field_page_byte_offset P (fl_field_id f) p = Inr x"
    and x': "field_page_byte_offset P (fl_field_id f') p' = Inr x'"
  shows "disjoint_ranges x (fl_payload_bytes f) x' (fl_payload_bytes f')"
proof (cases "fl_plane_id f = fl_plane_id f'")
  case False
  show ?thesis by (rule planes_apart [OF P f g(1,2) p g(1,3) p' False x x'])
next
  case True
  let ?K = "gl_cache_blocks_per_lcm_block g"
  obtain pl where pl: "pl \<in> set (mp_planes P)" "pl_plane_id pl = fl_plane_id f"
      "fl_page_stride_bytes f * ?K = pl_bytes_per_lcm_block pl"
      "x = pl_arena_offset_bytes pl + pl_bytes_per_lcm_block pl + (p - 1) * fl_page_stride_bytes f +
         fl_field_offset_bytes f"
    using page_bounds [OF P f(1) g(1,2) p] x by auto
  obtain pl' where pl': "pl' \<in> set (mp_planes P)" "pl_plane_id pl' = fl_plane_id f'"
      "fl_page_stride_bytes f' * ?K = pl_bytes_per_lcm_block pl'"
      "x' = pl_arena_offset_bytes pl' + pl_bytes_per_lcm_block pl' + (p' - 1) * fl_page_stride_bytes f' +
         fl_field_offset_bytes f'"
    using page_bounds [OF P f(2) g(1,3) p'] x' by auto
  have same: "pl' = pl" using pl(1,2) pl'(1,2) P True by (metis plan_lookups(3) sum.inject(2))
  have "0 < ?K" using P g(1) by (auto simp: plan_ok_def)
  then have s: "fl_page_stride_bytes f' = fl_page_stride_bytes f" (is "_ = ?s")
    using pl(3) pl'(3) same by (metis less_irrefl mult_right_cancel)
  have off: "0 \<le> fl_field_offset_bytes f" "fl_field_offset_bytes f + fl_payload_bytes f \<le> ?s" "0 < fl_payload_bytes f"
     "0 \<le> fl_field_offset_bytes f'" "fl_field_offset_bytes f' + fl_payload_bytes f' \<le> ?s"
    using P f s by (auto simp: plan_ok_def field_placed_def)
  show ?thesis
  proof (cases "p = p'")
    case pp: True
    then have "disjoint_ranges (fl_field_offset_bytes f) (fl_payload_bytes f)
                        (fl_field_offset_bytes f') (fl_payload_bytes f')"
      using P f ne g True by (auto simp: plan_ok_def)
    then show ?thesis using pl(4) pl'(4) same s pp by (auto simp: disjoint_ranges_def)
  next
    case False
    then consider "p + 1 \<le> p'" | "p' + 1 \<le> p" by linarith
    then have "p * ?s + ?s \<le> p' * ?s \<or> p' * ?s + ?s \<le> p * ?s"
    proof cases
      case 1
      then have "(p + 1) * ?s \<le> p' * ?s" using off by (intro mult_right_mono) auto
      then show ?thesis by (simp add: distrib_right)
    next
      case 2
      then have "(p' + 1) * ?s \<le> p * ?s" using off by (intro mult_right_mono) auto
      then show ?thesis by (simp add: distrib_right)
    qed
    then show ?thesis using pl(4) pl'(4) same s off by (auto simp: disjoint_ranges_def left_diff_distrib)
  qed
qed

text \<open>Two pages in different parents, of any two groups.\<close>

lemma parents_apart:
  assumes P: "plan_ok P" and f: "f \<in> set (mp_fields P)" "f' \<in> set (mp_fields P)"
    and g: "g \<in> set (mp_groups P)" "gl_group_id g = fl_group_id f" "1 \<le> p" "p < gl_page_count g"
    and g': "g' \<in> set (mp_groups P)" "gl_group_id g' = fl_group_id f'" "1 \<le> p'" "p' < gl_page_count g'"
    and ne: "page_parent g p \<noteq> page_parent g' p'"
    and x: "field_page_byte_offset P (fl_field_id f) p = Inr x"
    and x': "field_page_byte_offset P (fl_field_id f') p' = Inr x'"
  shows "disjoint_ranges x (fl_payload_bytes f) x' (fl_payload_bytes f')"
proof (cases "fl_plane_id f = fl_plane_id f'")
  case False
  show ?thesis by (rule planes_apart [OF P f g(1,2) _ g(4) g'(1,2) _ g'(4) False x x']) (use g g' in auto)
next
  case True
  have "0 \<le> p" using g by simp
  then obtain pl where pl: "pl \<in> set (mp_planes P)" "pl_plane_id pl = fl_plane_id f"
    using page_bounds [OF P f(1) g(1,2) _ g(4)] by auto
  let ?B = "pl_bytes_per_lcm_block pl"
  have B: "0 \<le> ?B" using P pl(1) by (auto simp: plan_ok_def planes_ok_def)
  note slab = page_in_parent_slab [OF P f(1) g pl x]
  note slab' = page_in_parent_slab [OF P f(2) g' pl(1) pl(2) [unfolded True] x']
  from ne consider "page_parent g p + 1 \<le> page_parent g' p'" | "page_parent g' p' + 1 \<le> page_parent g p"
    by linarith
  then have "(page_parent g p + 1) * ?B \<le> page_parent g' p' * ?B \<or> (page_parent g' p' + 1) * ?B \<le> page_parent g p * ?B"
    using B by (metis mult_right_mono)
  then show ?thesis using slab slab' by (auto simp: disjoint_ranges_def)
qed

section \<open>The page regions of a plan\<close>

text \<open>A page as a region: its first byte and its payload, total functions for the contract.\<close>

definition page_start :: "cache_memory_plan \<Rightarrow> string \<times> int \<Rightarrow> int" where
  "page_start P r = (case field_page_byte_offset P (fst r) (snd r) of Inr x \<Rightarrow> x | Inl _ \<Rightarrow> 0)"

definition page_payload :: "cache_memory_plan \<Rightarrow> string \<times> int \<Rightarrow> int" where
  "page_payload P r = (case plan_field P (fst r) of Inr f \<Rightarrow> fl_payload_bytes f | Inl _ \<Rightarrow> 0)"

text \<open>The pages of one group.\<close>

definition group_pages :: "cache_memory_plan \<Rightarrow> string \<Rightarrow> (string \<times> int) set" where
  "group_pages P gid = {(fl_field_id f, p) | f g p. f \<in> set (mp_fields P) \<and> g \<in> set (mp_groups P) \<and>
     fl_group_id f = gid \<and> gl_group_id g = gid \<and> 0 \<le> p \<and> p < gl_page_count g}"

text \<open>The pages of all groups when every parent is leased to at most one group.\<close>

definition leased_pages :: "cache_memory_plan \<Rightarrow> (int \<Rightarrow> string option) \<Rightarrow> (string \<times> int) set" where
  "leased_pages P lease = {(fl_field_id f, p) | f g p. f \<in> set (mp_fields P) \<and> g \<in> set (mp_groups P) \<and>
     fl_group_id f = gl_group_id g \<and> 1 \<le> p \<and> p < gl_page_count g \<and>
     lease (page_parent g p) = Some (gl_group_id g)}"

lemma group_pages_iff:
  "(fid, p) \<in> group_pages P gid \<longleftrightarrow> (\<exists>f \<in> set (mp_fields P). \<exists>g \<in> set (mp_groups P).
     fl_field_id f = fid \<and> fl_group_id f = gid \<and> gl_group_id g = gid \<and> 0 \<le> p \<and> p < gl_page_count g)"
  by (auto simp: group_pages_def)

lemma leased_pages_iff:
  "(fid, p) \<in> leased_pages P lease \<longleftrightarrow> (\<exists>f \<in> set (mp_fields P). \<exists>g \<in> set (mp_groups P).
     fl_field_id f = fid \<and> fl_group_id f = gl_group_id g \<and> 1 \<le> p \<and> p < gl_page_count g \<and>
     lease (page_parent g p) = Some (gl_group_id g))"
  by (auto simp: leased_pages_def)

lemma group_pages_cases:
  assumes "plan_ok P" and "r \<in> group_pages P gid"
  obtains f g x where "f \<in> set (mp_fields P)" "g \<in> set (mp_groups P)" "gl_group_id g = fl_group_id f"
    "fl_group_id f = gid" "0 \<le> snd r" "snd r < gl_page_count g" "fst r = fl_field_id f"
    "field_page_byte_offset P (fl_field_id f) (snd r) = Inr x" "page_start P r = x"
    "page_payload P r = fl_payload_bytes f"
proof -
  from assms(2) obtain f g where fg: "f \<in> set (mp_fields P)" "g \<in> set (mp_groups P)"
    "gl_group_id g = fl_group_id f" "fl_group_id f = gid" "0 \<le> snd r" "snd r < gl_page_count g" "fst r = fl_field_id f"
    by (auto simp: group_pages_def)
  from page_bounds [OF assms(1) fg(1-3,5,6)] obtain x where
    "field_page_byte_offset P (fl_field_id f) (snd r) = Inr x" by blast
  moreover have "plan_field P (fl_field_id f) = Inr f" using assms(1) fg(1) by (simp add: plan_lookups)
  ultimately show ?thesis using that fg by (simp add: page_start_def page_payload_def)
qed

lemma leased_pages_cases:
  assumes "plan_ok P" and "r \<in> leased_pages P lease"
  obtains f g x where "f \<in> set (mp_fields P)" "g \<in> set (mp_groups P)" "gl_group_id g = fl_group_id f"
    "1 \<le> snd r" "snd r < gl_page_count g" "fst r = fl_field_id f"
    "lease (page_parent g (snd r)) = Some (gl_group_id g)"
    "field_page_byte_offset P (fl_field_id f) (snd r) = Inr x" "page_start P r = x"
    "page_payload P r = fl_payload_bytes f"
proof -
  from assms(2) obtain f g where fg: "f \<in> set (mp_fields P)" "g \<in> set (mp_groups P)"
    "gl_group_id g = fl_group_id f" "1 \<le> snd r" "snd r < gl_page_count g" "fst r = fl_field_id f"
    "lease (page_parent g (snd r)) = Some (gl_group_id g)"
    by (auto simp: leased_pages_def)
  have "0 \<le> snd r" using fg by simp
  from page_bounds [OF assms(1) fg(1-3) this fg(5)] obtain x where
    "field_page_byte_offset P (fl_field_id f) (snd r) = Inr x" by blast
  moreover have "plan_field P (fl_field_id f) = Inr f" using assms(1) fg(1) by (simp add: plan_lookups)
  ultimately show ?thesis using that fg by (simp add: page_start_def page_payload_def)
qed

lemma page_in_arena:
  assumes P: "plan_ok P" and f: "f \<in> set (mp_fields P)" and g: "g \<in> set (mp_groups P)"
    and gid: "gl_group_id g = fl_group_id f" and p: "0 \<le> p" "p < gl_page_count g"
    and x: "field_page_byte_offset P (fl_field_id f) p = Inr x"
  shows "0 \<le> x \<and> x + fl_payload_bytes f \<le> arena_bytes P"
proof -
  obtain pl where "pl \<in> set (mp_planes P)" "pl_arena_offset_bytes pl \<le> x"
      "x + fl_payload_bytes f \<le> pl_arena_offset_bytes pl + plane_bytes_total P pl"
    using page_bounds [OF P f g gid p] x by auto
  moreover from this(1) have "0 \<le> pl_arena_offset_bytes pl"
      "pl_arena_offset_bytes pl + plane_bytes_total P pl \<le> arena_bytes P"
    using P by (auto simp: plan_ok_def planes_ok_def)
  ultimately show ?thesis by linarith
qed

interpretation group_region: byte_regions
  "\<lambda>(P, gid). plan_ok P" "\<lambda>(P, gid). group_pages P gid"
  "\<lambda>(P, gid). page_start P" "\<lambda>(P, gid). page_payload P" "\<lambda>(P, gid). arena_bytes P"
proof (unfold_locales, goal_cases)
  case (1 l r)
  then obtain P gid where l: "l = (P, gid)" "plan_ok P" "r \<in> group_pages P gid" by (cases l) auto
  from l(2,3) obtain f g x where *: "f \<in> set (mp_fields P)" "g \<in> set (mp_groups P)" "gl_group_id g = fl_group_id f"
    "0 \<le> snd r" "snd r < gl_page_count g" "field_page_byte_offset P (fl_field_id f) (snd r) = Inr x"
    and "page_start P r = x" "page_payload P r = fl_payload_bytes f" by (rule group_pages_cases)
  with page_in_arena [OF l(2) *] l show ?case by simp
next
  case (2 l r r')
  then obtain P gid where l: "l = (P, gid)" "plan_ok P" "r \<in> group_pages P gid" "r' \<in> group_pages P gid" by (cases l) auto
  from l(2,3) obtain f g x where 1: "f \<in> set (mp_fields P)" "g \<in> set (mp_groups P)" "gl_group_id g = fl_group_id f"
    "fl_group_id f = gid" "0 \<le> snd r" "snd r < gl_page_count g" "fst r = fl_field_id f"
    "field_page_byte_offset P (fl_field_id f) (snd r) = Inr x"
    "page_start P r = x" "page_payload P r = fl_payload_bytes f" by (rule group_pages_cases)
  from l(2,4) obtain f' g' x' where 2: "f' \<in> set (mp_fields P)" "g' \<in> set (mp_groups P)" "gl_group_id g' = fl_group_id f'"
    "fl_group_id f' = gid" "0 \<le> snd r'" "snd r' < gl_page_count g'" "fst r' = fl_field_id f'"
    "field_page_byte_offset P (fl_field_id f') (snd r') = Inr x'"
    "page_start P r' = x'" "page_payload P r' = fl_payload_bytes f'" by (rule group_pages_cases)
  have "g' = g" using 1 2 l(2) by (metis plan_lookups(1) sum.inject(2))
  moreover have "(fl_field_id f, snd r) \<noteq> (fl_field_id f', snd r')"
    using \<open>r \<noteq> r'\<close> 1(7) 2(7) by (metis prod.collapse)
  ultimately show ?case
    using group_pages_apart [OF l(2) 1(1) 2(1) 1(2,3) _ 1(5,6) 2(5) _ _ 1(8) 2(8)] 1 2 l by simp
qed

interpretation leased_region: byte_regions
  "\<lambda>(P, lease). plan_ok P" "\<lambda>(P, lease). leased_pages P lease"
  "\<lambda>(P, lease). page_start P" "\<lambda>(P, lease). page_payload P" "\<lambda>(P, lease). arena_bytes P"
proof (unfold_locales, goal_cases)
  case (1 l r)
  then obtain P lease where l: "l = (P, lease)" "plan_ok P" "r \<in> leased_pages P lease" by (cases l) auto
  from l(2,3) obtain f g x where *: "f \<in> set (mp_fields P)" "g \<in> set (mp_groups P)" "gl_group_id g = fl_group_id f"
    "1 \<le> snd r" "snd r < gl_page_count g" "field_page_byte_offset P (fl_field_id f) (snd r) = Inr x"
    and "page_start P r = x" "page_payload P r = fl_payload_bytes f" by (rule leased_pages_cases)
  with page_in_arena [OF l(2) *(1-3) _ *(5,6)] l show ?case by simp
next
  case (2 l r r')
  then obtain P lease where l: "l = (P, lease)" "plan_ok P" "r \<in> leased_pages P lease" "r' \<in> leased_pages P lease"
    by (cases l) auto
  from l(2,3) obtain f g x where 1: "f \<in> set (mp_fields P)" "g \<in> set (mp_groups P)" "gl_group_id g = fl_group_id f"
    "1 \<le> snd r" "snd r < gl_page_count g" "fst r = fl_field_id f"
    "lease (page_parent g (snd r)) = Some (gl_group_id g)"
    "field_page_byte_offset P (fl_field_id f) (snd r) = Inr x"
    "page_start P r = x" "page_payload P r = fl_payload_bytes f" by (rule leased_pages_cases)
  from l(2,4) obtain f' g' x' where 2: "f' \<in> set (mp_fields P)" "g' \<in> set (mp_groups P)" "gl_group_id g' = fl_group_id f'"
    "1 \<le> snd r'" "snd r' < gl_page_count g'" "fst r' = fl_field_id f'"
    "lease (page_parent g' (snd r')) = Some (gl_group_id g')"
    "field_page_byte_offset P (fl_field_id f') (snd r') = Inr x'"
    "page_start P r' = x'" "page_payload P r' = fl_payload_bytes f'" by (rule leased_pages_cases)
  show ?case
  proof (cases "page_parent g (snd r) = page_parent g' (snd r')")
    case True
    then have "gl_group_id g' = gl_group_id g" using 1(7) 2(7) by simp
    then have "g' = g" using 1 2 l(2) by (metis plan_lookups(1) sum.inject(2))
    moreover have "(fl_field_id f, snd r) \<noteq> (fl_field_id f', snd r')"
      using \<open>r \<noteq> r'\<close> 1(6) 2(6) by (metis prod.collapse)
    ultimately show ?thesis
      using group_pages_apart [OF l(2) 1(1) 2(1) 1(2,3) _ _ 1(5) _ _ _ 1(8) 2(8)] 1 2 l by simp
  next
    case False
    then show ?thesis
      using parents_apart [OF l(2) 1(1) 2(1) 1(2-5) 2(2-5) False 1(8) 2(8)] 1 2 l by simp
  qed
qed

section \<open>Block segments\<close>

lemma map_of_dict_rows:
  assumes "distinct (map key xs)"
  shows "map_of (dict_update [] (map (\<lambda>x. (key x, h x)) xs)) k = map_option h (map_of (dict_by key xs) k)"
proof -
  have d: "distinct (map fst (map (\<lambda>x. (key x, h x)) xs))" "distinct (map fst (map (\<lambda>x. (key x, x)) xs))"
    using assms by (simp_all add: comp_def)
  have "map_of (map (\<lambda>x. (key x, h x)) xs) k = map_option h (map_of (map (\<lambda>x. (key x, x)) xs) k)"
    by (induction xs) auto
  then show ?thesis using map_of_rev_distinct [OF d(1)] map_of_rev_distinct [OF d(2)]
    by (simp add: dict_by_def dict_update_conv)
qed

lemma page_field_layout_eq:
  assumes P: "plan_ok P"
  shows "page_field_layout P gid = bindE (plan_group P gid) (\<lambda>g. Inr (gl_page_count g,
     map (\<lambda>f. (page_start P (fl_field_id f, 0), fl_page_stride_bytes f, fl_payload_bytes f))
       (filter (\<lambda>f. fl_group_id f = gid) (mp_fields P))))"
proof -
  let ?row = "\<lambda>gid. map (\<lambda>f. (page_start P (fl_field_id f, 0), fl_page_stride_bytes f, fl_payload_bytes f))
       (filter (\<lambda>f. fl_group_id f = gid) (mp_fields P))"
  have base: "field_page_byte_offset P (fl_field_id f) 0 = Inr (page_start P (fl_field_id f, 0))"
    if "g \<in> set (mp_groups P)" "f \<in> set (mp_fields P)" "fl_group_id f = gl_group_id g" for f g
  proof -
    have "0 < gl_page_count g" using P that(1) by (auto simp: plan_ok_def intro!: add_pos_nonneg)
    from page_bounds [OF P that(2,1) that(3) [symmetric] order_refl this]
    show ?thesis by (auto simp: page_start_def)
  qed
  have "block_byte_layouts P = Inr (dict_update [] (map (\<lambda>g. (gl_group_id g, gl_page_count g, ?row (gl_group_id g)))
      (mp_groups P)))"
  proof -
    have "mapE (\<lambda>f. bindE (field_page_byte_offset P (fl_field_id f) 0) (\<lambda>base.
             Inr (base, fl_page_stride_bytes f, fl_payload_bytes f)))
           (filter (\<lambda>f. fl_group_id f = gl_group_id g) (mp_fields P)) = Inr (?row (gl_group_id g))"
      if "g \<in> set (mp_groups P)" for g
      using base [OF that] by (intro mapE_all) auto
    then have "mapE (\<lambda>grp.
         bindE (mapE (\<lambda>field.
             bindE (field_page_byte_offset P (fl_field_id field) 0) (\<lambda>base.
             Inr (base, fl_page_stride_bytes field, fl_payload_bytes field)))
           (filter (\<lambda>field. fl_group_id field = gl_group_id grp) (mp_fields P)))
         (\<lambda>fields. Inr (gl_group_id grp, gl_page_count grp, fields))) (mp_groups P) =
      Inr (map (\<lambda>g. (gl_group_id g, gl_page_count g, ?row (gl_group_id g))) (mp_groups P))"
      by (intro mapE_all) simp
    then show ?thesis by (simp add: block_byte_layouts_def)
  qed
  moreover have d: "distinct (map gl_group_id (mp_groups P))" using P by (simp add: plan_ok_def)
  moreover have "map_of (dict_by gl_group_id (mp_groups P)) gid = Some g \<Longrightarrow> gl_group_id g = gid" for g
    by (simp add: dict_by_lookup [OF d])
  ultimately show ?thesis
    by (cases "map_of (dict_by gl_group_id (mp_groups P)) gid")
       (auto simp: page_field_layout_def plan_group_def dict_at_def map_of_dict_rows)
qed

lemma page_start_linear:
  assumes "plan_ok P" and "f \<in> set (mp_fields P)" and "g \<in> set (mp_groups P)"
    and "gl_group_id g = fl_group_id f" and "0 \<le> p" and "p < gl_page_count g"
  shows "page_start P (fl_field_id f, 0) + p * fl_page_stride_bytes f = page_start P (fl_field_id f, p)"
proof -
  obtain x pl where x: "field_page_byte_offset P (fl_field_id f) p = Inr x" "pl \<in> set (mp_planes P)"
    "pl_plane_id pl = fl_plane_id f"
    "x = pl_arena_offset_bytes pl + pl_bytes_per_lcm_block pl + (p - 1) * fl_page_stride_bytes f +
         fl_field_offset_bytes f"
    using page_bounds [OF assms] by blast
  have "0 < gl_page_count g" using assms(5,6) by simp
  from page_bounds [OF assms(1-4) order_refl this]
  obtain y pl' where y: "field_page_byte_offset P (fl_field_id f) 0 = Inr y" "pl' \<in> set (mp_planes P)"
    "pl_plane_id pl' = fl_plane_id f"
    "y = pl_arena_offset_bytes pl' + pl_bytes_per_lcm_block pl' + (0 - 1) * fl_page_stride_bytes f +
         fl_field_offset_bytes f"
    by blast
  have "pl' = pl" using x(2,3) y(2,3) assms(1) by (metis plan_lookups(3) sum.inject(2))
  then show ?thesis using x y by (simp add: page_start_def left_diff_distrib)
qed

text \<open>C19: on a well-formed plan \<^verbatim>\<open>block_byte_segments\<close> gives exactly the payload ranges of the
  requested blocks, block by block and field by field in plan order, each at the address of
  \<^verbatim>\<open>field_page_byte_offset\<close>; an unknown group is a \<^verbatim>\<open>KeyError\<close> and a block id outside the
  group's page count an \<^verbatim>\<open>IndexError\<close>.\<close>

theorem block_byte_segments_spec:
  assumes "plan_ok P"
  shows "block_byte_segments P gid blocks =
    (case plan_group P gid of
       Inl e \<Rightarrow> Inl e
     | Inr g \<Rightarrow>
         if \<forall>b \<in> set blocks. 0 \<le> b \<and> b < gl_page_count g
         then mapE (\<lambda>(b, f). bindE (field_page_byte_offset P (fl_field_id f) b) (\<lambda>x.
                      Inr (x, fl_payload_bytes f)))
                (concat (map (\<lambda>b. map (Pair b) (filter (\<lambda>f. fl_group_id f = gid) (mp_fields P))) blocks))
         else Inl (IndexError ''page_id outside''))"
proof (cases "plan_group P gid")
  case (Inl e)
  then show ?thesis by (simp add: block_byte_segments_def page_field_layout_eq [OF assms])
next
  case (Inr g)
  then have g: "g \<in> set (mp_groups P)" "gl_group_id g = gid" using assms by (simp_all add: plan_lookups)
  let ?fs = "filter (\<lambda>f. fl_group_id f = gid) (mp_fields P)"
  show ?thesis
  proof (cases "\<forall>b \<in> set blocks. 0 \<le> b \<and> b < gl_page_count g")
    case True
    have addr: "field_page_byte_offset P (fl_field_id f) b = Inr (page_start P (fl_field_id f, b)) \<and>
         page_start P (fl_field_id f, 0) + b * fl_page_stride_bytes f = page_start P (fl_field_id f, b)"
      if "b \<in> set blocks" "f \<in> set ?fs" for b f
    proof -
      have f: "f \<in> set (mp_fields P)" "gl_group_id g = fl_group_id f" and b: "0 \<le> b" "b < gl_page_count g"
        using that g True by auto
      from page_bounds [OF assms f(1) g(1) f(2) b] page_start_linear [OF assms f(1) g(1) f(2) b]
      show ?thesis by (auto simp: page_start_def)
    qed
    have "mapE (\<lambda>(b, f). bindE (field_page_byte_offset P (fl_field_id f) b) (\<lambda>x. Inr (x, fl_payload_bytes f)))
                (concat (map (\<lambda>b. map (Pair b) ?fs) blocks)) =
          Inr (map (\<lambda>(b, f). (page_start P (fl_field_id f, b), fl_payload_bytes f))
                (concat (map (\<lambda>b. map (Pair b) ?fs) blocks)))"
      using addr by (intro mapE_all) auto
    moreover have "\<not> list_ex (\<lambda>b. b < 0 \<or> b \<ge> gl_page_count g) blocks"
      using True by (auto simp: list_ex_iff)
    moreover have "concat (map (\<lambda>b. map (\<lambda>f. (page_start P (fl_field_id f, 0) + b * fl_page_stride_bytes f,
            fl_payload_bytes f)) ?fs) blocks) =
          concat (map (\<lambda>b. map (\<lambda>f. (page_start P (fl_field_id f, b), fl_payload_bytes f)) ?fs) blocks)"
      using addr by (intro arg_cong [of _ _ concat] map_cong refl) auto
    ultimately show ?thesis
      using Inr True
      by (simp add: block_byte_segments_def page_field_layout_eq [OF assms] result_simps map_concat comp_def)
  next
    case False
    then have "list_ex (\<lambda>b. b < 0 \<or> b \<ge> gl_page_count g) blocks" unfolding list_ex_iff by (meson not_le)
    with False Inr show ?thesis
      by (auto simp: block_byte_segments_def page_field_layout_eq [OF assms] result_simps)
  qed
qed

text \<open>C1: on a plan bound from a packed declaration, or on any layer window of it, with every
  LCM parent leased to at most one cache group, the live pages of all groups are inside the
  arena and no two of them share a byte.\<close>

theorem leased_pages_isolated:
  assumes "pack groups pg pinned al mp = Inr L" and "bind L n = Inr P"
    and "Q = P \<or> Q = narrow_to_layers P lo hi"
    and "r \<in> leased_pages Q lease" and "r' \<in> leased_pages Q lease" and "r \<noteq> r'"
  shows "0 \<le> page_start Q r \<and> page_start Q r + page_payload Q r \<le> arena_bytes Q \<and>
         disjoint_ranges (page_start Q r) (page_payload Q r) (page_start Q r') (page_payload Q r')"
proof -
  have "layout_ok L" by (rule packed_layout_ok [OF assms(1)])
  then have "plan_ok Q" using assms(2,3) bind_plan_ok narrow_plan_ok by blast
  then show ?thesis
    using leased_region.inside [of "(Q, lease)"] leased_region.apart [of "(Q, lease)"] assms(4-6) by simp
qed

text \<open>A batch of page writes to distinct pages of one group, in any order, leaves in every
  page of the group exactly the bytes written to it, and every other page as it was.\<close>

theorem group_page_writes:
  assumes "plan_ok P" and "set (map fst ws) \<subseteq> group_pages P gid" and "distinct (map fst ws)"
    and "\<forall>(r, bs) \<in> set ws. int (length bs) = page_payload P r" and "r \<in> group_pages P gid"
  shows "read_bytes (fold (\<lambda>(r, bs) m. write_bytes m (page_start P r) bs) ws m) (page_start P r) (page_payload P r) =
         (case map_of ws r of None \<Rightarrow> read_bytes m (page_start P r) (page_payload P r) | Some bs \<Rightarrow> bs)"
  using group_region.batch [of "(P, gid)" ws r m, unfolded prod.case] assms by blast

text \<open>C20: narrowing a plan to a window of layers keeps the plan well formed, keeps every page of
  every kept field at the same place inside its plane, and never needs more memory.\<close>

theorem narrow_to_layers_sound:
  assumes "plan_ok P" and "mp_resident_block_bytes P = None \<longrightarrow>
      sum_list (map pl_bytes_per_lcm_block (mp_planes P)) \<le> mp_lcm_block_bytes P"
    and "\<forall>r. mp_resident_block_bytes P = Some r \<longrightarrow> sum_list (map pl_bytes_per_lcm_block (mp_planes P)) \<le> r"
  shows "plan_ok (narrow_to_layers P lo hi) \<and> arena_bytes (narrow_to_layers P lo hi) \<le> arena_bytes P \<and>
    (\<forall>f p pl x. f \<in> set (mp_fields P) \<and> owned_by_window lo hi f \<and> plan_plane P (fl_plane_id f) = Inr pl \<and>
       field_page_byte_offset P (fl_field_id f) p = Inr x \<longrightarrow>
       (\<exists>pl' x'. plan_plane (narrow_to_layers P lo hi) (fl_plane_id f) = Inr pl' \<and>
          field_page_byte_offset (narrow_to_layers P lo hi) (fl_field_id f) p = Inr x' \<and>
          x' - pl_arena_offset_bytes pl' = x - pl_arena_offset_bytes pl))"
proof (intro conjI)
  let ?N = "narrow_to_layers P lo hi"
  show ok: "plan_ok ?N" by (rule narrow_plan_ok [OF assms(1)])
  let ?kept = "filter (\<lambda>pl. pl_plane_id pl \<in> set (map fl_plane_id (filter (owned_by_window lo hi) (mp_fields P)))) (mp_planes P)"
  have "sum_list (map pl_bytes_per_lcm_block ?kept) \<le> sum_list (map pl_bytes_per_lcm_block (mp_planes P))"
    using assms(1) by (intro sum_list_filter_le) (auto simp: plan_ok_def planes_ok_def)
  moreover have "1 \<le> mp_num_lcm_blocks P" using assms(1) by (simp add: plan_ok_def)
  moreover have "arena_bytes ?N = (mp_num_lcm_blocks P + 1) * sum_list (map pl_bytes_per_lcm_block ?kept)"
    by (simp add: arena_bytes_def narrow_to_layers_def Let_def pack_planes_bytes comp_def)
  ultimately show "arena_bytes ?N \<le> arena_bytes P"
    using assms(2,3) unfolding arena_bytes_def by (auto intro!: mult_left_mono split: option.split)
  show "\<forall>f p pl x. f \<in> set (mp_fields P) \<and> owned_by_window lo hi f \<and> plan_plane P (fl_plane_id f) = Inr pl \<and>
       field_page_byte_offset P (fl_field_id f) p = Inr x \<longrightarrow>
       (\<exists>pl' x'. plan_plane ?N (fl_plane_id f) = Inr pl' \<and>
          field_page_byte_offset ?N (fl_field_id f) p = Inr x' \<and>
          x' - pl_arena_offset_bytes pl' = x - pl_arena_offset_bytes pl)"
  proof (intro allI impI, elim conjE)
    fix f p pl x
    assume f: "f \<in> set (mp_fields P)" "owned_by_window lo hi f" and pl: "plan_plane P (fl_plane_id f) = Inr pl"
      and x: "field_page_byte_offset P (fl_field_id f) p = Inr x"
    have fP: "plan_field P (fl_field_id f) = Inr f" using assms(1) f by (simp add: plan_lookups)
    from x fP pl obtain g where g: "g \<in> set (mp_groups P)" "gl_group_id g = fl_group_id f"
      and p: "0 \<le> p" "p < gl_page_count g"
      by (auto simp: field_page_byte_offset_def result_simps plan_lookups(1) [OF assms(1)])
    have N: "mp_groups ?N = mp_groups P" "f \<in> set (mp_fields ?N)"
      using f by (simp_all add: narrow_to_layers_def Let_def)
    from page_bounds [OF assms(1) f(1) g p] x obtain q where q: "plan_plane P (fl_plane_id f) = Inr q"
      and sq: "fl_page_stride_bytes f * gl_cache_blocks_per_lcm_block g = pl_bytes_per_lcm_block q"
      and xq: "x = pl_arena_offset_bytes q + pl_bytes_per_lcm_block q + (p - 1) * fl_page_stride_bytes f +
         fl_field_offset_bytes f" by (auto simp: plan_lookups(3) [OF assms(1)])
    have "q = pl" using q pl by simp
    from page_bounds [OF ok N(2) g(1) [folded N(1)] g(2) p] obtain pl' x' where
      "plan_plane ?N (fl_plane_id f) = Inr pl'" "field_page_byte_offset ?N (fl_field_id f) p = Inr x'"
      "fl_page_stride_bytes f * gl_cache_blocks_per_lcm_block g = pl_bytes_per_lcm_block pl'"
      "x' = pl_arena_offset_bytes pl' + pl_bytes_per_lcm_block pl' + (p - 1) * fl_page_stride_bytes f +
         fl_field_offset_bytes f" by (auto simp: plan_lookups(3) [OF ok])
    with sq xq \<open>q = pl\<close>
    show "\<exists>pl' x'. plan_plane ?N (fl_plane_id f) = Inr pl' \<and>
          field_page_byte_offset ?N (fl_field_id f) p = Inr x' \<and>
          x' - pl_arena_offset_bytes pl' = x - pl_arena_offset_bytes pl" by auto
  qed
qed

section \<open>A concrete plan\<close>

definition demo_plan :: cache_memory_plan where
  "demo_plan = \<lparr>mp_prefix_granularity = 2, mp_lcm_block_bytes = 18, mp_num_lcm_blocks = 3,
     mp_groups = [\<lparr>gl_group_id = ''a'', gl_cache_blocks_per_lcm_block = 2, gl_page_count = 7\<rparr>,
                  \<lparr>gl_group_id = ''b'', gl_cache_blocks_per_lcm_block = 3, gl_page_count = 10\<rparr>],
     mp_planes = [\<lparr>pl_plane_id = ''u'', pl_bytes_per_lcm_block = 12, pl_arena_offset_bytes = 0\<rparr>,
                  \<lparr>pl_plane_id = ''v'', pl_bytes_per_lcm_block = 6, pl_arena_offset_bytes = 48\<rparr>],
     mp_fields = cl_fields demo_layout, mp_resident_block_bytes = None\<rparr>"

lemma demo_bound: "bind demo_layout 3 = Inr demo_plan"
  by code_simp

lemma demo_plan_ok: "plan_ok demo_plan"
  by (rule bind_plan_ok [OF packed_layout_ok [OF demo_packed] demo_bound])

definition demo_lease :: "int \<Rightarrow> string option" where
  "demo_lease i = (if i = 1 then Some ''a'' else if i = 2 then Some ''b'' else None)"

lemma demo_leased:
  "(''layer.0.k'', 1) \<in> leased_pages demo_plan demo_lease"
  "(''layer.1.k'', 4) \<in> leased_pages demo_plan demo_lease"
  unfolding leased_pages_iff by code_simp+

theorem leased_pages_isolated_witness:
  "disjoint_ranges (page_start demo_plan (''layer.0.k'', 1)) (page_payload demo_plan (''layer.0.k'', 1))
                   (page_start demo_plan (''layer.1.k'', 4)) (page_payload demo_plan (''layer.1.k'', 4))"
  using leased_pages_isolated [OF demo_packed demo_bound disjI1 [OF refl] demo_leased] by simp

theorem block_byte_segments_spec_witness:
  "block_byte_segments demo_plan ''a'' [2, 1] = Inr [(18, 6), (57, 3), (12, 6), (54, 3)] \<and>
   block_byte_segments demo_plan ''a'' [7] = Inl (IndexError ''page_id outside'')"
  unfolding block_byte_segments_spec [OF demo_plan_ok] by code_simp

theorem group_page_writes_witness:
  "read_bytes (write_bytes (\<lambda>_. 0) (page_start demo_plan (''layer.0.s'', 1)) [7, 8, 9])
     (page_start demo_plan (''layer.0.s'', 2)) (page_payload demo_plan (''layer.0.s'', 2)) = [0, 0, 0]"
proof -
  have m: "(''layer.0.s'', 1) \<in> group_pages demo_plan ''a''" "(''layer.0.s'', 2) \<in> group_pages demo_plan ''a''"
    unfolding group_pages_iff by code_simp+
  have e: "page_payload demo_plan (''layer.0.s'', 1) = 3" "page_payload demo_plan (''layer.0.s'', 2) = 3"
    by code_simp+
  have "read_bytes (\<lambda>_. 0) a 3 = [0, 0, 0]" for a
    by (simp add: read_bytes_def map_replicate_const numeral_3_eq_3)
  with group_page_writes [OF demo_plan_ok, of "[((''layer.0.s'', 1), [7, 8, 9])]" "''a''" "(''layer.0.s'', 2)" "\<lambda>_. 0"]
    m e show ?thesis by simp
qed

theorem narrow_to_layers_sound_witness:
  "arena_bytes (narrow_to_layers demo_plan 1 2) \<le> arena_bytes demo_plan \<and> plan_ok (narrow_to_layers demo_plan 1 2)"
  using narrow_to_layers_sound [OF demo_plan_ok, of 1 2] by (simp add: demo_plan_def)

end
