(* ===== verification/Block_Placement.thy ===== *)
theory Block_Placement
  imports Plan_Geometry
begin

text \<open>
  Scheduler block ids and this rank's local pages:
  \<^verbatim>\<open>kv_cache/recipes/cache_runtime.py\<close> (the runtime contract of a bound arena) and
  \<^verbatim>\<open>kv_cache/virtual_blocks.py\<close> (the CPU translation). A group of shard count \<open>D\<close> deals its
  virtual blocks cyclically to \<open>D\<close> owners; block 0 is the null block everywhere.

  The placement rule is the locale \<open>block_owner\<close>: owner and local page of a block determine
  it and every local page is some block's. It is interpreted on the cyclic rule of the code,
  and its lemmas carry the batch translations here and the transfer and kernel theories.
\<close>

section \<open>The runtime contract\<close>

definition require_positive_int :: "int \<Rightarrow> int result" where
  "require_positive_int v = raise_if (v \<le> 0) (ValueError ''must be a positive integer'') (Inr v)"

definition virtual_block_count :: "int \<Rightarrow> int \<Rightarrow> int" where
  "virtual_block_count page_count shard_count = 1 + (page_count - 1) * shard_count"

record cache_runtime_contract =
  rc_prefix_granularity :: int
  rc_num_lcm_blocks :: int
  rc_token_capacity :: int
  rc_group_specs :: "cache_group_spec list"
  rc_group_page_counts :: "(string \<times> int) list"
  rc_group_packing :: "(string \<times> int) list"

definition virtual_block_counts :: "cache_runtime_contract \<Rightarrow> (string \<times> int) list result" where
  "virtual_block_counts c =
     bindE (mapE (\<lambda>spec. bindE (dict_at (rc_group_page_counts c) (gs_group_id spec)) (\<lambda>pages.
              Inr (gs_group_id spec, virtual_block_count pages (gs_shard_count spec)))) (rc_group_specs c))
       (\<lambda>rows. Inr (dict_update [] rows))"

definition virtual_packing :: "cache_runtime_contract \<Rightarrow> (string \<times> int) list result" where
  "virtual_packing c =
     bindE (mapE (\<lambda>spec. bindE (dict_at (rc_group_packing c) (gs_group_id spec)) (\<lambda>k.
              Inr (gs_group_id spec, k * gs_shard_count spec))) (rc_group_specs c))
       (\<lambda>rows. Inr (dict_update [] rows))"

text \<open>The dict comprehension \<^verbatim>\<open>{group_id: require_positive_int(..., d[group_id]) ...}\<close>.\<close>

definition positive_by_group :: "(string \<times> int) list \<Rightarrow> string list \<Rightarrow> (string \<times> int) list result" where
  "positive_by_group d group_ids =
     mapE (\<lambda>g. bindE (dict_at d g) (\<lambda>v. bindE (require_positive_int v) (\<lambda>v. Inr (g, v)))) group_ids"

text \<open>\<^verbatim>\<open>__post_init__\<close>; the result carries the normalised dictionaries.\<close>

definition check_runtime_contract :: "cache_runtime_contract \<Rightarrow> cache_runtime_contract result" where
  "check_runtime_contract c =
     bindE (require_positive_int (rc_prefix_granularity c)) (\<lambda>prefix_granularity.
     bindE (require_positive_int (rc_num_lcm_blocks c)) (\<lambda>num_lcm_blocks.
     bindE (require_positive_int (rc_token_capacity c)) (\<lambda>token_capacity.
     raise_if (rc_group_specs c = []) (ValueError ''group_specs must be a non-empty tuple'')
    (let group_ids = map gs_group_id (rc_group_specs c) in
     raise_if (list_ex (\<lambda>g. g = []) group_ids) (ValueError ''group_specs must use nonempty string IDs'')
    (raise_if (\<not> distinct group_ids) (ValueError ''group_specs contain duplicate group IDs'')
    (raise_if (set (map fst (rc_group_page_counts c)) \<noteq> set group_ids)
       (ValueError ''group_page_counts keys must match group_specs'')
    (bindE (positive_by_group (rc_group_page_counts c) group_ids) (\<lambda>counts.
     raise_if (set (map fst (rc_group_packing c)) \<noteq> set group_ids)
       (ValueError ''group_packing keys must match group_specs'')
    (bindE (positive_by_group (rc_group_packing c) group_ids) (\<lambda>packing.
     raise_if (list_ex (\<lambda>(g, n). n \<noteq> num_lcm_blocks * dict_get packing g 0 + 1) counts)
       (ValueError ''group page counts must equal num_lcm_blocks * cache_blocks_per_lcm_block + 1'')
    (bindE (virtual_block_counts c) (\<lambda>virtual_counts.
     let largest = Max (set (map snd virtual_counts)) in
     raise_if (largest - 1 > 2 ^ 31 - 1) (ValueError ''virtual cache block ID exceeds int32 range'')
    (raise_if (list_ex (\<lambda>spec. case gs_rows_per_page spec of
          None \<Rightarrow> False
        | Some rows \<Rightarrow> dict_get counts (gs_group_id spec) 0 * rows - 1 > 2 ^ 31 - 1) (rc_group_specs c))
       (ValueError ''local cache slots exceed int32 range'')
    (raise_if (token_capacity > (largest - 1) * prefix_granularity)
       (ValueError ''token_capacity exceeds the largest group child-page capacity'')
    (Inr (c\<lparr>rc_group_page_counts := counts, rc_group_packing := packing\<rparr>))))))))))))))))"

section \<open>Block translation on the CPU\<close>

text \<open>The cyclic rule: block \<open>v > 0\<close> belongs to rank \<open>(v - 1) mod D\<close> as its page
  \<open>(v - 1) div D + 1\<close>; \<open>cyclic_block\<close> is the inverse.\<close>

definition cyclic_owner :: "int \<Rightarrow> int \<Rightarrow> int" where
  "cyclic_owner shard_count v = (v - 1) mod shard_count"

definition cyclic_local :: "int \<Rightarrow> int \<Rightarrow> int" where
  "cyclic_local shard_count v = (v - 1) div shard_count + 1"

definition cyclic_block :: "int \<Rightarrow> int \<Rightarrow> int \<Rightarrow> int" where
  "cyclic_block shard_count r l = (l - 1) * shard_count + r + 1"

definition owned_local_pages ::
  "int list \<Rightarrow> int \<Rightarrow> int \<Rightarrow> int \<Rightarrow> (bool list \<times> int list) result" where
  "owned_local_pages virtual_blocks shard_count rank bound =
     bindE (require_positive_int shard_count) (\<lambda>_.
     raise_if (rank < 0 \<or> (shard_count > 1 \<and> rank \<ge> shard_count)) (ValueError ''KVP rank is out of range'')
    (if virtual_blocks = [] then Inr ([], [])
     else raise_if (list_ex (\<lambda>b. b < 0 \<or> b \<ge> bound) virtual_blocks)
            (IndexError ''virtual cache block ID is out of range'')
         (let positive = map (\<lambda>b. b - 1) virtual_blocks;
              owned = map (\<lambda>b. b > 0 \<and> (shard_count > 1 \<longrightarrow> (b - 1) mod shard_count = rank)) virtual_blocks;
              local = map (\<lambda>p. p div shard_count + 1) positive
          in Inr (owned, map snd (filter fst (zip owned local))))))"

definition local_pages :: "int list \<Rightarrow> int \<Rightarrow> int \<Rightarrow> int \<Rightarrow> int list result" where
  "local_pages virtual_blocks shard_count rank bound =
     bindE (owned_local_pages virtual_blocks shard_count rank bound) (\<lambda>r. Inr (snd r))"

definition shard_counts_of :: "cache_runtime_contract \<Rightarrow> (string \<times> int) list" where
  "shard_counts_of c = dict_update [] (map (\<lambda>spec. (gs_group_id spec, gs_shard_count spec)) (rc_group_specs c))"

definition local_pages_by_group ::
  "(string \<times> int list) list \<Rightarrow> cache_runtime_contract \<Rightarrow> int \<Rightarrow> (string \<times> int list) list result" where
  "local_pages_by_group virtual_blocks_by_group contract rank =
     bindE (virtual_block_counts contract) (\<lambda>counts.
     mapE (\<lambda>(group_id, block_ids).
       bindE (dict_at (shard_counts_of contract) group_id) (\<lambda>shard.
       bindE (dict_at counts group_id) (\<lambda>bound.
       bindE (local_pages block_ids shard rank bound) (\<lambda>pages. Inr (group_id, pages)))))
       virtual_blocks_by_group)"

definition local_page_pairs ::
  "(int \<times> int) list \<Rightarrow> int \<Rightarrow> int \<Rightarrow> int \<Rightarrow> (int \<times> int) list result" where
  "local_page_pairs pairs shard rank bound =
     bindE (owned_local_pages (map fst pairs) shard rank bound) (\<lambda>(owned_src, local_src).
     bindE (owned_local_pages (map snd pairs) shard rank bound) (\<lambda>(owned_dst, local_dst).
     raise_if (owned_src \<noteq> owned_dst) (ValueError ''a block copy pairs blocks of different owners'')
       (Inr (zip local_src local_dst))))"

definition local_page_pairs_by_group ::
  "(string \<times> (int \<times> int) list) list \<Rightarrow> cache_runtime_contract \<Rightarrow> int \<Rightarrow>
   (string \<times> (int \<times> int) list) list result" where
  "local_page_pairs_by_group virtual_pairs_by_group contract rank =
     bindE (virtual_block_counts contract) (\<lambda>counts.
     mapE (\<lambda>(group_id, pairs).
       bindE (dict_at (shard_counts_of contract) group_id) (\<lambda>shard.
       bindE (dict_at counts group_id) (\<lambda>bound.
       bindE (local_page_pairs pairs shard rank bound) (\<lambda>out. Inr (group_id, out)))))
       virtual_pairs_by_group)"

section \<open>The placement contract\<close>

locale block_owner =
  fixes inv :: "'g \<Rightarrow> bool"
    and valid :: "'g \<Rightarrow> int \<Rightarrow> bool"
    and degree :: "'g \<Rightarrow> int"
    and pages :: "'g \<Rightarrow> int"
    and owner :: "'g \<Rightarrow> int \<Rightarrow> int"
    and local :: "'g \<Rightarrow> int \<Rightarrow> int"
    and block :: "'g \<Rightarrow> int \<Rightarrow> int \<Rightarrow> int"
  assumes place: "inv g \<Longrightarrow> valid g v \<Longrightarrow> 0 \<le> owner g v \<and> owner g v < degree g \<and>
                  1 \<le> local g v \<and> local g v < pages g \<and> block g (owner g v) (local g v) = v"
    and unplace: "inv g \<Longrightarrow> 0 \<le> r \<Longrightarrow> r < degree g \<Longrightarrow> 1 \<le> l \<Longrightarrow> l < pages g \<Longrightarrow>
                  valid g (block g r l) \<and> owner g (block g r l) = r \<and> local g (block g r l) = l"
begin

lemma owner_bij: "inv g \<Longrightarrow>
   bij_betw (\<lambda>v. (owner g v, local g v)) {v. valid g v} ({0..<degree g} \<times> {1..<pages g})"
proof (rule bij_betw_byWitness [where f' = "\<lambda>(r, l). block g r l"])
  assume g: "inv g"
  show "\<forall>v \<in> {v. valid g v}. (case (owner g v, local g v) of (r, l) \<Rightarrow> block g r l) = v"
    using place [OF g] by simp
  show "\<forall>x \<in> {0..<degree g} \<times> {1..<pages g}.
      (owner g (case x of (r, l) \<Rightarrow> block g r l), local g (case x of (r, l) \<Rightarrow> block g r l)) = x"
    using unplace [OF g] by simp
  show "(\<lambda>v. (owner g v, local g v)) ` {v. valid g v} \<subseteq> {0..<degree g} \<times> {1..<pages g}"
    using place [OF g] by auto
  show "(\<lambda>(r, l). block g r l) ` ({0..<degree g} \<times> {1..<pages g}) \<subseteq> {v. valid g v}"
    using unplace [OF g] by auto
qed

lemma same_place: "inv g \<Longrightarrow> valid g v \<Longrightarrow> valid g w \<Longrightarrow> owner g v = owner g w \<Longrightarrow> local g v = local g w \<Longrightarrow> v = w"
  using place by metis

text \<open>A batch of distinct blocks gives every rank distinct pages in range, and every block is
  counted by exactly one rank.\<close>

lemma batch_distinct:
  assumes "inv g" and "\<forall>v \<in> set vs. valid g v" and "distinct vs"
  shows "distinct (map (local g) (filter (\<lambda>v. owner g v = r) vs))"
  using assms(2,3)
proof (induction vs)
  case (Cons v vs)
  have "local g w \<noteq> local g v" if "w \<in> set vs" "owner g w = owner g v" for w
    using same_place [OF assms(1), of w v] that Cons.prems by auto
  then have "owner g v = r \<Longrightarrow> local g v \<notin> local g ` {w \<in> set vs. owner g w = r}" by force
  then show ?case using Cons by simp
qed simp

lemma batch_range:
  "inv g \<Longrightarrow> \<forall>v \<in> set vs. valid g v \<Longrightarrow> set (map (local g) (filter (\<lambda>v. owner g v = r) vs)) \<subseteq> {1..<pages g}"
  using place by fastforce

lemma batch_total:
  assumes "inv g" and "\<forall>v \<in> set vs. valid g v"
  shows "(\<Sum>r = 0..<nat (degree g). length (filter (\<lambda>v. owner g v = int r) vs)) = length vs"
  using assms(2)
proof (induction vs)
  case (Cons v vs)
  then have own: "0 \<le> owner g v" "owner g v < degree g" using place [OF assms(1), of v] by auto
  have "(\<Sum>r = 0..<nat (degree g). length (filter (\<lambda>v. owner g v = int r) (v # vs))) =
        (\<Sum>r = 0..<nat (degree g). (if r = nat (owner g v) then 1 else 0) + length (filter (\<lambda>v. owner g v = int r) vs))"
    using own by (intro sum.cong) auto
  also have "\<dots> = 1 + length vs" using own Cons by (simp add: sum.distrib)
  finally show ?case by simp
qed simp

end

text \<open>The code's rule satisfies the contract, for every positive shard count and page count.\<close>

definition placed_geometry :: "int \<times> int \<Rightarrow> bool" where
  "placed_geometry g \<longleftrightarrow> 0 < fst g \<and> 1 \<le> snd g"

definition placed_block :: "int \<times> int \<Rightarrow> int \<Rightarrow> bool" where
  "placed_block g v \<longleftrightarrow> 0 < v \<and> v < virtual_block_count (snd g) (fst g)"

interpretation cyclic: block_owner placed_geometry placed_block fst snd
  "\<lambda>g. cyclic_owner (fst g)" "\<lambda>g. cyclic_local (fst g)" "\<lambda>g. cyclic_block (fst g)"
proof (unfold_locales, goal_cases)
  case (1 g v)
  obtain d n where g: "g = (d, n)" by fastforce
  have d: "0 < d" and v: "0 < v" "v < 1 + (n - 1) * d"
    using 1 by (simp_all add: g placed_geometry_def placed_block_def virtual_block_count_def)
  have "(v - 1) div d < n - 1" using v d by (simp add: int_div_less_iff)
  moreover have "0 \<le> (v - 1) div d" using v d by (simp add: pos_imp_zdiv_nonneg_iff)
  moreover have "(v - 1) div d * d + (v - 1) mod d + 1 = v" by simp
  ultimately show ?case using d by (simp add: g cyclic_owner_def cyclic_local_def cyclic_block_def)
next
  case (2 g r l)
  obtain d n where g: "g = (d, n)" by fastforce
  have d: "0 < d" "0 \<le> r" "r < d" "1 \<le> l" "l < n" using 2 by (simp_all add: g placed_geometry_def)
  have "l * d \<le> (n - 1) * d" using d by (intro mult_right_mono) auto
  then have "(l - 1) * d + r + 1 < 1 + (n - 1) * d" using d by (simp add: left_diff_distrib)
  moreover have "0 \<le> (l - 1) * d" using d by simp
  moreover have "((l - 1) * d + r) div d = l - 1" "((l - 1) * d + r) mod d = r"
    using d by (simp_all add: div_mult_self3 mod_mult_self3)
  ultimately show ?case
    using d by (simp add: g cyclic_owner_def cyclic_local_def cyclic_block_def placed_block_def virtual_block_count_def)
qed

section \<open>Batch translation\<close>

lemma owned_local_pages_eq:
  assumes "0 < D" and "0 \<le> r" and "D > 1 \<longrightarrow> r < D" and "\<forall>b \<in> set bs. 0 \<le> b \<and> b < vc"
  shows "owned_local_pages bs D r vc =
    Inr (map (\<lambda>b. b > 0 \<and> (D > 1 \<longrightarrow> cyclic_owner D b = r)) bs,
         map (cyclic_local D) (filter (\<lambda>b. b > 0 \<and> (D > 1 \<longrightarrow> cyclic_owner D b = r)) bs))"
proof -
  have z: "map snd (filter fst (zip (map P bs) (map h bs))) = map h (filter P bs)" for P and h :: "int \<Rightarrow> int"
    by (induction bs) auto
  have "\<not> list_ex (\<lambda>b. b < 0 \<or> b \<ge> vc) bs" using assms(4) by (auto simp: list_ex_iff)
  moreover have "(r < 0 \<or> (D > 1 \<and> r \<ge> D)) = False" using assms(2,3) by auto
  moreover have "map (\<lambda>p. p div D + 1) (map (\<lambda>b. b - 1) bs) = map (cyclic_local D) bs"
    by (simp add: cyclic_local_def)
  ultimately show ?thesis
    using assms(1) unfolding owned_local_pages_def require_positive_int_def Let_def cyclic_owner_def
    by (simp only: z raise_if_simps bindE_simps not_le if_True if_False split: if_split) simp
qed

lemma owned_local_pages_error:
  assumes "0 < D" and "0 \<le> r" and "D > 1 \<longrightarrow> r < D" and "\<exists>b \<in> set bs. b < 0 \<or> vc \<le> b"
  shows "owned_local_pages bs D r vc = Inl (IndexError ''virtual cache block ID is out of range'')"
proof -
  have "list_ex (\<lambda>b. b < 0 \<or> b \<ge> vc) bs" "bs \<noteq> []" using assms(4) by (auto simp: list_ex_iff)
  then show ?thesis using assms(1-3) by (auto simp: owned_local_pages_def require_positive_int_def)
qed

text \<open>C37: the owners partition a batch. For a group of \<open>D\<close> owners with \<open>P\<close> local pages each, a
  batch of distinct non-null blocks below the group's virtual bound is translated by every
  rank without error; each rank gets distinct local pages inside its arena, and the ranks
  together get each block exactly once. Conversely every local page of every rank is the
  page of exactly one virtual block.\<close>

theorem owned_local_pages_partition:
  assumes "0 < D" and "1 \<le> P" and "distinct bs" and "\<forall>b \<in> set bs. 0 < b \<and> b < virtual_block_count P D"
  shows "(\<forall>r < nat D. \<exists>mask pages. owned_local_pages bs D (int r) (virtual_block_count P D) = Inr (mask, pages) \<and>
            distinct pages \<and> set pages \<subseteq> {1..<P}) \<and>
         (\<Sum>r < nat D. length (snd (projr (owned_local_pages bs D (int r) (virtual_block_count P D))))) = length bs \<and>
         (\<forall>r l. 0 \<le> r \<and> r < D \<and> 1 \<le> l \<and> l < P \<longrightarrow>
            (\<exists>!v. 0 < v \<and> v < virtual_block_count P D \<and> cyclic_owner D v = r \<and> cyclic_local D v = l))"
proof -
  let ?g = "(D, P)"
  have g: "placed_geometry ?g" using assms by (simp add: placed_geometry_def)
  have v: "\<forall>b \<in> set bs. placed_block ?g b" using assms(4) by (simp add: placed_block_def)
  have eq: "owned_local_pages bs D (int r) (virtual_block_count P D) =
      Inr (map (\<lambda>b. b > 0 \<and> (D > 1 \<longrightarrow> cyclic_owner D b = int r)) bs,
           map (cyclic_local D) (filter (\<lambda>b. cyclic_owner D b = int r) bs))" if r: "r < nat D" for r
  proof -
    have "filter (\<lambda>b. b > 0 \<and> (D > 1 \<longrightarrow> cyclic_owner D b = int r)) bs = filter (\<lambda>b. cyclic_owner D b = int r) bs"
    proof (cases "D > 1")
      case False
      then have "D = 1" "r = 0" using assms(1) r by auto
      then show ?thesis using assms(4) by (intro filter_cong) (auto simp: cyclic_owner_def)
    qed (use assms(4) in \<open>auto intro: filter_cong\<close>)
    moreover have "0 \<le> int r" "D > 1 \<longrightarrow> int r < D" "\<forall>b \<in> set bs. 0 \<le> b \<and> b < virtual_block_count P D"
      using assms r by auto
    note owned_local_pages_eq [OF assms(1) this]
    ultimately show ?thesis by (simp only:)
  qed
  have parts: "distinct (map (cyclic_local D) (filter (\<lambda>b. cyclic_owner D b = int r) bs)) \<and>
      set (map (cyclic_local D) (filter (\<lambda>b. cyclic_owner D b = int r) bs)) \<subseteq> {1..<P}" for r
    using cyclic.batch_distinct [OF g v assms(3), of "int r"] cyclic.batch_range [OF g v, of "int r"] by simp
  have total: "(\<Sum>r < nat D. length (snd (projr (owned_local_pages bs D (int r) (virtual_block_count P D))))) = length bs"
    using cyclic.batch_total [OF g v] eq by (simp add: atLeast0LessThan)
  have "\<exists>!v. 0 < v \<and> v < virtual_block_count P D \<and> cyclic_owner D v = r \<and> cyclic_local D v = l"
    if "0 \<le> r" "r < D" "1 \<le> l" "l < P" for r l
  proof (rule ex1I [of _ "cyclic_block D r l"])
    show "0 < cyclic_block D r l \<and> cyclic_block D r l < virtual_block_count P D \<and>
        cyclic_owner D (cyclic_block D r l) = r \<and> cyclic_local D (cyclic_block D r l) = l"
      using cyclic.unplace [OF g, of r l] that by (simp add: placed_block_def)
    fix v assume "0 < v \<and> v < virtual_block_count P D \<and> cyclic_owner D v = r \<and> cyclic_local D v = l"
    then show "v = cyclic_block D r l" using cyclic.place [OF g, of v] by (simp add: placed_block_def)
  qed
  moreover have "\<exists>mask pages. owned_local_pages bs D (int r) (virtual_block_count P D) = Inr (mask, pages) \<and>
            distinct pages \<and> set pages \<subseteq> {1..<P}" if "r < nat D" for r
    unfolding eq [OF that] using parts [of r] by blast
  ultimately show ?thesis using total by simp
qed

theorem owned_local_pages_partition_witness:
  "(\<Sum>r < nat 3. length (snd (projr (owned_local_pages [1, 5, 4, 9] 3 (int r) (virtual_block_count 4 3))))) = length [1, 5, 4, 9::int]"
  using owned_local_pages_partition [of 3 4 "[1, 5, 4, 9]"] by (simp add: virtual_block_count_def)

text \<open>Two columns of a table agree on a predicate: the filtered columns are the filtered table.\<close>

lemma columns_agree: "map P (map fst ps) = map P (map snd ps) \<longleftrightarrow> (\<forall>(x, y) \<in> set ps. P x = P y)"
  by (simp add: comp_def case_prod_unfold)

lemma zip_filter_columns:
  "\<forall>(x, y) \<in> set ps. P x = P y \<Longrightarrow>
   zip (map h (filter P (map fst ps))) (map h (filter P (map snd ps))) =
   map (\<lambda>(x, y). (h x, h y)) (filter (\<lambda>(x, _). P x) ps)"
proof (induction ps)
  case (Cons p ps)
  then show ?case by (cases p) simp
qed simp

text \<open>Block copies. A batch of source and destination blocks is accepted by a rank exactly
  when both ends of every pair agree on whether this rank owns them; the result is the
  translation of the owned pairs, both ends in local pages, in the order of the batch.\<close>

theorem local_page_pairs_spec:
  assumes "1 < D" and "0 \<le> r" and "r < D"
    and "\<forall>(s, d) \<in> set pairs. 0 < s \<and> s < vc \<and> 0 < d \<and> d < vc"
  shows "local_page_pairs pairs D r vc =
    (if \<forall>(s, d) \<in> set pairs. cyclic_owner D s = r \<longleftrightarrow> cyclic_owner D d = r
     then Inr (map (\<lambda>(s, d). (cyclic_local D s, cyclic_local D d)) (filter (\<lambda>(s, d). cyclic_owner D s = r) pairs))
     else Inl (ValueError ''a block copy pairs blocks of different owners''))"
proof -
  have own: "owned_local_pages bs D r vc =
      Inr (map (\<lambda>b. cyclic_owner D b = r) bs, map (cyclic_local D) (filter (\<lambda>b. cyclic_owner D b = r) bs))"
    if bs: "\<forall>b \<in> set bs. 0 < b \<and> b < vc" for bs
  proof -
    have "map (\<lambda>b. b > 0 \<and> (D > 1 \<longrightarrow> cyclic_owner D b = r)) bs = map (\<lambda>b. cyclic_owner D b = r) bs"
      "filter (\<lambda>b. b > 0 \<and> (D > 1 \<longrightarrow> cyclic_owner D b = r)) bs = filter (\<lambda>b. cyclic_owner D b = r) bs"
      using bs assms(1) by (auto intro: filter_cong)
    moreover have "0 < D" "D > 1 \<longrightarrow> r < D" "\<forall>b \<in> set bs. 0 \<le> b \<and> b < vc" using bs assms by auto
    note owned_local_pages_eq [OF this(1) assms(2) this(2,3)]
    ultimately show ?thesis by (simp only:)
  qed
  have src: "\<forall>b \<in> set (map fst pairs). 0 < b \<and> b < vc" and dst: "\<forall>b \<in> set (map snd pairs). 0 < b \<and> b < vc"
    using assms(4) by auto
  show ?thesis
  proof (cases "\<forall>(s, d) \<in> set pairs. (cyclic_owner D s = r) = (cyclic_owner D d = r)")
    case True
    then have "map (\<lambda>b. cyclic_owner D b = r) (map fst pairs) = map (\<lambda>b. cyclic_owner D b = r) (map snd pairs)"
      by (simp only: columns_agree)
    with True show ?thesis
      unfolding local_page_pairs_def own [OF src] own [OF dst] if_P [OF True]
      by (simp only: bindE_simps prod.case raise_if_simps zip_filter_columns if_True not_True_eq_False refl)
  next
    case False
    then have "map (\<lambda>b. cyclic_owner D b = r) (map fst pairs) \<noteq> map (\<lambda>b. cyclic_owner D b = r) (map snd pairs)"
      by (simp only: columns_agree) simp
    with False show ?thesis
      unfolding local_page_pairs_def own [OF src] own [OF dst] if_not_P [OF False]
      by (simp only: bindE_simps prod.case raise_if_simps if_False not_False_eq_True)
  qed
qed

theorem local_page_pairs_spec_witness:
  "local_page_pairs [(1, 3), (2, 4)] 2 0 9 = Inr [(1, 2)]"
  using local_page_pairs_spec [of 2 0 "[(1, 3), (2, 4)]" 9] by (simp add: cyclic_owner_def cyclic_local_def)

section \<open>What an accepted contract guarantees\<close>

lemma list_all2_map_eq: "list_all2 (\<lambda>x y. f y = g x) xs ys \<Longrightarrow> map f ys = map g xs"
  by (induction rule: list_all2_induct) auto

lemma positive_by_group_Inr:
  assumes "positive_by_group d gs = Inr out"
  shows "map fst out = gs" and "(g, v) \<in> set out \<Longrightarrow> map_of d g = Some v \<and> 0 < v"
proof -
  from assms have all: "list_all2 (\<lambda>g y. fst y = g \<and> map_of d g = Some (snd y) \<and> 0 < snd y) gs out"
    unfolding positive_by_group_def mapE_Inr_iff
    by (rule list_all2_mono)
       (auto simp: result_simps dict_at_def require_positive_int_def split: option.splits)
  then show "map fst out = gs" by (auto simp: list_all2_conv_all_nth intro: nth_equalityI)
  assume "(g, v) \<in> set out"
  then obtain i where "i < length out" "out ! i = (g, v)" by (meson in_set_conv_nth)
  with all show "map_of d g = Some v \<and> 0 < v" by (auto simp: list_all2_conv_all_nth)
qed

lemma virtual_block_counts_lookup:
  assumes "virtual_block_counts c = Inr counts" and "distinct (map gs_group_id (rc_group_specs c))"
    and "spec \<in> set (rc_group_specs c)"
  obtains pages where "map_of (rc_group_page_counts c) (gs_group_id spec) = Some pages"
    and "map_of counts (gs_group_id spec) = Some (virtual_block_count pages (gs_shard_count spec))"
proof -
  from assms(1) obtain rows where rows: "list_all2 (\<lambda>spec y. \<exists>pages.
      map_of (rc_group_page_counts c) (gs_group_id spec) = Some pages \<and>
      (gs_group_id spec, virtual_block_count pages (gs_shard_count spec)) = y) (rc_group_specs c) rows"
    and counts: "counts = dict_update [] rows"
    by (auto simp: virtual_block_counts_def bindE_Inr_iff mapE_Inr_iff dict_at_Inr_iff)
  then have "map fst rows = map gs_group_id (rc_group_specs c)"
    by (intro list_all2_map_eq, elim list_all2_mono) auto
  then have d: "distinct (map fst rows)" using assms(2) by simp
  from assms(3) obtain i where i: "i < length (rc_group_specs c)" "rc_group_specs c ! i = spec"
    by (meson in_set_conv_nth)
  with rows obtain pages where p: "map_of (rc_group_page_counts c) (gs_group_id spec) = Some pages"
    and r: "rows ! i = (gs_group_id spec, virtual_block_count pages (gs_shard_count spec))"
    by (auto simp: list_all2_conv_all_nth)
  have "rows ! i \<in> set rows" using i list_all2_lengthD [OF rows] by simp
  then have "map_of rows (gs_group_id spec) = Some (virtual_block_count pages (gs_shard_count spec))"
    using d r by simp
  with that p counts d show ?thesis by (simp add: dict_update_conv map_of_rev_distinct)
qed

text \<open>What every accepted contract says of one of its groups.\<close>

lemma runtime_contract_group:
  assumes "check_runtime_contract c = Inr c'" and "spec \<in> set (rc_group_specs c)"
  shows "\<exists>pages k. map_of (rc_group_page_counts c') (gs_group_id spec) = Some pages \<and>
     map_of (rc_group_packing c') (gs_group_id spec) = Some k \<and> 0 < k \<and>
     pages = rc_num_lcm_blocks c * k + 1 \<and> 0 < rc_num_lcm_blocks c \<and> distinct (map gs_group_id (rc_group_specs c)) \<and>
     rc_group_specs c' = rc_group_specs c \<and>
     virtual_block_count pages (gs_shard_count spec) \<le> 2 ^ 31 \<and>
     (\<forall>rows. gs_rows_per_page spec = Some rows \<longrightarrow> pages * rows \<le> 2 ^ 31)"
proof -
  let ?ids = "map gs_group_id (rc_group_specs c)"
  from assms(1) obtain counts packing vcounts where d: "distinct ?ids" and n: "\<not> rc_num_lcm_blocks c \<le> 0"
    and counts: "positive_by_group (rc_group_page_counts c) ?ids = Inr counts"
    and packing: "positive_by_group (rc_group_packing c) ?ids = Inr packing"
    and match: "\<not> list_ex (\<lambda>(g, n). n \<noteq> rc_num_lcm_blocks c * dict_get packing g 0 + 1) counts"
    and vc: "virtual_block_counts c = Inr vcounts" and big: "\<not> Max (set (map snd vcounts)) - 1 > 2 ^ 31 - 1"
    and slots: "\<not> list_ex (\<lambda>spec. case gs_rows_per_page spec of None \<Rightarrow> False
        | Some rows \<Rightarrow> dict_get counts (gs_group_id spec) 0 * rows - 1 > 2 ^ 31 - 1) (rc_group_specs c)"
    and c': "c' = c\<lparr>rc_group_page_counts := counts, rc_group_packing := packing\<rparr>"
    unfolding check_runtime_contract_def Let_def bindE_Inr_iff raise_if_Inr_iff require_positive_int_def
    by (elim exE conjE) blast
  note C = positive_by_group_Inr [OF counts] and K = positive_by_group_Inr [OF packing]
  let ?g = "gs_group_id spec"
  have "?g \<in> set (map fst counts)" "?g \<in> set (map fst packing)" using assms(2) C(1) K(1) by simp_all
  then obtain pages k where pages: "(?g, pages) \<in> set counts" and k: "(?g, k) \<in> set packing" by force
  have look: "map_of counts ?g = Some pages" "map_of packing ?g = Some k"
    using pages k d C(1) K(1) by (simp_all add: map_of_is_SomeI)
  obtain pages' where "map_of (rc_group_page_counts c) ?g = Some pages'"
    and "map_of vcounts ?g = Some (virtual_block_count pages' (gs_shard_count spec))"
    by (rule virtual_block_counts_lookup [OF vc d assms(2)])
  with C(2) [OF pages] have v: "map_of vcounts ?g = Some (virtual_block_count pages (gs_shard_count spec))" by simp
  then have "virtual_block_count pages (gs_shard_count spec) \<in> set (map snd vcounts)"
    by (force dest: map_of_SomeD)
  then have "virtual_block_count pages (gs_shard_count spec) \<le> Max (set (map snd vcounts))" by (intro Max_ge) auto
  with big have small: "virtual_block_count pages (gs_shard_count spec) \<le> 2 ^ 31" by linarith
  have "pages = rc_num_lcm_blocks c * k + 1"
    using match pages look by (auto simp: list_ex_iff dict_get_def)
  moreover have "\<forall>rows. gs_rows_per_page spec = Some rows \<longrightarrow> pages * rows \<le> 2 ^ 31"
    using slots assms(2) look by (fastforce simp: list_ex_iff dict_get_def)
  moreover have "0 < k" using K(2) [OF k] by simp
  ultimately show ?thesis using look small d n c' by auto
qed

text \<open>The dict comprehensions over the specs.\<close>

lemma spec_dict_lookup:
  assumes "distinct (map gs_group_id specs)" and "\<forall>spec \<in> set specs. map_of d (gs_group_id spec) = Some (f spec)"
  obtains out where "bindE (mapE (\<lambda>spec. bindE (dict_at d (gs_group_id spec)) (\<lambda>x. Inr (gs_group_id spec, h x (gs_shard_count spec)))) specs)
      (\<lambda>rows. Inr (dict_update [] rows)) = Inr out"
    and "\<And>spec. spec \<in> set specs \<Longrightarrow> map_of out (gs_group_id spec) = Some (h (f spec) (gs_shard_count spec))"
proof
  let ?rows = "map (\<lambda>spec. (gs_group_id spec, h (f spec) (gs_shard_count spec))) specs"
  have "mapE (\<lambda>spec. bindE (dict_at d (gs_group_id spec)) (\<lambda>x. Inr (gs_group_id spec, h x (gs_shard_count spec)))) specs = Inr ?rows"
    by (rule mapE_all) (use assms(2) in \<open>simp add: dict_at_def\<close>)
  then show "bindE (mapE (\<lambda>spec. bindE (dict_at d (gs_group_id spec)) (\<lambda>x. Inr (gs_group_id spec, h x (gs_shard_count spec)))) specs)
      (\<lambda>rows. Inr (dict_update [] rows)) = Inr (dict_update [] ?rows)" by simp
  fix spec assume "spec \<in> set specs"
  then have "(gs_group_id spec, h (f spec) (gs_shard_count spec)) \<in> set ?rows" by force
  moreover have "distinct (map fst ?rows)" using assms(1) by (simp add: comp_def)
  ultimately show "map_of (dict_update [] ?rows) (gs_group_id spec) = Some (h (f spec) (gs_shard_count spec))"
    by (simp add: dict_update_conv map_of_rev_distinct map_of_is_SomeI del: map_map)
qed

lemma shard_counts_lookup:
  assumes "distinct (map gs_group_id (rc_group_specs c))" and "spec \<in> set (rc_group_specs c)"
  shows "map_of (shard_counts_of c) (gs_group_id spec) = Some (gs_shard_count spec)"
proof -
  let ?rows = "map (\<lambda>spec. (gs_group_id spec, gs_shard_count spec)) (rc_group_specs c)"
  have "(gs_group_id spec, gs_shard_count spec) \<in> set ?rows" using assms(2) by force
  moreover have "distinct (map fst ?rows)" using assms(1) by (simp add: comp_def)
  ultimately show ?thesis by (simp add: shard_counts_of_def dict_update_conv map_of_rev_distinct map_of_is_SomeI del: map_map)
qed

text \<open>The parent of a block in the scheduler's numbering is the parent of its page in the arena.\<close>

lemma cyclic_parent:
  assumes "0 < D" and "0 < k"
  shows "(cyclic_local D v - 1) div k = (v - 1) div (k * D)"
  using zdiv_zmult2_eq [of k "v - 1" D] assms by (simp add: cyclic_local_def mult.commute [of k])

lemma div_below: "0 < (k :: int) \<Longrightarrow> x < n * k \<Longrightarrow> x div k < n"
proof (rule ccontr)
  assume k: "0 < k" and x: "x < n * k" and "\<not> x div k < n"
  then have "n * k \<le> x div k * k" by (intro mult_right_mono) simp_all
  also have "\<dots> \<le> x" using k pos_mod_sign [of k x] div_mult_mod_eq [of x k] by linarith
  finally show False using x by simp
qed

text \<open>C38: an accepted runtime contract places every scheduler block. Take a group of an accepted contract and a block id
  below the group's virtual block count. Every rank of the group translates the id without error: its owner (every
  rank, for a replicated group) to one local page, any other rank to none. The page lies in the pages of the group's
  parents; its parent in the arena is the parent that the scheduler computes from the virtual packing, and exists; the
  block id and every row slot of the page fit in 32-bit signed integers.\<close>

theorem runtime_contract_places:
  assumes "check_runtime_contract c = Inr c'" and "spec \<in> set (rc_group_specs c)" and "0 < gs_shard_count spec"
  defines "g \<equiv> gs_group_id spec" and "D \<equiv> gs_shard_count spec"
  shows "\<exists>counts children bound m k. virtual_block_counts c' = Inr counts \<and> map_of counts g = Some bound \<and>
     virtual_packing c' = Inr children \<and> map_of children g = Some m \<and> map_of (rc_group_packing c') g = Some k \<and>
     (\<forall>v r. 0 < v \<and> v < bound \<and> 0 \<le> r \<and> (1 < D \<longrightarrow> r < D) \<longrightarrow> v < 2 ^ 31 \<and>
        (if 1 < D \<longrightarrow> cyclic_owner D v = r
         then \<exists>l. local_pages_by_group [(g, [v])] c' r = Inr [(g, [l])] \<and> 1 \<le> l \<and> l \<le> rc_num_lcm_blocks c * k \<and>
           (l - 1) div k = (v - 1) div m \<and> (v - 1) div m < rc_num_lcm_blocks c \<and>
           (\<forall>rows row. gs_rows_per_page spec = Some rows \<and> 0 \<le> row \<and> row < rows \<longrightarrow> l * rows + row < 2 ^ 31)
         else local_pages_by_group [(g, [v])] c' r = Inr [(g, [])]))"
proof -
  obtain pages k where pages: "map_of (rc_group_page_counts c') g = Some pages" and k: "map_of (rc_group_packing c') g = Some k" "0 < k"
    and pk: "pages = rc_num_lcm_blocks c * k + 1" and n: "0 < rc_num_lcm_blocks c"
    and d: "distinct (map gs_group_id (rc_group_specs c))" and specs: "rc_group_specs c' = rc_group_specs c"
    and small: "virtual_block_count pages D \<le> 2 ^ 31" "\<forall>rows. gs_rows_per_page spec = Some rows \<longrightarrow> pages * rows \<le> 2 ^ 31"
    using runtime_contract_group [OF assms(1,2)] unfolding g_def D_def by blast
  have all: "\<forall>s \<in> set (rc_group_specs c'). map_of (rc_group_page_counts c') (gs_group_id s) =
      Some (the (map_of (rc_group_page_counts c') (gs_group_id s)))"
    "\<forall>s \<in> set (rc_group_specs c'). map_of (rc_group_packing c') (gs_group_id s) = Some (the (map_of (rc_group_packing c') (gs_group_id s)))"
    using runtime_contract_group [OF assms(1)] unfolding specs by fastforce+
  have d': "distinct (map gs_group_id (rc_group_specs c'))" and m': "spec \<in> set (rc_group_specs c')" using d assms(2) specs by simp_all
  obtain counts where counts: "virtual_block_counts c' = Inr counts" "map_of counts g = Some (virtual_block_count pages D)"
    by (rule spec_dict_lookup [OF d' all(1), of virtual_block_count]) (use m' pages in \<open>auto simp: virtual_block_counts_def g_def D_def\<close>)
  obtain children where children: "virtual_packing c' = Inr children" "map_of children g = Some (k * D)"
    by (rule spec_dict_lookup [OF d' all(2), of "(*)"]) (use m' k in \<open>auto simp: virtual_packing_def g_def D_def\<close>)
  have shard: "map_of (shard_counts_of c') g = Some D" unfolding g_def D_def by (rule shard_counts_lookup [OF d' m'])
  have D: "0 < D" using assms(3) by (simp add: D_def)
  have run: "local_pages_by_group [(g, [v])] c' r = Inr [(g, if 1 < D \<longrightarrow> cyclic_owner D v = r then [cyclic_local D v] else [])]"
    if "0 < v" "v < virtual_block_count pages D" "0 \<le> r" "1 < D \<longrightarrow> r < D" for v r
    using owned_local_pages_eq [OF D that(3,4), of "[v]" "virtual_block_count pages D"] that
    by (simp add: local_pages_by_group_def counts shard dict_at_def local_pages_def)
  have place: "1 \<le> cyclic_local D v" "cyclic_local D v < pages" if "0 < v" "v < virtual_block_count pages D" for v
    using cyclic.place [of "(D, pages)" v] that D pk n k(2) by (auto simp: placed_geometry_def placed_block_def)
  have parent: "(v - 1) div (k * D) < rc_num_lcm_blocks c" if "0 < v" "v < virtual_block_count pages D" for v
  proof -
    have "cyclic_local D v - 1 < rc_num_lcm_blocks c * k" using place [OF that] pk by simp
    then show ?thesis using cyclic_parent [OF D k(2), of v] div_below [OF k(2)] by metis
  qed
  have slot: "cyclic_local D v * rows + row < 2 ^ 31"
    if v: "0 < v" "v < virtual_block_count pages D" and row: "gs_rows_per_page spec = Some rows" "0 \<le> row" "row < rows" for v rows row
  proof -
    have "(cyclic_local D v + 1) * rows \<le> pages * rows" using place [OF v] row by (intro mult_right_mono) simp_all
    then show ?thesis using small(2) row by (simp add: distrib_right)
  qed
  show ?thesis
    by (intro exI [of _ counts] exI [of _ children] exI [of _ "virtual_block_count pages D"] exI [of _ "k * D"] exI [of _ k] conjI counts children k(1))
      (use run place parent slot small(1) pk cyclic_parent [OF D k(2)] in auto)
qed

definition demo_contract :: cache_runtime_contract where
  "demo_contract = \<lparr>rc_prefix_granularity = 2, rc_num_lcm_blocks = 3, rc_token_capacity = 12,
     rc_group_specs = [(demo_spec ''a'')\<lparr>gs_shard_count := 2\<rparr>], rc_group_page_counts = [(''a'', 7)], rc_group_packing = [(''a'', 2)]\<rparr>"

theorem runtime_contract_places_witness:
  "\<exists>l. local_pages_by_group [(''a'', [8])] demo_contract 1 = Inr [(''a'', [l])] \<and> 1 \<le> l \<and> l \<le> 6 \<and> (l - 1) div 2 = (8 - 1) div 4"
proof -
  let ?spec = "(demo_spec ''a'')\<lparr>gs_shard_count := 2\<rparr>"
  have ok: "check_runtime_contract demo_contract = Inr demo_contract" by code_simp
  have m: "?spec \<in> set (rc_group_specs demo_contract)" by (simp add: demo_contract_def)
  have c: "virtual_block_counts demo_contract = Inr [(''a'', 13)]" "virtual_packing demo_contract = Inr [(''a'', 4)]"
    "rc_group_packing demo_contract = [(''a'', 2)]" "rc_num_lcm_blocks demo_contract = 3" "cyclic_owner 2 8 = 1" by code_simp+
  have g: "gs_group_id ?spec = ''a''" "gs_shard_count ?spec = 2" by (simp_all add: demo_spec_def)
  have "0 < gs_shard_count ?spec" by simp
  from runtime_contract_places [OF ok m this, unfolded g c]
  have "\<exists>bound m k. bound = 13 \<and> m = 4 \<and> k = 2 \<and> (\<forall>v r. 0 < v \<and> v < bound \<and> 0 \<le> r \<and> (1 < (2 :: int) \<longrightarrow> r < 2) \<longrightarrow> v < 2 ^ 31 \<and>
        (if 1 < (2 :: int) \<longrightarrow> cyclic_owner 2 v = r
         then \<exists>l. local_pages_by_group [(''a'', [v])] demo_contract r = Inr [(''a'', [l])] \<and> 1 \<le> l \<and> l \<le> 3 * k \<and>
           (l - 1) div k = (v - 1) div m \<and> (v - 1) div m < 3 \<and>
           (\<forall>rows row. gs_rows_per_page ?spec = Some rows \<and> 0 \<le> row \<and> row < rows \<longrightarrow> l * rows + row < 2 ^ 31)
         else local_pages_by_group [(''a'', [v])] demo_contract r = Inr [(''a'', [])]))" by simp
  then obtain bound m k :: int where b: "bound = 13" "m = 4" "k = 2" and "\<forall>v r. 0 < v \<and> v < bound \<and> 0 \<le> r \<and> (1 < (2 :: int) \<longrightarrow> r < 2) \<longrightarrow> v < 2 ^ 31 \<and>
        (if 1 < (2 :: int) \<longrightarrow> cyclic_owner 2 v = r
         then \<exists>l. local_pages_by_group [(''a'', [v])] demo_contract r = Inr [(''a'', [l])] \<and> 1 \<le> l \<and> l \<le> 3 * k \<and>
           (l - 1) div k = (v - 1) div m \<and> (v - 1) div m < 3 \<and>
           (\<forall>rows row. gs_rows_per_page ?spec = Some rows \<and> 0 \<le> row \<and> row < rows \<longrightarrow> l * rows + row < 2 ^ 31)
         else local_pages_by_group [(''a'', [v])] demo_contract r = Inr [(''a'', [])])" by blast
  from this(4) [THEN spec, THEN spec, of 8 1] show ?thesis unfolding b c(5) by auto
qed

end
