(* ===== verification/Page_Compaction.thy ===== *)
theory Page_Compaction
  imports Block_Placement Machine_Numbers
begin

text \<open>
  Placement of token slots and kernel pages under KV parallelism:
  \<^verbatim>\<open>dcp/placement.py\<close> and the address kernels of
  \<^verbatim>\<open>tokenspeed-kernel/.../kvcache/triton_cache_placement.py\<close>. The kernel file holds up to three
  implementations of one operation (the Triton program, the Ascend fallback and the CPU
  loop). Each is translated on its own and they are proved equal; the counting operations
  are proved equal to one reference, \<open>owned_rows\<close>: the number of token positions below a
  bound whose page the rank owns.

  Triton's integer division truncates toward zero, unlike Python's floor division:
  \<open>tdiv\<close> and \<open>tmod\<close>. A tensor of shape \<open>[requests, columns]\<close> is a list of rows, with
  \<open>columns\<close> passed beside it. Where a kernel multiplies or adds 32-bit integers, the result is wrapped
  (\<open>wrap32\<close>): the page starts and token counts of the compaction, the gathered row indices and the
  visible lengths. The slot kernels widen to 64 bits first, and a local page or slot never exceeds the
  virtual one it comes from.
\<close>

section \<open>Slots\<close>

record cache_placement =
  cp_block_granularity :: int
  cp_virtual_block_count :: int
  cp_group :: "int list"
  cp_rank :: int

definition check_cache_placement :: "cache_placement \<Rightarrow> cache_placement result" where
  "check_cache_placement p =
     raise_if (cp_block_granularity p \<le> 0 \<or> cp_virtual_block_count p \<le> 0)
       (ValueError ''Cache placement geometry must be positive'')
    (raise_if (cp_group p = [] \<or> \<not> (0 \<le> cp_rank p \<and> cp_rank p < int (length (cp_group p))))
       (ValueError ''Cache placement rank must index its nonempty group'') (Inr p))"

definition cp_degree :: "cache_placement \<Rightarrow> int" where
  "cp_degree p = int (length (cp_group p))"

text \<open>The Triton device function and one lane of the slot kernel.\<close>

definition virtual_block_to_local :: "int \<Rightarrow> int \<Rightarrow> int \<Rightarrow> int \<times> bool" where
  "virtual_block_to_local block degree rank =
     (let positive = max (block - 1) 0;
          owned = (block > 0 \<and> tmod positive degree = rank);
          local = tdiv positive degree + 1
      in (if owned then local else 0, owned))"

definition translate_virtual_slot :: "int \<Rightarrow> int \<Rightarrow> int \<Rightarrow> int \<Rightarrow> int \<Rightarrow> int \<times> bool" where
  "translate_virtual_slot rows virtual_count degree rank raw =
     (let safe = max raw 0;
          (local, owner0) = virtual_block_to_local (tdiv safe rows) degree rank;
          owner = (owner0 \<and> raw \<ge> rows \<and> raw < virtual_count * rows)
      in (if owner then local * rows + tmod safe rows else 0, owner))"

text \<open>The CPU branch of \<^verbatim>\<open>virtual_slots_to_local\<close>, element by element.\<close>

definition cpu_virtual_slot :: "int \<Rightarrow> int \<Rightarrow> int \<Rightarrow> int \<Rightarrow> int \<Rightarrow> int \<times> bool" where
  "cpu_virtual_slot rows virtual_count degree rank slot =
     (let safe = max slot 0;
          block = safe div rows;
          positive = max (block - 1) 0;
          owned = (slot \<ge> rows \<and> slot < virtual_count * rows \<and> positive mod degree = rank);
          local = (positive div degree + 1) * rows + safe mod rows
      in (if owned then local else 0, owned))"

text \<open>What the operations read of a tensor besides its elements.\<close>

datatype device_kind = Npu | Cuda | Cpu

datatype torch_dtype = Int32 | Int64 | Torch_bool | Other_dtype

record tensor_meta =
  tm_shape :: "nat list"
  tm_dtype :: torch_dtype
  tm_device :: "device_kind \<times> nat"
  tm_contiguous :: bool

definition output_mismatch :: "tensor_meta \<Rightarrow> tensor_meta \<times> torch_dtype \<Rightarrow> bool" where
  "output_mismatch slots = (\<lambda>(v, dtype). tm_shape v \<noteq> tm_shape slots \<or> tm_dtype v \<noteq> dtype \<or>
     tm_device v \<noteq> tm_device slots \<or> \<not> tm_contiguous v)"

text \<open>The slots in row-major order beside their tensor's description; \<open>out\<close> and \<open>owner_mask\<close> are the
  descriptions of the optional output buffers. The result is what the two outputs hold.\<close>

definition virtual_slots_to_local ::
  "tensor_meta \<Rightarrow> int list \<Rightarrow> int \<Rightarrow> int \<Rightarrow> int \<Rightarrow> int \<Rightarrow> tensor_meta option \<Rightarrow> tensor_meta option \<Rightarrow>
   (int list \<times> bool list) result" where
  "virtual_slots_to_local meta slots rows_per_page virtual_count degree rank out owner_mask =
     raise_if (rows_per_page \<le> 0 \<or> virtual_count \<le> 1 \<or> degree \<le> 0)
       (ValueError ''virtual slot geometry must be positive and include usable pages'')
    (raise_if (\<not> (0 \<le> rank \<and> rank < degree)) (ValueError ''virtual slot owner rank is out of range'')
    (raise_if (tm_dtype meta \<notin> {Int32, Int64}) (TypeError ''virtual slots must be int32 or int64'')
    (let out_buffer = (case out of None \<Rightarrow> meta\<lparr>tm_contiguous := True\<rparr> | Some v \<Rightarrow> v);
         mask_buffer = (case owner_mask of None \<Rightarrow> meta\<lparr>tm_dtype := Torch_bool, tm_contiguous := True\<rparr> | Some v \<Rightarrow> v)
     in raise_if (list_ex (output_mismatch meta) [(out_buffer, tm_dtype meta), (mask_buffer, Torch_bool)])
          (ValueError ''virtual slot outputs must match shape, device and dtype'')
    (let lanes = map (if fst (tm_device meta) \<in> {Cuda, Npu} then translate_virtual_slot rows_per_page virtual_count degree rank
                      else cpu_virtual_slot rows_per_page virtual_count degree rank) slots
     in Inr (map fst lanes, map snd lanes)))))"

definition resolve_cache_slots ::
  "tensor_meta \<Rightarrow> int list \<Rightarrow> cache_placement option \<Rightarrow> (int list \<times> bool list option) result" where
  "resolve_cache_slots meta loc placement =
     (case placement of
        None \<Rightarrow> Inr (loc, None)
      | Some p \<Rightarrow> bindE (virtual_slots_to_local meta loc (cp_block_granularity p) (cp_virtual_block_count p)
                          (cp_degree p) (cp_rank p) None None) (\<lambda>(slots, mask). Inr (slots, Some mask)))"

definition cyclic_slot_owner :: "int \<Rightarrow> cache_placement option \<Rightarrow> int" where
  "cyclic_slot_owner slot placement =
     (case placement of
        None \<Rightarrow> 0
      | Some p \<Rightarrow>
          let rows = cp_block_granularity p; degree = cp_degree p;
              safe = max slot 0; block = safe div rows;
              valid = (slot \<ge> rows \<and> block < cp_virtual_block_count p)
          in if valid then (block - 1) mod degree else -1)"

section \<open>Rows laid out for an all-gather\<close>

text \<open>The CPU branch of \<^verbatim>\<open>split_slots_by_owner\<close>: \<^verbatim>\<open>within\<close> is the inclusive count of the
  row's owner so far, less one; \<^verbatim>\<open>fetch[within[mine]] = local[mine]\<close> raises outside.\<close>

definition slot_owner :: "int \<Rightarrow> int \<Rightarrow> int \<Rightarrow> int" where
  "slot_owner granularity degree slot = (slot div granularity - 1) mod degree"

definition slot_local :: "int \<Rightarrow> int \<Rightarrow> int \<Rightarrow> int" where
  "slot_local granularity degree slot =
     ((slot div granularity - 1) div degree + 1) * granularity + slot mod granularity"

fun owner_ranks :: "(int \<Rightarrow> int) \<Rightarrow> int list \<Rightarrow> int list" where
  "owner_ranks seen [] = []"
| "owner_ranks seen (o' # os) = seen o' # owner_ranks (seen(o' := seen o' + 1)) os"

definition store_fetch :: "int list \<Rightarrow> (int \<times> int) list \<Rightarrow> int list result" where
  "store_fetch fetch writes =
     raise_if (list_ex (\<lambda>(i, _). i \<ge> int (length fetch)) writes) (IndexError [])
       (Inr (fold (\<lambda>(i, v) f. f[nat i := v]) writes fetch))"

definition split_slots_cpu ::
  "int list \<Rightarrow> int \<Rightarrow> int \<Rightarrow> int \<Rightarrow> int \<Rightarrow> int list \<Rightarrow> (int list \<times> int list) result" where
  "split_slots_cpu slots granularity degree rank send_rows fetch =
     (let owner = map (slot_owner granularity degree) slots;
          slot_pos = owner_ranks (\<lambda>_. 0) owner;
          gathered_index = map2 (\<lambda>o' w. wrap32 (o' * send_rows + w)) owner slot_pos;
          mine = filter (\<lambda>(o', w, s). o' = rank) (zip owner (zip slot_pos slots))
      in bindE (store_fetch fetch (map (\<lambda>(_, w, s). (w, slot_local granularity degree s)) mine)) (\<lambda>f.
         Inr (gathered_index, f)))"

text \<open>The Triton program: blocks of \<open>BLOCK\<close> rows, each owner's count carried across blocks.
  Its stores are not bounds checked, so a store past the buffer is outside the model.\<close>

definition split_block ::
  "int \<Rightarrow> int \<Rightarrow> int \<Rightarrow> int \<Rightarrow> (int \<Rightarrow> int) \<times> int list \<times> int list \<Rightarrow> int list \<Rightarrow>
   (int \<Rightarrow> int) \<times> int list \<times> int list" where
  "split_block rows degree rank send_rows acc chunk =
     (case acc of (carry, index, fetch) \<Rightarrow>
        let owner = map (\<lambda>slot. tmod (tdiv slot rows - 1) degree) chunk;
            slot_pos = map (\<lambda>i. int (count_list (take (Suc i) owner) (owner ! i)) + carry (owner ! i) - 1)
                       [0..<length chunk];
            local = map (\<lambda>slot. (tdiv (tdiv slot rows - 1) degree + 1) * rows + tmod slot rows) chunk;
            writes = map snd (filter (\<lambda>(o', _). o' = rank) (zip owner (zip slot_pos local)))
        in (\<lambda>o'. carry o' + int (count_list owner o'),
            index @ map2 (\<lambda>o' w. wrap32 (o' * send_rows + w)) owner slot_pos,
            fold (\<lambda>(i, v) f. f[nat i := v]) writes fetch))"

fun chunks_of :: "nat \<Rightarrow> 'a list \<Rightarrow> 'a list list" where
  "chunks_of n xs = (if xs = [] \<or> n = 0 then [] else take n xs # chunks_of n (drop n xs))"

declare chunks_of.simps [simp del]

definition split_slots_kernel ::
  "nat \<Rightarrow> int list \<Rightarrow> int \<Rightarrow> int \<Rightarrow> int \<Rightarrow> int \<Rightarrow> int list \<Rightarrow> int list \<times> int list" where
  "split_slots_kernel BLOCK slots rows degree rank send_rows fetch =
     snd (foldl (split_block rows degree rank send_rows) (\<lambda>_. 0, [], fetch) (chunks_of BLOCK slots))"

text \<open>The whole operation: the buffer checks, then one of the two branches. \<open>index_meta\<close> and \<open>fetch_meta\<close> describe
  \<^verbatim>\<open>gathered_index\<close> and \<^verbatim>\<open>fetch\<close>.\<close>

definition split_slots_by_owner ::
  "tensor_meta \<Rightarrow> tensor_meta \<Rightarrow> tensor_meta \<Rightarrow> int list \<Rightarrow> int \<Rightarrow> int \<Rightarrow> int \<Rightarrow> int \<Rightarrow> int list \<Rightarrow> (int list \<times> int list) result" where
  "split_slots_by_owner meta index_meta fetch_meta slots granularity degree rank send_rows fetch =
     raise_if (granularity \<le> 0 \<or> degree \<le> 0 \<or> \<not> (0 \<le> rank \<and> rank < degree))
       (ValueError ''invalid owner split geometry'')
    (raise_if (length (tm_shape meta) \<noteq> 1 \<or> \<not> tm_contiguous meta \<or> tm_shape index_meta \<noteq> tm_shape meta \<or>
        tm_dtype index_meta \<noteq> Int32 \<or> length (tm_shape fetch_meta) \<noteq> 1 \<or> tm_dtype fetch_meta \<noteq> tm_dtype meta)
       (ValueError ''owner split buffers disagree with the slots'')
    (if slots = [] then Inr ([], fetch)
     else if fst (tm_device meta) = Cuda then Inr (split_slots_kernel 1024 slots granularity degree rank send_rows fetch)
     else split_slots_cpu slots granularity degree rank send_rows fetch))"

section \<open>Compact page tables\<close>

definition clamp :: "int \<Rightarrow> int \<Rightarrow> int \<Rightarrow> int" where
  "clamp lo hi x = min (max x lo) hi"

text \<open>The arguments of one row; \<^verbatim>\<open>keep\<close> is \<^verbatim>\<open>page_prefix is not None\<close>. The result is the output
  row, the local token count, and the prefix row when it is asked for.\<close>

type_synonym compact_row = "int list \<times> int \<times> int list option"

text \<open>CPU: the loop with its early \<^verbatim>\<open>break\<close>, writing \<^verbatim>\<open>out[row, count]\<close>.\<close>

fun compact_cpu_loop ::
  "bool \<Rightarrow> int \<Rightarrow> int \<Rightarrow> int \<Rightarrow> int \<Rightarrow> int \<Rightarrow> int \<Rightarrow> int \<Rightarrow> int list \<Rightarrow> int list \<Rightarrow> nat \<Rightarrow> int \<Rightarrow> int list \<Rightarrow>
   int list \<times> int \<times> int list" where
  "compact_cpu_loop keep psize subpages vcount degree rank len col [] out cnt tokens prefix = (out, tokens, prefix)"
| "compact_cpu_loop keep psize subpages vcount degree rank len col (page # rest) out cnt tokens prefix =
     (let block = page div subpages in
      if \<not> keep \<and> col * psize \<ge> len then (out, tokens, prefix)
      else if 0 < block \<and> block < vcount \<and> (block - 1) mod degree = rank
      then compact_cpu_loop keep psize subpages vcount degree rank len (col + 1) rest
             (out[cnt := ((block - 1) div degree + 1) * subpages + page mod subpages]) (cnt + 1)
             (tokens + min psize (max (len - col * psize) 0)) (prefix @ [int cnt + 1])
      else compact_cpu_loop keep psize subpages vcount degree rank len (col + 1) rest
             out cnt tokens (prefix @ [int cnt]))"

definition compact_cpu :: "bool \<Rightarrow> int \<Rightarrow> int \<Rightarrow> int \<Rightarrow> int \<Rightarrow> int \<Rightarrow> int \<Rightarrow> int list \<Rightarrow> compact_row" where
  "compact_cpu keep psize subpages vcount degree rank len table =
     (case compact_cpu_loop keep psize subpages vcount degree rank len 0 table
             (replicate (length table) 0) 0 0 [0] of
        (out, tokens, prefix) \<Rightarrow> (out, tokens, if keep then Some prefix else None))"

text \<open>Triton: all columns at once, in 32-bit arithmetic on int32 lengths; lanes past the table are masked off.\<close>

definition cumsum_bool :: "bool list \<Rightarrow> int list" where
  "cumsum_bool bs = map (\<lambda>i. int (count_list (take (Suc i) bs) True)) [0..<length bs]"

definition compact_triton :: "bool \<Rightarrow> int \<Rightarrow> int \<Rightarrow> int \<Rightarrow> int \<Rightarrow> int \<Rightarrow> int \<Rightarrow> int list \<Rightarrow> compact_row" where
  "compact_triton keep psize subpages vcount degree rank len table =
     (let cols = map int [0..<length table];
          block = map (\<lambda>page. tdiv page subpages) table;
          owner = map (\<lambda>b. snd (virtual_block_to_local b degree rank) \<and> b < vcount) block;
          valid = map2 (\<lambda>o' col. o' \<and> (\<not> keep \<longrightarrow> wrap32 (col * psize) < len)) owner cols;
          dest = map (\<lambda>d. d - 1) (cumsum_bool valid);
          local = map2 (\<lambda>b page. fst (virtual_block_to_local b degree rank) * subpages + tmod page subpages)
                    block table;
          out = fold (\<lambda>(v, d, l) out. if v then out[nat d := l] else out) (zip valid (zip dest local))
                  (replicate (length table) 0);
          rows = map (\<lambda>col. min psize (max (wrap32 (len - wrap32 (col * psize))) 0)) cols;
          total = wrap32 (sum_list (map2 (\<lambda>v r. if v then r else 0) valid rows))
      in (out, total, if keep then Some (0 # map (\<lambda>d. d + 1) dest) else None))"

text \<open>Ascend: an inclusive scan, and a scatter that also clears the unused entries.\<close>

definition compact_ascend :: "bool \<Rightarrow> int \<Rightarrow> int \<Rightarrow> int \<Rightarrow> int \<Rightarrow> int \<Rightarrow> int \<Rightarrow> int list \<Rightarrow> int list \<Rightarrow> compact_row" where
  "compact_ascend keep psize subpages vcount degree rank len out table =
     (let cols = map int [0..<length table];
          blocks = map (\<lambda>page. page div subpages) table;
          valid = map2 (\<lambda>b col. 0 < b \<and> b < vcount \<and> (b - 1) mod degree = rank \<and>
                      (\<not> keep \<longrightarrow> col * psize < len)) blocks cols;
          prefix = cumsum_bool valid;
          total = (if prefix = [] then 0 else last prefix);
          destinations = map2 (\<lambda>v (p, col). if v then p - 1 else total + col - p) valid (zip prefix cols);
          local_pages = map2 (\<lambda>b page. ((b - 1) div degree + 1) * subpages + page mod subpages) blocks table;
          scattered = fold (\<lambda>(d, v, l) out. out[nat d := (if v then l else 0)])
                        (zip destinations (zip valid local_pages)) out;
          visible = map (\<lambda>col. clamp 0 psize (len - col * psize)) cols;
          tokens = sum_list (map2 (\<lambda>v r. if v then r else 0) valid visible)
      in (scattered, tokens, if keep then Some (0 # prefix) else None))"

text \<open>\<open>local_lengths\<close> is the buffer for the token counts. The code does not compare the number of lengths with the
  number of table rows: the CPU loop raises when a row has no length; fewer lengths than rows on the other
  devices is outside the model.\<close>

definition compact_kvp_pages ::
  "device_kind \<Rightarrow> bool \<Rightarrow> int \<Rightarrow> int \<Rightarrow> int \<Rightarrow> int \<Rightarrow> int \<Rightarrow> int list list \<Rightarrow> int list \<Rightarrow> int list list \<Rightarrow> int list \<Rightarrow>
   compact_row list result" where
  "compact_kvp_pages dev keep psize granularity vcount degree rank table lengths out local_lengths =
     raise_if (psize \<le> 0 \<or> granularity \<le> 0 \<or> granularity mod psize \<noteq> 0 \<or> vcount \<le> 1 \<or>
               \<not> (0 \<le> rank \<and> rank < degree)) (ValueError ''invalid KVP page geometry'')
    (raise_if (map length out \<noteq> map length table \<or> length local_lengths \<noteq> length lengths)
       (ValueError ''KVP page buffers disagree'')
    (raise_if (dev = Cpu \<and> length lengths < length table) (IndexError [])
    (let subpages = granularity div psize in
     Inr (map (\<lambda>(row, len, out_row).
            case dev of
              Npu \<Rightarrow> compact_ascend keep psize subpages vcount degree rank len out_row row
            | Cuda \<Rightarrow> compact_triton keep psize subpages vcount degree rank len row
            | Cpu \<Rightarrow> compact_cpu keep psize subpages vcount degree rank len row)
          (zip table (zip lengths out))))))"

text \<open>\<^verbatim>\<open>kvp_local_visible_lengths\<close>: the Triton lane and the CPU expression with its clamped gather, for one row
  and one query endpoint, in 32-bit arithmetic.\<close>

definition visible_triton :: "int \<Rightarrow> int list \<Rightarrow> int \<Rightarrow> int" where
  "visible_triton psize prefix len =
     (let cols = int (length prefix) - 1;
          page = tdiv len psize;
          before = prefix ! nat page;
          after = (if page < cols then prefix ! nat (page + 1) else 0)
      in wrap32 (wrap32 (before * psize) + (if after > before then tmod len psize else 0)))"

definition visible_cpu :: "int \<Rightarrow> int list \<Rightarrow> int \<Rightarrow> int" where
  "visible_cpu psize prefix len =
     (let page = len div psize;
          before = prefix ! nat page;
          after = prefix ! nat (min (page + 1) (int (length prefix) - 1))
      in wrap32 (wrap32 (before * psize) + (if after > before then len mod psize else 0)))"

text \<open>The whole operation on a batch. \<open>local_lengths\<close> is the optional output buffer for the last query's count. The
  CPU gather raises on an endpoint past the prefix row; the Triton load does not check, so such an endpoint
  on a GPU is outside the model.\<close>

definition kvp_local_visible_lengths ::
  "bool \<Rightarrow> int list list \<Rightarrow> int list list \<Rightarrow> int \<Rightarrow> int list option \<Rightarrow> (int list list \<times> int list option) result" where
  "kvp_local_visible_lengths is_cuda page_prefix visible_lengths psize local_lengths =
     (if is_cuda then
        let out = map2 (\<lambda>prefix lens. map (visible_triton psize prefix) lens) page_prefix visible_lengths
        in Inr (out, map_option (\<lambda>old. map2 (\<lambda>row v. if row = [] then v else last row) out old) local_lengths)
      else
        raise_if (list_ex (\<lambda>(prefix, lens). list_ex (\<lambda>len. \<not> (0 \<le> len div psize \<and> len div psize < int (length prefix))) lens)
            (zip page_prefix visible_lengths)) (RuntimeError ''index out of bounds'')
       (let out = map2 (\<lambda>prefix lens. map (visible_cpu psize prefix) lens) page_prefix visible_lengths
        in raise_if (local_lengths \<noteq> None \<and> list_ex (\<lambda>row. row = []) out) (IndexError [])
             (Inr (out, map_option (\<lambda>_. map last out) local_lengths))))"

section \<open>History rows by owner\<close>

text \<open>\<^verbatim>\<open>dcp/placement.py\<close>. The owner of a kernel page; \<open>degree\<close> is the sink column.\<close>

definition page_owner :: "int \<Rightarrow> cache_placement option \<Rightarrow> int \<Rightarrow> int" where
  "page_owner psize placement page =
     (case placement of
        None \<Rightarrow> if page > 0 then 0 else 1
      | Some p \<Rightarrow>
          let degree = cp_degree p;
              block = page div (cp_block_granularity p div psize)
          in if block > 0 \<and> block < cp_virtual_block_count p then (block - 1) mod degree else degree)"

definition placement_degree :: "cache_placement option \<Rightarrow> int" where
  "placement_degree placement = (case placement of None \<Rightarrow> 1 | Some p \<Rightarrow> cp_degree p)"

definition scatter_counts :: "int \<Rightarrow> cache_placement option \<Rightarrow> int list \<Rightarrow> int \<Rightarrow> int \<Rightarrow> int" where
  "scatter_counts psize placement row seq_len k =
     sum_list (map2 (\<lambda>page col. if page_owner psize placement page = k
                                then clamp 0 psize (seq_len - int col * psize) else 0)
       row [0..<length row])"

definition owned_history_rows ::
  "int list list \<Rightarrow> int \<Rightarrow> int list \<Rightarrow> int \<Rightarrow> cache_placement option \<Rightarrow> int list list result" where
  "owned_history_rows table columns seq_lens psize placement =
     raise_if (length table \<noteq> length seq_lens) (ValueError ''page table has rows for requests'')
    (let degree = placement_degree placement;
         longest = (if seq_lens = [] then 0 else Max (set seq_lens)) in
     raise_if (columns * psize < longest) (ValueError ''does not cover a history of rows'')
    (raise_if (case placement of None \<Rightarrow> False | Some p \<Rightarrow> cp_block_granularity p div psize = 0 \<and> table \<noteq> [] \<and> columns > 0)
       (RuntimeError ''ZeroDivisionError'')
    (let counts = map2 (scatter_counts psize placement) table seq_lens in
     raise_if (sum_list (map (\<lambda>c. c degree) counts) \<noteq> 0)
       (ValueError ''history page table has holes below the request lengths'')
       (Inr (map (\<lambda>k. map (\<lambda>c. c (int k)) counts) [0..<nat degree])))))"

text \<open>The prefix-sum form: whole pages below a bound plus the rows of the partial page.\<close>

definition below_rows :: "int \<Rightarrow> (nat \<Rightarrow> int) \<Rightarrow> nat \<Rightarrow> int \<Rightarrow> int" where
  "below_rows psize owner p k = sum_list (map (\<lambda>c. if owner c = k then psize else 0) [0..<p])"

definition rows_below_bound :: "int \<Rightarrow> (nat \<Rightarrow> int) \<Rightarrow> int \<Rightarrow> int \<Rightarrow> int \<Rightarrow> int" where
  "rows_below_bound psize owner columns bound k =
     (let whole = bound div psize;
          partial_owner = owner (nat (min whole (columns - 1)))
      in below_rows psize owner (nat whole) k + (if partial_owner = k then bound mod psize else 0))"

definition owned_prefix_chunk_rows ::
  "int list list \<Rightarrow> int \<Rightarrow> int list \<Rightarrow> int \<Rightarrow> nat \<Rightarrow> int \<Rightarrow> cache_placement \<Rightarrow> int list list result" where
  "owned_prefix_chunk_rows table table_columns prefix_lens chunk_len num_chunks psize placement =
     raise_if (length table \<noteq> length prefix_lens) (ValueError ''page table has rows for requests'')
    (let degree = cp_degree placement;
         max_prefix = (if prefix_lens = [] then 0 else Max (set prefix_lens));
         columns = - ((- max_prefix) div psize) in
     raise_if (table_columns < columns) (ValueError ''does not cover a prefix of rows'')
    (if columns = 0 then Inr (replicate num_chunks (replicate (nat degree) 0))
     else
     let rows_below = (\<lambda>(row, prefix_len) j.
           rows_below_bound psize (\<lambda>c. page_owner psize (Some placement) (row ! c)) columns
             (min (int j * chunk_len) prefix_len));
         counts = (\<lambda>j k. sum_list (map (\<lambda>r. rows_below r (Suc j) k - rows_below r j k) (zip table prefix_lens)))
     in raise_if (sum_list (map (\<lambda>j. counts j degree) [0..<num_chunks]) \<noteq> 0)
          (ValueError ''prefix page table has holes below the prefix lengths'')
          (Inr (map (\<lambda>j. map (\<lambda>k. counts j (int k)) [0..<nat degree]) [0..<num_chunks]))))"

section \<open>Truncating division\<close>

lemma tdiv_nonpos: "a \<le> 0 \<Longrightarrow> 0 < b \<Longrightarrow> tdiv a b \<le> 0"
  by (cases "a = 0") (simp_all add: tdiv_def pos_imp_zdiv_nonneg_iff)

section \<open>Slot translation\<close>

lemma virtual_block_to_local_eq:
  assumes "0 < degree"
  shows "virtual_block_to_local b degree rank =
    (if 0 < b \<and> cyclic_owner degree b = rank then (cyclic_local degree b, True) else (0, False))"
  using assms by (auto simp: virtual_block_to_local_def Let_def tdiv_nonneg tmod_nonneg cyclic_owner_def cyclic_local_def)

lemma slot_block_pos:
  assumes "0 < (rows::int)" and "rows \<le> slot"
  shows "0 < slot div rows" and "slot < vc * rows \<longleftrightarrow> slot div rows < vc"
proof -
  have "1 * rows \<le> slot" using assms(2) by simp
  then have "1 \<le> slot div rows" by (simp only: int_le_div_iff [OF assms(1)])
  then show "0 < slot div rows" by simp
  show "slot < vc * rows \<longleftrightarrow> slot div rows < vc" by (simp only: int_div_less_iff [OF assms(1)])
qed

lemma cpu_virtual_slot_eq:
  assumes "0 < rows" and "0 < degree"
  shows "cpu_virtual_slot rows vc degree rank slot =
    (if rows \<le> slot \<and> slot div rows < vc \<and> cyclic_owner degree (slot div rows) = rank
     then (cyclic_local degree (slot div rows) * rows + slot mod rows, True) else (0, False))"
proof (cases "rows \<le> slot")
  case True
  note pos = slot_block_pos [OF assms(1) True]
  have "max slot 0 = slot" "max (slot div rows - 1) 0 = slot div rows - 1" using True assms(1) pos(1) by auto
  with True pos show ?thesis
    by (auto simp: cpu_virtual_slot_def Let_def cyclic_owner_def cyclic_local_def)
qed (simp add: cpu_virtual_slot_def Let_def)

lemma translate_virtual_slot_eq:
  assumes "0 < rows" and "0 < degree"
  shows "translate_virtual_slot rows vc degree rank slot = cpu_virtual_slot rows vc degree rank slot"
proof (cases "rows \<le> slot")
  case True
  note pos = slot_block_pos [OF assms(1) True]
  have "max slot 0 = slot" "0 \<le> slot" using True assms(1) by auto
  with True pos assms show ?thesis
    by (auto simp: translate_virtual_slot_def cpu_virtual_slot_eq Let_def tdiv_nonneg tmod_nonneg
        virtual_block_to_local_eq)
qed (auto simp: translate_virtual_slot_def cpu_virtual_slot_def Let_def split: prod.split)

text \<open>C35: slot translation. Slots that are not int32 or int64 are rejected. On every other tensor the Triton kernel
  and the CPU branch of \<^verbatim>\<open>virtual_slots_to_local\<close> agree on every slot, negative and out of range included; a slot is owned exactly when
  \<^verbatim>\<open>cyclic_slot_owner\<close> names this rank; and on a group of \<open>P\<close> local pages an owned slot lands
  inside the rank's own pages, at its row, while every other slot becomes the null slot 0.\<close>

theorem slot_translation_agrees:
  assumes "check_cache_placement p = Inr p" and "1 < cp_virtual_block_count p"
    and "cp_virtual_block_count p = virtual_block_count P (cp_degree p)"
  shows "\<exists>local mask. (\<forall>meta. resolve_cache_slots meta slots (Some p) =
        (if tm_dtype meta \<in> {Int32, Int64} then Inr (local, Some mask) else Inl (TypeError ''virtual slots must be int32 or int64''))) \<and>
     length local = length slots \<and> length mask = length slots \<and>
     (\<forall>i < length slots. (mask ! i \<longleftrightarrow> cyclic_slot_owner (slots ! i) (Some p) = cp_rank p) \<and>
        (if mask ! i
         then cp_block_granularity p \<le> local ! i \<and> local ! i < P * cp_block_granularity p \<and>
              local ! i mod cp_block_granularity p = slots ! i mod cp_block_granularity p
         else local ! i = 0))"
proof -
  let ?g = "cp_block_granularity p" and ?d = "cp_degree p" and ?vc = "cp_virtual_block_count p" and ?r = "cp_rank p"
  have g: "0 < ?g" and d: "0 < ?d" and r: "0 \<le> ?r" "?r < ?d"
    using assms(1) by (auto simp: check_cache_placement_def result_simps cp_degree_def)
  let ?f = "cpu_virtual_slot ?g ?vc ?d ?r"
  have "virtual_slots_to_local m slots ?g ?vc ?d ?r None None =
      (if tm_dtype m \<in> {Int32, Int64} then Inr (map (fst \<circ> ?f) slots, map (snd \<circ> ?f) slots)
       else Inl (TypeError ''virtual slots must be int32 or int64''))" for m
    using g d r assms(2)
    by (simp add: virtual_slots_to_local_def raise_if_def Let_def output_mismatch_def translate_virtual_slot_eq comp_def)
  then have res: "resolve_cache_slots m slots (Some p) =
      (if tm_dtype m \<in> {Int32, Int64} then Inr (map (fst \<circ> ?f) slots, Some (map (snd \<circ> ?f) slots))
       else Inl (TypeError ''virtual slots must be int32 or int64''))" for m
    by (simp add: resolve_cache_slots_def)
  have own: "snd (?f s) \<longleftrightarrow> cyclic_slot_owner s (Some p) = ?r" for s
    using g d r by (auto simp: cpu_virtual_slot_eq cyclic_slot_owner_def Let_def cyclic_owner_def max_def)
  have range: "?g \<le> fst (?f s) \<and> fst (?f s) < P * ?g \<and> fst (?f s) mod ?g = s mod ?g" if "snd (?f s)" for s
  proof -
    let ?b = "s div ?g"
    from that have s: "?g \<le> s" "?b < ?vc" and f: "fst (?f s) = cyclic_local ?d ?b * ?g + s mod ?g"
      by (auto simp: cpu_virtual_slot_eq g d split: if_splits)
    have "0 < ?b" using slot_block_pos [OF g s(1)] by simp
    moreover have "1 \<le> P"
    proof (rule ccontr)
      assume "\<not> 1 \<le> P"
      then have "(P - 1) * ?d \<le> 0" using d by (simp add: mult_nonpos_nonneg)
      then show False using assms(2,3) by (simp add: virtual_block_count_def)
    qed
    ultimately have l: "1 \<le> cyclic_local ?d ?b" "cyclic_local ?d ?b < P"
      using cyclic.place [of "(?d, P)" ?b] d s(2) assms(3) by (auto simp: placed_geometry_def placed_block_def)
    have m: "0 \<le> s mod ?g" "s mod ?g < ?g" using g by simp_all
    have "1 * ?g \<le> cyclic_local ?d ?b * ?g" "(cyclic_local ?d ?b + 1) * ?g \<le> P * ?g"
      using l g by (auto intro!: mult_right_mono)
    then have "?g \<le> fst (?f s)" "fst (?f s) < P * ?g" unfolding f distrib_right using m by linarith+
    then show ?thesis by (simp add: f)
  qed
  have off: "fst (?f s) = 0" if "\<not> snd (?f s)" for s
    using that by (auto simp: cpu_virtual_slot_eq g d)
  show ?thesis
    by (rule exI [of _ "map (fst \<circ> ?f) slots"], rule exI [of _ "map (snd \<circ> ?f) slots"])
       (use res own range off in auto)
qed

definition demo_placement :: cache_placement where
  "demo_placement = \<lparr>cp_block_granularity = 4, cp_virtual_block_count = 7, cp_group = [10, 11, 12], cp_rank = 1\<rparr>"

theorem slot_translation_agrees_witness:
  "\<exists>local mask. (\<forall>dev. resolve_cache_slots \<lparr>tm_shape = [4], tm_dtype = Int64, tm_device = (dev, 0), tm_contiguous = False\<rparr>
       [-3, 9, 21, 30] (Some demo_placement) = Inr (local, Some mask)) \<and> length mask = 4"
  using slot_translation_agrees [of demo_placement 3 "[-3, 9, 21, 30]"]
  by (auto simp: demo_placement_def check_cache_placement_def virtual_block_count_def cp_degree_def)

section \<open>The owner split\<close>

lemma length_owner_ranks [simp]: "length (owner_ranks seen os) = length os"
  by (induction os arbitrary: seen) auto

lemma owner_ranks_nth:
  "i < length os \<Longrightarrow> owner_ranks seen os ! i = seen (os ! i) + int (count_list (take i os) (os ! i))"
proof (induction os arbitrary: seen i)
  case (Cons a os)
  then show ?case by (cases i) auto
qed simp

lemma owner_ranks_append:
  "owner_ranks seen (xs @ ys) = owner_ranks seen xs @ owner_ranks (\<lambda>q. seen q + int (count_list xs q)) ys"
proof (induction xs arbitrary: seen)
  case (Cons a xs)
  have "(\<lambda>q. (seen(a := seen a + 1)) q + int (count_list xs q)) = (\<lambda>q. seen q + int (count_list (a # xs) q))" by auto
  then show ?case
    unfolding append_Cons owner_ranks.simps Cons [of "seen(a := seen a + 1)"] by (simp only:)
qed simp

lemma count_list_take_mono: "i \<le> j \<Longrightarrow> count_list (take i xs) x \<le> count_list (take j xs) x"
proof -
  assume "i \<le> j"
  then have "take j xs = take i xs @ drop i (take j xs)" by (metis append_take_drop_id min.absorb1 take_take)
  then show ?thesis by (metis count_list_append le_add1)
qed

lemma count_list_take_Suc: "i < length xs \<Longrightarrow> count_list (take (Suc i) xs) (xs ! i) = Suc (count_list (take i xs) (xs ! i))"
  by (simp add: take_Suc_conv_app_nth)

lemma owner_rank_less:
  assumes "i < j" and "j < length os" and "os ! i = os ! j"
  shows "count_list (take i os) (os ! i) < count_list (take j os) (os ! j)"
  using count_list_take_Suc [of i os] count_list_take_mono [of "Suc i" j os "os ! i"] assms by simp

lemma owner_rank_bound:
  "i < length os \<Longrightarrow> count_list (take i os) (os ! i) < count_list os (os ! i)"
  using count_list_take_Suc [of i os] count_list_take_mono [of "Suc i" "length os" os "os ! i"] by simp

text \<open>Writes to distinct positions.\<close>

lemma length_fold_update [simp]: "length (fold (\<lambda>(i, v) f. f[nat i := v]) ws f) = length f"
  by (induction ws arbitrary: f) (auto simp: case_prod_unfold)

lemma fold_update_other:
  "\<forall>(i, v) \<in> set ws. nat i \<noteq> n \<Longrightarrow> fold (\<lambda>(i, v) f. f[nat i := v]) ws f ! n = f ! n"
  by (induction ws arbitrary: f) auto

lemma fold_update_nth:
  assumes "distinct (map fst ws)" and "\<forall>(i, v) \<in> set ws. 0 \<le> i" and "(i, v) \<in> set ws" and "nat i < length f"
  shows "fold (\<lambda>(i, v) f. f[nat i := v]) ws f ! nat i = v"
  using assms
proof (induction ws arbitrary: f)
  case (Cons w ws)
  show ?case
  proof (cases "w = (i, v)")
    case True
    then have "\<forall>(j, u) \<in> set ws. nat j \<noteq> nat i" using Cons.prems by (force simp: nat_eq_iff2)
    then show ?thesis using True Cons.prems fold_update_other [of ws "nat i"] by simp
  next
    case False
    then show ?thesis using Cons by (cases w) auto
  qed
qed simp

text \<open>The writes of one rank, indexed by the rows that belong to it.\<close>

definition rank_writes :: "int \<Rightarrow> int \<Rightarrow> int \<Rightarrow> (int \<Rightarrow> int) \<Rightarrow> int list \<Rightarrow> (int \<times> int) list" where
  "rank_writes g degree rank seen slots =
     (let owner = map (slot_owner g degree) slots
      in map (\<lambda>(_, w, s). (w, slot_local g degree s))
           (filter (\<lambda>(q, w, s). q = rank) (zip owner (zip (owner_ranks seen owner) slots))))"

lemma rank_writes_append:
  "rank_writes g degree rank seen (xs @ ys) = rank_writes g degree rank seen xs @
     rank_writes g degree rank (\<lambda>q. seen q + int (count_list (map (slot_owner g degree) xs) q)) ys"
  by (simp add: rank_writes_def Let_def owner_ranks_append)

lemma rank_writes_mem:
  "i < length slots \<Longrightarrow> slot_owner g degree (slots ! i) = rank \<Longrightarrow>
   (seen rank + int (count_list (take i (map (slot_owner g degree) slots)) rank), slot_local g degree (slots ! i))
     \<in> set (rank_writes g degree rank seen slots)"
  by (auto simp: rank_writes_def Let_def in_set_zip image_iff owner_ranks_nth intro!: bexI exI [of _ i])

lemma rank_writes_keys:
  "map fst (rank_writes g degree rank seen slots) =
     map (\<lambda>k. seen rank + int k) [0..<count_list (map (slot_owner g degree) slots) rank]"
proof (induction slots rule: rev_induct)
  case (snoc x xs)
  have "rank_writes g degree rank s [x] =
      (if slot_owner g degree x = rank then [(s rank, slot_local g degree x)] else [])" for s
    by (simp add: rank_writes_def)
  then show ?case using snoc by (simp add: rank_writes_append)
qed (simp add: rank_writes_def)

lemma split_slots_cpu_eq:
  assumes "0 < g" and "0 < degree" and "0 \<le> rank" and "rank < degree"
    and "count_list (map (slot_owner g degree) slots) rank \<le> length fetch"
  shows "split_slots_cpu slots g degree rank send_rows fetch =
    Inr (map2 (\<lambda>q w. wrap32 (q * send_rows + w)) (map (slot_owner g degree) slots) (owner_ranks (\<lambda>_. 0) (map (slot_owner g degree) slots)),
         fold (\<lambda>(i, v) f. f[nat i := v]) (rank_writes g degree rank (\<lambda>_. 0) slots) fetch)"
proof -
  have "\<not> list_ex (\<lambda>(i, _). i \<ge> int (length fetch)) (rank_writes g degree rank (\<lambda>_. 0) slots)"
  proof
    assume "list_ex (\<lambda>(i, _). i \<ge> int (length fetch)) (rank_writes g degree rank (\<lambda>_. 0) slots)"
    then obtain i where "i \<in> set (map fst (rank_writes g degree rank (\<lambda>_. 0) slots))" "int (length fetch) \<le> i"
      by (force simp: list_ex_iff)
    then show False using assms(5) by (auto simp only: rank_writes_keys set_map) auto
  qed
  then show ?thesis
    using assms(1-4) by (simp add: split_slots_cpu_def store_fetch_def rank_writes_def Let_def)
qed

lemma filter_zip_columns:
  "map snd (filter (\<lambda>(q, _). q = r) (zip os (zip ws (map h ss)))) =
   map (\<lambda>(_, w, s). (w, h s)) (filter (\<lambda>(q, w, s). q = r) (zip os (zip ws ss)))"
proof (induction os arbitrary: ws ss)
  case (Cons q os)
  then show ?case by (cases ws; cases ss) auto
qed simp

lemma writes_columns:
  "rank_writes g degree rank seen chunk =
     map snd (filter (\<lambda>(q, _). q = rank) (zip (map (slot_owner g degree) chunk)
       (zip (owner_ranks seen (map (slot_owner g degree) chunk)) (map (slot_local g degree) chunk))))"
  unfolding rank_writes_def Let_def filter_zip_columns ..

lemma owner_ranks_scan:
  "map (\<lambda>i. int (count_list (take (Suc i) os) (os ! i)) + seen (os ! i) - 1) [0..<length os] = owner_ranks seen os"
  by (rule nth_equalityI) (simp_all add: owner_ranks_nth count_list_take_Suc)

lemma split_block_eq:
  assumes "0 < g" and "0 < degree" and "\<forall>s \<in> set chunk. g \<le> s"
  shows "split_block g degree rank send_rows (carry, index, fetch) chunk =
    (\<lambda>q. carry q + int (count_list (map (slot_owner g degree) chunk) q),
     index @ map2 (\<lambda>q w. wrap32 (q * send_rows + w)) (map (slot_owner g degree) chunk)
               (owner_ranks carry (map (slot_owner g degree) chunk)),
     fold (\<lambda>(i, v) f. f[nat i := v]) (rank_writes g degree rank carry chunk) fetch)"
proof -
  have lane: "tmod (tdiv s g - 1) degree = slot_owner g degree s"
    "(tdiv (tdiv s g - 1) degree + 1) * g + tmod s g = slot_local g degree s" if "g \<le> s" for s
  proof -
    have "0 < s div g" "0 \<le> s" using slot_block_pos(1) [OF assms(1) that] that assms(1) by auto
    then show "tmod (tdiv s g - 1) degree = slot_owner g degree s"
      "(tdiv (tdiv s g - 1) degree + 1) * g + tmod s g = slot_local g degree s"
      using assms(1,2) by (simp_all add: tdiv_nonneg tmod_nonneg slot_owner_def slot_local_def)
  qed
  let ?o = "map (slot_owner g degree) chunk"
  have own: "map (\<lambda>slot. tmod (tdiv slot g - 1) degree) chunk = ?o"
    and loc: "map (\<lambda>slot. (tdiv (tdiv slot g - 1) degree + 1) * g + tmod slot g) chunk = map (slot_local g degree) chunk"
    using lane assms(3) by auto
  have pos: "map (\<lambda>i. int (count_list (take (Suc i) ?o) (?o ! i)) + carry (?o ! i) - 1) [0..<length chunk] =
      owner_ranks carry ?o"
    using owner_ranks_scan [of ?o carry] by (simp only: length_map)
  have writes: "map snd (filter (\<lambda>(q, _). q = rank) (zip ?o (zip (owner_ranks carry ?o) (map (slot_local g degree) chunk)))) =
      rank_writes g degree rank carry chunk"
    by (rule writes_columns [symmetric])
  show ?thesis unfolding split_block_def prod.case Let_def own loc pos writes by (rule refl)
qed

lemma split_chunks_eq:
  assumes "0 < g" and "0 < degree" and "0 < BLOCK" and "\<forall>s \<in> set slots. g \<le> s"
  shows "foldl (split_block g degree rank send_rows) (carry, index, fetch) (chunks_of BLOCK slots) =
    (\<lambda>q. carry q + int (count_list (map (slot_owner g degree) slots) q),
     index @ map2 (\<lambda>q w. wrap32 (q * send_rows + w)) (map (slot_owner g degree) slots)
               (owner_ranks carry (map (slot_owner g degree) slots)),
     fold (\<lambda>(i, v) f. f[nat i := v]) (rank_writes g degree rank carry slots) fetch)"
  using assms(3,4)
proof (induction BLOCK slots arbitrary: carry index fetch rule: chunks_of.induct)
  case (1 n xs)
  show ?case
  proof (cases "xs = [] \<or> n = 0")
    case True
    then have xs: "xs = []" using "1.prems"(1) by simp
    have "chunks_of n [] = ([] :: int list list)" by (subst chunks_of.simps) simp
    then show ?thesis by (simp add: xs rank_writes_def)
  next
    case False
    let ?t = "take n xs" and ?d = "drop n xs"
    have t: "\<forall>s \<in> set ?t. g \<le> s" and d: "\<forall>s \<in> set ?d. g \<le> s"
      using "1.prems"(2) by (auto dest: in_set_takeD in_set_dropD)
    have xs: "xs = ?t @ ?d" by simp
    have len: "length (map (slot_owner g degree) ?t) = length (owner_ranks carry (map (slot_owner g degree) ?t))" by simp
    have "chunks_of n xs = ?t # chunks_of n ?d" using False by (subst chunks_of.simps) simp
    then have "foldl (split_block g degree rank send_rows) (carry, index, fetch) (chunks_of n xs) =
        foldl (split_block g degree rank send_rows)
          (split_block g degree rank send_rows (carry, index, fetch) ?t) (chunks_of n ?d)" by simp
    also have "\<dots> = (\<lambda>q. carry q + int (count_list (map (slot_owner g degree) (?t @ ?d)) q),
     index @ map2 (\<lambda>q w. wrap32 (q * send_rows + w)) (map (slot_owner g degree) (?t @ ?d))
               (owner_ranks carry (map (slot_owner g degree) (?t @ ?d))),
     fold (\<lambda>(i, v) f. f[nat i := v]) (rank_writes g degree rank carry (?t @ ?d)) fetch)"
      unfolding split_block_eq [OF assms(1,2) t] "1.IH" [OF False "1.prems"(1) d] map_append owner_ranks_append
        rank_writes_append zip_append [OF len] fold_append comp_apply count_list_append
      by (simp add: add.assoc)
    finally show ?thesis unfolding append_take_drop_id .
  qed
qed

text \<open>Tensors that pass the buffer checks of the owner split.\<close>

definition split_buffers :: "tensor_meta \<Rightarrow> tensor_meta \<Rightarrow> tensor_meta \<Rightarrow> bool" where
  "split_buffers meta index_meta fetch_meta \<longleftrightarrow> length (tm_shape meta) = 1 \<and> tm_contiguous meta \<and>
     tm_shape index_meta = tm_shape meta \<and> tm_dtype index_meta = Int32 \<and>
     length (tm_shape fetch_meta) = 1 \<and> tm_dtype fetch_meta = tm_dtype meta"

text \<open>C36: the owner split. The Triton program, which walks the rows in blocks with a carried count,
  computes for any block size exactly what the CPU branch computes, and \<^verbatim>\<open>split_slots_by_owner\<close> returns it on
  either device. The layout is an inverse of the all-gather: with every owner's rows fitting in its send
  buffer and the gathered rows countable in 32 bits, each row has its own position in the rank-major
  output, in the part of its owner, and that owner's fetch list holds at that position the physical slot
  of the row.\<close>

theorem split_slots_gather:
  assumes "0 < g" and "0 < degree" and "0 < BLOCK" and "\<forall>s \<in> set slots. g \<le> s" and "degree * send_rows \<le> 2 ^ 31"
    and "\<forall>r. 0 \<le> r \<and> r < degree \<longrightarrow>
           count_list (map (slot_owner g degree) slots) r \<le> length (fetch r) \<and>
           int (count_list (map (slot_owner g degree) slots) r) \<le> send_rows"
  shows "\<exists>index out. (\<forall>r. 0 \<le> r \<and> r < degree \<longrightarrow>
            (\<forall>m mi mf. split_buffers m mi mf \<longrightarrow> split_slots_by_owner m mi mf slots g degree r send_rows (fetch r) = Inr (index, out r)) \<and>
            split_slots_cpu slots g degree r send_rows (fetch r) = Inr (index, out r) \<and>
            split_slots_kernel BLOCK slots g degree r send_rows (fetch r) = (index, out r)) \<and>
     length index = length slots \<and> distinct index \<and>
     (\<forall>i < length slots. index ! i div send_rows = slot_owner g degree (slots ! i) \<and>
        out (slot_owner g degree (slots ! i)) ! nat (index ! i mod send_rows) = slot_local g degree (slots ! i))"
proof -
  let ?os = "map (slot_owner g degree) slots"
  let ?index = "map2 (\<lambda>q w. wrap32 (q * send_rows + w)) ?os (owner_ranks (\<lambda>_. 0) ?os)"
  let ?out = "\<lambda>r. fold (\<lambda>(i, v) f. f[nat i := v]) (rank_writes g degree r (\<lambda>_. 0) slots) (fetch r)"
  have kernel: "split_slots_kernel n slots g degree r send_rows (fetch r) = (?index, ?out r)" if "0 < n" for n r
    using split_chunks_eq [OF assms(1,2) that assms(4)] by (simp add: split_slots_kernel_def)
  have cpu: "split_slots_cpu slots g degree r send_rows (fetch r) = Inr (?index, ?out r)" if "0 \<le> r" "r < degree" for r
    using split_slots_cpu_eq [OF assms(1,2) that] assms(6) that by simp
  have same: "split_slots_by_owner m mi mf slots g degree r send_rows (fetch r) = Inr (?index, ?out r)"
    if "0 \<le> r" "r < degree" "split_buffers m mi mf" for r m mi mf
    using that assms(1,2) kernel [of 1024 r] cpu [OF that(1,2)]
    by (cases "slots = []") (simp_all add: split_slots_by_owner_def split_buffers_def rank_writes_def)
  have own: "0 \<le> ?os ! i" "?os ! i < degree" if "i < length slots" for i
    using that assms(2) by (simp_all add: slot_owner_def)
  have small: "int (count_list (take i ?os) (?os ! i)) < send_rows" if "i < length slots" for i
    using owner_rank_bound [of i ?os] assms(6) own [OF that] that by fastforce
  have idx: "?index ! i = ?os ! i * send_rows + int (count_list (take i ?os) (?os ! i))" if i: "i < length slots" for i
  proof -
    have "0 \<le> ?os ! i * send_rows" using own [OF i] small [OF i] by (intro mult_nonneg_nonneg) simp_all
    moreover have "(?os ! i + 1) * send_rows \<le> degree * send_rows" using own [OF i] small [OF i] by (intro mult_right_mono) simp_all
    ultimately have "wrap32 (?os ! i * send_rows + int (count_list (take i ?os) (?os ! i))) =
        ?os ! i * send_rows + int (count_list (take i ?os) (?os ! i))"
      using small [OF i] assms(5) unfolding distrib_right mult_1 by (intro wrap32_small) linarith+
    then show ?thesis using i by (simp add: owner_ranks_nth)
  qed
  have parts: "?index ! i div send_rows = ?os ! i" "?index ! i mod send_rows = int (count_list (take i ?os) (?os ! i))"
    if "i < length slots" for i
    unfolding idx [OF that] using small [OF that] by (simp_all add: div_mult_self3 mod_mult_self3)
  have "?index ! i \<noteq> ?index ! j" if "i < length slots" "j < length slots" "i \<noteq> j" for i j
    using parts [OF that(1)] parts [OF that(2)] owner_rank_less [of i j ?os] owner_rank_less [of j i ?os] that
    by (metis length_map less_irrefl linorder_neqE_nat of_nat_eq_iff)
  then have d: "distinct ?index" by (simp add: distinct_conv_nth)
  have "?out (?os ! i) ! nat (?index ! i mod send_rows) = slot_local g degree (slots ! i)" if i: "i < length slots" for i
  proof -
    let ?r = "?os ! i" and ?k = "count_list (take i ?os) (?os ! i)"
    let ?ws = "rank_writes g degree ?r (\<lambda>_. 0) slots"
    have "(int ?k, slot_local g degree (slots ! i)) \<in> set ?ws"
      using rank_writes_mem [OF i, of g degree ?r "\<lambda>_. 0"] i by simp
    moreover have "distinct (map fst ?ws)" by (simp add: rank_writes_keys distinct_map inj_on_def)
    moreover have "\<forall>(j, v) \<in> set ?ws. 0 \<le> j"
    proof (intro ballI, clarify)
      fix j v assume "(j, v) \<in> set ?ws"
      then have "j \<in> set (map fst ?ws)" by force
      then show "0 \<le> j" unfolding rank_writes_keys by auto
    qed
    moreover have "nat (int ?k) < length (fetch ?r)"
      using owner_rank_bound [of i ?os] assms(6) own [OF i] i by fastforce
    ultimately show ?thesis unfolding parts(2) [OF i] by (intro fold_update_nth)
  qed
  with same cpu kernel [OF assms(3)] parts(1) d show ?thesis
    by (intro exI [of _ ?index] exI [of _ ?out]) auto
qed

theorem split_slots_gather_witness:
  "\<exists>index out. (\<forall>r. 0 \<le> r \<and> r < 2 \<longrightarrow>
      (\<forall>m mi mf. split_buffers m mi mf \<longrightarrow> split_slots_by_owner m mi mf [5, 9, 4, 13] 4 2 r 3 (replicate 3 0) = Inr (index, out r)) \<and>
      split_slots_cpu [5, 9, 4, 13] 4 2 r 3 (replicate 3 0) = Inr (index, out r) \<and>
      split_slots_kernel 3 [5, 9, 4, 13] 4 2 r 3 (replicate 3 0) = (index, out r)) \<and> distinct index \<and>
     split_buffers \<lparr>tm_shape = [4], tm_dtype = Int64, tm_device = (Cuda, 0), tm_contiguous = True\<rparr>
       \<lparr>tm_shape = [4], tm_dtype = Int32, tm_device = (Cuda, 0), tm_contiguous = True\<rparr>
       \<lparr>tm_shape = [3], tm_dtype = Int64, tm_device = (Cuda, 0), tm_contiguous = True\<rparr>"
proof -
  have "count_list (map (slot_owner 4 2) [5, 9, 4, 13]) r \<le> 3" for r by (simp add: slot_owner_def)
  with split_slots_gather [of 4 2 3 "[5, 9, 4, 13]" 3 "\<lambda>_. replicate 3 0"]
  have "\<exists>index out. (\<forall>r. 0 \<le> r \<and> r < 2 \<longrightarrow>
      (\<forall>m mi mf. split_buffers m mi mf \<longrightarrow> split_slots_by_owner m mi mf [5, 9, 4, 13] 4 2 r 3 (replicate 3 0) = Inr (index, out r)) \<and>
      split_slots_cpu [5, 9, 4, 13] 4 2 r 3 (replicate 3 0) = Inr (index, out r) \<and>
      split_slots_kernel 3 [5, 9, 4, 13] 4 2 r 3 (replicate 3 0) = (index, out r)) \<and> distinct index" by auto
  then show ?thesis by (simp add: split_buffers_def)
qed

end
