(* ===== verification/Page_Rows.thy ===== *)
theory Page_Rows
  imports Page_Compaction
begin

text \<open>
  What the page compaction and the row counters of \<^theory_text>\<open>Page_Compaction\<close> compute. The three
  device versions of \<^verbatim>\<open>compact_kvp_pages\<close> are shown equal to one reference row, the Triton kernel on
  rows that fit in 32 bits (\<open>row_fits\<close>); the visible
  lengths and the per-owner row counts are shown to count token positions: the number of
  positions below a bound whose page a rank owns.
\<close>

section \<open>One reference for the three compactions\<close>

definition page_owned :: "int \<Rightarrow> int \<Rightarrow> int \<Rightarrow> int \<Rightarrow> int \<Rightarrow> bool" where
  "page_owned subpages vcount degree rank page \<longleftrightarrow>
     0 < page div subpages \<and> page div subpages < vcount \<and> (page div subpages - 1) mod degree = rank"

definition local_page :: "int \<Rightarrow> int \<Rightarrow> int \<Rightarrow> int" where
  "local_page subpages degree page = ((page div subpages - 1) div degree + 1) * subpages + page mod subpages"

definition valid_pages :: "bool \<Rightarrow> int \<Rightarrow> (int \<Rightarrow> bool) \<Rightarrow> int \<Rightarrow> int list \<Rightarrow> bool list" where
  "valid_pages keep psize own len table =
     map2 (\<lambda>page col. own page \<and> (\<not> keep \<longrightarrow> int col * psize < len)) table [0..<length table]"

definition kept_pages :: "bool list \<Rightarrow> (int \<Rightarrow> int) \<Rightarrow> int list \<Rightarrow> int list" where
  "kept_pages valid loc table = map snd (filter fst (zip valid (map loc table)))"

definition visible_tokens :: "int \<Rightarrow> int \<Rightarrow> bool list \<Rightarrow> int" where
  "visible_tokens psize len valid =
     sum_list (map2 (\<lambda>v col. if v then clamp 0 psize (len - int col * psize) else 0) valid [0..<length valid])"

definition compact_reference :: "bool \<Rightarrow> int \<Rightarrow> int \<Rightarrow> int \<Rightarrow> int \<Rightarrow> int \<Rightarrow> int \<Rightarrow> int list \<Rightarrow> compact_row" where
  "compact_reference keep psize subpages vcount degree rank len table =
     (let valid = valid_pages keep psize (page_owned subpages vcount degree rank) len table;
          kept = kept_pages valid (local_page subpages degree) table
      in (kept @ replicate (length table - length kept) 0,
          visible_tokens psize len valid,
          if keep then Some (map (\<lambda>i. int (count_list (take i valid) True)) [0..<Suc (length table)]) else None))"

text \<open>Writing the valid values one after another.\<close>

fun place_valid :: "nat \<Rightarrow> (bool \<times> 'a) list \<Rightarrow> 'a list \<Rightarrow> 'a list" where
  "place_valid n [] out = out"
| "place_valid n ((v, l) # xs) out = (if v then place_valid (Suc n) xs (out[n := l]) else place_valid n xs out)"

lemma place_valid_eq:
  "n + length (filter fst xs) \<le> length out \<Longrightarrow>
   place_valid n xs out = take n out @ map snd (filter fst xs) @ drop (n + length (filter fst xs)) out"
proof (induction n xs out rule: place_valid.induct)
  case (2 n v l xs out)
  show ?case
  proof (cases v)
    case True
    have "n < length out" using "2.prems" True by simp
    then have "take (Suc n) (out[n := l]) = take n out @ [l]" by (simp add: take_Suc_conv_app_nth)
    then show ?thesis using "2.IH"(1) [OF True] "2.prems" True by simp
  next
    case False
    then show ?thesis using "2.IH"(2) [OF False] "2.prems" by simp
  qed
qed simp

lemma place_valid_zeros:
  assumes "length valid = n" and "length ls = n"
  shows "place_valid 0 (zip valid ls) (replicate n 0) =
    map snd (filter fst (zip valid ls)) @ replicate (n - length (filter fst (zip valid ls))) (0::int)"
proof -
  have "length (filter fst (zip valid ls)) \<le> n" using assms length_filter_le [of fst "zip valid ls"] by simp
  then show ?thesis using place_valid_eq [of 0 "zip valid ls" "replicate n (0::int)"] by simp
qed

lemma length_valid_pages [simp]: "length (valid_pages keep psize own len table) = length table"
  by (simp add: valid_pages_def)

lemma count_list_bool: "count_list bs True = length (filter id bs)"
  by (induction bs) auto

text \<open>The CPU loop.\<close>

fun valid_from :: "bool \<Rightarrow> int \<Rightarrow> (int \<Rightarrow> bool) \<Rightarrow> int \<Rightarrow> nat \<Rightarrow> int list \<Rightarrow> bool list" where
  "valid_from keep psize own len col [] = []"
| "valid_from keep psize own len col (page # rest) =
     (own page \<and> (\<not> keep \<longrightarrow> int col * psize < len)) # valid_from keep psize own len (Suc col) rest"

fun tokens_from :: "int \<Rightarrow> int \<Rightarrow> nat \<Rightarrow> bool list \<Rightarrow> int" where
  "tokens_from psize len col [] = 0"
| "tokens_from psize len col (v # vs) =
     (if v then clamp 0 psize (len - int col * psize) else 0) + tokens_from psize len (Suc col) vs"

lemma valid_from_eq:
  "valid_from keep psize own len col table =
     map2 (\<lambda>page c. own page \<and> (\<not> keep \<longrightarrow> int c * psize < len)) table [col..<col + length table]"
  by (induction table arbitrary: col) (simp_all add: upt_conv_Cons del: upt_Suc)

lemma tokens_from_eq:
  "tokens_from psize len col vs =
     sum_list (map2 (\<lambda>v c. if v then clamp 0 psize (len - int c * psize) else 0) vs [col..<col + length vs])"
  by (induction vs arbitrary: col) (simp_all add: upt_conv_Cons del: upt_Suc)

lemma valid_pages_from: "valid_pages keep psize own len table = valid_from keep psize own len 0 table"
  by (simp add: valid_pages_def valid_from_eq)

lemma visible_tokens_from: "visible_tokens psize len valid = tokens_from psize len 0 valid"
  by (simp add: visible_tokens_def tokens_from_eq)

lemma valid_from_late:
  assumes "0 \<le> psize" and "len \<le> int col * psize" and "\<not> keep"
  shows "valid_from keep psize own len col table = replicate (length table) False"
  using assms(2)
proof (induction table arbitrary: col)
  case (Cons page rest)
  have "len \<le> int (Suc col) * psize" using Cons.prems assms(1) by (simp add: algebra_simps)
  then show ?case using Cons.IH [of "Suc col"] Cons.prems assms(3) by simp
qed simp

lemma place_none: "place_valid m (zip (replicate n False) ls) out = out"
proof (induction n arbitrary: ls)
  case (Suc n)
  then show ?case by (cases ls) auto
qed simp

lemma tokens_none: "tokens_from psize len col (replicate n False) = 0"
  by (induction n arbitrary: col) auto

lemma cpu_loop_eq:
  assumes "0 < psize"
    and own_def: "own = page_owned subpages vcount degree rank"
  shows "\<exists>prefix'. compact_cpu_loop keep psize subpages vcount degree rank len (int col) table out cnt tokens prefix =
    (place_valid cnt (zip (valid_from keep psize own len col table) (map (local_page subpages degree) table)) out,
     tokens + tokens_from psize len col (valid_from keep psize own len col table),
     prefix')"
proof (induction table arbitrary: col out cnt tokens prefix)
  case (Cons page rest)
  have step: "int col + 1 = int (Suc col)" by simp
  have own: "own page \<longleftrightarrow> 0 < page div subpages \<and> page div subpages < vcount \<and> (page div subpages - 1) mod degree = rank"
    by (simp add: own_def page_owned_def)
  have loc: "local_page subpages degree page = ((page div subpages - 1) div degree + 1) * subpages + page mod subpages"
    by (simp add: local_page_def)
  have rows: "clamp 0 psize x = min psize (max x 0)" for x
    by (simp add: clamp_def min.commute max.commute)
  consider (late) "\<not> keep" "len \<le> int col * psize" | (own) "own page" "\<not> (\<not> keep \<and> len \<le> int col * psize)"
    | (other) "\<not> own page" "\<not> (\<not> keep \<and> len \<le> int col * psize)" by blast
  then show ?case
  proof cases
    case late
    then have "valid_from keep psize own len col (page # rest) = replicate (length (page # rest)) False"
      using assms(1) by (intro valid_from_late) auto
    then show ?thesis using late
      by (simp only: place_none tokens_none) (simp add: Let_def)
  next
    case o: own
    then have v: "own page \<and> (\<not> keep \<longrightarrow> int col * psize < len) \<longleftrightarrow> True" by auto
    have "compact_cpu_loop keep psize subpages vcount degree rank len (int col) (page # rest) out cnt tokens prefix =
      compact_cpu_loop keep psize subpages vcount degree rank len (int (Suc col)) rest (out[cnt := local_page subpages degree page])
        (Suc cnt) (tokens + clamp 0 psize (len - int col * psize)) (prefix @ [int cnt + 1])"
      using o(2) o(1) [unfolded own] by (auto simp: Let_def loc rows add.commute)
    then show ?thesis using Cons.IH [of "Suc col" "out[cnt := local_page subpages degree page]" "Suc cnt"
        "tokens + clamp 0 psize (len - int col * psize)" "prefix @ [int cnt + 1]"] o(1)
      unfolding valid_from.simps v by (simp only: list.map zip_Cons_Cons place_valid.simps tokens_from.simps if_True add.assoc)
  next
    case o: other
    then have v: "own page \<and> (\<not> keep \<longrightarrow> int col * psize < len) \<longleftrightarrow> False" by auto
    have "compact_cpu_loop keep psize subpages vcount degree rank len (int col) (page # rest) out cnt tokens prefix =
      compact_cpu_loop keep psize subpages vcount degree rank len (int (Suc col)) rest out cnt tokens (prefix @ [int cnt])"
      using o(2) o(1) [unfolded own] by (auto simp: Let_def add.commute)
    then show ?thesis using Cons.IH [of "Suc col" out cnt tokens "prefix @ [int cnt]"]
      unfolding valid_from.simps v by (simp only: list.map zip_Cons_Cons place_valid.simps tokens_from.simps if_False add_0)
  qed
qed simp

lemma cpu_loop_prefix:
  "keep \<Longrightarrow> snd (snd (compact_cpu_loop keep psize subpages vcount degree rank len col table out cnt tokens prefix)) =
   prefix @ map (\<lambda>i. int (cnt + count_list (take (Suc i) (map (page_owned subpages vcount degree rank) table)) True))
              [0..<length table]"
proof (induction table arbitrary: col out cnt tokens prefix)
  case (Cons page rest)
  have up: "[0..<length (page # rest)] = 0 # map Suc [0..<length rest]"
    by (simp add: upt_conv_Cons map_Suc_upt del: upt_Suc)
  have "snd (snd (compact_cpu_loop keep psize subpages vcount degree rank len col (page # rest) out cnt tokens prefix)) =
     (prefix @ [int (cnt + (if page_owned subpages vcount degree rank page then 1 else 0))]) @
     map (\<lambda>i. int (cnt + (if page_owned subpages vcount degree rank page then 1 else 0) +
       count_list (take (Suc i) (map (page_owned subpages vcount degree rank) rest)) True)) [0..<length rest]"
    using Cons.IH Cons.prems by (simp add: Let_def page_owned_def [of subpages vcount degree rank page])
  then show ?case unfolding up by (simp add: comp_def del: upt_Suc)
qed simp

lemma valid_pages_keep: "valid_pages True psize own len table = map own table"
  by (intro nth_equalityI) (simp_all add: valid_pages_def)

lemma prefix_upt: "map f [0..<Suc n] = f 0 # map (\<lambda>i. f (Suc i)) [0..<n]"
  by (simp add: upt_conv_Cons map_Suc_upt [symmetric] comp_def del: upt_Suc)

lemma length_kept_pages:
  "length valid = length table \<Longrightarrow> length (kept_pages valid loc table) = length (filter fst (zip valid (map loc table)))"
  by (simp add: kept_pages_def)

lemma compact_cpu_reference:
  assumes "0 < psize"
  shows "compact_cpu keep psize subpages vcount degree rank len table =
    compact_reference keep psize subpages vcount degree rank len table"
proof -
  let ?own = "page_owned subpages vcount degree rank"
  let ?valid = "valid_pages keep psize ?own len table"
  let ?L = "compact_cpu_loop keep psize subpages vcount degree rank len 0 table (replicate (length table) 0) 0 0 [0]"
  obtain prefix' where L: "?L = (place_valid 0 (zip ?valid (map (local_page subpages degree) table)) (replicate (length table) 0),
      visible_tokens psize len ?valid, prefix')"
    using cpu_loop_eq [OF assms refl, of keep subpages vcount degree rank len 0 table "replicate (length table) 0" 0 0 "[0]"]
    by (auto simp: valid_pages_from visible_tokens_from)
  have "prefix' = map (\<lambda>i. int (count_list (take i ?valid) True)) [0..<Suc (length table)]" if keep
    using cpu_loop_prefix [OF that, of psize subpages vcount degree rank len 0 table "replicate (length table) 0" 0 0 "[0]"]
      L that by (simp add: prefix_upt valid_pages_keep del: upt_Suc)
  then show ?thesis unfolding compact_cpu_def L
    by (simp add: compact_reference_def Let_def place_valid_zeros kept_pages_def)
qed

text \<open>The Triton lanes: the exclusive scan is the running counter of the loop.\<close>

lemma fold_cumsum_place:
  assumes "length ls = length valid"
  shows "fold (\<lambda>(v, d, l) out. if v then out[nat d := l] else out)
      (zip valid (zip (map (\<lambda>i. int (n + count_list (take (Suc i) valid) True) - 1) [0..<length valid]) ls)) out =
    place_valid n (zip valid ls) out"
  using assms
proof (induction valid arbitrary: n ls out)
  case (Cons v vs)
  obtain l ls' where ls: "ls = l # ls'" "length ls' = length vs" using Cons.prems by (cases ls) auto
  have "map (\<lambda>i. int (n + count_list (take (Suc i) (v # vs)) True) - 1) [0..<length (v # vs)] =
    (int (n + (if v then 1 else 0)) - 1) #
    map (\<lambda>i. int ((n + (if v then 1 else 0)) + count_list (take (Suc i) vs) True) - 1) [0..<length vs]"
    unfolding list.size add_Suc_right add_0_right prefix_upt by simp
  then show ?case using Cons.IH [OF ls(2), of "Suc n" "out[n := l]"] Cons.IH [OF ls(2), of n out]
    unfolding ls(1) by (cases v) (simp_all del: upt_Suc)
qed simp

lemma triton_page:
  assumes "0 < subpages" and "0 < degree"
  shows "(snd (virtual_block_to_local (tdiv page subpages) degree rank) \<and> tdiv page subpages < vcount) \<longleftrightarrow>
      page_owned subpages vcount degree rank page"
    and "page_owned subpages vcount degree rank page \<Longrightarrow>
      fst (virtual_block_to_local (tdiv page subpages) degree rank) * subpages + tmod page subpages = local_page subpages degree page"
proof -
  have neg: "page \<le> 0 \<Longrightarrow> \<not> 0 < page div subpages"
    using assms(1) by (simp add: not_less div_nonpos_pos_le0)
  have nonneg: "0 \<le> page \<Longrightarrow> tdiv page subpages = page div subpages \<and> tmod page subpages = page mod subpages"
    by (simp add: tdiv_nonneg tmod_nonneg assms(1))
  show "(snd (virtual_block_to_local (tdiv page subpages) degree rank) \<and> tdiv page subpages < vcount) \<longleftrightarrow>
      page_owned subpages vcount degree rank page"
    using neg nonneg tdiv_nonpos [OF _ assms(1), of page]
    by (cases "0 \<le> page") (auto simp: virtual_block_to_local_eq [OF assms(2)] page_owned_def cyclic_owner_def)
  assume own: "page_owned subpages vcount degree rank page"
  then have "0 \<le> page" using neg by (fastforce simp: page_owned_def)
  then show "fst (virtual_block_to_local (tdiv page subpages) degree rank) * subpages + tmod page subpages = local_page subpages degree page"
    using own nonneg
    by (simp add: virtual_block_to_local_eq [OF assms(2)] page_owned_def cyclic_owner_def cyclic_local_def local_page_def)
qed

lemma place_valid_cong:
  assumes "length ls = length valid" and "length ls' = length valid"
    and "\<And>i. i < length valid \<Longrightarrow> valid ! i \<Longrightarrow> ls ! i = ls' ! i"
  shows "place_valid n (zip valid ls) out = place_valid n (zip valid ls') out"
  using assms
proof (induction valid arbitrary: n ls ls' out)
  case (Cons v vs)
  obtain a as where ls: "ls = a # as" using Cons.prems(1) by (cases ls) auto
  obtain b bs where ls': "ls' = b # bs" using Cons.prems(2) by (cases ls') auto
  have tl: "i < length vs \<Longrightarrow> vs ! i \<Longrightarrow> as ! i = bs ! i" for i
    using Cons.prems(3) [of "Suc i"] ls ls' by simp
  have hd: "v \<Longrightarrow> a = b" using Cons.prems(3) [of 0] ls ls' by simp
  have "place_valid m (zip vs as) o' = place_valid m (zip vs bs) o'" for m o'
    using Cons.prems ls ls' tl by (intro Cons.IH) auto
  then show ?case unfolding ls ls' using hd by simp
qed simp

lemma visible_tokens_rows:
  "length valid = n \<Longrightarrow> (\<And>col. f col = clamp 0 psize (len - col * psize)) \<Longrightarrow>
   sum_list (map2 (\<lambda>v r. if v then r else 0) valid (map f (map int [0..<n]))) = visible_tokens psize len valid"
  unfolding visible_tokens_def by (intro arg_cong [where f = sum_list] nth_equalityI) simp_all

lemma visible_tokens_bounds:
  assumes "0 < psize"
  shows "0 \<le> visible_tokens psize len valid" and "visible_tokens psize len valid \<le> int (length valid) * psize"
proof (induction valid rule: rev_induct)
  case (snoc v valid)
  have "visible_tokens psize len (valid @ [v]) =
      visible_tokens psize len valid + (if v then clamp 0 psize (len - int (length valid) * psize) else 0)"
    by (simp add: visible_tokens_def)
  moreover have "0 \<le> clamp 0 psize (len - int (length valid) * psize)" "clamp 0 psize (len - int (length valid) * psize) \<le> psize"
    using assms by (simp_all add: clamp_def)
  ultimately show "0 \<le> visible_tokens psize len (valid @ [v])"
    "visible_tokens psize len (valid @ [v]) \<le> int (length (valid @ [v])) * psize"
    using snoc assms by (auto simp: distrib_right)
qed (simp_all add: visible_tokens_def)

text \<open>A row whose page starts and length fit in 32 bits. Without it the kernel's \<^verbatim>\<open>col * PAGE\<close> wraps.\<close>

definition row_fits :: "int \<Rightarrow> int \<Rightarrow> int list \<Rightarrow> bool" where
  "row_fits psize len row \<longleftrightarrow> int (length row) * psize < 2 ^ 31 \<and> 0 \<le> len \<and> len < 2 ^ 31"

lemma row_fits_wrap:
  assumes "row_fits psize len row" and "0 < psize" and "i < length row"
  shows "wrap32 (int i * psize) = int i * psize" and "wrap32 (len - int i * psize) = len - int i * psize"
proof -
  have "int i * psize \<le> int (length row) * psize" using assms(2,3) by (intro mult_right_mono) simp_all
  moreover have "0 \<le> int i * psize" using assms(2) by simp
  ultimately have "0 \<le> int i * psize" "int i * psize < 2 ^ 31" "0 \<le> len" "len < 2 ^ 31"
    using assms(1) by (auto simp: row_fits_def)
  then show "wrap32 (int i * psize) = int i * psize" "wrap32 (len - int i * psize) = len - int i * psize"
    by (intro wrap32_id; linarith)+
qed

lemma compact_triton_reference:
  assumes "0 < psize" and "0 < subpages" and "0 < degree" and fits: "keep \<or> row_fits psize len table"
  shows "fst (compact_triton keep psize subpages vcount degree rank len table) =
      fst (compact_reference keep psize subpages vcount degree rank len table)"
    and "snd (snd (compact_triton keep psize subpages vcount degree rank len table)) =
      snd (snd (compact_reference keep psize subpages vcount degree rank len table))"
    and "row_fits psize len table \<Longrightarrow> fst (snd (compact_triton keep psize subpages vcount degree rank len table)) =
      fst (snd (compact_reference keep psize subpages vcount degree rank len table))"
proof -
  let ?n = "length table" and ?own = "page_owned subpages vcount degree rank"
  let ?blocks = "map (\<lambda>page. tdiv page subpages) table"
  let ?owner = "map (\<lambda>b. snd (virtual_block_to_local b degree rank) \<and> b < vcount) ?blocks"
  let ?v = "map2 (\<lambda>o' col. o' \<and> (\<not> keep \<longrightarrow> wrap32 (col * psize) < len)) ?owner (map int [0..<?n])"
  let ?valid = "valid_pages keep psize ?own len table"
  let ?ls = "map2 (\<lambda>b page. fst (virtual_block_to_local b degree rank) * subpages + tmod page subpages) ?blocks table"
  let ?total = "sum_list (map2 (\<lambda>v r. if v then r else 0) ?valid
      (map (\<lambda>col. min psize (max (wrap32 (len - wrap32 (col * psize))) 0)) (map int [0..<?n])))"
  have v: "?v = ?valid"
    using triton_page(1) [OF assms(2,3)] fits row_fits_wrap(1) [of psize len table] assms(1)
    by (intro nth_equalityI) (auto simp: valid_pages_def)
  have dest: "map (\<lambda>d. d - 1) (cumsum_bool ?valid) =
      map (\<lambda>i. int (0 + count_list (take (Suc i) ?valid) True) - 1) [0..<length ?valid]"
    by (simp add: cumsum_bool_def)
  have loc: "?ls ! i = map (local_page subpages degree) table ! i" if "i < ?n" "?valid ! i" for i
    using that triton_page(2) [OF assms(2,3), of vcount rank "table ! i"] by (simp add: valid_pages_def)
  have out: "fold (\<lambda>(v, d, l) out. if v then out[nat d := l] else out)
      (zip ?valid (zip (map (\<lambda>d. d - 1) (cumsum_bool ?valid)) ?ls)) (replicate ?n 0) =
    place_valid 0 (zip ?valid (map (local_page subpages degree) table)) (replicate ?n 0)"
    unfolding dest by (subst fold_cumsum_place, simp) (intro place_valid_cong, use loc in auto)
  have prefix: "0 # map (\<lambda>d. d + 1) (map (\<lambda>d. d - 1) (cumsum_bool ?valid)) =
      map (\<lambda>i. int (count_list (take i ?valid) True)) [0..<Suc ?n]"
    by (simp add: prefix_upt cumsum_bool_def comp_def del: upt_Suc)
  have T: "compact_triton keep psize subpages vcount degree rank len table =
     (place_valid 0 (zip ?valid (map (local_page subpages degree) table)) (replicate ?n 0), wrap32 ?total,
      if keep then Some (map (\<lambda>i. int (count_list (take i ?valid) True)) [0..<Suc ?n]) else None)"
    unfolding compact_triton_def Let_def v out prefix by (rule refl)
  show "fst (compact_triton keep psize subpages vcount degree rank len table) =
      fst (compact_reference keep psize subpages vcount degree rank len table)"
    unfolding T by (simp add: compact_reference_def Let_def place_valid_zeros kept_pages_def)
  show "snd (snd (compact_triton keep psize subpages vcount degree rank len table)) =
      snd (snd (compact_reference keep psize subpages vcount degree rank len table))"
    unfolding T by (simp add: compact_reference_def Let_def)
  assume f: "row_fits psize len table"
  have "map (\<lambda>col. min psize (max (wrap32 (len - wrap32 (col * psize))) 0)) (map int [0..<?n]) =
      map (\<lambda>col. min psize (max (len - col * psize) 0)) (map int [0..<?n])"
    using row_fits_wrap [OF f assms(1)] by simp
  then have "?total = visible_tokens psize len ?valid"
    by (simp only:) (intro visible_tokens_rows, simp_all add: clamp_def min.commute max.commute)
  moreover have "wrap32 (visible_tokens psize len ?valid) = visible_tokens psize len ?valid"
    using visible_tokens_bounds [OF assms(1), of len ?valid] f by (intro wrap32_small) (simp_all add: row_fits_def)
  ultimately show "fst (snd (compact_triton keep psize subpages vcount degree rank len table)) =
      fst (snd (compact_reference keep psize subpages vcount degree rank len table))"
    unfolding T by (simp add: compact_reference_def Let_def)
qed

text \<open>The Ascend scatter writes the valid pages from the left and zeros after them.\<close>

fun place_both :: "nat \<Rightarrow> nat \<Rightarrow> (bool \<times> int) list \<Rightarrow> int list \<Rightarrow> int list" where
  "place_both a b [] out = out"
| "place_both a b ((v, l) # xs) out =
     (if v then place_both (Suc a) b xs (out[a := l]) else place_both a (Suc b) xs (out[b := 0]))"

lemma place_both_eq:
  assumes "a + length (filter fst xs) \<le> b" and "b + length (filter (Not \<circ> fst) xs) \<le> length out"
  shows "place_both a b xs out =
    take a out @ map snd (filter fst xs) @
    take (b - (a + length (filter fst xs))) (drop (a + length (filter fst xs)) out) @
    replicate (length (filter (Not \<circ> fst) xs)) 0 @ drop (b + length (filter (Not \<circ> fst) xs)) out"
  using assms
proof (induction a b xs out rule: place_both.induct)
  case (1 a b out)
  then have "take a out @ take (b - a) (drop a out) @ drop b out = out"
    by (metis append.assoc append_take_drop_id le_add_diff_inverse list.size(3) add_0_right filter.simps(1) take_add)
  then show ?case by simp
next
  case (2 a b v l xs out)
  show ?case
  proof (cases v)
    case True
    have "a < length out" using "2.prems" True by simp
    then have "take (Suc a) (out[a := l]) = take a out @ [l]" by (simp add: take_Suc_conv_app_nth)
    then show ?thesis using "2.IH"(1) [OF True] "2.prems" True by simp
  next
    case False
    let ?k = "a + length (filter fst xs)"
    have k: "?k \<le> b" "b < length out" using "2.prems" False by simp_all
    have "take (Suc b - ?k) (drop ?k (out[b := 0])) = take (b - ?k) (drop ?k out) @ [0]"
      using k by (simp add: Suc_diff_le drop_update_swap take_Suc_conv_app_nth)
    then show ?thesis using "2.IH"(2) [OF False] "2.prems" False k by simp
  qed
qed

lemma fold_scan_place_both:
  assumes "length ls = length valid"
  shows "fold (\<lambda>(d, v, l) out. out[nat d := (if v then l else 0)])
      (zip (map (\<lambda>i. if valid ! i then int a + int (count_list (take (Suc i) valid) True) - 1
                 else int b + int i - int (count_list (take (Suc i) valid) True)) [0..<length valid])
           (zip valid ls)) out = place_both a b (zip valid ls) out"
  using assms
proof (induction valid arbitrary: a b ls out)
  case (Cons v vs)
  obtain l ls' where ls: "ls = l # ls'" "length ls' = length vs" using Cons.prems by (cases ls) auto
  let ?a = "if v then Suc a else a" and ?b = "if v then b else Suc b"
  have "map (\<lambda>i. if (v # vs) ! i then int a + int (count_list (take (Suc i) (v # vs)) True) - 1
          else int b + int i - int (count_list (take (Suc i) (v # vs)) True)) [0..<length (v # vs)] =
    (if v then int a else int b) #
    map (\<lambda>i. if vs ! i then int ?a + int (count_list (take (Suc i) vs) True) - 1
          else int ?b + int i - int (count_list (take (Suc i) vs) True)) [0..<length vs]"
    unfolding list.size add_Suc_right add_0_right prefix_upt by (cases v) (simp_all del: upt_Suc)
  then show ?case
    using Cons.IH [OF ls(2), of "Suc a" b "out[a := l]"] Cons.IH [OF ls(2), of a "Suc b" "out[b := 0]"]
    unfolding ls(1) by (cases v) (simp_all del: upt_Suc)
qed simp

lemma last_cumsum_bool:
  "(if cumsum_bool valid = [] then 0 else last (cumsum_bool valid)) = int (count_list valid True)"
  by (cases valid) (simp_all add: cumsum_bool_def last_map)

lemma length_filter_Not: "length (filter P xs) + length (filter (Not \<circ> P) xs) = length xs"
  by (simp add: sum_length_filter_compl comp_def)

lemma filter_fst_zip: "length ls = length valid \<Longrightarrow> length (filter fst (zip valid ls)) = count_list valid True"
proof (induction valid arbitrary: ls)
  case (Cons v vs)
  then show ?case by (cases ls) auto
qed simp

lemma compact_ascend_reference:
  assumes "0 < psize" and "length out = length table"
  shows "compact_ascend keep psize subpages vcount degree rank len out table =
    compact_reference keep psize subpages vcount degree rank len table"
proof -
  let ?n = "length table" and ?own = "page_owned subpages vcount degree rank"
  let ?blocks = "map (\<lambda>page. page div subpages) table" and ?cols = "map int [0..<length table]"
  let ?valid = "valid_pages keep psize ?own len table" and ?ls = "map (local_page subpages degree) table"
  let ?total = "int (count_list ?valid True)"
  have v: "map2 (\<lambda>b col. 0 < b \<and> b < vcount \<and> (b - 1) mod degree = rank \<and> (\<not> keep \<longrightarrow> col * psize < len))
      ?blocks ?cols = ?valid"
    by (intro nth_equalityI) (simp_all add: valid_pages_def page_owned_def)
  have ls: "map2 (\<lambda>b page. ((b - 1) div degree + 1) * subpages + page mod subpages) ?blocks table = ?ls"
    by (intro nth_equalityI) (simp_all add: local_page_def)
  have dest: "map2 (\<lambda>v (p, col). if v then p - 1 else ?total + col - p) ?valid (zip (cumsum_bool ?valid) ?cols) =
      map (\<lambda>i. if ?valid ! i then int 0 + int (count_list (take (Suc i) ?valid) True) - 1
           else int (count_list ?valid True) + int i - int (count_list (take (Suc i) ?valid) True)) [0..<length ?valid]"
    by (intro nth_equalityI) (simp_all add: cumsum_bool_def)
  have cnt: "length (filter fst (zip ?valid ?ls)) = count_list ?valid True" by (simp add: filter_fst_zip)
  have total: "count_list ?valid True + length (filter (Not \<circ> fst) (zip ?valid ?ls)) = ?n"
    using length_filter_Not [of fst "zip ?valid ?ls"] cnt by simp
  have nf: "length (filter (Not \<circ> fst) (zip ?valid ?ls)) = ?n - count_list ?valid True" using total by simp
  have "fold (\<lambda>(d, v, l) out. out[nat d := (if v then l else 0)])
      (zip (map2 (\<lambda>v (p, col). if v then p - 1 else ?total + col - p) ?valid (zip (cumsum_bool ?valid) ?cols)) (zip ?valid ?ls)) out =
    place_both 0 (count_list ?valid True) (zip ?valid ?ls) out"
    unfolding dest by (rule fold_scan_place_both) simp
  also have "\<dots> = kept_pages ?valid (local_page subpages degree) table @ replicate (?n - count_list ?valid True) 0"
    using total assms(2) cnt nf by (subst place_both_eq) (simp_all add: kept_pages_def)
  finally have out: "fold (\<lambda>(d, v, l) out. out[nat d := (if v then l else 0)])
      (zip (map2 (\<lambda>v (p, col). if v then p - 1 else ?total + col - p) ?valid (zip (cumsum_bool ?valid) ?cols)) (zip ?valid ?ls)) out =
    kept_pages ?valid (local_page subpages degree) table @ replicate (?n - count_list ?valid True) 0" .
  have tokens: "sum_list (map2 (\<lambda>v r. if v then r else 0) ?valid
      (map (\<lambda>col. clamp 0 psize (len - col * psize)) ?cols)) = visible_tokens psize len ?valid"
    by (intro visible_tokens_rows) simp_all
  have prefix: "0 # cumsum_bool ?valid = map (\<lambda>i. int (count_list (take i ?valid) True)) [0..<Suc ?n]"
    by (simp add: prefix_upt cumsum_bool_def del: upt_Suc)
  have kept: "length (kept_pages ?valid (local_page subpages degree) table) = count_list ?valid True"
    using cnt by (simp add: kept_pages_def)
  show ?thesis unfolding compact_ascend_def Let_def v last_cumsum_bool ls out tokens prefix
    by (simp add: compact_reference_def Let_def kept)
qed

text \<open>The geometry and the buffers that \<^verbatim>\<open>compact_kvp_pages\<close> accepts.\<close>

definition compact_buffers ::
  "int \<Rightarrow> int \<Rightarrow> int \<Rightarrow> int \<Rightarrow> int \<Rightarrow> int list list \<Rightarrow> int list \<Rightarrow> int list list \<Rightarrow> int list \<Rightarrow> bool" where
  "compact_buffers psize granularity vcount degree rank table lengths out local_lengths \<longleftrightarrow>
     0 < psize \<and> 0 < granularity \<and> granularity mod psize = 0 \<and> 1 < vcount \<and> 0 \<le> rank \<and> rank < degree \<and>
     map length out = map length table \<and> length local_lengths = length lengths \<and> length lengths = length table"

lemma compact_buffers_subpages:
  assumes "compact_buffers psize granularity vcount degree rank table lengths out local_lengths"
  shows "0 < granularity div psize"
proof -
  have "granularity = psize * (granularity div psize)" using assms by (auto simp: compact_buffers_def)
  then show ?thesis using assms by (metis compact_buffers_def zero_less_mult_pos)
qed

lemma compact_kvp_pages_rows:
  assumes B: "compact_buffers psize granularity vcount degree rank table lengths out local_lengths"
    and "\<not> keep \<and> dev = Cuda \<longrightarrow> (\<forall>i < length table. row_fits psize (lengths ! i) (table ! i))"
  obtains rows where "compact_kvp_pages dev keep psize granularity vcount degree rank table lengths out local_lengths = Inr rows"
    and "length rows = length table"
    and "\<And>i. i < length table \<Longrightarrow> fst (rows ! i) =
       fst (compact_reference keep psize (granularity div psize) vcount degree rank (lengths ! i) (table ! i))"
    and "\<And>i. i < length table \<Longrightarrow> snd (snd (rows ! i)) =
       snd (snd (compact_reference keep psize (granularity div psize) vcount degree rank (lengths ! i) (table ! i)))"
    and "\<And>i. i < length table \<Longrightarrow> dev = Cuda \<longrightarrow> row_fits psize (lengths ! i) (table ! i) \<Longrightarrow> fst (snd (rows ! i)) =
       fst (snd (compact_reference keep psize (granularity div psize) vcount degree rank (lengths ! i) (table ! i)))"
proof
  let ?row = "\<lambda>(row, len, out_row). case dev of
              Npu \<Rightarrow> compact_ascend keep psize (granularity div psize) vcount degree rank len out_row row
            | Cuda \<Rightarrow> compact_triton keep psize (granularity div psize) vcount degree rank len row
            | Cpu \<Rightarrow> compact_cpu keep psize (granularity div psize) vcount degree rank len row"
  let ?rows = "map ?row (zip table (zip lengths out))"
  have lens: "length out = length table" using B by (metis compact_buffers_def length_map)
  have pos: "0 < psize" "0 < degree" "length lengths = length table" using B by (simp_all add: compact_buffers_def)
  have row: "length (out ! i) = length (table ! i)" if "i < length table" for i
    using B that lens by (metis compact_buffers_def nth_map)
  note sub = compact_buffers_subpages [OF B]
  show "compact_kvp_pages dev keep psize granularity vcount degree rank table lengths out local_lengths = Inr ?rows"
    using B by (simp add: compact_kvp_pages_def compact_buffers_def Let_def)
  show "length ?rows = length table" using lens pos by simp
  fix i assume i: "i < length table"
  then have at: "?rows ! i = ?row (table ! i, lengths ! i, out ! i)" using lens pos by simp
  note eqs = compact_ascend_reference [OF pos(1)] compact_cpu_reference [OF pos(1)]
  show "fst (?rows ! i) = fst (compact_reference keep psize (granularity div psize) vcount degree rank (lengths ! i) (table ! i))"
    "snd (snd (?rows ! i)) = snd (snd (compact_reference keep psize (granularity div psize) vcount degree rank (lengths ! i) (table ! i)))"
    unfolding at using assms(2) i row [OF i] compact_triton_reference(1,2) [OF pos(1) sub pos(2)]
    by (cases dev; auto simp: eqs)+
  assume "dev = Cuda \<longrightarrow> row_fits psize (lengths ! i) (table ! i)"
  then show "fst (snd (?rows ! i)) = fst (snd (compact_reference keep psize (granularity div psize) vcount degree rank (lengths ! i) (table ! i)))"
    unfolding at using row [OF i] compact_triton_reference(3) [OF pos(1) sub pos(2)] by (cases dev; auto simp: eqs)
qed

text \<open>C30: page compaction. On a valid geometry and matching buffers the Ascend scan, the CPU loop and, for tables whose
  page starts and lengths fit in 32 bits, the Triton kernel of \<^verbatim>\<open>compact_kvp_pages\<close> return the same rows
  whatever the output buffers held: the local ids of this rank's pages in token order followed by null pages,
  the number of tokens on them below the request's length, and (when ranks are kept) the table of ranks of
  every column.\<close>

theorem compact_kvp_pages_agree:
  assumes "compact_buffers psize granularity vcount degree rank table lengths out local_lengths"
    and "dev = Cuda \<longrightarrow> (\<forall>i < length table. row_fits psize (lengths ! i) (table ! i))"
  shows "compact_kvp_pages dev keep psize granularity vcount degree rank table lengths out local_lengths =
    Inr (map2 (\<lambda>row len. compact_reference keep psize (granularity div psize) vcount degree rank len row) table lengths)"
proof -
  have "\<not> keep \<and> dev = Cuda \<longrightarrow> (\<forall>i < length table. row_fits psize (lengths ! i) (table ! i))" using assms(2) by simp
  then show ?thesis
  proof (rule compact_kvp_pages_rows [OF assms(1)])
    fix rows
    assume rows: "compact_kvp_pages dev keep psize granularity vcount degree rank table lengths out local_lengths = Inr rows"
      "length rows = length table"
      and parts: "\<And>i. i < length table \<Longrightarrow> fst (rows ! i) =
         fst (compact_reference keep psize (granularity div psize) vcount degree rank (lengths ! i) (table ! i))"
        "\<And>i. i < length table \<Longrightarrow> snd (snd (rows ! i)) =
         snd (snd (compact_reference keep psize (granularity div psize) vcount degree rank (lengths ! i) (table ! i)))"
        "\<And>i. i < length table \<Longrightarrow> dev = Cuda \<longrightarrow> row_fits psize (lengths ! i) (table ! i) \<Longrightarrow> fst (snd (rows ! i)) =
         fst (snd (compact_reference keep psize (granularity div psize) vcount degree rank (lengths ! i) (table ! i)))"
    have "rows ! i = compact_reference keep psize (granularity div psize) vcount degree rank (lengths ! i) (table ! i)"
      if "i < length table" for i using parts [OF that] assms(2) that by (simp add: prod_eq_iff)
    moreover have "length lengths = length table" using assms(1) by (simp add: compact_buffers_def)
    ultimately show ?thesis unfolding rows(1) using rows(2) by (simp add: list_eq_iff_nth_eq)
  qed
qed

theorem compact_kvp_pages_agree_witness:
  "compact_kvp_pages Cuda True 2 4 6 2 1 [[0, 4, 5, 6]] [7] [[9, 9, 9, 9]] [0] =
   Inr [([2, 3, 0, 0], 4, Some [0, 0, 1, 2, 2])]"
proof -
  have "compact_buffers 2 4 6 2 1 [[0, 4, 5, 6]] [7] [[9, 9, 9, 9]] [0]" by code_simp
  moreover have "Cuda = Cuda \<longrightarrow> (\<forall>i < length [[0, 4, 5, 6 :: int]]. row_fits 2 ([7] ! i) ([[0, 4, 5, 6]] ! i))"
    by (simp add: row_fits_def)
  ultimately have "compact_kvp_pages Cuda True 2 4 6 2 1 [[0, 4, 5, 6]] [7] [[9, 9, 9, 9]] [0] =
      Inr (map2 (\<lambda>row len. compact_reference True 2 (4 div 2) 6 2 1 len row) [[0, 4, 5, 6]] [7])"
    by (rule compact_kvp_pages_agree)
  also have "\<dots> = Inr [([2, 3, 0, 0], 4, Some [0, 0, 1, 2, 2])]" by code_simp
  finally show ?thesis .
qed

text \<open>The bound is needed: three pages of \<open>2 ^ 30\<close> tokens, and the start of the last wraps to a negative number. The
  Triton kernel then keeps that page for a request of one token; the CPU loop does not.\<close>

lemma compact_triton_wraps:
  "compact_triton False (2 ^ 30) 1 9 1 0 1 [1, 2, 3] = ([1, 3, 0], 1, None)"
  "compact_cpu False (2 ^ 30) 1 9 1 0 1 [1, 2, 3] = ([1, 0, 0], 1, None)"
  by code_simp+

section \<open>Counting token positions\<close>

text \<open>The specification: token positions below \<open>n\<close> that lie on a page satisfying \<open>P\<close>.\<close>

definition owned_rows :: "(nat \<Rightarrow> bool) \<Rightarrow> nat \<Rightarrow> nat \<Rightarrow> nat" where
  "owned_rows P psize n = length (filter (\<lambda>t. P (t div psize)) [0..<n])"

lemma owned_rows_Suc: "owned_rows P psize (Suc n) = owned_rows P psize n + (if P (n div psize) then 1 else 0)"
  by (simp add: owned_rows_def)

lemma owned_rows_cong:
  "(\<And>c. c * psize < n \<Longrightarrow> P c \<longleftrightarrow> Q c) \<Longrightarrow> owned_rows P psize n = owned_rows Q psize n"
proof -
  assume PQ: "\<And>c. c * psize < n \<Longrightarrow> P c \<longleftrightarrow> Q c"
  have "P (t div psize) \<longleftrightarrow> Q (t div psize)" if "t < n" for t
    using le_less_trans [OF div_times_less_eq_dividend that] by (rule PQ)
  then show ?thesis unfolding owned_rows_def by (intro arg_cong [where f = length] filter_cong refl) simp
qed

lemma owned_rows_zero [simp]: "owned_rows P psize 0 = 0"
  by (simp add: owned_rows_def)

lemma owned_rows_partial:
  "r \<le> psize \<Longrightarrow> owned_rows P psize (c * psize + r) = owned_rows P psize (c * psize) + (if P c then r else 0)"
proof (induction r)
  case (Suc r)
  have "(c * psize + r) div psize = c" using Suc.prems by (simp add: div_nat_eqI)
  then show ?case using Suc by (simp add: owned_rows_Suc)
qed simp

lemma owned_rows_whole: "owned_rows P psize (c * psize) = psize * length (filter P [0..<c])"
proof (induction c)
  case (Suc c)
  have "owned_rows P psize (Suc c * psize) = owned_rows P psize (c * psize + psize)" by (simp add: add.commute)
  then show ?case using Suc owned_rows_partial [of psize psize P c] by simp
qed simp

lemma owned_rows_divmod:
  assumes "0 < psize"
  shows "owned_rows P psize n = psize * length (filter P [0..<n div psize]) + (if P (n div psize) then n mod psize else 0)"
  using owned_rows_partial [of "n mod psize" psize P "n div psize"] assms
    owned_rows_whole [of P psize "n div psize"] by simp

lemma owned_rows_mono: "m \<le> n \<Longrightarrow> owned_rows P psize m \<le> owned_rows P psize n"
  by (induction n rule: nat_induct_at_least [of m]) (auto simp: owned_rows_Suc)

lemma owned_rows_eq_0: "owned_rows P psize n = 0 \<longleftrightarrow> (\<forall>t < n. \<not> P (t div psize))"
  by (auto simp: owned_rows_def filter_empty_conv)

lemma sum_owned_rows:
  assumes "finite S" and "\<And>c. owner c \<in> S"
  shows "(\<Sum>k\<in>S. owned_rows (\<lambda>c. owner c = k) psize n) = n"
proof (induction n)
  case (Suc n)
  have "(\<Sum>k\<in>S. if owner (n div psize) = k then 1 else 0) = (1::nat)" using assms by simp
  then show ?case using Suc by (simp add: owned_rows_Suc sum.distrib)
qed simp

text \<open>Clamped page lengths add up to the positions below the length.\<close>

lemma clamped_rows:
  assumes "0 \<le> len"
  shows "sum_list (map (\<lambda>c. if P c then clamp 0 (int psize) (len - int c * int psize) else 0) [0..<n]) =
    int (owned_rows P psize (min (nat len) (n * psize)))"
proof (induction n)
  case (Suc n)
  show ?case
  proof (cases "nat len \<le> n * psize")
    case True
    then have "len \<le> int n * int psize" by (metis nat_le_iff of_nat_mult)
    then have "clamp 0 (int psize) (len - int n * int psize) = 0" by (simp add: clamp_def)
    moreover have "min (nat len) (Suc n * psize) = min (nat len) (n * psize)" using True by (simp add: min_def)
    ultimately show ?thesis using Suc by simp
  next
    case False
    define r where "r = nat (clamp 0 (int psize) (len - int n * int psize))"
    have big: "int n * int psize < len" using False by (metis not_le nat_le_iff of_nat_mult)
    then have r: "int r = clamp 0 (int psize) (len - int n * int psize)" "r \<le> psize"
      by (auto simp: r_def clamp_def)
    have "int (min (nat len) (Suc n * psize)) = int n * int psize + int r"
      using big assms unfolding r(1) clamp_def by (simp add: min_def nat_le_iff algebra_simps)
    then have "min (nat len) (Suc n * psize) = n * psize + r" by (metis of_nat_add of_nat_eq_iff of_nat_mult)
    moreover have "min (nat len) (n * psize) = n * psize" using False by simp
    ultimately show ?thesis using Suc owned_rows_partial [OF r(2), of P n] by (simp add: r(1) [symmetric])
  qed
qed simp

lemma count_list_take_owned:
  "i \<le> length table \<Longrightarrow> count_list (take i (map own table)) True = length (filter (\<lambda>c. own (table ! c)) [0..<i])"
proof (induction i)
  case (Suc i)
  then show ?case by (simp add: take_Suc_conv_app_nth)
qed simp

lemma visible_tokens_owned_rows:
  assumes "0 \<le> len" and "0 < psize"
  shows "visible_tokens (int psize) len (valid_pages keep (int psize) own len table) =
    int (owned_rows (\<lambda>c. own (table ! c)) psize (min (nat len) (length table * psize)))"
proof -
  let ?v = "valid_pages keep (int psize) own len table"
  have "(if ?v ! c then clamp 0 (int psize) (len - int c * int psize) else 0) =
      (if own (table ! c) then clamp 0 (int psize) (len - int c * int psize) else 0)" if "c < length table" for c
    using that by (auto simp: valid_pages_def clamp_def)
  then have "map2 (\<lambda>v col. if v then clamp 0 (int psize) (len - int col * int psize) else 0) ?v [0..<length ?v] =
    map (\<lambda>c. if own (table ! c) then clamp 0 (int psize) (len - int c * int psize) else 0) [0..<length table]"
    by (intro nth_equalityI) simp_all
  then show ?thesis unfolding visible_tokens_def using clamped_rows [OF assms(1)] by simp
qed

lemma prefix_visible:
  assumes ps: "0 < psize" and q: "q \<le> length table * psize" and q32: "q < 2 ^ 31"
    and prefix: "prefix = map (\<lambda>i. int (count_list (take i (map own table)) True)) [0..<Suc (length table)]"
  shows "visible_triton (int psize) prefix (int q) = int (owned_rows (\<lambda>c. own (table ! c)) psize q)"
    and "visible_cpu (int psize) prefix (int q) = int (owned_rows (\<lambda>c. own (table ! c)) psize q)"
proof -
  let ?n = "length table" and ?c = "q div psize" and ?rows = "owned_rows (\<lambda>c. own (table ! c)) psize q"
  let ?before = "length (filter (\<lambda>c. own (table ! c)) [0..<?c])"
  have c: "?c \<le> ?n" using div_le_mono [OF q, of psize] ps by simp
  have len: "length prefix = Suc ?n" by (simp add: prefix)
  have at: "prefix ! i = int (length (filter (\<lambda>c. own (table ! c)) [0..<i]))" if "i \<le> ?n" for i
    using that by (simp add: prefix count_list_take_owned del: upt_Suc)
  have tri: "tdiv (int q) (int psize) = int ?c" "tmod (int q) (int psize) = int (q mod psize)"
    using ps by (simp_all add: tdiv_nonneg tmod_nonneg zdiv_int zmod_int)
  have cpu: "int q div int psize = int ?c" "int q mod int psize = int (q mod psize)"
    by (simp_all add: zdiv_int zmod_int)
  have idx: "nat (int ?c + 1) = Suc ?c" by simp
  have split: "?rows = ?before * psize + (if own (table ! ?c) then q mod psize else 0)"
    using owned_rows_divmod [OF ps] by (simp add: mult.commute)
  have "?rows \<le> q" unfolding owned_rows_def using length_filter_le [of _ "[0..<q]"] by (metis diff_zero length_upt)
  then have "?rows < 2 ^ 31" "?before * psize < 2 ^ 31" using q32 split by linarith+
  then have "int ?rows < 2 ^ 31" "int (?before * psize) < 2 ^ 31" by (simp_all only: of_nat_less_numeral_power_cancel_iff)
  then have small: "wrap32 (int ?before * int psize) = int ?before * int psize" "wrap32 (int ?rows) = int ?rows"
    by (intro wrap32_small; simp)+
  have "(if int (length (filter (\<lambda>c. own (table ! c)) [0..<Suc ?c])) > int ?before then int (q mod psize) else 0) =
      int (if own (table ! ?c) then q mod psize else 0)" by simp
  then have sum: "wrap32 (wrap32 (int ?before * int psize) +
      (if int (length (filter (\<lambda>c. own (table ! c)) [0..<Suc ?c])) > int ?before then int (q mod psize) else 0)) = int ?rows"
    unfolding small(1) using small(2) unfolding split by simp
  have "visible_triton (int psize) prefix (int q) = int ?rows \<and> visible_cpu (int psize) prefix (int q) = int ?rows"
  proof (cases "?c < ?n")
    case True
    have "nat (min (int ?c + 1) (int ?n)) = Suc ?c" using True by simp
    with True sum show ?thesis unfolding visible_triton_def visible_cpu_def Let_def tri cpu len idx
      by (simp add: at del: upt_Suc)
  next
    case False
    then have e: "?c = ?n" using c by simp
    then have "q = ?n * psize" using q ps by (metis div_times_less_eq_dividend le_antisym)
    then have "q mod psize = 0" by simp
    with e small split show ?thesis
      unfolding visible_triton_def visible_cpu_def Let_def tri cpu len idx by (simp add: at)
  qed
  then show "visible_triton (int psize) prefix (int q) = int ?rows"
    and "visible_cpu (int psize) prefix (int q) = int ?rows" by simp_all
qed

text \<open>The rank table and the token count of one row of an accepted call.\<close>

lemma compact_kvp_pages_kept:
  assumes B: "compact_buffers (int psize) granularity vcount degree rank table lengths out local_lengths"
    and rows: "compact_kvp_pages dev True (int psize) granularity vcount degree rank table lengths out local_lengths = Inr rows"
  defines "own \<equiv> page_owned (granularity div int psize) vcount degree rank"
  shows "length rows = length table"
    and "i < length table \<Longrightarrow> snd (snd (rows ! i)) =
      Some (map (\<lambda>j. int (count_list (take j (map own (table ! i))) True)) [0..<Suc (length (table ! i))])"
    and "i < length table \<Longrightarrow> dev = Cuda \<longrightarrow> row_fits (int psize) (lengths ! i) (table ! i) \<Longrightarrow>
      fst (snd (rows ! i)) = visible_tokens (int psize) (lengths ! i) (valid_pages True (int psize) own (lengths ! i) (table ! i))"
proof -
  obtain rows' where r: "compact_kvp_pages dev True (int psize) granularity vcount degree rank table lengths out local_lengths = Inr rows'"
    "length rows' = length table"
    and parts: "\<And>i. i < length table \<Longrightarrow> snd (snd (rows' ! i)) =
       snd (snd (compact_reference True (int psize) (granularity div int psize) vcount degree rank (lengths ! i) (table ! i)))"
      "\<And>i. i < length table \<Longrightarrow> dev = Cuda \<longrightarrow> row_fits (int psize) (lengths ! i) (table ! i) \<Longrightarrow> fst (snd (rows' ! i)) =
       fst (snd (compact_reference True (int psize) (granularity div int psize) vcount degree rank (lengths ! i) (table ! i)))"
    by (rule compact_kvp_pages_rows [OF B, of True dev]) (simp, rule that)
  have e: "rows' = rows" using r(1) rows by simp
  show "length rows = length table" using r(2) e by simp
  show "snd (snd (rows ! i)) = Some (map (\<lambda>j. int (count_list (take j (map own (table ! i))) True)) [0..<Suc (length (table ! i))])"
    if "i < length table" using parts(1) [OF that] by (simp add: e own_def compact_reference_def Let_def valid_pages_keep del: upt_Suc)
  show "fst (snd (rows ! i)) = visible_tokens (int psize) (lengths ! i) (valid_pages True (int psize) own (lengths ! i) (table ! i))"
    if "i < length table" "dev = Cuda \<longrightarrow> row_fits (int psize) (lengths ! i) (table ! i)"
    using parts(2) [OF that] by (simp add: e own_def compact_reference_def Let_def)
qed

text \<open>C33: visible lengths. From the rank table that \<^verbatim>\<open>compact_kvp_pages\<close> returns for a request, both
  branches of \<^verbatim>\<open>kvp_local_visible_lengths\<close> give, for every int32 query endpoint inside the table, exactly
  the number of token positions below it whose page this rank owns; and the token count of the
  compaction is that number at the request's length (on a GPU, for a row that fits in 32 bits).\<close>

theorem visible_lengths_count:
  assumes "compact_buffers (int psize) granularity vcount degree rank table lengths out local_lengths"
    and "compact_kvp_pages dev True (int psize) granularity vcount degree rank table lengths out local_lengths = Inr rows"
    and "i < length table" and "rows ! i = (pages, tokens, Some prefix)"
    and "0 \<le> lengths ! i" and "q \<le> length (table ! i) * psize" and "q < 2 ^ 31"
  defines "own \<equiv> \<lambda>c. page_owned (granularity div int psize) vcount degree rank (table ! i ! c)"
  shows "visible_triton (int psize) prefix (int q) = int (owned_rows own psize q) \<and>
     visible_cpu (int psize) prefix (int q) = int (owned_rows own psize q) \<and>
     ((dev = Cuda \<longrightarrow> row_fits (int psize) (lengths ! i) (table ! i)) \<longrightarrow>
       tokens = int (owned_rows own psize (min (nat (lengths ! i)) (length (table ! i) * psize))))"
proof -
  have ps: "0 < psize" using assms(1) by (simp add: compact_buffers_def)
  note kept = compact_kvp_pages_kept [OF assms(1,2)]
  show ?thesis
    using prefix_visible [OF ps assms(6,7), of prefix] kept(2,3) [OF assms(3)] assms(4) visible_tokens_owned_rows [OF assms(5) ps]
    by (simp add: own_def del: upt_Suc)
qed

theorem visible_lengths_count_witness:
  "visible_cpu 2 [0, 0, 1, 2, 2] 5 =
     int (owned_rows (\<lambda>c. page_owned 2 6 2 1 ([0, 4, 5, 6] ! c)) 2 5)"
proof -
  have rows: "compact_kvp_pages Cpu True (int 2) 4 6 2 1 [[0, 4, 5, 6]] [7] [[9, 9, 9, 9]] [0] =
    Inr [([2, 3, 0, 0], 4, Some [0, 0, 1, 2, 2])]" by code_simp
  have buffers: "compact_buffers (int 2) 4 6 2 1 [[0, 4, 5, 6]] [7] [[9, 9, 9, 9]] [0]" by code_simp
  have "visible_cpu (int 2) [0, 0, 1, 2, 2] (int 5) =
    int (owned_rows (\<lambda>c. page_owned (4 div int 2) 6 2 1 ([[0, 4, 5, 6]] ! 0 ! c)) 2 5)"
    using visible_lengths_count [OF buffers rows, of 0 "[2, 3, 0, 0]" 4 "[0, 0, 1, 2, 2]" 5] by simp
  then show ?thesis by simp
qed

text \<open>C34: visible lengths of a batch. Given the rank tables that \<^verbatim>\<open>compact_kvp_pages\<close> returned and, for every request, at
  least one int32 query endpoint inside its table, \<^verbatim>\<open>kvp_local_visible_lengths\<close> succeeds on either device; each
  output entry is the number of token positions below the endpoint whose page this rank owns, and the optional
  \<^verbatim>\<open>local_lengths\<close> buffer is overwritten with the entries of the last queries.\<close>

theorem kvp_local_visible_lengths_counts:
  assumes "compact_buffers (int psize) granularity vcount degree rank table lengths out local_lengths"
    and "compact_kvp_pages dev True (int psize) granularity vcount degree rank table lengths out local_lengths = Inr rows"
    and "length queries = length table" and "length buffer = length table"
    and "\<forall>i < length table. queries ! i \<noteq> [] \<and> (\<forall>q \<in> set (queries ! i). q \<le> length (table ! i) * psize \<and> q < 2 ^ 31)"
  defines "rows_of \<equiv> \<lambda>i q. int (owned_rows (\<lambda>c. page_owned (granularity div int psize) vcount degree rank (table ! i ! c)) psize q)"
  shows "kvp_local_visible_lengths is_cuda (map (the \<circ> snd \<circ> snd) rows) (map (map int) queries) (int psize) (Some buffer) =
    Inr (map (\<lambda>i. map (rows_of i) (queries ! i)) [0..<length table],
         Some (map (\<lambda>i. rows_of i (last (queries ! i))) [0..<length table]))"
proof -
  let ?n = "length table" and ?prefix = "map (the \<circ> snd \<circ> snd) rows" and ?q = "map (map int) queries"
  let ?out = "map (\<lambda>i. map (rows_of i) (queries ! i)) [0..<?n]"
  have ps: "0 < psize" using assms(1) by (simp add: compact_buffers_def)
  note kept = compact_kvp_pages_kept [OF assms(1,2)]
  have q: "queries ! i \<noteq> []" "q \<in> set (queries ! i) \<Longrightarrow> q \<le> length (table ! i) * psize" "q \<in> set (queries ! i) \<Longrightarrow> q < 2 ^ 31"
    if "i < ?n" for i q using assms(5) that by blast+
  have lane: "visible_triton (int psize) (?prefix ! i) (int q) = rows_of i q" "visible_cpu (int psize) (?prefix ! i) (int q) = rows_of i q"
    "int q div int psize < int (length (?prefix ! i))"
    if i: "i < ?n" and m: "q \<in> set (queries ! i)" for i q
  proof -
    have p: "?prefix ! i = map (\<lambda>j. int (count_list (take j (map (page_owned (granularity div int psize) vcount degree rank) (table ! i))) True))
        [0..<Suc (length (table ! i))]" using kept(1) kept(2) [OF i] i by (simp del: upt_Suc)
    show "visible_triton (int psize) (?prefix ! i) (int q) = rows_of i q" "visible_cpu (int psize) (?prefix ! i) (int q) = rows_of i q"
      using prefix_visible [OF ps q(2) [OF i m] q(3) [OF i m] p] unfolding rows_of_def by blast+
    have "q div psize \<le> length (table ! i)" using div_le_mono [OF q(2) [OF i m], of psize] ps by simp
    then show "int q div int psize < int (length (?prefix ! i))" unfolding p by (simp flip: zdiv_int)
  qed
  have tri: "map2 (\<lambda>prefix lens. map (visible_triton (int psize) prefix) lens) ?prefix ?q = ?out"
    and cpu: "map2 (\<lambda>prefix lens. map (visible_cpu (int psize) prefix) lens) ?prefix ?q = ?out"
    using lane kept(1) assms(3) by (intro nth_equalityI; force)+
  have in_range: "\<not> list_ex (\<lambda>(prefix, lens). list_ex (\<lambda>len. \<not> (0 \<le> len div int psize \<and> len div int psize < int (length prefix))) lens) (zip ?prefix ?q)"
  proof
    assume "list_ex (\<lambda>(prefix, lens). list_ex (\<lambda>len. \<not> (0 \<le> len div int psize \<and> len div int psize < int (length prefix))) lens) (zip ?prefix ?q)"
    then obtain i q where "i < ?n" "q \<in> set (queries ! i)"
      "\<not> (0 \<le> int q div int psize \<and> int q div int psize < int (length (?prefix ! i)))"
      using kept(1) assms(3) by (fastforce simp: list_ex_iff in_set_zip)
    then show False using lane(3) [of i q] by (simp flip: zdiv_int)
  qed
  have full: "\<not> list_ex (\<lambda>row. row = []) ?out" using q(1) by (auto simp: list_ex_iff)
  have last: "map last ?out = map (\<lambda>i. rows_of i (last (queries ! i))) [0..<?n]" using q(1) by (simp add: last_map)
  have "map2 (\<lambda>row v. if row = [] then v else last row) ?out buffer = map last ?out"
    using assms(4) q(1) by (intro nth_equalityI) simp_all
  then show ?thesis unfolding kvp_local_visible_lengths_def tri cpu Let_def using in_range full last by simp
qed

theorem kvp_local_visible_lengths_counts_witness:
  "kvp_local_visible_lengths True [[0, 0, 1, 2, 2]] [[5, 7]] 2 (Some [9]) = Inr ([[3, 4]], Some [4])"
proof -
  have rows: "compact_kvp_pages Cpu True (int 2) 4 6 2 1 [[0, 4, 5, 6]] [7] [[9, 9, 9, 9]] [0] =
    Inr [([2, 3, 0, 0], 4, Some [0, 0, 1, 2, 2])]" by code_simp
  have buffers: "compact_buffers (int 2) 4 6 2 1 [[0, 4, 5, 6]] [7] [[9, 9, 9, 9]] [0]" by code_simp
  let ?rows = "\<lambda>i q. int (owned_rows (\<lambda>c. page_owned (4 div int 2) 6 2 1 ([[0, 4, 5, 6]] ! i ! c)) 2 q)"
  have "kvp_local_visible_lengths True (map (the \<circ> snd \<circ> snd) [([2, 3, 0, 0 :: int], 4 :: int, Some [0, 0, 1, 2, 2])])
      (map (map int) [[5, 7]]) (int 2) (Some [9]) =
    Inr (map (\<lambda>i. map (?rows i) ([[5, 7]] ! i)) [0..<length [[0, 4, 5, 6 :: int]]],
         Some (map (\<lambda>i. ?rows i (last ([[5, 7]] ! i))) [0..<length [[0, 4, 5, 6 :: int]]]))"
    by (rule kvp_local_visible_lengths_counts [OF buffers rows]) simp_all
  moreover have "?rows 0 5 = 3" "?rows 0 7 = 4" by code_simp+
  ultimately show ?thesis by simp
qed

section \<open>Rows per owner\<close>

definition placement_ok :: "nat \<Rightarrow> cache_placement option \<Rightarrow> bool" where
  "placement_ok psize placement \<longleftrightarrow>
     (case placement of None \<Rightarrow> True
      | Some p \<Rightarrow> check_cache_placement p = Inr p \<and> int psize \<le> cp_block_granularity p)"

lemma placement_degree_pos: "placement_ok psize placement \<Longrightarrow> 0 < placement_degree placement"
  by (auto simp: placement_ok_def placement_degree_def check_cache_placement_def cp_degree_def result_simps
      split: option.splits)

lemma page_owner_range:
  "placement_ok psize placement \<Longrightarrow>
   0 \<le> page_owner ps placement page \<and> page_owner ps placement page \<le> placement_degree placement"
proof (cases placement)
  case (Some p)
  assume "placement_ok psize placement"
  then have d: "0 < cp_degree p" using placement_degree_pos [of psize placement] Some by (simp add: placement_degree_def)
  show ?thesis unfolding Some page_owner_def placement_degree_def option.case Let_def
    using d pos_mod_bound [OF d, THEN less_imp_le] pos_mod_sign [OF d] by simp
qed (simp add: page_owner_def placement_degree_def)

lemma scatter_counts_owned_rows:
  assumes "0 \<le> len" and "len \<le> int (length row) * int psize"
  shows "scatter_counts (int psize) placement row len k =
    int (owned_rows (\<lambda>c. page_owner (int psize) placement (row ! c) = k) psize (nat len))"
proof -
  have "map2 (\<lambda>page col. if page_owner (int psize) placement page = k
      then clamp 0 (int psize) (len - int col * int psize) else 0) row [0..<length row] =
    map (\<lambda>c. if page_owner (int psize) placement (row ! c) = k
      then clamp 0 (int psize) (len - int c * int psize) else 0) [0..<length row]"
    by (intro nth_equalityI) simp_all
  moreover have "min (nat len) (length row * psize) = nat len"
    using assms by (simp add: nat_le_iff min_def)
  ultimately show ?thesis using clamped_rows [OF assms(1)] by (simp add: scatter_counts_def)
qed

lemma sum_list_nonneg_zero:
  "(\<And>x. x \<in> set xs \<Longrightarrow> 0 \<le> f x) \<Longrightarrow> sum_list (map f xs) = (0::int) \<longleftrightarrow> (\<forall>x \<in> set xs. f x = 0)"
proof (induction xs)
  case (Cons x xs)
  then have "0 \<le> sum_list (map f xs)" by (intro sum_list_nonneg) auto
  with Cons show ?case by (auto simp: add_nonneg_eq_0_iff)
qed simp

lemma owners_add_up:
  assumes "placement_ok psize placement"
    and "owned_rows (\<lambda>c. page_owner ps placement (row ! c) = placement_degree placement) psize n = 0"
  shows "(\<Sum>k < nat (placement_degree placement).
      int (owned_rows (\<lambda>c. page_owner ps placement (row ! c) = int k) psize n)) = int n"
proof -
  let ?o = "\<lambda>c. page_owner ps placement (row ! c)" and ?d = "placement_degree placement"
  have d: "0 < ?d" using assms(1) by (rule placement_degree_pos)
  have "(\<Sum>k\<in>{0..?d}. owned_rows (\<lambda>c. ?o c = k) psize n) = n"
    using page_owner_range [OF assms(1)] by (intro sum_owned_rows) auto
  moreover have "{0..?d} = insert ?d {0..<?d}" using d by auto
  ultimately have "(\<Sum>k\<in>{0..<?d}. owned_rows (\<lambda>c. ?o c = k) psize n) = n" using assms(2) by simp
  moreover have "{0..<?d} = int ` {..<nat ?d}"
    using image_int_atLeastLessThan [of 0 "nat ?d"] d by (simp add: atLeast0LessThan)
  ultimately have "(\<Sum>k<nat ?d. owned_rows (\<lambda>c. ?o c = int k) psize n) = n"
    by (simp add: sum.reindex)
  then show ?thesis by (simp only: of_nat_sum [symmetric])
qed

text \<open>C31: history rows by owner. For lengths the page table covers, \<^verbatim>\<open>owned_history_rows\<close> is rejected
  exactly when some position below a request's length lies on a null or out-of-range page; otherwise
  entry \<open>(k, i)\<close> is the number of positions of request \<open>i\<close> that rank \<open>k\<close> owns, and the ranks'
  entries add up to the request's length, so no row is dropped or counted twice.\<close>

theorem owned_history_rows_spec:
  assumes "0 < psize" and "placement_ok psize placement" and "length table = length seq_lens"
    and "\<And>row. row \<in> set table \<Longrightarrow> length row = columns"
    and "\<And>n. n \<in> set seq_lens \<Longrightarrow> 0 \<le> n \<and> n \<le> int columns * int psize"
  defines "owner \<equiv> \<lambda>i c. page_owner (int psize) placement (table ! i ! c)"
    and "degree \<equiv> placement_degree placement"
    and "res \<equiv> owned_history_rows table (int columns) seq_lens (int psize) placement"
  shows "if \<exists>i < length table. \<exists>t < nat (seq_lens ! i). owner i (t div psize) = degree
     then res = Inl (ValueError ''history page table has holes below the request lengths'')
     else \<exists>rows. res = Inr rows \<and> length rows = nat degree \<and>
       (\<forall>k < nat degree. \<forall>i < length table.
          rows ! k ! i = int (owned_rows (\<lambda>c. owner i c = int k) psize (nat (seq_lens ! i)))) \<and>
       (\<forall>i < length table. (\<Sum>k < nat degree. rows ! k ! i) = seq_lens ! i)"
proof -
  let ?n = "length table"
  define cnt where "cnt = (\<lambda>i k. int (owned_rows (\<lambda>c. owner i c = k) psize (nat (seq_lens ! i))))"
  have len: "0 \<le> seq_lens ! i" "seq_lens ! i \<le> int (length (table ! i)) * int psize" if "i < ?n" for i
    using that assms(3) assms(4) [of "table ! i"] assms(5) [of "seq_lens ! i"] by auto
  have counts: "map2 (scatter_counts (int psize) placement) table seq_lens = map cnt [0..<?n]"
    by (intro nth_equalityI ext)
      (simp_all add: assms(3) [symmetric] cnt_def owner_def scatter_counts_owned_rows len)
  have longest: "\<not> int columns * int psize < (if seq_lens = [] then 0 else Max (set seq_lens))"
    using assms(5) by (auto simp: not_less)
  have gran: "\<not> (case placement of None \<Rightarrow> False
      | Some p \<Rightarrow> cp_block_granularity p div int psize = 0 \<and> table \<noteq> [] \<and> int columns > 0)"
    using assms(1,2) by (auto simp: placement_ok_def zdiv_eq_0_iff split: option.splits)
  have sink: "sum_list (map (\<lambda>c. c degree) (map cnt [0..<?n])) = 0 \<longleftrightarrow>
      \<not> (\<exists>i < ?n. \<exists>t < nat (seq_lens ! i). owner i (t div psize) = degree)"
    unfolding map_map comp_def
    by (subst sum_list_nonneg_zero) (auto simp: cnt_def owned_rows_eq_0)
  have res: "res = (if \<exists>i < ?n. \<exists>t < nat (seq_lens ! i). owner i (t div psize) = degree
     then Inl (ValueError ''history page table has holes below the request lengths'')
     else Inr (map (\<lambda>k. map (\<lambda>c. c (int k)) (map cnt [0..<?n])) [0..<nat degree]))"
    unfolding res_def owned_history_rows_def Let_def counts using assms(3) longest gran sink
    by (simp add: degree_def raise_if_def)
  have total: "(\<Sum>k < nat degree. cnt i (int k)) = seq_lens ! i"
    if "i < ?n" "\<not> (\<exists>t < nat (seq_lens ! i). owner i (t div psize) = degree)" for i
    using owners_add_up [OF assms(2), of "int psize" "table ! i" "nat (seq_lens ! i)"] that len [OF that(1)]
    by (simp add: cnt_def owner_def degree_def owned_rows_eq_0)
  show ?thesis using total unfolding res by (auto simp: cnt_def)
qed

theorem owned_history_rows_spec_witness:
  "\<exists>rows. owned_history_rows [[2, 3, 4, 5]] 4 [7] 2 (Some demo_placement) = Inr rows \<and>
     (\<Sum>k < 3. rows ! k ! 0) = 7"
proof -
  have ok: "placement_ok 2 (Some demo_placement)" by code_simp
  have deg: "placement_degree (Some demo_placement) = 3" by code_simp
  have full: "\<not> (\<exists>i < length [[2, 3, 4, 5 :: int]]. \<exists>t < nat ([7] ! i).
      page_owner (int 2) (Some demo_placement) ([[2, 3, 4, 5]] ! i ! (t div 2)) = placement_degree (Some demo_placement))"
    by code_simp
  show ?thesis
    using owned_history_rows_spec [of 2 "Some demo_placement" "[[2, 3, 4, 5]]" "[7]" 4, unfolded if_not_P [OF full]] ok
    by (auto simp: deg)
qed

lemma below_rows_eq: "below_rows (int psize) owner n k = int (psize * length (filter (\<lambda>c. owner c = k) [0..<n]))"
  by (induction n) (simp_all add: below_rows_def algebra_simps)

lemma rows_below_bound_eq:
  assumes "0 < psize" and "b \<le> columns * psize" and "0 < columns"
  shows "rows_below_bound (int psize) owner (int columns) (int b) k = int (owned_rows (\<lambda>c. owner c = k) psize b)"
proof -
  let ?c = "b div psize"
  have c: "?c \<le> columns" using div_le_mono [OF assms(2), of psize] assms(1) by simp
  have conv: "int b div int psize = int ?c" "int b mod int psize = int (b mod psize)" by (simp_all add: zdiv_int zmod_int)
  have whole: "b mod psize = 0" if "?c = columns"
    using that assms(2) by (metis add_cancel_right_right div_mult_mod_eq le_antisym le_add1)
  have "nat (min (int ?c) (int columns - 1)) = ?c" if "?c \<noteq> columns" using that c by simp
  then show ?thesis unfolding rows_below_bound_def Let_def conv below_rows_eq owned_rows_divmod [OF assms(1)]
    using whole by (cases "?c = columns") auto
qed

lemma chunks_telescope:
  fixes f :: "nat \<Rightarrow> nat \<Rightarrow> int"
  shows "(\<Sum>j<m. \<Sum>i<n. f i (Suc j) - f i j) = (\<Sum>i<n. f i m - f i 0)"
  by (subst sum.swap) (simp add: sum_lessThan_telescope)

text \<open>The number of cache columns \<^verbatim>\<open>owned_prefix_chunk_rows\<close> reads covers every prefix.\<close>

lemma prefix_columns:
  assumes "0 < psize" and "\<forall>n \<in> set lens. 0 \<le> n"
  defines "longest \<equiv> if lens = [] then 0 else Max (set lens)"
  shows "0 \<le> - ((- longest) div int psize)"
    and "n \<in> set lens \<Longrightarrow> n \<le> - ((- longest) div int psize) * int psize"
    and "longest \<le> int c * int psize \<Longrightarrow> - ((- longest) div int psize) \<le> int c"
proof -
  have p: "0 < int psize" using assms(1) by simp
  have n0: "0 \<le> longest" using assms(2) Max_in [of "set lens"] by (auto simp: longest_def)
  show "0 \<le> - ((- longest) div int psize)" using div_nonpos_pos_le0 [of "- longest" "int psize"] n0 p by simp
  have ceil: "longest \<le> - ((- longest) div int psize) * int psize"
    using int_div_bounds(1) [OF p, of "- longest"] by simp
  show "n \<in> set lens \<Longrightarrow> n \<le> - ((- longest) div int psize) * int psize"
    using ceil Max_ge [of "set lens" n] by (auto simp: longest_def split: if_splits)
  show "longest \<le> int c * int psize \<Longrightarrow> - ((- longest) div int psize) \<le> int c"
    using int_le_div_iff [OF p, of "- int c" "- longest"] by simp
qed

definition chunk_bound :: "int \<Rightarrow> int list \<Rightarrow> nat \<Rightarrow> nat \<Rightarrow> nat" where
  "chunk_bound chunk_len prefix_lens i j = nat (min (int j * chunk_len) (prefix_lens ! i))"

definition chunk_counts ::
  "nat \<Rightarrow> cache_placement \<Rightarrow> int list list \<Rightarrow> int \<Rightarrow> int list \<Rightarrow> nat \<Rightarrow> int \<Rightarrow> int" where
  "chunk_counts psize p table chunk_len prefix_lens j k =
     (\<Sum>i < length table.
        int (owned_rows (\<lambda>c. page_owner (int psize) (Some p) (table ! i ! c) = k) psize (chunk_bound chunk_len prefix_lens i (Suc j))) -
        int (owned_rows (\<lambda>c. page_owner (int psize) (Some p) (table ! i ! c) = k) psize (chunk_bound chunk_len prefix_lens i j)))"

lemma chunk_counts_total:
  assumes "\<And>i. i < length table \<Longrightarrow> prefix_lens ! i \<le> int num_chunks * chunk_len"
    and "\<And>i. i < length table \<Longrightarrow> 0 \<le> prefix_lens ! i"
  shows "(\<Sum>j < num_chunks. chunk_counts psize p table chunk_len prefix_lens j k) =
    (\<Sum>i < length table. int (owned_rows (\<lambda>c. page_owner (int psize) (Some p) (table ! i ! c) = k) psize (nat (prefix_lens ! i))))"
proof -
  have "chunk_bound chunk_len prefix_lens i num_chunks = nat (prefix_lens ! i)" if "i < length table" for i
    using assms(1) [OF that] by (simp add: chunk_bound_def)
  moreover have "chunk_bound chunk_len prefix_lens i 0 = 0" for i by (simp add: chunk_bound_def)
  ultimately show ?thesis unfolding chunk_counts_def
    chunks_telescope [where f = "\<lambda>i j. int (owned_rows (\<lambda>c. page_owner (int psize) (Some p) (table ! i ! c) = k) psize
      (chunk_bound chunk_len prefix_lens i j))"] by simp
qed

lemma owned_prefix_chunk_rows_eq:
  assumes "0 < psize" and "length table = length prefix_lens" and "0 \<le> chunk_len"
    and lens: "\<And>n. n \<in> set prefix_lens \<Longrightarrow> 0 \<le> n \<and> n \<le> int columns * int psize"
  shows "owned_prefix_chunk_rows table (int columns) prefix_lens chunk_len num_chunks (int psize) p =
    (if (\<Sum>j < num_chunks. chunk_counts psize p table chunk_len prefix_lens j (cp_degree p)) \<noteq> 0
     then Inl (ValueError ''prefix page table has holes below the prefix lengths'')
     else Inr (map (\<lambda>j. map (\<lambda>k. chunk_counts psize p table chunk_len prefix_lens j (int k)) [0..<nat (cp_degree p)]) [0..<num_chunks]))"
proof -
  define longest where "longest = (if prefix_lens = [] then 0 else Max (set prefix_lens))"
  let ?cols = "- ((- longest) div int psize)"
  have nn: "\<forall>n \<in> set prefix_lens. 0 \<le> n" using lens by blast
  note cols = prefix_columns [OF assms(1) nn, folded longest_def]
  have "longest \<le> int columns * int psize" using lens by (auto simp: longest_def)
  then have fit: "\<not> int columns < ?cols" using cols(3) [of columns] by linarith
  obtain m where m: "?cols = int m" using cols(1) nonneg_int_cases by blast
  have bound: "0 \<le> min (int j * chunk_len) (prefix_lens ! i)" "chunk_bound chunk_len prefix_lens i j \<le> m * psize"
    if "i < length table" for i j
  proof -
    have i: "prefix_lens ! i \<in> set prefix_lens" using that assms(2) by simp
    then show "0 \<le> min (int j * chunk_len) (prefix_lens ! i)" using nn assms(3) by simp
    have "prefix_lens ! i \<le> int m * int psize" using cols(2) [OF i] m by simp
    then show "chunk_bound chunk_len prefix_lens i j \<le> m * psize" by (simp add: chunk_bound_def nat_le_iff)
  qed
  show ?thesis
  proof (cases "m = 0")
    case True
    then have "chunk_bound chunk_len prefix_lens i j = 0" if "i < length table" for i j using bound(2) [OF that, of j] by simp
    then have zero: "chunk_counts psize p table chunk_len prefix_lens j k = 0" for j k by (simp add: chunk_counts_def)
    show ?thesis using fit m True assms(2)
      by (simp add: owned_prefix_chunk_rows_def longest_def [symmetric] zero map_replicate_const)
  next
    case False
    define rb where "rb = (\<lambda>(row, prefix_len) j. rows_below_bound (int psize)
      (\<lambda>c. page_owner (int psize) (Some p) (row ! c)) (int m) (min (int j * chunk_len) prefix_len))"
    have rb: "rb (table ! i, prefix_lens ! i) j k =
        int (owned_rows (\<lambda>c. page_owner (int psize) (Some p) (table ! i ! c) = k) psize (chunk_bound chunk_len prefix_lens i j))"
      if "i < length table" for i j k
      using rows_below_bound_eq [OF assms(1) bound(2) [OF that, of j], of "\<lambda>c. page_owner (int psize) (Some p) (table ! i ! c)" k]
        False bound(1) [OF that, of j] by (simp add: rb_def chunk_bound_def)
    have counts: "sum_list (map (\<lambda>r. rb r (Suc j) k - rb r j k) (zip table prefix_lens)) =
        chunk_counts psize p table chunk_len prefix_lens j k" for j k
      using assms(2) by (simp add: sum_list_sum_nth atLeast0LessThan chunk_counts_def rb)
    show ?thesis using fit m False assms(2)
      by (simp add: owned_prefix_chunk_rows_def longest_def [symmetric] Let_def rb_def [symmetric] counts raise_if_def
          interv_sum_list_conv_sum_set_nat atLeast0LessThan)
  qed
qed

text \<open>C32: prefix rows by chunk and owner. When the chunks cover every prefix, \<^verbatim>\<open>owned_prefix_chunk_rows\<close>
  is rejected exactly when a prefix position lies on a null or out-of-range page; otherwise entry
  \<open>(j, k)\<close> counts, over all requests, the positions of chunk \<open>j\<close> that rank \<open>k\<close> owns, and the chunks of
  a rank add up to all of its prefix rows.\<close>

theorem owned_prefix_chunk_rows_spec:
  fixes p :: cache_placement
  assumes "0 < psize" and "length table = length prefix_lens" and "0 \<le> chunk_len"
    and "\<And>n. n \<in> set prefix_lens \<Longrightarrow> 0 \<le> n \<and> n \<le> int columns * int psize \<and> n \<le> int num_chunks * chunk_len"
  defines "owner \<equiv> \<lambda>i c. page_owner (int psize) (Some p) (table ! i ! c)"
    and "res \<equiv> owned_prefix_chunk_rows table (int columns) prefix_lens chunk_len num_chunks (int psize) p"
  shows "if \<exists>i < length table. \<exists>t < nat (prefix_lens ! i). owner i (t div psize) = cp_degree p
     then res = Inl (ValueError ''prefix page table has holes below the prefix lengths'')
     else \<exists>rows. res = Inr rows \<and> length rows = num_chunks \<and>
       (\<forall>j < num_chunks. \<forall>k < nat (cp_degree p).
          rows ! j ! k = chunk_counts psize p table chunk_len prefix_lens j (int k)) \<and>
       (\<forall>k < nat (cp_degree p). (\<Sum>j < num_chunks. rows ! j ! k) =
          (\<Sum>i < length table. int (owned_rows (\<lambda>c. owner i c = int k) psize (nat (prefix_lens ! i)))))"
proof -
  have total: "(\<Sum>j < num_chunks. chunk_counts psize p table chunk_len prefix_lens j k) =
    (\<Sum>i < length table. int (owned_rows (\<lambda>c. owner i c = k) psize (nat (prefix_lens ! i))))" for k
    unfolding owner_def using assms(2,4) by (intro chunk_counts_total) auto
  have fit: "0 \<le> n \<and> n \<le> int columns * int psize" if "n \<in> set prefix_lens" for n using assms(4) that by blast
  have "(\<Sum>i < length table. int (owned_rows (\<lambda>c. owner i c = cp_degree p) psize (nat (prefix_lens ! i)))) \<noteq> 0 \<longleftrightarrow>
      (\<exists>i < length table. \<exists>t < nat (prefix_lens ! i). owner i (t div psize) = cp_degree p)"
    by (subst sum_nonneg_eq_0_iff) (auto simp: owned_rows_eq_0)
  then have "res = (if \<exists>i < length table. \<exists>t < nat (prefix_lens ! i). owner i (t div psize) = cp_degree p
     then Inl (ValueError ''prefix page table has holes below the prefix lengths'')
     else Inr (map (\<lambda>j. map (\<lambda>k. chunk_counts psize p table chunk_len prefix_lens j (int k)) [0..<nat (cp_degree p)]) [0..<num_chunks]))"
    using owned_prefix_chunk_rows_eq [OF assms(1-3) fit, of num_chunks p] unfolding res_def total by simp
  then show ?thesis using total by auto
qed

theorem owned_prefix_chunk_rows_spec_witness:
  "\<exists>rows. owned_prefix_chunk_rows [[2, 3, 4, 5]] 4 [7] 3 3 2 demo_placement = Inr rows \<and>
     (\<Sum>j < 3. rows ! j ! 1) = int (owned_rows (\<lambda>c. page_owner 2 (Some demo_placement) ([2, 3, 4, 5] ! c) = 1) 2 7)"
proof -
  have deg: "cp_degree demo_placement = 3" by code_simp
  have full: "\<not> (\<exists>i < length [[2, 3, 4, 5 :: int]]. \<exists>t < nat ([7] ! i).
      page_owner (int 2) (Some demo_placement) ([[2, 3, 4, 5]] ! i ! (t div 2)) = cp_degree demo_placement)"
    by code_simp
  show ?thesis
    using owned_prefix_chunk_rows_spec [of 2 "[[2, 3, 4, 5]]" "[7]" 3 4 3 demo_placement, unfolded if_not_P [OF full]]
    by (auto simp: deg)
qed

end
