(* ===== verification/Transfer_Layout.thy ===== *)
theory Transfer_Layout
  imports Plan_Geometry
begin

text \<open>
  The byte geometry a Host copy works from: the transfer layout derived from a memory plan
  (\<^verbatim>\<open>cache/transfer/layout.py\<close>) and the compact pinned Host storage it is packed into
  (\<^verbatim>\<open>cache/host_storage.py\<close>). A Device buffer is its identity; Python's \<^verbatim>\<open>is\<close> is equality of
  identities. Frozen sets of field ids are sets.

  Lemmas: a layout derived from a well-formed plan addresses exactly the pages of the plan,
  merging a target and a draft view keeps every field of both at its place, and the Host
  blocks of leased parents are disjoint byte regions.
\<close>

section \<open>Records and their checks\<close>

definition positive_value :: "int \<Rightarrow> int result" where
  "positive_value v = raise_if (v \<le> 0) (ValueError ''must be a positive integer'') (Inr v)"

record transfer_field =
  cf_field_id :: string
  cf_device_buffer_index :: int
  cf_device_block_zero_offset_bytes :: int
  cf_block_stride_bytes :: int
  cf_payload_bytes :: int

definition check_transfer_field :: "transfer_field \<Rightarrow> transfer_field result" where
  "check_transfer_field f =
     raise_if (cf_field_id f = []) (ValueError ''field_id must be non-empty'')
    (raise_if (cf_device_buffer_index f < 0) (ValueError ''device_buffer_index must be non-negative'')
    (raise_if (cf_device_block_zero_offset_bytes f < 0)
       (ValueError ''device_block_zero_offset_bytes must be non-negative'')
    (bindE (positive_value (cf_block_stride_bytes f)) (\<lambda>_.
     bindE (positive_value (cf_payload_bytes f)) (\<lambda>_.
     raise_if (cf_payload_bytes f > cf_block_stride_bytes f)
       (ValueError ''payload_bytes cannot exceed block_stride_bytes'') (Inr f))))))"

record transfer_group =
  tg_group_id :: string
  tg_cache_blocks_per_lcm_block :: int
  tg_fields :: "transfer_field list"

definition check_transfer_group :: "transfer_group \<Rightarrow> transfer_group result" where
  "check_transfer_group g =
     raise_if (tg_group_id g = []) (ValueError ''group_id must be non-empty'')
    (bindE (positive_value (tg_cache_blocks_per_lcm_block g)) (\<lambda>_.
     raise_if (tg_fields g = []) (ValueError ''cache group must contain at least one field'')
    (raise_if (\<not> distinct (map cf_field_id (tg_fields g))) (ValueError ''contains a duplicate field'')
       (Inr g))))"

record transfer_layout =
  tl_num_lcm_blocks :: int
  tl_groups :: "transfer_group list"
  tl_buffers :: "int list"
  tl_consumers :: "string list list"

definition layout_fields :: "transfer_layout \<Rightarrow> transfer_field list" where
  "layout_fields L = concat (map tg_fields (tl_groups L))"

definition check_consumer :: "string set \<Rightarrow> string list \<Rightarrow> string list result" where
  "check_consumer known consumer =
     raise_if (\<not> distinct consumer) (ValueError ''consumer contains a duplicate field'')
    (raise_if (\<not> set consumer \<subseteq> known) (ValueError ''consumer references unknown field'')
       (Inr consumer))"

definition check_transfer_layout :: "transfer_layout \<Rightarrow> transfer_layout result" where
  "check_transfer_layout L =
     bindE (positive_value (tl_num_lcm_blocks L)) (\<lambda>_.
     raise_if (tl_groups L = []) (ValueError ''layout must contain at least one cache group'')
    (raise_if (tl_buffers L = []) (ValueError ''layout must contain at least one device buffer'')
    (raise_if (\<not> distinct (map tg_group_id (tl_groups L))) (ValueError ''layout contains a duplicate group'')
    (let fs = layout_fields L; field_ids = map cf_field_id fs in
     raise_if (\<not> distinct field_ids) (ValueError ''layout contains a duplicate field'')
    (raise_if (list_ex (\<lambda>f. cf_device_buffer_index f \<ge> int (length (tl_buffers L))) fs)
       (ValueError ''field device_buffer_index is outside the buffer tuple'')
    (bindE (mapE (check_consumer (set field_ids)) (tl_consumers L)) (\<lambda>consumers.
     let consumed_fields = concat consumers in
     raise_if (\<not> distinct consumed_fields) (ValueError ''a cache field cannot belong to multiple consumers'')
    (raise_if (\<not> set field_ids \<subseteq> set consumed_fields) (ValueError ''cache fields have no consumer'')
       (Inr L)))))))))"

section \<open>Selecting a compute view\<close>

definition select_step ::
  "int \<Rightarrow> int \<Rightarrow> string set \<times> string list list \<Rightarrow> cache_field_layout \<Rightarrow> (string set \<times> string list list) result" where
  "select_step first_layer last_layer st field =
     (case st of (selected, consumers) \<Rightarrow>
        bindE (cache_field_layer_id (fl_field_id field)) (\<lambda>layer_id.
        if first_layer \<le> layer_id \<and> layer_id < last_layer
        then let i = nat (layer_id - first_layer)
             in Inr (insert (fl_field_id field) selected,
                     consumers[i := consumers ! i @ [fl_field_id field]])
        else Inr st))"

definition select_layer_fields ::
  "cache_field_layout list \<Rightarrow> int \<Rightarrow> int \<Rightarrow> (string set \<times> string list list) result" where
  "select_layer_fields plan_fields first_layer num_layers =
     raise_if (first_layer < 0 \<or> num_layers < 0) (ValueError ''cache layer view bounds must be non-negative'')
       (foldE (select_step first_layer (first_layer + num_layers))
          ({}, replicate (nat num_layers) []) plan_fields)"

section \<open>The layout of a plan\<close>

definition selected_fields :: "cache_memory_plan \<Rightarrow> string set \<Rightarrow> string \<Rightarrow> cache_field_layout list" where
  "selected_fields plan field_ids group_id =
     filter (\<lambda>field. fl_group_id field = group_id \<and> fl_field_id field \<in> field_ids) (mp_fields plan)"

definition ordered_groups ::
  "cache_memory_plan \<Rightarrow> string set \<Rightarrow> string list option \<Rightarrow> cache_group_layout list result" where
  "ordered_groups plan selected_group_ids group_ids =
     (case group_ids of
        None \<Rightarrow> Inr (filter (\<lambda>grp. gl_group_id grp \<in> selected_group_ids) (mp_groups plan))
      | Some ids \<Rightarrow>
          raise_if (\<not> distinct ids) (ValueError ''scheduler cache groups contain a duplicate group'')
         (raise_if (set ids \<noteq> selected_group_ids) (ValueError ''scheduler and transfer cache groups do not match'')
            (mapE (dict_at (dict_by gl_group_id (mp_groups plan))) ids)))"

definition transfer_field_of :: "cache_memory_plan \<Rightarrow> cache_field_layout \<Rightarrow> transfer_field result" where
  "transfer_field_of plan field =
     bindE (plan_plane plan (fl_plane_id field)) (\<lambda>plane.
     check_transfer_field
       \<lparr>cf_field_id = fl_field_id field, cf_device_buffer_index = 0,
        cf_device_block_zero_offset_bytes =
          pl_arena_offset_bytes plane + pl_bytes_per_lcm_block plane - fl_page_stride_bytes field
          + fl_field_offset_bytes field,
        cf_block_stride_bytes = fl_page_stride_bytes field,
        cf_payload_bytes = fl_payload_bytes field\<rparr>)"

definition transfer_group_of ::
  "cache_memory_plan \<Rightarrow> string set \<Rightarrow> cache_group_layout \<Rightarrow> transfer_group result" where
  "transfer_group_of plan field_ids grp =
     bindE (mapE (transfer_field_of plan) (selected_fields plan field_ids (gl_group_id grp))) (\<lambda>fs.
     check_transfer_group
       \<lparr>tg_group_id = gl_group_id grp,
        tg_cache_blocks_per_lcm_block = gl_cache_blocks_per_lcm_block grp, tg_fields = fs\<rparr>)"

definition layout_from_lcm_plan ::
  "cache_memory_plan \<Rightarrow> int \<Rightarrow> string list list \<Rightarrow> string list option \<Rightarrow> string set option \<Rightarrow> transfer_layout result" where
  "layout_from_lcm_plan plan buffer consumers group_ids field_ids =
     (let known_field_ids = set (map fl_field_id (mp_fields plan)) in
      raise_if (case field_ids of None \<Rightarrow> False | Some ids \<Rightarrow> \<not> ids \<subseteq> known_field_ids)
        (ValueError ''selected cache fields are absent from the plan'')
     (let ids = (case field_ids of None \<Rightarrow> known_field_ids | Some ids \<Rightarrow> ids);
          selected_group_ids =
            set (filter (\<lambda>group_id. selected_fields plan ids group_id \<noteq> []) (map gl_group_id (mp_groups plan))) in
      bindE (ordered_groups plan selected_group_ids group_ids) (\<lambda>grps.
      bindE (mapE (transfer_group_of plan ids) grps) (\<lambda>groups.
      check_transfer_layout
        \<lparr>tl_num_lcm_blocks = mp_num_lcm_blocks plan, tl_groups = groups, tl_buffers = [buffer],
         tl_consumers = consumers\<rparr>))))"

section \<open>Merging a target and a draft view\<close>

definition field_locations :: "transfer_layout \<Rightarrow> (string \<times> string \<times> transfer_field) list" where
  "field_locations L =
     concat (map (\<lambda>g. map (\<lambda>f. (cf_field_id f, tg_group_id g, f)) (tg_fields g)) (tl_groups L))"

definition merged_group_ids ::
  "string list \<Rightarrow> string list \<Rightarrow> string list option \<Rightarrow> string list result" where
  "merged_group_ids target_ids draft_ids group_ids =
     (case group_ids of
        None \<Rightarrow> Inr (target_ids @ filter (\<lambda>group_id. group_id \<notin> set target_ids) draft_ids)
      | Some ids \<Rightarrow>
          raise_if (\<not> distinct ids) (ValueError ''scheduler cache groups contain a duplicate group'')
         (raise_if (set ids \<noteq> set target_ids \<union> set draft_ids)
            (ValueError ''scheduler and transfer cache groups do not match'') (Inr ids)))"

definition merge_group ::
  "(string \<times> transfer_group) list \<Rightarrow> (string \<times> transfer_group) list \<Rightarrow> string set \<Rightarrow> string \<Rightarrow> transfer_group result" where
  "merge_group target_groups draft_groups aliased_fields group_id =
     (let target_fields = (case map_of target_groups group_id of None \<Rightarrow> [] | Some g \<Rightarrow> tg_fields g);
          draft_fields = (case map_of draft_groups group_id of None \<Rightarrow> []
             | Some g \<Rightarrow> filter (\<lambda>f. cf_field_id f \<notin> aliased_fields) (tg_fields g))
      in case (case map_of target_groups group_id of Some g \<Rightarrow> Some g | None \<Rightarrow> map_of draft_groups group_id) of
           None \<Rightarrow> Inl (RuntimeError ''AttributeError'')
         | Some geometry \<Rightarrow>
             check_transfer_group
               \<lparr>tg_group_id = group_id,
                tg_cache_blocks_per_lcm_block = tg_cache_blocks_per_lcm_block geometry,
                tg_fields = target_fields @ draft_fields\<rparr>)"

definition check_aliases :: "transfer_layout \<Rightarrow> transfer_layout \<Rightarrow> string set \<Rightarrow> unit result" where
  "check_aliases target draft aliased_fields =
     (let target_fields = set (map cf_field_id (layout_fields target));
          draft_fields = set (map cf_field_id (layout_fields draft)) in
      if aliased_fields = {} then Inr ()
      else raise_if (\<not> draft_fields \<subset> target_fields)
             (ValueError ''shared target/draft arena views have ambiguous overlapping fields'')
          (raise_if (list_ex (\<lambda>(field_id, location).
               map_of (dict_update [] (field_locations target)) field_id \<noteq> Some location) (field_locations draft))
             (ValueError ''shared target/draft arena fields use conflicting layouts'') (Inr ())))"

definition combine_cache_transfer_layouts ::
  "transfer_layout \<Rightarrow> transfer_layout option \<Rightarrow> string list option \<Rightarrow> transfer_layout result" where
  "combine_cache_transfer_layouts target draft_view group_ids =
     (case draft_view of None \<Rightarrow> Inr target | Some draft \<Rightarrow>
      raise_if (tl_num_lcm_blocks draft \<noteq> tl_num_lcm_blocks target)
        (ValueError ''target and draft cache layouts use different geometry'')
     (if tl_groups target = tl_groups draft \<and> tl_consumers target = tl_consumers draft \<and>
         tl_buffers target = tl_buffers draft
      then Inr target
      else
      let target_groups = dict_by tg_group_id (tl_groups target);
          draft_groups = dict_by tg_group_id (tl_groups draft) in
      raise_if (list_ex (\<lambda>(group_id, draft_group).
          case map_of target_groups group_id of None \<Rightarrow> False
          | Some target_group \<Rightarrow> tg_cache_blocks_per_lcm_block draft_group \<noteq>
                                 tg_cache_blocks_per_lcm_block target_group) draft_groups)
        (ValueError ''target and draft cache group use different geometry'')
     (bindE (merged_group_ids (map fst target_groups) (map fst draft_groups) group_ids) (\<lambda>ordered_group_ids.
      raise_if (\<not> (length (tl_buffers target) = 1 \<and> tl_buffers target = tl_buffers draft))
        (ValueError ''target and draft cache views must share one arena'')
     (let aliased_fields = set (map cf_field_id (layout_fields target)) \<inter> set (map cf_field_id (layout_fields draft)) in
      bindE (check_aliases target draft aliased_fields) (\<lambda>_.
      raise_if (list_ex (\<lambda>f. cf_device_buffer_index f \<noteq> 0) (layout_fields target @ layout_fields draft))
        (ValueError ''shared arena fields must use device buffer zero'')
     (bindE (mapE (merge_group target_groups draft_groups aliased_fields) ordered_group_ids) (\<lambda>groups.
      let draft_consumers = map (filter (\<lambda>field_id. field_id \<notin> aliased_fields)) (tl_consumers draft) in
      check_transfer_layout
        \<lparr>tl_num_lcm_blocks = tl_num_lcm_blocks target, tl_groups = groups,
         tl_buffers = tl_buffers target, tl_consumers = tl_consumers target @ draft_consumers\<rparr>))))))))"

section \<open>Host storage\<close>

text \<open>\<open>xs[i]\<close> with Python's negative indices.\<close>

definition py_at :: "'a list \<Rightarrow> int \<Rightarrow> 'a result" where
  "py_at xs i = (if i < 0 then list_at xs (i + int (length xs)) else list_at xs i)"

fun field_cursors :: "int \<Rightarrow> transfer_field list \<Rightarrow> int list" where
  "field_cursors cursor [] = []"
| "field_cursors cursor (f # fs) = cursor # field_cursors (cursor + cf_payload_bytes f) fs"

definition host_group_bytes :: "transfer_group \<Rightarrow> int" where
  "host_group_bytes g = fold (\<lambda>f cursor. cursor + cf_payload_bytes f) (tg_fields g) 0"

definition compute_host_layout :: "transfer_layout \<Rightarrow> int list \<times> int list list \<times> int" where
  "compute_host_layout L =
     (map host_group_bytes (tl_groups L),
      map (\<lambda>g. field_cursors 0 (tg_fields g)) (tl_groups L),
      fold (\<lambda>g bytes. max bytes (tg_cache_blocks_per_lcm_block g * host_group_bytes g)) (tl_groups L) 0)"

definition compute_host_lcm_block_bytes :: "transfer_layout \<Rightarrow> int" where
  "compute_host_lcm_block_bytes L = snd (snd (compute_host_layout L))"

record host_storage =
  hs_group_ids :: "string list"
  hs_group_packing :: "int list"
  hs_cache_block_bytes :: "int list"
  hs_field_offsets :: "int list list"
  hs_lcm_block_bytes :: int
  hs_num_lcm_blocks :: int
  hs_buffer_bytes :: int

definition host_cache_storage :: "transfer_layout \<Rightarrow> int \<Rightarrow> host_storage result" where
  "host_cache_storage L num_host_lcm_blocks =
     raise_if (num_host_lcm_blocks \<le> 0) (ValueError ''num_host_lcm_blocks must be > 0'')
    (case compute_host_layout L of (block_bytes, offsets, lcm_bytes) \<Rightarrow>
       Inr \<lparr>hs_group_ids = map tg_group_id (tl_groups L),
            hs_group_packing = map tg_cache_blocks_per_lcm_block (tl_groups L),
            hs_cache_block_bytes = block_bytes, hs_field_offsets = offsets,
            hs_lcm_block_bytes = lcm_bytes, hs_num_lcm_blocks = num_host_lcm_blocks,
            hs_buffer_bytes = num_host_lcm_blocks * lcm_bytes\<rparr>)"

definition host_block_offset :: "host_storage \<Rightarrow> int \<Rightarrow> int \<Rightarrow> int result" where
  "host_block_offset hs group_index block_id =
     bindE (py_at (hs_group_packing hs) group_index) (\<lambda>packing.
     bindE (py_at (hs_cache_block_bytes hs) group_index) (\<lambda>block_bytes.
     raise_if (block_id \<le> 0 \<or> block_id > hs_num_lcm_blocks hs * packing) (IndexError ''block_id outside'')
       (Inr ((block_id - 1) div packing * hs_lcm_block_bytes hs + (block_id - 1) mod packing * block_bytes))))"

definition host_block_range :: "host_storage \<Rightarrow> int \<Rightarrow> int \<Rightarrow> (int \<times> int) result" where
  "host_block_range hs group_index block_id =
     bindE (host_block_offset hs group_index block_id) (\<lambda>off.
     bindE (py_at (hs_cache_block_bytes hs) group_index) (\<lambda>block_bytes. Inr (off, block_bytes)))"

definition host_field_offset :: "host_storage \<Rightarrow> int \<Rightarrow> int \<Rightarrow> int \<Rightarrow> int result" where
  "host_field_offset hs group_index block_id field_index =
     bindE (py_at (hs_field_offsets hs) group_index) (\<lambda>offsets.
     bindE (py_at offsets field_index) (\<lambda>field_offset.
     bindE (host_block_offset hs group_index block_id) (\<lambda>off. Inr (off + field_offset))))"

section \<open>Well-formed layouts\<close>

definition field_wf :: "transfer_field \<Rightarrow> bool" where
  "field_wf f \<longleftrightarrow> cf_field_id f \<noteq> [] \<and> 0 \<le> cf_device_buffer_index f \<and>
     0 \<le> cf_device_block_zero_offset_bytes f \<and> 0 < cf_payload_bytes f \<and>
     cf_payload_bytes f \<le> cf_block_stride_bytes f"

definition group_wf :: "transfer_group \<Rightarrow> bool" where
  "group_wf g \<longleftrightarrow> tg_group_id g \<noteq> [] \<and> 0 < tg_cache_blocks_per_lcm_block g \<and> tg_fields g \<noteq> [] \<and>
     distinct (map cf_field_id (tg_fields g))"

definition layout_wf :: "transfer_layout \<Rightarrow> bool" where
  "layout_wf L \<longleftrightarrow>
     0 < tl_num_lcm_blocks L \<and> tl_groups L \<noteq> [] \<and> tl_buffers L \<noteq> [] \<and>
     distinct (map tg_group_id (tl_groups L)) \<and> distinct (map cf_field_id (layout_fields L)) \<and>
     (\<forall>f \<in> set (layout_fields L). field_wf f \<and> cf_device_buffer_index f < int (length (tl_buffers L))) \<and>
     (\<forall>g \<in> set (tl_groups L). group_wf g) \<and>
     distinct (concat (tl_consumers L)) \<and>
     set (concat (tl_consumers L)) = set (map cf_field_id (layout_fields L))"

lemma positive_value_Inr [result_simps]: "positive_value v = Inr w \<longleftrightarrow> 0 < v \<and> w = v"
  by (auto simp: positive_value_def result_simps)

lemma check_transfer_field_Inr [result_simps]: "check_transfer_field f = Inr f' \<longleftrightarrow> field_wf f \<and> f' = f"
  by (auto simp: check_transfer_field_def field_wf_def result_simps)

lemma check_transfer_group_Inr [result_simps]: "check_transfer_group g = Inr g' \<longleftrightarrow> group_wf g \<and> g' = g"
  by (auto simp: check_transfer_group_def group_wf_def result_simps)

lemma check_consumers_Inr:
  "mapE (check_consumer known) consumers = Inr cs \<longleftrightarrow>
   cs = consumers \<and> (\<forall>c \<in> set consumers. distinct c \<and> set c \<subseteq> known)"
  by (induction consumers arbitrary: cs) (auto simp: check_consumer_def result_simps)

lemma distinct_concat_parts: "distinct (concat xs) \<Longrightarrow> x \<in> set xs \<Longrightarrow> distinct x"
  by (induction xs) auto

lemma check_transfer_layout_Inr:
  assumes "\<forall>f \<in> set (layout_fields L). field_wf f" and "\<forall>g \<in> set (tl_groups L). group_wf g"
  shows "check_transfer_layout L = Inr L' \<longleftrightarrow> layout_wf L \<and> L' = L"
proof -
  let ?ids = "map cf_field_id (layout_fields L)" and ?cs = "tl_consumers L"
  have consumers: "(\<forall>c \<in> set ?cs. distinct c \<and> set c \<subseteq> set ?ids) \<and> distinct (concat ?cs) \<and> set ?ids \<subseteq> set (concat ?cs) \<longleftrightarrow>
      distinct (concat ?cs) \<and> set (concat ?cs) = set ?ids"
    using distinct_concat_parts [of ?cs] by (auto simp only: set_concat)
  have "check_transfer_layout L = Inr L' \<longleftrightarrow>
      0 < tl_num_lcm_blocks L \<and> tl_groups L \<noteq> [] \<and> tl_buffers L \<noteq> [] \<and> distinct (map tg_group_id (tl_groups L)) \<and>
      distinct ?ids \<and> (\<forall>f \<in> set (layout_fields L). cf_device_buffer_index f < int (length (tl_buffers L))) \<and>
      ((\<forall>c \<in> set ?cs. distinct c \<and> set c \<subseteq> set ?ids) \<and> distinct (concat ?cs) \<and> set ?ids \<subseteq> set (concat ?cs)) \<and> L' = L"
    unfolding check_transfer_layout_def Let_def bindE_Inr_iff raise_if_Inr_iff positive_value_Inr check_consumers_Inr
      list_ex_iff by (simp add: not_le) metis
  then show ?thesis unfolding consumers layout_wf_def using assms by blast
qed

section \<open>Addresses of a derived layout\<close>

lemma list_all2_right: "list_all2 R xs ys \<Longrightarrow> y \<in> set ys \<Longrightarrow> \<exists>x \<in> set xs. R x y"
  by (induction xs ys rule: list_all2_induct) auto

lemma list_all2_left: "list_all2 R xs ys \<Longrightarrow> x \<in> set xs \<Longrightarrow> \<exists>y \<in> set ys. R x y"
  by (induction xs ys rule: list_all2_induct) auto

lemma transfer_field_of_Inr:
  assumes P: "plan_ok P" and f: "f \<in> set (mp_fields P)" and t: "transfer_field_of P f = Inr t"
  shows "field_wf t" and "cf_field_id t = fl_field_id f" and "cf_payload_bytes t = fl_payload_bytes f"
    and "cf_block_stride_bytes t = fl_page_stride_bytes f" and "cf_device_buffer_index t = 0"
    and "cf_device_block_zero_offset_bytes t = page_start P (fl_field_id f, 0)"
proof -
  from t obtain pl where pl: "pl \<in> set (mp_planes P)" "pl_plane_id pl = fl_plane_id f"
    and wf: "field_wf t" and tt: "t = \<lparr>cf_field_id = fl_field_id f, cf_device_buffer_index = 0,
        cf_device_block_zero_offset_bytes =
          pl_arena_offset_bytes pl + pl_bytes_per_lcm_block pl - fl_page_stride_bytes f + fl_field_offset_bytes f,
        cf_block_stride_bytes = fl_page_stride_bytes f, cf_payload_bytes = fl_payload_bytes f\<rparr>"
    by (auto simp: transfer_field_of_def result_simps plan_lookups [OF P])
  show "field_wf t" by (rule wf)
  show "cf_field_id t = fl_field_id f" "cf_payload_bytes t = fl_payload_bytes f"
    "cf_block_stride_bytes t = fl_page_stride_bytes f" "cf_device_buffer_index t = 0" by (simp_all add: tt)
  obtain g where g: "g \<in> set (mp_groups P)" "gl_group_id g = fl_group_id f"
    using P f by (auto simp: plan_ok_def field_placed_def)
  have "0 < gl_page_count g" using P g(1) by (auto simp: plan_ok_def intro!: add_pos_nonneg)
  from page_bounds [OF P f g order_refl this] obtain pl' x where
    pl': "pl' \<in> set (mp_planes P)" "pl_plane_id pl' = fl_plane_id f"
    and x: "field_page_byte_offset P (fl_field_id f) 0 = Inr x"
    "x = pl_arena_offset_bytes pl' + pl_bytes_per_lcm_block pl' + (0 - 1) * fl_page_stride_bytes f + fl_field_offset_bytes f"
    by blast
  have "pl' = pl" using pl pl' P by (metis plan_lookups(3) sum.inject(2))
  then show "cf_device_block_zero_offset_bytes t = page_start P (fl_field_id f, 0)"
    using x by (simp add: tt page_start_def)
qed

lemma ordered_groups_Inr:
  assumes P: "plan_ok P" and o: "ordered_groups P sel gids = Inr grps" and sel: "sel \<subseteq> gl_group_id ` set (mp_groups P)"
  shows "set grps \<subseteq> set (mp_groups P)" and "gl_group_id ` set grps = sel"
    and "gids = Some ids \<Longrightarrow> map gl_group_id grps = ids"
proof -
  have d: "distinct (map gl_group_id (mp_groups P))" using P by (simp add: plan_ok_def)
  have "set grps \<subseteq> set (mp_groups P) \<and> gl_group_id ` set grps = sel \<and> (\<forall>ids. gids = Some ids \<longrightarrow> map gl_group_id grps = ids)"
  proof (cases gids)
    case None
    then have "grps = filter (\<lambda>g. gl_group_id g \<in> sel) (mp_groups P)" using o by (simp add: ordered_groups_def)
    then show ?thesis using sel None by auto
  next
    case (Some ids)
    then have ids: "set ids = sel" and all: "list_all2 (\<lambda>i g. g \<in> set (mp_groups P) \<and> gl_group_id g = i) ids grps"
      using o by (auto simp: ordered_groups_def result_simps mapE_Inr_iff dict_at_by(1) [OF d])
    have eq: "map gl_group_id grps = ids"
      using all by (induction ids grps rule: list_all2_induct) auto
    moreover have "set grps \<subseteq> set (mp_groups P)"
      using all by (induction ids grps rule: list_all2_induct) auto
    ultimately show ?thesis using ids Some by (metis option.inject set_map)
  qed
  then show "set grps \<subseteq> set (mp_groups P)" "gl_group_id ` set grps = sel" "gids = Some ids \<Longrightarrow> map gl_group_id grps = ids"
    by auto
qed

lemma transfer_group_of_Inr:
  assumes t: "transfer_group_of P fids g = Inr tg"
  shows "tg_group_id tg = gl_group_id g" and "tg_cache_blocks_per_lcm_block tg = gl_cache_blocks_per_lcm_block g"
    and "group_wf tg" and "list_all2 (\<lambda>f t. transfer_field_of P f = Inr t) (selected_fields P fids (gl_group_id g)) (tg_fields tg)"
  using t by (auto simp: transfer_group_of_def result_simps mapE_Inr_iff)

definition selected_ids :: "cache_memory_plan \<Rightarrow> string set option \<Rightarrow> string set" where
  "selected_ids P fids = (case fids of None \<Rightarrow> set (map fl_field_id (mp_fields P)) | Some ids \<Rightarrow> ids)"

lemma layout_from_lcm_plan_stages:
  assumes P: "plan_ok P" and L: "layout_from_lcm_plan P buffer consumers gids fids = Inr L"
  obtains grps where "set grps \<subseteq> set (mp_groups P)"
    "gl_group_id ` set grps = {g \<in> gl_group_id ` set (mp_groups P). selected_fields P (selected_ids P fids) g \<noteq> []}"
    "\<And>ids. gids = Some ids \<Longrightarrow> map gl_group_id grps = ids"
    "list_all2 (\<lambda>g t. transfer_group_of P (selected_ids P fids) g = Inr t) grps (tl_groups L)"
    "selected_ids P fids \<subseteq> fl_field_id ` set (mp_fields P)"
    "tl_num_lcm_blocks L = mp_num_lcm_blocks P" "tl_buffers L = [buffer]" "tl_consumers L = consumers"
    "check_transfer_layout L = Inr L"
proof -
  let ?ids = "selected_ids P fids"
  let ?sel = "set (filter (\<lambda>g. selected_fields P ?ids g \<noteq> []) (map gl_group_id (mp_groups P)))"
  from L obtain grps groups where o: "ordered_groups P ?sel gids = Inr grps"
    and m: "mapE (transfer_group_of P ?ids) grps = Inr groups"
    and c: "check_transfer_layout \<lparr>tl_num_lcm_blocks = mp_num_lcm_blocks P, tl_groups = groups, tl_buffers = [buffer],
         tl_consumers = consumers\<rparr> = Inr L"
    and sub: "\<not> (case fids of None \<Rightarrow> False | Some ids \<Rightarrow> \<not> ids \<subseteq> set (map fl_field_id (mp_fields P)))"
    unfolding layout_from_lcm_plan_def Let_def selected_ids_def [symmetric] bindE_Inr_iff raise_if_Inr_iff by blast
  have "L = \<lparr>tl_num_lcm_blocks = mp_num_lcm_blocks P, tl_groups = groups, tl_buffers = [buffer], tl_consumers = consumers\<rparr>"
    using c unfolding check_transfer_layout_def Let_def bindE_Inr_iff raise_if_Inr_iff by blast
  moreover have "?sel \<subseteq> gl_group_id ` set (mp_groups P)" by auto
  note og = ordered_groups_Inr [OF P o this]
  moreover have "?ids \<subseteq> fl_field_id ` set (mp_fields P)" using sub by (auto simp: selected_ids_def split: option.splits)
  ultimately show ?thesis using that [of grps] m c by (auto simp: mapE_Inr_iff)
qed

lemma layout_from_plan_field:
  assumes P: "plan_ok P" and L: "layout_from_lcm_plan P buffer consumers gids fids = Inr L"
    and tg: "tg \<in> set (tl_groups L)" and tf: "tf \<in> set (tg_fields tg)"
  obtains g f where "g \<in> set (mp_groups P)" "f \<in> set (mp_fields P)" "fl_group_id f = gl_group_id g"
    "fl_field_id f \<in> selected_ids P fids"
    "tg_group_id tg = gl_group_id g" "tg_cache_blocks_per_lcm_block tg = gl_cache_blocks_per_lcm_block g"
    "transfer_field_of P f = Inr tf" "group_wf tg"
proof -
  obtain grps where sub: "set grps \<subseteq> set (mp_groups P)"
    and all: "list_all2 (\<lambda>g t. transfer_group_of P (selected_ids P fids) g = Inr t) grps (tl_groups L)"
    by (rule layout_from_lcm_plan_stages [OF P L]) blast
  obtain g where g: "g \<in> set grps" "transfer_group_of P (selected_ids P fids) g = Inr tg"
    using list_all2_right [OF all tg] by blast
  note T = transfer_group_of_Inr [OF g(2)]
  obtain f where f: "f \<in> set (selected_fields P (selected_ids P fids) (gl_group_id g))" "transfer_field_of P f = Inr tf"
    using list_all2_right [OF T(4) tf] by blast
  then show ?thesis using that [of g f] T(1-3) g sub by (auto simp: selected_fields_def)
qed

lemma layout_from_plan_wf:
  assumes P: "plan_ok P" and L: "layout_from_lcm_plan P buffer consumers gids fids = Inr L"
  shows "layout_wf L"
proof -
  obtain grps where
    all: "list_all2 (\<lambda>g t. transfer_group_of P (selected_ids P fids) g = Inr t) grps (tl_groups L)"
    and c: "check_transfer_layout L = Inr L"
    by (rule layout_from_lcm_plan_stages [OF P L]) blast
  have "field_wf f" if "f \<in> set (layout_fields L)" for f
  proof -
    from that obtain tg where "tg \<in> set (tl_groups L)" "f \<in> set (tg_fields tg)" by (auto simp: layout_fields_def)
    from layout_from_plan_field [OF P L this] transfer_field_of_Inr(1) [OF P] show ?thesis by metis
  qed
  moreover have "group_wf g" if "g \<in> set (tl_groups L)" for g
    using list_all2_right [OF all that] transfer_group_of_Inr(3) by blast
  ultimately show ?thesis using c check_transfer_layout_Inr [of L L] by blast
qed

lemma layout_from_plan_fields:
  assumes P: "plan_ok P" and L: "layout_from_lcm_plan P buffer consumers gids fids = Inr L"
  shows "cf_field_id ` set (layout_fields L) = selected_ids P fids"
proof (intro equalityI subsetI)
  fix i assume "i \<in> cf_field_id ` set (layout_fields L)"
  then obtain tg tf where t: "tg \<in> set (tl_groups L)" "tf \<in> set (tg_fields tg)" "i = cf_field_id tf"
    by (auto simp: layout_fields_def)
  from layout_from_plan_field [OF P L t(1,2)] transfer_field_of_Inr(2) [OF P] t(3) show "i \<in> selected_ids P fids" by metis
next
  fix i assume i: "i \<in> selected_ids P fids"
  obtain grps where
    gr: "gl_group_id ` set grps = {g \<in> gl_group_id ` set (mp_groups P). selected_fields P (selected_ids P fids) g \<noteq> []}"
    and all: "list_all2 (\<lambda>g t. transfer_group_of P (selected_ids P fids) g = Inr t) grps (tl_groups L)"
    and known: "selected_ids P fids \<subseteq> fl_field_id ` set (mp_fields P)"
    by (rule layout_from_lcm_plan_stages [OF P L]) blast
  from i known obtain f where f: "f \<in> set (mp_fields P)" "fl_field_id f = i" by auto
  then obtain g0 where "g0 \<in> set (mp_groups P)" "gl_group_id g0 = fl_group_id f"
    using P by (auto simp: plan_ok_def field_placed_def)
  moreover have sf: "f \<in> set (selected_fields P (selected_ids P fids) (fl_group_id f))"
    using f i by (simp add: selected_fields_def)
  ultimately have "fl_group_id f \<in> gl_group_id ` set grps" unfolding gr by force
  then obtain g where "g \<in> set grps" "gl_group_id g = fl_group_id f" by auto
  then obtain tg where g: "g \<in> set grps" "gl_group_id g = fl_group_id f" "tg \<in> set (tl_groups L)"
    "transfer_group_of P (selected_ids P fids) g = Inr tg"
    using list_all2_left [OF all] by blast
  obtain tf where "tf \<in> set (tg_fields tg)" "transfer_field_of P f = Inr tf"
    using list_all2_left [OF transfer_group_of_Inr(4) [OF g(4)] sf [folded g(2)]] by blast
  then show "i \<in> cf_field_id ` set (layout_fields L)"
    using transfer_field_of_Inr(2) [OF P f(1)] f(2) g(3) by (force simp: layout_fields_def)
qed

section \<open>A compute view is a complete layout\<close>

definition in_window :: "int \<Rightarrow> int \<Rightarrow> cache_field_layout \<Rightarrow> bool" where
  "in_window lo hi f \<longleftrightarrow> (case cache_field_layer_id (fl_field_id f) of Inl _ \<Rightarrow> False | Inr l \<Rightarrow> lo \<le> l \<and> l < hi)"

lemma mset_concat_update:
  "i < length xss \<Longrightarrow> mset (concat (xss[i := xss ! i @ [x]])) = add_mset x (mset (concat xss))"
proof (induction xss arbitrary: i)
  case (Cons xs xss)
  then show ?case by (cases i) auto
qed simp

lemma select_fold:
  assumes "foldE (select_step lo hi) (sel, cs) fs = Inr (sel', cs')" and "length cs = nat (hi - lo)"
  shows "length cs' = length cs \<and> sel' = sel \<union> fl_field_id ` set (filter (in_window lo hi) fs) \<and>
    mset (concat cs') = mset (concat cs) + mset (map fl_field_id (filter (in_window lo hi) fs)) \<and>
    (\<forall>f \<in> set fs. \<exists>l. cache_field_layer_id (fl_field_id f) = Inr l) \<and>
    (\<forall>i < length cs. cs' ! i = cs ! i @ map fl_field_id
       (filter (\<lambda>f. cache_field_layer_id (fl_field_id f) = Inr (lo + int i)) fs))"
  using assms
proof (induction fs arbitrary: sel cs)
  case (Cons f fs)
  from Cons.prems(1) obtain l where l: "cache_field_layer_id (fl_field_id f) = Inr l"
    by (auto simp: select_step_def result_simps)
  show ?case
  proof (cases "lo \<le> l \<and> l < hi")
    case True
    let ?i = "nat (l - lo)"
    let ?cs = "cs[?i := cs ! ?i @ [fl_field_id f]]"
    have i: "?i < length cs" "lo + int ?i = l" using True Cons.prems(2) by auto
    have "select_step lo hi (sel, cs) f = Inr (insert (fl_field_id f) sel, ?cs)"
      using l True by (simp add: select_step_def Let_def)
    then have "foldE (select_step lo hi) (insert (fl_field_id f) sel, ?cs) fs = Inr (sel', cs')"
      using Cons.prems(1) by simp
    moreover have w: "in_window lo hi f" using l True by (simp add: in_window_def)
    moreover have at: "cache_field_layer_id (fl_field_id f) = Inr (lo + int j) \<longleftrightarrow> j = ?i" for j using l True by auto
    ultimately show ?thesis
      using Cons.IH [of "insert (fl_field_id f) sel" ?cs] Cons.prems(2) l i mset_concat_update [OF i(1), of "fl_field_id f"]
      by (auto simp: nth_list_update)
  next
    case False
    have "select_step lo hi (sel, cs) f = Inr (sel, cs)" using l False by (auto simp: select_step_def)
    then have "foldE (select_step lo hi) (sel, cs) fs = Inr (sel', cs')" using Cons.prems(1) by simp
    moreover have w: "\<not> in_window lo hi f" using l False by (simp add: in_window_def)
    moreover have at: "cache_field_layer_id (fl_field_id f) \<noteq> Inr (lo + int j)" if "j < length cs" for j
      using l False that Cons.prems(2) by auto
    ultimately show ?thesis using Cons.IH [of sel cs] Cons.prems(2) l by auto
  qed
qed simp

lemma select_layer_fields_spec:
  assumes "select_layer_fields fs lo n = Inr (sel, consumers)"
  shows "int (length consumers) = n" and "sel = fl_field_id ` set (filter (in_window lo (lo + n)) fs)"
    and "mset (concat consumers) = mset (map fl_field_id (filter (in_window lo (lo + n)) fs))"
    and "\<forall>f \<in> set fs. \<exists>l. cache_field_layer_id (fl_field_id f) = Inr l"
    and "\<forall>i < length consumers. consumers ! i = map fl_field_id
       (filter (\<lambda>f. cache_field_layer_id (fl_field_id f) = Inr (lo + int i)) fs)"
proof -
  have n: "0 \<le> n" and F: "foldE (select_step lo (lo + n)) ({}, replicate (nat n) []) fs = Inr (sel, consumers)"
    using assms by (auto simp: select_layer_fields_def result_simps)
  have "length (replicate (nat n) []) = nat (lo + n - lo)" by simp
  note S = select_fold [OF F this]
  show "int (length consumers) = n" using S n by simp
  show "sel = fl_field_id ` set (filter (in_window lo (lo + n)) fs)" using S by simp
  show "mset (concat consumers) = mset (map fl_field_id (filter (in_window lo (lo + n)) fs))"
    using S by simp
  show "\<forall>f \<in> set fs. \<exists>l. cache_field_layer_id (fl_field_id f) = Inr l" using S by blast
  show "\<forall>i < length consumers. consumers ! i = map fl_field_id
       (filter (\<lambda>f. cache_field_layer_id (fl_field_id f) = Inr (lo + int i)) fs)"
    using S by simp
qed

lemma layer_id_nonempty: "cache_field_layer_id s = Inr l \<Longrightarrow> s \<noteq> []"
  by (auto simp: cache_field_layer_id_def split_cache_field_id_def result_simps numeral_2_eq_2)

lemma transfer_field_of_ok:
  assumes P: "plan_ok P" and f: "f \<in> set (mp_fields P)" and id: "fl_field_id f \<noteq> []"
  shows "\<exists>t. transfer_field_of P f = Inr t"
proof -
  obtain g pl where g: "g \<in> set (mp_groups P)" "gl_group_id g = fl_group_id f"
    and pl: "pl \<in> set (mp_planes P)" "pl_plane_id pl = fl_plane_id f"
    and off: "0 < fl_payload_bytes f" "fl_field_offset_bytes f + fl_payload_bytes f \<le> fl_page_stride_bytes f"
      "0 \<le> fl_field_offset_bytes f"
    using P f by (auto simp: plan_ok_def field_placed_def)
  have "0 < gl_page_count g" using P g(1) by (auto simp: plan_ok_def intro!: add_pos_nonneg)
  from page_bounds [OF P f g order_refl this] obtain pl' x where
    pl': "pl' \<in> set (mp_planes P)" "pl_plane_id pl' = fl_plane_id f"
    and x: "x = pl_arena_offset_bytes pl' + pl_bytes_per_lcm_block pl' + (0 - 1) * fl_page_stride_bytes f + fl_field_offset_bytes f"
      "pl_arena_offset_bytes pl' \<le> x" by blast
  have same: "pl' = pl" using pl pl' P by (metis plan_lookups(3) sum.inject(2))
  have "0 \<le> pl_arena_offset_bytes pl" using P pl(1) by (auto simp: plan_ok_def planes_ok_def)
  then have zero: "0 \<le> pl_arena_offset_bytes pl + pl_bytes_per_lcm_block pl - fl_page_stride_bytes f + fl_field_offset_bytes f"
    using x same by simp
  have "plan_plane P (fl_plane_id f) = Inr pl" using P pl by (simp add: plan_lookups)
  then show ?thesis using id off zero by (simp add: transfer_field_of_def check_transfer_field_Inr field_wf_def)
qed

lemma distinct_by_group:
  assumes "distinct (map fl_field_id fs)" and "distinct gs"
  shows "distinct (map fl_field_id (concat (map (\<lambda>g. filter (\<lambda>f. fl_group_id f = g \<and> Q f) fs) gs)))"
  using assms(2)
proof (induction gs)
  case (Cons g gs)
  have inj: "f = f'" if "f \<in> set fs" "f' \<in> set fs" "fl_field_id f = fl_field_id f'" for f f'
    using assms(1) that by (auto simp: distinct_map dest: inj_onD)
  have "distinct (map fl_field_id (filter (\<lambda>f. fl_group_id f = g \<and> Q f) fs))"
    using assms(1) by (rule distinct_map_filter)
  moreover have "False" if a: "f \<in> set fs" "fl_group_id f = g" "f' \<in> set fs" "fl_group_id f' \<in> set gs"
      "fl_field_id f = fl_field_id f'" for f f'
    using inj [OF a(1,3,5)] a(2,4) Cons.prems by simp
  ultimately show ?case using Cons by (auto simp del: map_concat)
qed simp

text \<open>The address of block \<open>b\<close> in a transfer row.\<close>

definition device_offset :: "transfer_field \<Rightarrow> int \<Rightarrow> int" where
  "device_offset f b = cf_device_block_zero_offset_bytes f + b * cf_block_stride_bytes f"

lemma layout_from_plan_address:
  assumes P: "plan_ok P" and L: "layout_from_lcm_plan P buffer consumers gids fids = Inr L"
    and tg: "tg \<in> set (tl_groups L)" and tf: "tf \<in> set (tg_fields tg)"
    and b: "0 \<le> b" "b \<le> tl_num_lcm_blocks L * tg_cache_blocks_per_lcm_block tg"
  shows "field_page_byte_offset P (cf_field_id tf) b = Inr (device_offset tf b)"
    and "page_payload P (cf_field_id tf, b) = cf_payload_bytes tf"
    and "(cf_field_id tf, b) \<in> group_pages P (tg_group_id tg)"
proof -
  obtain g f where g: "g \<in> set (mp_groups P)" and f: "f \<in> set (mp_fields P)" "fl_group_id f = gl_group_id g"
    and tge: "tg_group_id tg = gl_group_id g" "tg_cache_blocks_per_lcm_block tg = gl_cache_blocks_per_lcm_block g"
    and t: "transfer_field_of P f = Inr tf"
    by (rule layout_from_plan_field [OF P L tg tf])
  note T = transfer_field_of_Inr [OF P f(1) t]
  have n: "tl_num_lcm_blocks L = mp_num_lcm_blocks P" by (rule layout_from_lcm_plan_stages [OF P L])
  have pc: "b < gl_page_count g" using b(2) P g unfolding n tge(2) by (auto simp: plan_ok_def)
  note lin = page_start_linear [OF P f(1) g f(2) [symmetric] b(1) pc]
  obtain x where "field_page_byte_offset P (fl_field_id f) b = Inr x"
    using page_bounds [OF P f(1) g f(2) [symmetric] b(1) pc] by blast
  then show "field_page_byte_offset P (cf_field_id tf) b = Inr (device_offset tf b)"
    using lin by (simp add: page_start_def device_offset_def T)
  have "plan_field P (fl_field_id f) = Inr f" using P f(1) by (simp add: plan_lookups)
  then show "page_payload P (cf_field_id tf, b) = cf_payload_bytes tf" by (simp add: page_payload_def T)
  show "(cf_field_id tf, b) \<in> group_pages P (tg_group_id tg)"
    unfolding group_pages_iff tge T using f g b(1) pc by blast
qed

lemma view_layout_exists:
  assumes P: "plan_ok P" and S: "select_layer_fields (mp_fields P) lo n = Inr (sel, consumers)" and ne: "sel \<noteq> {}"
    and gids: "\<forall>g \<in> set (mp_groups P). gl_group_id g \<noteq> []"
  shows "\<exists>L. layout_from_lcm_plan P buffer consumers None (Some sel) = Inr L"
proof -
  note spec = select_layer_fields_spec [OF S]
  let ?fs = "mp_fields P" and ?has = "\<lambda>g. selected_fields P sel g \<noteq> []"
  let ?grps = "filter (\<lambda>g. ?has (gl_group_id g)) (mp_groups P)"
  have dfs: "distinct (map fl_field_id ?fs)" and dgs: "distinct (map gl_group_id (mp_groups P))"
    using P by (simp_all add: plan_ok_def)
  have fid: "fl_field_id f \<noteq> []" if "f \<in> set ?fs" for f using spec(4) that layer_id_nonempty by blast
  define tf where "tf = (\<lambda>f. case transfer_field_of P f of Inr t \<Rightarrow> t | Inl _ \<Rightarrow> undefined)"
  have tf: "transfer_field_of P f = Inr (tf f)" if "f \<in> set ?fs" for f
    using transfer_field_of_ok [OF P that fid [OF that]] by (auto simp: tf_def)
  note tf_id = transfer_field_of_Inr [OF P _ tf]
  define tg where "tg = (\<lambda>g :: cache_group_layout. \<lparr>tg_group_id = gl_group_id g, tg_cache_blocks_per_lcm_block = gl_cache_blocks_per_lcm_block g,
      tg_fields = map tf (selected_fields P sel (gl_group_id g))\<rparr>)"
  have sub: "set (selected_fields P sel g) \<subseteq> set ?fs" for g by (auto simp: selected_fields_def)
  have ids: "map cf_field_id (map tf (selected_fields P sel g)) = map fl_field_id (selected_fields P sel g)" for g
    using tf_id(2) sub by auto
  have gwf: "group_wf (tg g)" if "g \<in> set ?grps" for g
  proof -
    have "distinct (map fl_field_id (selected_fields P sel (gl_group_id g)))"
      unfolding selected_fields_def using dfs by (rule distinct_map_filter)
    moreover have "0 < gl_cache_blocks_per_lcm_block g" using that P by (simp add: plan_ok_def)
    ultimately show ?thesis using that gids unfolding ids [symmetric] by (simp add: group_wf_def tg_def del: map_map)
  qed
  have tgo: "transfer_group_of P sel g = Inr (tg g)" if "g \<in> set ?grps" for g
  proof -
    have "mapE (transfer_field_of P) (selected_fields P sel (gl_group_id g)) = Inr (map tf (selected_fields P sel (gl_group_id g)))"
      using tf sub by (intro mapE_all) blast
    then show ?thesis using gwf [OF that] by (simp add: transfer_group_of_def tg_def check_transfer_group_Inr)
  qed
  define L where "L = \<lparr>tl_num_lcm_blocks = mp_num_lcm_blocks P, tl_groups = map tg ?grps, tl_buffers = [buffer], tl_consumers = consumers\<rparr>"
  have lf: "map cf_field_id (layout_fields L) =
      map fl_field_id (concat (map (\<lambda>g. filter (\<lambda>f. fl_group_id f = g \<and> fl_field_id f \<in> sel) ?fs) (map gl_group_id ?grps)))"
  proof -
    have "map cf_field_id (layout_fields L) = concat (map (\<lambda>g. map cf_field_id (map tf (selected_fields P sel (gl_group_id g)))) ?grps)"
      by (simp add: layout_fields_def L_def map_concat comp_def tg_def)
    then show ?thesis unfolding ids by (simp add: map_concat comp_def selected_fields_def)
  qed
  have mc: "mset (concat consumers) = mset (map fl_field_id (filter (in_window lo (lo + n)) ?fs))" by (rule spec(3))
  have dc: "distinct (concat consumers)"
    using mset_eq_imp_distinct_iff [OF mc] distinct_map_filter [OF dfs] by blast
  have sc: "set (concat consumers) = sel" using mset_eq_setD [OF mc] spec(2) by simp
  have in_group: "fl_group_id f \<in> gl_group_id ` set ?grps" if f: "f \<in> set ?fs" "fl_field_id f \<in> sel" for f
  proof -
    obtain g where g: "g \<in> set (mp_groups P)" "gl_group_id g = fl_group_id f"
      using P f(1) by (auto simp: plan_ok_def field_placed_def)
    have "f \<in> set (selected_fields P sel (gl_group_id g))" using f g by (simp add: selected_fields_def)
    then show ?thesis using g by force
  qed
  have sf: "set (map cf_field_id (layout_fields L)) = sel"
    unfolding lf using in_group spec(2) by (fastforce simp: image_iff)
  have "layout_wf L"
    unfolding layout_wf_def
  proof (intro conjI)
    show "0 < tl_num_lcm_blocks L" using P by (simp add: L_def plan_ok_def)
    show "tl_groups L \<noteq> []"
    proof
      assume "tl_groups L = []"
      then have "layout_fields L = []" by (simp add: layout_fields_def)
      then show False using sf ne by simp
    qed
    show "distinct (map tg_group_id (tl_groups L))"
      using distinct_map_filter [OF dgs] by (simp add: L_def comp_def tg_def)
    show "distinct (map cf_field_id (layout_fields L))"
      unfolding lf using dfs distinct_map_filter [OF dgs] by (intro distinct_by_group) auto
    show "\<forall>f \<in> set (layout_fields L). field_wf f \<and> cf_device_buffer_index f < int (length (tl_buffers L))"
      using tf_id(1,5) sub by (fastforce simp: layout_fields_def L_def tg_def)
    show "\<forall>g \<in> set (tl_groups L). group_wf g" using gwf by (auto simp: L_def)
    show "distinct (concat (tl_consumers L))" "set (concat (tl_consumers L)) = set (map cf_field_id (layout_fields L))"
      using dc sc sf by (simp_all add: L_def)
  qed (simp add: L_def)
  then have ck: "check_transfer_layout L = Inr L" using check_transfer_layout_Inr [of L L] by (auto simp: layout_wf_def)
  have "sel \<subseteq> set (map fl_field_id ?fs)" using spec(2) by auto
  moreover have "ordered_groups P (set (filter ?has (map gl_group_id (mp_groups P)))) None = Inr ?grps"
    by (auto simp: ordered_groups_def intro!: filter_cong)
  moreover have "mapE (transfer_group_of P sel) ?grps = Inr (map tg ?grps)" using tgo by (intro mapE_all)
  ultimately have "layout_from_lcm_plan P buffer consumers None (Some sel) = Inr L"
    using ck by (simp add: layout_from_lcm_plan_def Let_def L_def)
  then show ?thesis by blast
qed

text \<open>C24: the transfer view of a layer window. On a well-formed plan, the fields and consumers that
  \<^verbatim>\<open>select_layer_fields\<close> gives for a window with at least one field are accepted by
  \<^verbatim>\<open>layout_from_lcm_plan\<close>; the layout contains exactly the window's fields, consumer \<open>i\<close> lists the
  fields of layer \<open>first_layer + i\<close> in plan order, and block \<open>b\<close> of every row is the plan's page \<open>b\<close> of
  that field: same address, same payload, same group.\<close>

theorem transfer_view_addresses:
  assumes "plan_ok P" and "select_layer_fields (mp_fields P) first_layer num_layers = Inr (sel, consumers)"
    and "sel \<noteq> {}" and "\<forall>g \<in> set (mp_groups P). gl_group_id g \<noteq> []"
  shows "\<exists>L. layout_from_lcm_plan P buffer consumers None (Some sel) = Inr L \<and> layout_wf L \<and>
    cf_field_id ` set (layout_fields L) =
      {fl_field_id f | f. f \<in> set (mp_fields P) \<and> in_window first_layer (first_layer + num_layers) f} \<and>
    (\<forall>i < nat num_layers. consumers ! i = map fl_field_id
       (filter (\<lambda>f. cache_field_layer_id (fl_field_id f) = Inr (first_layer + int i)) (mp_fields P))) \<and>
    (\<forall>tg \<in> set (tl_groups L). \<forall>tf \<in> set (tg_fields tg). \<forall>b.
       0 \<le> b \<and> b \<le> tl_num_lcm_blocks L * tg_cache_blocks_per_lcm_block tg \<longrightarrow>
       field_page_byte_offset P (cf_field_id tf) b = Inr (device_offset tf b) \<and>
       page_payload P (cf_field_id tf, b) = cf_payload_bytes tf \<and>
       (cf_field_id tf, b) \<in> group_pages P (tg_group_id tg))"
proof -
  from view_layout_exists [OF assms] obtain L where
    L: "layout_from_lcm_plan P buffer consumers None (Some sel) = Inr L" by blast
  note spec = select_layer_fields_spec [OF assms(2)]
  show ?thesis
  proof (intro exI [of _ L] conjI ballI allI impI)
    show "layout_from_lcm_plan P buffer consumers None (Some sel) = Inr L" by (rule L)
    show "layout_wf L" by (rule layout_from_plan_wf [OF assms(1) L])
    show "cf_field_id ` set (layout_fields L) =
        {fl_field_id f | f. f \<in> set (mp_fields P) \<and> in_window first_layer (first_layer + num_layers) f}"
      using layout_from_plan_fields [OF assms(1) L] spec(2) by (auto simp: selected_ids_def)
    show "consumers ! i = map fl_field_id
        (filter (\<lambda>f. cache_field_layer_id (fl_field_id f) = Inr (first_layer + int i)) (mp_fields P))"
      if "i < nat num_layers" for i
      using spec(5) that unfolding spec(1) [symmetric] by simp
    fix tg tf b assume tg: "tg \<in> set (tl_groups L)" and tf: "tf \<in> set (tg_fields tg)"
      and "0 \<le> b \<and> b \<le> tl_num_lcm_blocks L * tg_cache_blocks_per_lcm_block tg"
    then have b: "0 \<le> b" "b \<le> tl_num_lcm_blocks L * tg_cache_blocks_per_lcm_block tg" by simp_all
    note A = layout_from_plan_address [OF assms(1) L tg tf b]
    show "field_page_byte_offset P (cf_field_id tf) b = Inr (device_offset tf b)"
      and "page_payload P (cf_field_id tf, b) = cf_payload_bytes tf"
      and "(cf_field_id tf, b) \<in> group_pages P (tg_group_id tg)" by (rule A)+
  qed
qed

section \<open>Host blocks as byte regions\<close>

lemma host_group_bytes_sum: "host_group_bytes g = sum_list (map cf_payload_bytes (tg_fields g))"
proof -
  have "fold (\<lambda>f cursor. cursor + cf_payload_bytes f) fs c = c + sum_list (map cf_payload_bytes fs)"
    for fs :: "transfer_field list" and c
    by (induction fs arbitrary: c) auto
  then show ?thesis by (simp add: host_group_bytes_def)
qed

lemma field_cursors_nth:
  "i < length fs \<Longrightarrow> field_cursors c fs ! i = c + sum_list (map cf_payload_bytes (take i fs))"
proof (induction fs arbitrary: c i)
  case (Cons f fs)
  then show ?case by (cases i) auto
qed simp

lemma length_field_cursors [simp]: "length (field_cursors c fs) = length fs"
  by (induction fs arbitrary: c) auto

lemma sum_payload_take:
  assumes "\<forall>f \<in> set fs. 0 < cf_payload_bytes f" and "i < j" and "j \<le> length fs"
  shows "sum_list (map cf_payload_bytes (take i fs)) + cf_payload_bytes (fs ! i) \<le> sum_list (map cf_payload_bytes (take j fs))"
proof -
  have split: "take j fs = take (Suc i) fs @ drop (Suc i) (take j fs)"
    using assms(2) append_take_drop_id [of "Suc i" "take j fs"] by (simp add: min_absorb1)
  have "take (Suc i) fs = take i fs @ [fs ! i]" using assms by (simp add: take_Suc_conv_app_nth)
  then have "sum_list (map cf_payload_bytes (take j fs)) =
      sum_list (map cf_payload_bytes (take i fs)) + cf_payload_bytes (fs ! i) + sum_list (map cf_payload_bytes (drop (Suc i) (take j fs)))"
    by (subst split) simp
  moreover have "0 \<le> sum_list (map cf_payload_bytes (drop (Suc i) (take j fs)))"
    using assms(1) by (intro sum_list_nonneg) (auto dest!: in_set_dropD in_set_takeD intro: less_imp_le)
  ultimately show ?thesis by simp
qed

lemma fold_max_ge:
  fixes h :: "'a \<Rightarrow> int"
  shows "c \<le> fold (\<lambda>g m. max m (h g)) gs c \<and> (\<forall>g \<in> set gs. h g \<le> fold (\<lambda>g m. max m (h g)) gs c)"
proof (induction gs arbitrary: c)
  case (Cons g gs)
  from Cons [of "max c (h g)"] show ?case by auto
qed simp

lemma host_lcm_bytes_max: "g \<in> set (tl_groups L) \<Longrightarrow>
   tg_cache_blocks_per_lcm_block g * host_group_bytes g \<le> compute_host_lcm_block_bytes L"
  using fold_max_ge [of 0 "\<lambda>g. tg_cache_blocks_per_lcm_block g * host_group_bytes g" "tl_groups L"]
  by (simp add: compute_host_lcm_block_bytes_def compute_host_layout_def)

lemma host_lcm_bytes_nonneg: "0 \<le> compute_host_lcm_block_bytes L"
  using fold_max_ge [of 0 "\<lambda>g. tg_cache_blocks_per_lcm_block g * host_group_bytes g" "tl_groups L"]
  by (simp add: compute_host_lcm_block_bytes_def compute_host_layout_def)

text \<open>A Host region: a field of a block of a group, when the block's parent is leased to the group.\<close>

definition host_regions :: "transfer_layout \<Rightarrow> int \<Rightarrow> (int \<Rightarrow> nat option) \<Rightarrow> (nat \<times> int \<times> nat) set" where
  "host_regions L n lease = {(gi, b, fi). gi < length (tl_groups L) \<and> fi < length (tg_fields (tl_groups L ! gi)) \<and>
     1 \<le> b \<and> b \<le> n * tg_cache_blocks_per_lcm_block (tl_groups L ! gi) \<and>
     lease ((b - 1) div tg_cache_blocks_per_lcm_block (tl_groups L ! gi)) = Some gi}"

definition host_start :: "transfer_layout \<Rightarrow> nat \<times> int \<times> nat \<Rightarrow> int" where
  "host_start L r = (case r of (gi, b, fi) \<Rightarrow>
     let g = tl_groups L ! gi; k = tg_cache_blocks_per_lcm_block g in
     (b - 1) div k * compute_host_lcm_block_bytes L + (b - 1) mod k * host_group_bytes g
     + field_cursors 0 (tg_fields g) ! fi)"

definition host_payload :: "transfer_layout \<Rightarrow> nat \<times> int \<times> nat \<Rightarrow> int" where
  "host_payload L r = (case r of (gi, b, fi) \<Rightarrow> cf_payload_bytes (tg_fields (tl_groups L ! gi) ! fi))"

lemma host_field_offset_start:
  assumes "host_cache_storage L n = Inr hs" and "(gi, b, fi) \<in> host_regions L n lease"
  shows "host_field_offset hs (int gi) b (int fi) = Inr (host_start L (gi, b, fi))"
    and "hs_buffer_bytes hs = n * compute_host_lcm_block_bytes L"
proof -
  have hs: "hs_group_packing hs = map tg_cache_blocks_per_lcm_block (tl_groups L)"
    "hs_cache_block_bytes hs = map host_group_bytes (tl_groups L)"
    "hs_field_offsets hs = map (\<lambda>g. field_cursors 0 (tg_fields g)) (tl_groups L)"
    "hs_lcm_block_bytes hs = compute_host_lcm_block_bytes L" "hs_num_lcm_blocks hs = n"
    "hs_buffer_bytes hs = n * compute_host_lcm_block_bytes L"
    using assms(1) by (auto simp: host_cache_storage_def compute_host_layout_def compute_host_lcm_block_bytes_def result_simps)
  show "hs_buffer_bytes hs = n * compute_host_lcm_block_bytes L" by (rule hs(6))
  show "host_field_offset hs (int gi) b (int fi) = Inr (host_start L (gi, b, fi))"
    using assms(2)
    by (simp add: host_regions_def host_field_offset_def host_block_offset_def py_at_def list_at_def hs host_start_def Let_def)
qed

lemma group_fields_positive:
  assumes "layout_wf L" and "gi < length (tl_groups L)"
  shows "\<forall>f \<in> set (tg_fields (tl_groups L ! gi)). 0 < cf_payload_bytes f"
    and "0 < tg_cache_blocks_per_lcm_block (tl_groups L ! gi)"
    and "0 \<le> host_group_bytes (tl_groups L ! gi)"
proof -
  have g: "tl_groups L ! gi \<in> set (tl_groups L)" using assms(2) by simp
  show pos: "\<forall>f \<in> set (tg_fields (tl_groups L ! gi)). 0 < cf_payload_bytes f"
    using assms(1) g unfolding layout_wf_def field_wf_def layout_fields_def by auto
  show "0 < tg_cache_blocks_per_lcm_block (tl_groups L ! gi)"
    using assms(1) g by (auto simp: layout_wf_def group_wf_def)
  show "0 \<le> host_group_bytes (tl_groups L ! gi)"
    unfolding host_group_bytes_sum using pos by (intro sum_list_nonneg) auto
qed

text \<open>A field lies inside its block, a block inside its parent's slot.\<close>

lemma host_field_in_block:
  assumes "layout_wf L" and "gi < length (tl_groups L)" and "fi < length (tg_fields (tl_groups L ! gi))"
  shows "0 \<le> field_cursors 0 (tg_fields (tl_groups L ! gi)) ! fi"
    and "field_cursors 0 (tg_fields (tl_groups L ! gi)) ! fi + host_payload L (gi, b, fi) \<le> host_group_bytes (tl_groups L ! gi)"
proof -
  note pos = group_fields_positive(1) [OF assms(1,2)]
  have "0 \<le> sum_list (map cf_payload_bytes (take fi (tg_fields (tl_groups L ! gi))))"
    using pos by (intro sum_list_nonneg) (auto dest: in_set_takeD intro: less_imp_le)
  then show "0 \<le> field_cursors 0 (tg_fields (tl_groups L ! gi)) ! fi" using assms(3) by (simp add: field_cursors_nth)
  show "field_cursors 0 (tg_fields (tl_groups L ! gi)) ! fi + host_payload L (gi, b, fi) \<le> host_group_bytes (tl_groups L ! gi)"
    using sum_payload_take [OF pos assms(3) order_refl] assms(3)
    by (simp add: field_cursors_nth host_payload_def host_group_bytes_sum)
qed

lemma scaled_interval:
  assumes "0 \<le> (i::int)" and "i < k" and "0 \<le> m" and "k * m \<le> bytes" and "0 \<le> x" and "x + e \<le> m"
  shows "0 \<le> i * m + x" and "i * m + x + e \<le> bytes"
proof -
  show "0 \<le> i * m + x" using assms by simp
  have "(i + 1) * m \<le> k * m" using assms by (intro mult_right_mono) auto
  then show "i * m + x + e \<le> bytes" using assms by (simp add: distrib_right)
qed

lemma scaled_apart:
  assumes "(i::int) \<noteq> j" and "0 \<le> m" and "0 \<le> x" and "x + e \<le> m" and "0 \<le> y" and "y + e' \<le> m"
  shows "disjoint_ranges (i * m + x) e (j * m + y) e'"
proof -
  from assms(1) consider "i + 1 \<le> j" | "j + 1 \<le> i" by linarith
  then have "(i + 1) * m \<le> j * m \<or> (j + 1) * m \<le> i * m" using assms(2) by (metis mult_right_mono)
  then show ?thesis using assms by (auto simp: disjoint_ranges_def distrib_right)
qed

lemma disjoint_shift: "disjoint_ranges (c + x) e (c + y) e' \<longleftrightarrow> disjoint_ranges x e y e'"
  by (auto simp: disjoint_ranges_def)

lemma int_div_mod_inj: "(a::int) div k = c div k \<Longrightarrow> a mod k = c mod k \<Longrightarrow> a = c"
  by (metis div_mult_mod_eq)

lemma host_region_parent:
  assumes L: "layout_wf L" and r: "(gi, b, fi) \<in> host_regions L n lease"
  defines "k \<equiv> tg_cache_blocks_per_lcm_block (tl_groups L ! gi)"
  defines "x \<equiv> (b - 1) mod k * host_group_bytes (tl_groups L ! gi) + field_cursors 0 (tg_fields (tl_groups L ! gi)) ! fi"
  shows "host_start L (gi, b, fi) = (b - 1) div k * compute_host_lcm_block_bytes L + x"
    and "0 \<le> x" and "x + host_payload L (gi, b, fi) \<le> compute_host_lcm_block_bytes L"
    and "0 \<le> (b - 1) div k" and "(b - 1) div k < n"
proof -
  have gi: "gi < length (tl_groups L)" and fi: "fi < length (tg_fields (tl_groups L ! gi))"
    and b: "1 \<le> b" "b \<le> n * k" using r by (auto simp: host_regions_def k_def)
  note P = group_fields_positive [OF L gi]
  have k: "0 < k" using P(2) by (simp add: k_def)
  note F = host_field_in_block [OF L gi fi]
  have "k * host_group_bytes (tl_groups L ! gi) \<le> compute_host_lcm_block_bytes L"
    unfolding k_def using gi by (intro host_lcm_bytes_max) simp
  note S = scaled_interval [OF pos_mod_sign [OF k] pos_mod_bound [OF k] P(3) this F]
  show "host_start L (gi, b, fi) = (b - 1) div k * compute_host_lcm_block_bytes L + x"
    by (simp add: host_start_def Let_def k_def x_def)
  show "0 \<le> x" and "x + host_payload L (gi, b, fi) \<le> compute_host_lcm_block_bytes L"
    using S by (simp_all add: x_def)
  show "0 \<le> (b - 1) div k" using b k by (simp add: pos_imp_zdiv_nonneg_iff)
  show "(b - 1) div k < n" using b k by (simp add: int_div_less_iff)
qed

interpretation host_region: byte_regions
  "\<lambda>(L, n, lease). layout_wf L \<and> 0 \<le> n" "\<lambda>(L, n, lease). host_regions L n lease"
  "\<lambda>(L, n, lease). host_start L" "\<lambda>(L, n, lease). host_payload L"
  "\<lambda>(L, n, lease). n * compute_host_lcm_block_bytes L"
proof (unfold_locales, goal_cases)
  case (1 l r)
  obtain L n lease where l: "l = (L, n, lease)" by (metis prod_cases3)
  obtain gi b fi where r: "r = (gi, b, fi)" by (metis prod_cases3)
  have L: "layout_wf L" and m: "(gi, b, fi) \<in> host_regions L n lease" using 1 l r by simp_all
  note H = host_region_parent [OF L m]
  note S = scaled_interval [OF H(4,5) host_lcm_bytes_nonneg order_refl H(2,3)]
  show ?case using S H(1) l r by simp
next
  case (2 l r r')
  obtain L n lease where l: "l = (L, n, lease)" by (metis prod_cases3)
  obtain gi b fi where r: "r = (gi, b, fi)" by (metis prod_cases3)
  obtain gi' b' fi' where r': "r' = (gi', b', fi')" by (metis prod_cases3)
  have L: "layout_wf L" and m: "(gi, b, fi) \<in> host_regions L n lease" and m': "(gi', b', fi') \<in> host_regions L n lease"
    using 2 l r r' by simp_all
  note H = host_region_parent [OF L m] and H' = host_region_parent [OF L m']
  let ?B = "compute_host_lcm_block_bytes L" and ?k = "tg_cache_blocks_per_lcm_block (tl_groups L ! gi)"
  have gi: "gi < length (tl_groups L)" and fi: "fi < length (tg_fields (tl_groups L ! gi))" using m by (auto simp: host_regions_def)
  have "disjoint_ranges (host_start L (gi, b, fi)) (host_payload L (gi, b, fi)) (host_start L (gi', b', fi')) (host_payload L (gi', b', fi'))"
  proof (cases "(b - 1) div ?k = (b' - 1) div tg_cache_blocks_per_lcm_block (tl_groups L ! gi')")
    case False
    show ?thesis unfolding H(1) H'(1) by (rule scaled_apart [OF False host_lcm_bytes_nonneg H(2,3) H'(2,3)])
  next
    case same: True
    then have gg: "gi' = gi" using m m' by (auto simp: host_regions_def)
    have fi': "fi' < length (tg_fields (tl_groups L ! gi))" using m' gg by (auto simp: host_regions_def)
    let ?o = "field_cursors 0 (tg_fields (tl_groups L ! gi))" and ?m = "host_group_bytes (tl_groups L ! gi)"
    note F = host_field_in_block [OF L gi fi] and F' = host_field_in_block [OF L gi fi']
    have "disjoint_ranges ((b - 1) mod ?k * ?m + ?o ! fi) (host_payload L (gi, b, fi))
        ((b' - 1) mod ?k * ?m + ?o ! fi') (host_payload L (gi, b', fi'))"
    proof (cases "(b - 1) mod ?k = (b' - 1) mod ?k")
      case False
      show ?thesis by (rule scaled_apart [OF False group_fields_positive(3) [OF L gi] F F'])
    next
      case True
      then have "b = b'" using int_div_mod_inj [of "b - 1" ?k "b' - 1"] same gg by simp
      then have "fi \<noteq> fi'" using 2 r r' gg by auto
      then consider "fi < fi'" | "fi' < fi" by linarith
      then have "disjoint_ranges (?o ! fi) (host_payload L (gi, b, fi)) (?o ! fi') (host_payload L (gi, b', fi'))"
        using sum_payload_take [OF group_fields_positive(1) [OF L gi], of fi fi']
          sum_payload_take [OF group_fields_positive(1) [OF L gi], of fi' fi] fi fi'
        by (cases) (simp_all add: disjoint_ranges_def field_cursors_nth host_payload_def)
      then show ?thesis unfolding True disjoint_shift .
    qed
    then show ?thesis unfolding H(1) H'(1) unfolding same unfolding gg disjoint_shift .
  qed
  then show ?case using l r r' by simp
qed

text \<open>C23: Host blocks are isolated. For a well-formed transfer layout and a Host storage of it, with every
  Host parent leased to at most one group, the bytes \<^verbatim>\<open>host_field_offset\<close> names for a field of a leased
  block lie inside the Host buffer, and the bytes of two different (group, block, field) triples never
  overlap.\<close>

theorem host_blocks_isolated:
  assumes "layout_wf L" and "host_cache_storage L n = Inr hs"
    and "(gi, b, fi) \<in> host_regions L n lease" and "(gi', b', fi') \<in> host_regions L n lease"
    and "(gi, b, fi) \<noteq> (gi', b', fi')"
  shows "\<exists>x x'. host_field_offset hs (int gi) b (int fi) = Inr x \<and> host_field_offset hs (int gi') b' (int fi') = Inr x' \<and>
     0 \<le> x \<and> x + cf_payload_bytes (tg_fields (tl_groups L ! gi) ! fi) \<le> hs_buffer_bytes hs \<and>
     disjoint_ranges x (cf_payload_bytes (tg_fields (tl_groups L ! gi) ! fi))
                     x' (cf_payload_bytes (tg_fields (tl_groups L ! gi') ! fi'))"
proof -
  have n: "0 \<le> n" using assms(2) by (auto simp: host_cache_storage_def result_simps)
  note off = host_field_offset_start [OF assms(2,3)] and off' = host_field_offset_start [OF assms(2,4)]
  have "0 \<le> host_start L (gi, b, fi) \<and> host_start L (gi, b, fi) + host_payload L (gi, b, fi) \<le> hs_buffer_bytes hs"
    unfolding off(2) using host_region.inside [of "(L, n, lease)" "(gi, b, fi)"] assms n by simp
  moreover have "disjoint_ranges (host_start L (gi, b, fi)) (host_payload L (gi, b, fi)) (host_start L (gi', b', fi')) (host_payload L (gi', b', fi'))"
    using host_region.apart [of "(L, n, lease)" "(gi, b, fi)" "(gi', b', fi')"] assms n by simp
  ultimately show ?thesis using off(1) off'(1) by (simp add: host_payload_def)
qed

section \<open>Merged layouts\<close>

lemma field_locations_iff:
  "(i, gid, f) \<in> set (field_locations L) \<longleftrightarrow> (\<exists>g \<in> set (tl_groups L). tg_group_id g = gid \<and> f \<in> set (tg_fields g) \<and> cf_field_id f = i)"
  by (force simp: field_locations_def)

lemma layout_fields_iff: "f \<in> set (layout_fields L) \<longleftrightarrow> (\<exists>gid. (cf_field_id f, gid, f) \<in> set (field_locations L))"
  by (auto simp: layout_fields_def field_locations_iff)

lemma merge_group_Inr:
  assumes "merge_group tgs dgs al gid = Inr g"
  shows "tg_group_id g = gid" and "group_wf g"
    and "f \<in> set (tg_fields g) \<longleftrightarrow> (\<exists>h. map_of tgs gid = Some h \<and> f \<in> set (tg_fields h)) \<or>
           (\<exists>h. map_of dgs gid = Some h \<and> f \<in> set (tg_fields h) \<and> cf_field_id f \<notin> al)"
    and "tg_cache_blocks_per_lcm_block g = (case map_of tgs gid of Some h \<Rightarrow> tg_cache_blocks_per_lcm_block h
           | None \<Rightarrow> tg_cache_blocks_per_lcm_block (the (map_of dgs gid)))"
  using assms by (auto simp: merge_group_def Let_def result_simps split: option.splits)

lemma merged_group_ids_Inr:
  assumes "merged_group_ids ts ds gids = Inr ids" and "distinct ts" and "distinct ds"
  shows "distinct ids" and "set ids = set ts \<union> set ds"
  using assms by (auto simp: merged_group_ids_def result_simps split: option.splits)

lemma map_of_dict_update_mem: "map_of (dict_update [] xs) k = Some v \<Longrightarrow> (k, v) \<in> set xs"
  by (auto simp: dict_update_conv dest: map_of_SomeD)

lemma combine_stages:
  assumes "combine_cache_transfer_layouts target (Some draft) gids = Inr C"
  obtains "C = target" "tl_groups target = tl_groups draft" "tl_consumers target = tl_consumers draft"
  | ids groups where
      "merged_group_ids (map fst (dict_by tg_group_id (tl_groups target))) (map fst (dict_by tg_group_id (tl_groups draft))) gids = Inr ids"
      "check_aliases target draft (set (map cf_field_id (layout_fields target)) \<inter> set (map cf_field_id (layout_fields draft))) = Inr ()"
      "list_all2 (\<lambda>i g. merge_group (dict_by tg_group_id (tl_groups target)) (dict_by tg_group_id (tl_groups draft))
          (set (map cf_field_id (layout_fields target)) \<inter> set (map cf_field_id (layout_fields draft))) i = Inr g) ids groups"
      "tl_groups C = groups" "check_transfer_layout C = Inr C"
      "\<not> list_ex (\<lambda>(group_id, draft_group).
          case map_of (dict_by tg_group_id (tl_groups target)) group_id of None \<Rightarrow> False
          | Some target_group \<Rightarrow> tg_cache_blocks_per_lcm_block draft_group \<noteq>
                                 tg_cache_blocks_per_lcm_block target_group) (dict_by tg_group_id (tl_groups draft))"
proof -
  have self: "D' = D" if "check_transfer_layout D = Inr D'" for D D'
    using that unfolding check_transfer_layout_def Let_def bindE_Inr_iff raise_if_Inr_iff by blast
  show ?thesis
  proof (cases "tl_groups target = tl_groups draft \<and> tl_consumers target = tl_consumers draft \<and> tl_buffers target = tl_buffers draft")
    case True
    then have "C = target" using assms
      by (simp add: combine_cache_transfer_layouts_def raise_if_Inr_iff)
    then show ?thesis using True that(1) by blast
  next
    case False
    note A = assms [unfolded combine_cache_transfer_layouts_def option.case if_not_P [OF False] Let_def
        bindE_Inr_iff raise_if_Inr_iff mapE_Inr_iff]
    let ?T = "dict_by tg_group_id (tl_groups target)" and ?D = "dict_by tg_group_id (tl_groups draft)"
    let ?al = "set (map cf_field_id (layout_fields target)) \<inter> set (map cf_field_id (layout_fields draft))"
    from A obtain ids u groups where
      "merged_group_ids (map fst ?T) (map fst ?D) gids = Inr ids" "check_aliases target draft ?al = Inr u"
      "list_all2 (\<lambda>i g. merge_group ?T ?D ?al i = Inr g) ids groups"
      and ck: "check_transfer_layout \<lparr>tl_num_lcm_blocks = tl_num_lcm_blocks target, tl_groups = groups,
         tl_buffers = tl_buffers target, tl_consumers = tl_consumers target @
           map (filter (\<lambda>field_id. field_id \<notin> ?al)) (tl_consumers draft)\<rparr> = Inr C"
      by (elim conjE exE) blast
    moreover have "\<not> list_ex (\<lambda>(group_id, draft_group). case map_of ?T group_id of None \<Rightarrow> False
          | Some target_group \<Rightarrow> tg_cache_blocks_per_lcm_block draft_group \<noteq>
                                 tg_cache_blocks_per_lcm_block target_group) ?D"
      using A by (elim conjE)
    ultimately show ?thesis using that(2) [of ids groups] ck self [OF ck] by simp
  qed
qed

lemma dict_by_keys: "set (map fst (dict_by key xs)) = key ` set xs" "distinct (map fst (dict_by key xs))"
  unfolding dict_by_def
  by (simp_all only: dict_update_keys distinct_dict_update list.map distinct.simps) (auto simp: image_image)

lemma wf_group_lookup:
  "layout_wf L \<Longrightarrow> map_of (dict_by tg_group_id (tl_groups L)) gid = Some g \<longleftrightarrow> g \<in> set (tl_groups L) \<and> tg_group_id g = gid"
  by (rule dict_by_lookup) (simp add: layout_wf_def)

lemma aliased_locations:
  assumes "check_aliases target draft al = Inr ()" and "(i, loc) \<in> set (field_locations draft)" and "i \<in> al"
  shows "(i, loc) \<in> set (field_locations target)"
proof -
  have "map_of (dict_update [] (field_locations target)) i = Some loc"
    using assms by (force simp: check_aliases_def Let_def raise_if_Inr_iff list_ex_iff split: if_splits)
  then show ?thesis by (rule map_of_dict_update_mem)
qed

lemma merged_locations:
  assumes T: "layout_wf target" and D: "layout_wf draft"
    and ids: "merged_group_ids (map fst (dict_by tg_group_id (tl_groups target))) (map fst (dict_by tg_group_id (tl_groups draft))) gids = Inr ids"
    and al: "al = set (map cf_field_id (layout_fields target)) \<inter> set (map cf_field_id (layout_fields draft))"
    and ck: "check_aliases target draft al = Inr ()"
    and all: "list_all2 (\<lambda>i g. merge_group (dict_by tg_group_id (tl_groups target)) (dict_by tg_group_id (tl_groups draft)) al i = Inr g)
       ids (tl_groups C)"
  shows "set (field_locations C) = set (field_locations target) \<union> set (field_locations draft)"
proof -
  let ?T = "dict_by tg_group_id (tl_groups target)" and ?D = "dict_by tg_group_id (tl_groups draft)"
  have set_ids: "set ids = tg_group_id ` set (tl_groups target) \<union> tg_group_id ` set (tl_groups draft)"
    using merged_group_ids_Inr(2) [OF ids dict_by_keys(2) dict_by_keys(2)] by (simp only: dict_by_keys(1))
  have member: "(i, gid, f) \<in> set (field_locations C) \<longleftrightarrow>
      (i, gid, f) \<in> set (field_locations target) \<or> ((i, gid, f) \<in> set (field_locations draft) \<and> i \<notin> al)" for i gid f
  proof
    assume "(i, gid, f) \<in> set (field_locations C)"
    then obtain g where g: "g \<in> set (tl_groups C)" "tg_group_id g = gid" "f \<in> set (tg_fields g)" "cf_field_id f = i"
      by (auto simp: field_locations_iff)
    from list_all2_right [OF all g(1)] obtain k where m: "merge_group ?T ?D al k = Inr g" by blast
    note M = merge_group_Inr [OF m]
    have "k = gid" using M(1) g(2) by simp
    with M(3) [of f] g show "(i, gid, f) \<in> set (field_locations target) \<or> ((i, gid, f) \<in> set (field_locations draft) \<and> i \<notin> al)"
      by (auto simp: field_locations_iff wf_group_lookup [OF T] wf_group_lookup [OF D])
  next
    assume R: "(i, gid, f) \<in> set (field_locations target) \<or> ((i, gid, f) \<in> set (field_locations draft) \<and> i \<notin> al)"
    then have "gid \<in> set ids" unfolding set_ids by (auto simp: field_locations_iff)
    from list_all2_left [OF all this] obtain g where g: "g \<in> set (tl_groups C)" and m: "merge_group ?T ?D al gid = Inr g" by blast
    note M = merge_group_Inr [OF m]
    have "f \<in> set (tg_fields g)"
      using R unfolding M(3) by (auto simp: field_locations_iff wf_group_lookup [OF T] wf_group_lookup [OF D])
    moreover have "cf_field_id f = i" using R by (auto simp: field_locations_iff)
    ultimately show "(i, gid, f) \<in> set (field_locations C)" using g M(1) unfolding field_locations_iff by blast
  qed
  show ?thesis
  proof (intro set_eqI)
    fix x :: "string \<times> string \<times> transfer_field"
    obtain i gid f where x: "x = (i, gid, f)" by (metis prod_cases3)
    show "x \<in> set (field_locations C) \<longleftrightarrow> x \<in> set (field_locations target) \<union> set (field_locations draft)"
      unfolding x member using aliased_locations [OF ck, of i "(gid, f)"] by blast
  qed
qed

text \<open>C25: merging views. Combining a well-formed target layout with a well-formed draft layout, when it is
  accepted, gives a well-formed layout whose rows are exactly the rows of both views: every field keeps
  its group, its Device address and its payload, a field the views share is kept once, and every group
  keeps its packing.\<close>

theorem combine_layouts_union:
  assumes "layout_wf target" and "layout_wf draft"
    and "combine_cache_transfer_layouts target (Some draft) group_ids = Inr C"
  shows "layout_wf C \<and>
    set (field_locations C) = set (field_locations target) \<union> set (field_locations draft) \<and>
    (\<forall>g \<in> set (tl_groups C). \<exists>h \<in> set (tl_groups target) \<union> set (tl_groups draft).
       tg_group_id h = tg_group_id g \<and> tg_cache_blocks_per_lcm_block h = tg_cache_blocks_per_lcm_block g)"
  using assms(3)
proof (rule combine_stages)
  assume "C = target" and "tl_groups target = tl_groups draft"
  then show ?thesis using assms(1) by (auto simp: field_locations_def)
next
  let ?T = "dict_by tg_group_id (tl_groups target)" and ?D = "dict_by tg_group_id (tl_groups draft)"
  let ?al = "set (map cf_field_id (layout_fields target)) \<inter> set (map cf_field_id (layout_fields draft))"
  fix ids groups
  assume ids: "merged_group_ids (map fst ?T) (map fst ?D) group_ids = Inr ids"
    and ck: "check_aliases target draft ?al = Inr ()"
    and all: "list_all2 (\<lambda>i g. merge_group ?T ?D ?al i = Inr g) ids groups" and C: "tl_groups C = groups"
    and lay: "check_transfer_layout C = Inr C"
  have loc: "set (field_locations C) = set (field_locations target) \<union> set (field_locations draft)"
    by (rule merged_locations [OF assms(1,2) ids refl ck all [folded C]])
  have "field_wf f" if f: "f \<in> set (layout_fields C)" for f
  proof -
    have "f \<in> set (layout_fields target) \<or> f \<in> set (layout_fields draft)"
      using f unfolding layout_fields_iff loc by blast
    then show ?thesis using assms(1,2) by (auto simp: layout_wf_def)
  qed
  moreover have gwf: "group_wf g" if "g \<in> set (tl_groups C)" for g
    using list_all2_right [OF all that [unfolded C]] merge_group_Inr(2) by blast
  ultimately have "layout_wf C" using lay check_transfer_layout_Inr [of C C] by blast
  moreover have "\<exists>h \<in> set (tl_groups target) \<union> set (tl_groups draft).
       tg_group_id h = tg_group_id g \<and> tg_cache_blocks_per_lcm_block h = tg_cache_blocks_per_lcm_block g"
    if g: "g \<in> set (tl_groups C)" for g
  proof -
    from list_all2_right [OF all g [unfolded C]] obtain k where m: "merge_group ?T ?D ?al k = Inr g" by blast
    note M = merge_group_Inr [OF m]
    have "tg_fields g \<noteq> []" using gwf [OF g] by (simp add: group_wf_def)
    then obtain f where f: "f \<in> set (tg_fields g)" by (cases "tg_fields g") auto
    show ?thesis
    proof (cases "map_of ?T k")
      case (Some h)
      then show ?thesis using M(1,4) wf_group_lookup [OF assms(1), of k h] by auto
    next
      case None
      then obtain h where "map_of ?D k = Some h" using M(3) [of f] f by auto
      then show ?thesis using None M(1,4) wf_group_lookup [OF assms(2), of k h] by auto
    qed
  qed
  ultimately show ?thesis using loc by blast
qed

section \<open>Concrete layouts\<close>

definition demo_row :: "string \<Rightarrow> int \<Rightarrow> int \<Rightarrow> transfer_field" where
  "demo_row fid zero bytes = \<lparr>cf_field_id = fid, cf_device_buffer_index = 0, cf_device_block_zero_offset_bytes = zero,
     cf_block_stride_bytes = bytes, cf_payload_bytes = bytes\<rparr>"

definition demo_target :: transfer_layout where
  "demo_target = \<lparr>tl_num_lcm_blocks = 3,
     tl_groups = [\<lparr>tg_group_id = ''a'', tg_cache_blocks_per_lcm_block = 2,
                   tg_fields = [demo_row ''layer.0.k'' 6 6, demo_row ''layer.0.s'' 51 3]\<rparr>],
     tl_buffers = [1], tl_consumers = [[''layer.0.k'', ''layer.0.s'']]\<rparr>"

definition demo_draft :: transfer_layout where
  "demo_draft = \<lparr>tl_num_lcm_blocks = 3,
     tl_groups = [\<lparr>tg_group_id = ''b'', tg_cache_blocks_per_lcm_block = 3, tg_fields = [demo_row ''layer.1.k'' 8 4]\<rparr>],
     tl_buffers = [1], tl_consumers = [[''layer.1.k'']]\<rparr>"

lemma demo_target_view:
  "layout_from_lcm_plan demo_plan 1 [[''layer.0.k'', ''layer.0.s'']] None (Some {''layer.0.k'', ''layer.0.s''}) = Inr demo_target"
  by code_simp

lemma demo_draft_view:
  "layout_from_lcm_plan demo_plan 1 [[''layer.1.k'']] None (Some {''layer.1.k''}) = Inr demo_draft"
  by code_simp

lemma demo_layouts_wf: "layout_wf demo_target" "layout_wf demo_draft"
  using layout_from_plan_wf [OF demo_plan_ok demo_target_view] layout_from_plan_wf [OF demo_plan_ok demo_draft_view] .

theorem transfer_view_addresses_witness:
  "\<exists>L. layout_from_lcm_plan demo_plan 1 [[''layer.0.k'', ''layer.0.s'']] None (Some {''layer.0.k'', ''layer.0.s''}) = Inr L \<and>
     layout_wf L"
proof -
  have sel: "select_layer_fields (mp_fields demo_plan) 0 1 =
      Inr ({''layer.0.k'', ''layer.0.s''}, [[''layer.0.k'', ''layer.0.s'']])" by code_simp
  have ids: "\<forall>g \<in> set (mp_groups demo_plan). gl_group_id g \<noteq> []" by code_simp
  show ?thesis using transfer_view_addresses [OF demo_plan_ok sel _ ids, of 1] by blast
qed

theorem host_blocks_isolated_witness:
  "\<exists>hs x x'. host_cache_storage demo_target 2 = Inr hs \<and> host_field_offset hs 0 1 0 = Inr x \<and>
     host_field_offset hs 0 1 1 = Inr x' \<and> disjoint_ranges x 6 x' 3"
proof -
  let ?lease = "\<lambda>_ :: int. Some (0 :: nat)"
  obtain hs where hs: "host_cache_storage demo_target 2 = Inr hs" by (simp add: host_cache_storage_def compute_host_layout_def)
  have m: "(0, 1, 0) \<in> host_regions demo_target 2 ?lease" "(0, 1, 1) \<in> host_regions demo_target 2 ?lease"
    by (simp_all add: host_regions_def demo_target_def)
  have b: "cf_payload_bytes (tg_fields (tl_groups demo_target ! 0) ! 0) = 6"
    "cf_payload_bytes (tg_fields (tl_groups demo_target ! 0) ! 1) = 3" by code_simp+
  have ne: "(0 :: nat, 1 :: int, 0 :: nat) \<noteq> (0, 1, 1)" by simp
  obtain x x' where "host_field_offset hs (int 0) 1 (int 0) = Inr x" "host_field_offset hs (int 0) 1 (int 1) = Inr x'"
    "disjoint_ranges x 6 x' 3"
    using host_blocks_isolated [OF demo_layouts_wf(1) hs m ne] unfolding b by (elim exE conjE)
  then show ?thesis using hs by (intro exI [of _ hs] exI [of _ x] exI [of _ x'] conjI) simp_all
qed

theorem combine_layouts_union_witness:
  "\<exists>C. combine_cache_transfer_layouts demo_target (Some demo_draft) (Some [''b'', ''a'']) = Inr C \<and>
     set (field_locations C) = set (field_locations demo_target) \<union> set (field_locations demo_draft)"
proof -
  obtain C where C: "combine_cache_transfer_layouts demo_target (Some demo_draft) (Some [''b'', ''a'']) = Inr C"
  proof -
    have "is_ok (combine_cache_transfer_layouts demo_target (Some demo_draft) (Some [''b'', ''a'']))" by code_simp
    then show ?thesis using that by auto
  qed
  show ?thesis using combine_layouts_union [OF demo_layouts_wf C] C by blast
qed

end
