(* ===== verification/Host_Transfer.thy ===== *)
theory Host_Transfer
  imports Transfer_Layout
begin

text \<open>
  The Host-copy machinery: the static field geometry (\<^verbatim>\<open>build_transfer_geometry\<close> of
  \<^verbatim>\<open>cache/transfer/lanes.py\<close> and \<^verbatim>\<open>build_host_transfer_geometry\<close> of the kernel package's
  \<^verbatim>\<open>ops/kvcache/host_transfer.py\<close>), the reusable workspace with its load and commit generations,
  the expansion of block pairs into byte ranges, and the DMA transport over byte memories.

  A pinned or Device table is \<^verbatim>\<open>None\<close> or a list of its capacity; a table allocated with
  \<^verbatim>\<open>torch.empty\<close> has unspecified entries, the argument \<open>junk\<close>. An operation that raises returns
  the workspace as the statements before the raise left it. A memory state holds the bytes of
  every Device buffer and of the Host buffer with their sizes.
\<close>

section \<open>Geometry\<close>

record geometry_row =
  gr_group_index :: int
  gr_device_buffer_index :: int
  gr_device_zero :: int
  gr_device_stride :: int
  gr_host_block_bytes :: int
  gr_host_field_offset :: int
  gr_packing :: int
  gr_payload_bytes :: int

definition HOST_CACHE_TRANSFER_CHUNK_BYTES :: int where "HOST_CACHE_TRANSFER_CHUNK_BYTES = 4096"

record transfer_geometry =
  tm_rows :: "geometry_row list"
  tm_bound_device :: "int option"
  tm_layer_slices :: "(int \<times> int) list"
  tm_group_packing :: "int list"
  tm_host_lcm_block_bytes :: int
  tm_num_host_lcm_blocks :: int
  tm_num_device_lcm_blocks :: int
  tm_row_work :: "(int \<times> int) list"

definition max_device_block_id :: "transfer_geometry \<Rightarrow> nat \<Rightarrow> int" where
  "max_device_block_id gm group_index = tm_num_device_lcm_blocks gm * tm_group_packing gm ! group_index"

definition max_host_block_id :: "transfer_geometry \<Rightarrow> nat \<Rightarrow> int" where
  "max_host_block_id gm group_index = tm_num_host_lcm_blocks gm * tm_group_packing gm ! group_index"

definition bind_geometry :: "transfer_geometry \<Rightarrow> int \<Rightarrow> transfer_geometry result" where
  "bind_geometry gm device =
     (case tm_bound_device gm of
        Some d \<Rightarrow> raise_if (d \<noteq> device) (ValueError ''geometry is already bound to another device'') (Inr gm)
      | None \<Rightarrow> Inr (gm\<lparr>tm_bound_device := Some device\<rparr>))"

definition validate_geometry_row :: "int list \<Rightarrow> int \<Rightarrow> int \<Rightarrow> geometry_row \<Rightarrow> unit result" where
  "validate_geometry_row group_packing num_device_buffers host_lcm_block_bytes row =
     raise_if (\<not> (0 \<le> gr_group_index row \<and> gr_group_index row < int (length group_packing)))
       (IndexError ''geometry row group outside'')
    (raise_if (\<not> (0 \<le> gr_device_buffer_index row \<and> gr_device_buffer_index row < num_device_buffers))
       (IndexError ''geometry row device_buffer_index outside'')
    (raise_if (gr_device_zero row < 0) (ValueError ''device_block_zero_offset_bytes must be non-negative'')
    (raise_if (gr_device_stride row \<le> 0) (ValueError ''device_block_stride_bytes must be positive'')
    (raise_if (gr_host_block_bytes row \<le> 0) (ValueError ''host_cache_block_bytes must be positive'')
    (raise_if (gr_host_field_offset row < 0) (ValueError ''host_field_offset_bytes must be non-negative'')
    (raise_if (gr_packing row \<noteq> group_packing ! nat (gr_group_index row))
       (ValueError ''cache_blocks_per_lcm_block != group packing'')
    (raise_if (gr_payload_bytes row \<le> 0) (ValueError ''payload_bytes must be positive'')
    (raise_if (gr_payload_bytes row > gr_device_stride row)
       (ValueError ''payload_bytes cannot exceed device_block_stride_bytes'')
    (raise_if (gr_host_field_offset row + gr_payload_bytes row > gr_host_block_bytes row)
       (ValueError ''field payload lies outside host cache block'')
    (raise_if (gr_packing row * gr_host_block_bytes row > host_lcm_block_bytes)
       (ValueError ''packed group lies outside host LCM block'') (Inr ())))))))))))"

definition slice_step :: "int \<Rightarrow> int \<times> int \<Rightarrow> int result" where
  "slice_step row_offset s =
     raise_if (fst s \<noteq> row_offset) (ValueError ''layer slice offset'')
    (raise_if (snd s < 0) (ValueError ''layer slice row counts must be non-negative'') (Inr (row_offset + snd s)))"

definition build_host_transfer_geometry ::
  "geometry_row list \<Rightarrow> (int \<times> int) list \<Rightarrow> int list \<Rightarrow> int \<Rightarrow> int \<Rightarrow> int \<Rightarrow> int \<Rightarrow> transfer_geometry result" where
  "build_host_transfer_geometry rows layer_slices group_packing host_lcm_block_bytes num_host_lcm_blocks
     num_device_lcm_blocks num_device_buffers =
     raise_if (rows = []) (ValueError ''geometry must contain at least one field row'')
    (raise_if (group_packing = []) (ValueError ''geometry must contain at least one cache group'')
    (raise_if (host_lcm_block_bytes \<le> 0) (ValueError ''host_lcm_block_bytes must be positive'')
    (raise_if (num_host_lcm_blocks \<le> 0) (ValueError ''num_host_lcm_blocks must be positive'')
    (raise_if (num_device_lcm_blocks \<le> 0) (ValueError ''num_device_lcm_blocks must be positive'')
    (raise_if (num_device_buffers \<le> 0) (ValueError ''num_device_buffers must be positive'')
    (raise_if (list_ex (\<lambda>packing. packing \<le> 0) group_packing) (ValueError ''group_packing entries must be positive'')
    (bindE (mapE (validate_geometry_row group_packing num_device_buffers host_lcm_block_bytes) rows) (\<lambda>_.
     bindE (foldE slice_step 0 layer_slices) (\<lambda>row_offset.
     raise_if (row_offset \<noteq> int (length rows)) (ValueError ''layer slices do not cover all geometry rows'')
       (Inr \<lparr>tm_rows = rows, tm_bound_device = None, tm_layer_slices = layer_slices,
             tm_group_packing = group_packing, tm_host_lcm_block_bytes = host_lcm_block_bytes,
             tm_num_host_lcm_blocks = num_host_lcm_blocks, tm_num_device_lcm_blocks = num_device_lcm_blocks,
             tm_row_work = map (\<lambda>row. (gr_group_index row,
               (gr_payload_bytes row + HOST_CACHE_TRANSFER_CHUNK_BYTES - 1) div HOST_CACHE_TRANSFER_CHUNK_BYTES))
               rows\<rparr>))))))))))"

text \<open>\<^verbatim>\<open>build_transfer_geometry\<close>: fields are indexed by id, then visited in consumer order.\<close>

type_synonym field_index = "(string \<times> nat \<times> nat \<times> transfer_group \<times> transfer_field) list"

definition indexed_fields :: "transfer_layout \<Rightarrow> (nat \<times> nat \<times> transfer_group \<times> transfer_field) list" where
  "indexed_fields L = concat (map (\<lambda>(gi, g). map (\<lambda>(fi, f). (gi, fi, g, f)) (enumerate 0 (tg_fields g)))
                                  (enumerate 0 (tl_groups L)))"

definition index_step :: "field_index \<Rightarrow> nat \<times> nat \<times> transfer_group \<times> transfer_field \<Rightarrow> field_index result" where
  "index_step fields_by_id entry =
     (case entry of (gi, fi, g, f) \<Rightarrow>
        raise_if (cf_field_id f \<in> set (map fst fields_by_id)) (ValueError ''cache transfer field appears twice'')
          (Inr (AList.update (cf_field_id f) entry fields_by_id)))"

definition row_step ::
  "host_storage \<Rightarrow> field_index \<Rightarrow> geometry_row list \<times> string set \<Rightarrow> string \<Rightarrow> (geometry_row list \<times> string set) result" where
  "row_step hs fields_by_id st field_id =
     (case st of (rows, consumed) \<Rightarrow>
        raise_if (field_id \<in> consumed) (ValueError ''cache transfer field has two consumers'')
       (case map_of fields_by_id field_id of
          None \<Rightarrow> Inl (ValueError ''cache consumer references unknown field'')
        | Some (gi, fi, g, f) \<Rightarrow>
            bindE (list_at (hs_cache_block_bytes hs) (int gi)) (\<lambda>block_bytes.
            bindE (list_at (hs_field_offsets hs) (int gi)) (\<lambda>offsets.
            bindE (list_at offsets (int fi)) (\<lambda>field_offset.
            Inr (rows @ [\<lparr>gr_group_index = int gi, gr_device_buffer_index = cf_device_buffer_index f,
                          gr_device_zero = cf_device_block_zero_offset_bytes f,
                          gr_device_stride = cf_block_stride_bytes f, gr_host_block_bytes = block_bytes,
                          gr_host_field_offset = field_offset, gr_packing = tg_cache_blocks_per_lcm_block g,
                          gr_payload_bytes = cf_payload_bytes f\<rparr>],
                 insert field_id consumed))))))"

definition consumer_step ::
  "host_storage \<Rightarrow> field_index \<Rightarrow> (geometry_row list \<times> string set) \<times> (int \<times> int) list \<Rightarrow> string list \<Rightarrow>
   ((geometry_row list \<times> string set) \<times> (int \<times> int) list) result" where
  "consumer_step hs fields_by_id st consumer =
     (case st of (rows_consumed, layer_slices) \<Rightarrow>
        let layer_offset = int (length (fst rows_consumed)) in
        bindE (foldE (row_step hs fields_by_id) rows_consumed consumer) (\<lambda>rc.
        Inr (rc, layer_slices @ [(layer_offset, int (length (fst rc)) - layer_offset)])))"

definition build_transfer_geometry ::
  "transfer_layout \<Rightarrow> host_storage \<Rightarrow> bool \<Rightarrow> int \<Rightarrow> transfer_geometry result" where
  "build_transfer_geometry L hs kernel_backend device =
     bindE (foldE index_step [] (indexed_fields L)) (\<lambda>fields_by_id.
     bindE (foldE (consumer_step hs fields_by_id) (([], {}), []) (tl_consumers L)) (\<lambda>((rows, consumed), layer_slices).
     raise_if (\<not> set (map fst fields_by_id) \<subseteq> consumed) (ValueError ''cache transfer fields have no consumer'')
    (bindE (build_host_transfer_geometry rows layer_slices (map tg_cache_blocks_per_lcm_block (tl_groups L))
              (hs_lcm_block_bytes hs) (hs_num_lcm_blocks hs) (tl_num_lcm_blocks L) (int (length (tl_buffers L)))) (\<lambda>gm.
     if kernel_backend then bind_geometry gm device else Inr gm))))"

section \<open>The workspace\<close>

record workspace =
  ws_block_host :: "(int \<times> int) list option"
  ws_block_device :: "(int \<times> int) list option"
  ws_offsets_host :: "int list option"
  ws_offsets_device :: "int list option"
  ws_num_loaded :: int
  ws_num_committed :: int
  ws_offsets_count :: int
  ws_load_generation :: int
  ws_commit_generation :: int

definition new_workspace :: workspace where
  "new_workspace = \<lparr>ws_block_host = None, ws_block_device = None, ws_offsets_host = None, ws_offsets_device = None,
     ws_num_loaded = 0, ws_num_committed = 0, ws_offsets_count = 0, ws_load_generation = 0, ws_commit_generation = -1\<rparr>"

definition invalidate_block_commit :: "workspace \<Rightarrow> workspace" where
  "invalidate_block_commit ws = ws\<lparr>ws_load_generation := ws_load_generation ws + 1, ws_num_committed := 0,
     ws_offsets_count := 0, ws_commit_generation := -1\<rparr>"

definition require_committed_block_state :: "workspace \<Rightarrow> unit result" where
  "require_committed_block_state ws =
     raise_if (ws_commit_generation ws \<noteq> ws_load_generation ws)
       (ValueError ''block transfers are not committed for the current load'') (Inr ())"

definition require_loaded_block_state :: "workspace \<Rightarrow> int \<Rightarrow> unit result" where
  "require_loaded_block_state ws num_blocks =
     raise_if (ws_commit_generation ws = ws_load_generation ws)
       (ValueError ''block transfers already committed for this load'')
    (raise_if (num_blocks \<noteq> ws_num_loaded ws)
       (ValueError ''num_blocks must equal the number of rows loaded for this generation'') (Inr ()))"

text \<open>A table with room for \<open>needed\<close> entries, and a copy into its first entries.\<close>

definition ensure_table :: "'a \<Rightarrow> 'a list option \<Rightarrow> nat \<Rightarrow> 'a list" where
  "ensure_table junk table needed =
     (case table of
        None \<Rightarrow> replicate needed junk
      | Some xs \<Rightarrow> if length xs < needed then replicate (max needed (length xs * 2)) junk else xs)"

definition copy_prefix :: "'a list \<Rightarrow> 'a list \<Rightarrow> 'a list" where
  "copy_prefix table xs = xs @ drop (length xs) table"

definition validate_block_transfer :: "transfer_geometry \<Rightarrow> int \<times> int \<times> int \<Rightarrow> unit result" where
  "validate_block_transfer gm t =
     (case t of (group_index, device_block_id, host_block_id) \<Rightarrow>
        raise_if (\<not> (0 \<le> group_index \<and> group_index < int (length (tm_group_packing gm)))) (IndexError ''group outside'')
       (raise_if (device_block_id \<le> 0 \<or> host_block_id \<le> 0)
          (ValueError ''device_block_id and host_block_id must be 1-based positive integers'')
       (raise_if (device_block_id > max_device_block_id gm (nat group_index)) (IndexError ''device_block_id outside'')
       (raise_if (host_block_id > max_host_block_id gm (nat group_index)) (IndexError ''host_block_id outside'')
          (Inr ())))))"

definition bucket_step ::
  "transfer_geometry \<Rightarrow> (int \<times> int) list list \<Rightarrow> int \<times> int \<times> int \<Rightarrow> (int \<times> int) list list result" where
  "bucket_step gm buckets t =
     bindE (validate_block_transfer gm t) (\<lambda>_.
     case t of (group_index, pair) \<Rightarrow>
       Inr (buckets[nat group_index := buckets ! nat group_index @ [pair]]))"

fun group_offsets_from :: "int \<Rightarrow> (int \<times> int) list list \<Rightarrow> int list" where
  "group_offsets_from n [] = [n]"
| "group_offsets_from n (b # bs) = n # group_offsets_from (n + int (length b)) bs"

definition load_block_transfers ::
  "int \<Rightarrow> workspace \<Rightarrow> (int \<times> int \<times> int) list \<Rightarrow> transfer_geometry \<Rightarrow> workspace \<times> (int \<times> int list) result" where
  "load_block_transfers junk ws0 transfers gm =
     (let ws = invalidate_block_commit ws0; group_offset_count = length (tm_group_packing gm) + 1 in
      if transfers = [] then
        let offsets = replicate group_offset_count 0;
            host_offsets = ensure_table junk (ws_offsets_host ws) group_offset_count
        in (ws\<lparr>ws_num_loaded := 0, ws_offsets_count := int group_offset_count,
               ws_offsets_host := Some (copy_prefix host_offsets offsets)\<rparr>, Inr (0, offsets))
      else case foldE (bucket_step gm) (replicate (length (tm_group_packing gm)) []) transfers of
        Inl e \<Rightarrow> (ws, Inl e)
      | Inr buckets \<Rightarrow>
          let flat_rows = concat buckets; group_offsets = group_offsets_from 0 buckets;
              host = ensure_table (junk, junk) (ws_block_host ws) (length flat_rows);
              offsets = ensure_table junk (ws_offsets_host ws) group_offset_count
          in (ws\<lparr>ws_block_host := Some (copy_prefix host flat_rows),
                 ws_offsets_host := Some (copy_prefix offsets group_offsets),
                 ws_num_loaded := int (length flat_rows), ws_offsets_count := int group_offset_count\<rparr>,
              Inr (int (length flat_rows), group_offsets)))"

definition commit_block_transfers ::
  "int \<Rightarrow> workspace \<Rightarrow> int \<Rightarrow> workspace \<times> ((int \<times> int) list \<times> int list) result" where
  "commit_block_transfers junk ws num_blocks =
     (case bindE (require_loaded_block_state ws num_blocks) (\<lambda>_.
         raise_if (num_blocks \<le> 0) (ValueError ''num_blocks must be positive'')
        (case (ws_block_host ws, ws_offsets_host ws) of
           (None, _) \<Rightarrow> Inl (ValueError ''block host table is empty'')
         | (Some _, None) \<Rightarrow> Inl (ValueError ''block group offsets are empty'')
         | (Some rows, Some offs) \<Rightarrow>
             raise_if (ws_offsets_count ws \<le> 0) (ValueError ''block group offsets are empty'') (Inr (rows, offs)))) of
        Inl e \<Rightarrow> (ws, Inl e)
      | Inr (rows, offs) \<Rightarrow>
          let n = nat num_blocks; k = nat (ws_offsets_count ws);
              block_device = copy_prefix (ensure_table (junk, junk) (ws_block_device ws) n) (take n rows);
              offsets_device = copy_prefix (ensure_table junk (ws_offsets_device ws) k) (take k offs)
          in (ws\<lparr>ws_block_device := Some block_device, ws_offsets_device := Some offsets_device,
                 ws_num_committed := num_blocks, ws_commit_generation := ws_load_generation ws\<rparr>,
              Inr (take n block_device, take k offsets_device)))"

definition block_group_offsets_device :: "workspace \<Rightarrow> int list result" where
  "block_group_offsets_device ws =
     bindE (require_committed_block_state ws) (\<lambda>_.
     case ws_offsets_device ws of
       None \<Rightarrow> Inl (ValueError ''block group offsets are empty'')
     | Some offs \<Rightarrow> raise_if (ws_offsets_count ws \<le> 0) (ValueError ''block group offsets are empty'')
         (Inr (take (nat (ws_offsets_count ws)) offs)))"

definition committed_block_tables :: "workspace \<Rightarrow> int \<Rightarrow> ((int \<times> int) list \<times> int list) result" where
  "committed_block_tables ws num_blocks =
     bindE (require_committed_block_state ws) (\<lambda>_.
     raise_if (num_blocks \<noteq> ws_num_committed ws) (ValueError ''num_blocks must equal committed block count'')
    (case ws_block_device ws of
       None \<Rightarrow> Inl (ValueError ''block device table is empty'')
     | Some rows \<Rightarrow> bindE (block_group_offsets_device ws) (\<lambda>offs. Inr (take (nat num_blocks) rows, offs))))"

definition host_block_rows :: "workspace \<Rightarrow> int \<Rightarrow> (int \<times> int) list result" where
  "host_block_rows ws num_blocks =
     raise_if (num_blocks \<noteq> ws_num_loaded ws)
       (ValueError ''num_blocks must equal the number of rows loaded for this generation'')
    (case ws_block_host ws of
       None \<Rightarrow> Inl (ValueError ''block host table is empty'')
     | Some rows \<Rightarrow> Inr (take (nat num_blocks) rows))"

definition block_group_offsets_host :: "workspace \<Rightarrow> int list result" where
  "block_group_offsets_host ws =
     (case ws_offsets_host ws of
        None \<Rightarrow> Inl (ValueError ''block group offsets are empty'')
      | Some offs \<Rightarrow> raise_if (ws_offsets_count ws \<le> 0) (ValueError ''block group offsets are empty'')
          (Inr (take (nat (ws_offsets_count ws)) offs)))"

section \<open>Byte ranges and the DMA transport\<close>

type_synonym byte_range = "int \<times> int \<times> int \<times> int"

definition pair_range :: "int \<Rightarrow> geometry_row \<Rightarrow> int \<times> int \<Rightarrow> byte_range" where
  "pair_range host_lcm_block_bytes row pair =
     (gr_device_buffer_index row,
      gr_device_zero row + fst pair * gr_device_stride row,
      (snd pair - 1) div gr_packing row * host_lcm_block_bytes
        + (snd pair - 1) mod gr_packing row * gr_host_block_bytes row + gr_host_field_offset row,
      gr_payload_bytes row)"

definition group_slice :: "'a list \<Rightarrow> int list \<Rightarrow> int \<Rightarrow> 'a list" where
  "group_slice block_rows group_offsets group_index =
     (let start = nat (group_offsets ! nat group_index); stop = nat (group_offsets ! nat (group_index + 1))
      in drop start (take stop block_rows))"

definition make_block_ranges ::
  "transfer_geometry \<Rightarrow> workspace \<Rightarrow> int \<Rightarrow> nat \<Rightarrow> nat \<Rightarrow> byte_range list result" where
  "make_block_ranges gm ws num_blocks geometry_offset num_geometry_rows =
     (let geometry_rows = take num_geometry_rows (drop geometry_offset (tm_rows gm)) in
      bindE (host_block_rows ws num_blocks) (\<lambda>block_rows.
      bindE (block_group_offsets_host ws) (\<lambda>group_offsets.
      Inr (concat (map (\<lambda>row. map (pair_range (tm_host_lcm_block_bytes gm) row)
        (group_slice block_rows group_offsets (gr_group_index row))) geometry_rows)))))"

definition block_work_items :: "transfer_geometry \<Rightarrow> workspace \<Rightarrow> nat \<Rightarrow> nat \<Rightarrow> int result" where
  "block_work_items gm ws geometry_offset num_geometry_rows =
     bindE (block_group_offsets_host ws) (\<lambda>group_offsets.
     Inr (fold (\<lambda>(group_index, num_chunks) work_items.
       max work_items ((group_offsets ! nat (group_index + 1) - group_offsets ! nat group_index) * num_chunks))
       (take num_geometry_rows (drop geometry_offset (tm_row_work gm))) 0))"

datatype direction = D2H | H2D

record mem_state =
  ms_device :: "memory list"
  ms_device_bytes :: "int list"
  ms_host :: memory
  ms_host_bytes :: int

definition validate_range :: "mem_state \<Rightarrow> byte_range \<Rightarrow> unit result" where
  "validate_range ms r =
     (case r of (device_buffer_index, dev_off, host_off, num_bytes) \<Rightarrow>
        raise_if (\<not> (0 \<le> device_buffer_index \<and> device_buffer_index < int (length (ms_device ms))))
          (IndexError ''unknown device buffer'')
       (raise_if (dev_off < 0 \<or> host_off < 0 \<or> num_bytes \<le> 0)
          (ValueError ''cache transfer offsets must be non-negative and non-empty'')
       (raise_if (dev_off + num_bytes > ms_device_bytes ms ! nat device_buffer_index)
          (IndexError ''cache transfer range lies outside its device buffer'')
       (raise_if (host_off + num_bytes > ms_host_bytes ms)
          (IndexError ''cache transfer range lies outside Host buffer'') (Inr ())))))"

definition dma_copy :: "direction \<Rightarrow> byte_range \<Rightarrow> mem_state \<Rightarrow> mem_state" where
  "dma_copy dir r ms =
     (case r of (buffer_index, dev_off, host_off, num_bytes) \<Rightarrow>
        let i = nat buffer_index in
        case dir of
          D2H \<Rightarrow> ms\<lparr>ms_host := write_bytes (ms_host ms) host_off (read_bytes (ms_device ms ! i) dev_off num_bytes)\<rparr>
        | H2D \<Rightarrow> ms\<lparr>ms_device := (ms_device ms)[i :=
                     write_bytes (ms_device ms ! i) dev_off (read_bytes (ms_host ms) host_off num_bytes)]\<rparr>)"

definition transfer_dma :: "direction \<Rightarrow> byte_range list \<Rightarrow> mem_state \<Rightarrow> mem_state" where
  "transfer_dma dir ranges ms = fold (dma_copy dir) ranges ms"

definition transfer_cache_ranges :: "direction \<Rightarrow> byte_range list \<Rightarrow> mem_state \<Rightarrow> mem_state result" where
  "transfer_cache_ranges dir ranges ms =
     bindE (mapE (validate_range ms) ranges) (\<lambda>_. Inr (transfer_dma dir ranges ms))"

section \<open>Buckets\<close>

text \<open>The pairs of one group in submission order, and all groups.\<close>

definition group_pairs :: "(int \<times> int \<times> int) list \<Rightarrow> nat \<Rightarrow> (int \<times> int) list" where
  "group_pairs transfers gi = map snd (filter (\<lambda>t. fst t = int gi) transfers)"

definition buckets_of :: "transfer_geometry \<Rightarrow> (int \<times> int \<times> int) list \<Rightarrow> (int \<times> int) list list" where
  "buckets_of gm transfers = map (group_pairs transfers) [0..<length (tm_group_packing gm)]"

definition transfers_ok :: "transfer_geometry \<Rightarrow> (int \<times> int \<times> int) list \<Rightarrow> bool" where
  "transfers_ok gm transfers \<longleftrightarrow> (\<forall>(g, d, h) \<in> set transfers.
     0 \<le> g \<and> g < int (length (tm_group_packing gm)) \<and>
     1 \<le> d \<and> d \<le> max_device_block_id gm (nat g) \<and> 1 \<le> h \<and> h \<le> max_host_block_id gm (nat g))"

lemma validate_block_transfer_Inr:
  "validate_block_transfer gm t = Inr u \<longleftrightarrow> transfers_ok gm [t]"
  by (cases t) (auto simp: validate_block_transfer_def transfers_ok_def result_simps)

lemma bucket_fold:
  assumes "length bs = length (tm_group_packing gm)"
  shows "foldE (bucket_step gm) bs ts = Inr bs' \<longleftrightarrow>
     transfers_ok gm ts \<and> bs' = map (\<lambda>i. bs ! i @ group_pairs ts i) [0..<length bs]"
  using assms
proof (induction ts arbitrary: bs)
  case Nil
  have "map (\<lambda>i. bs ! i @ group_pairs [] i) [0..<length bs] = bs" by (simp add: group_pairs_def map_nth)
  then show ?case by (auto simp: transfers_ok_def)
next
  case (Cons t ts)
  obtain g pr where t: "t = (g, pr)" by (cases t) blast
  let ?bs = "bs[nat g := bs ! nat g @ [pr]]"
  have ok: "transfers_ok gm (t # ts) \<longleftrightarrow> transfers_ok gm [t] \<and> transfers_ok gm ts" by (auto simp: transfers_ok_def)
  have eq: "map (\<lambda>i. ?bs ! i @ group_pairs ts i) [0..<length bs] = map (\<lambda>i. bs ! i @ group_pairs (t # ts) i) [0..<length bs]"
    if "transfers_ok gm [t]"
  proof -
    have "0 \<le> g" using that t by (auto simp: transfers_ok_def)
    then show ?thesis by (auto simp: t group_pairs_def nth_list_update)
  qed
  show ?case
  proof (cases "transfers_ok gm [t]")
    case True
    then have "validate_block_transfer gm t = Inr ()" by (simp add: validate_block_transfer_Inr)
    then have fold: "foldE (bucket_step gm) bs (t # ts) = foldE (bucket_step gm) ?bs ts" by (simp add: bucket_step_def t)
    have len: "length ?bs = length (tm_group_packing gm)" "length ?bs = length bs" using Cons.prems by simp_all
    show ?thesis using Cons.IH [OF len(1)] True unfolding fold ok eq [OF True, symmetric] len(2) by simp
  next
    case False
    then obtain e where "validate_block_transfer gm t = Inl e"
      by (metis validate_block_transfer_Inr sum.exhaust_sel)
    then show ?thesis using False ok by (simp add: bucket_step_def)
  qed
qed

lemma buckets_result:
  "foldE (bucket_step gm) (replicate (length (tm_group_packing gm)) []) ts = Inr bs \<longleftrightarrow> transfers_ok gm ts \<and> bs = buckets_of gm ts"
proof -
  have "map (\<lambda>i. replicate (length (tm_group_packing gm)) [] ! i @ group_pairs ts i) [0..<length (tm_group_packing gm)] = buckets_of gm ts"
    by (simp add: buckets_of_def)
  then show ?thesis using bucket_fold [of "replicate (length (tm_group_packing gm)) []" gm ts bs] by simp
qed

lemma length_group_offsets [simp]: "length (group_offsets_from n bs) = Suc (length bs)"
  by (induction bs arbitrary: n) auto

lemma group_offsets_nth:
  "i \<le> length bs \<Longrightarrow> group_offsets_from n bs ! i = n + int (length (concat (take i bs)))"
proof (induction bs arbitrary: n i)
  case (Cons b bs)
  then show ?case by (cases i) auto
qed simp

lemma group_slice_bucket:
  assumes "i < length bs"
  shows "group_slice (concat bs) (group_offsets_from 0 bs) (int i) = bs ! i"
proof -
  have ends: "group_offsets_from 0 bs ! i = int (length (concat (take i bs)))"
      "group_offsets_from 0 bs ! Suc i = int (length (concat (take (Suc i) bs)))"
    using assms by (simp_all add: group_offsets_nth)
  have split: "concat bs = concat (take (Suc i) bs) @ concat (drop (Suc i) bs)"
    by (metis append_take_drop_id concat_append)
  have "take (length (concat (take (Suc i) bs))) (concat bs) = concat (take (Suc i) bs)" by (subst split) simp
  moreover have "concat (take (Suc i) bs) = concat (take i bs) @ bs ! i" using assms by (simp add: take_Suc_conv_app_nth)
  moreover have "nat (int i + 1) = Suc i" by simp
  ultimately show ?thesis by (simp add: group_slice_def Let_def ends nat_int_add)
qed

lemma length_concat_buckets:
  assumes "transfers_ok gm ts"
  shows "length (concat (buckets_of gm ts)) = length ts"
proof -
  have "(\<Sum>i<n. length (filter (\<lambda>t. fst t = int i) ts)) = length ts"
    if "\<forall>t \<in> set ts. 0 \<le> fst t \<and> fst t < int n" for n and ts :: "(int \<times> int \<times> int) list"
    using that
  proof (induction ts)
    case (Cons t ts)
    have "(\<Sum>i<n. length (filter (\<lambda>t. fst t = int i) (t # ts))) =
        (\<Sum>i<n. (if i = nat (fst t) then 1 else 0) + length (filter (\<lambda>t. fst t = int i) ts))"
      using Cons.prems by (intro sum.cong) auto
    also have "\<dots> = 1 + length ts" using Cons by (auto simp: sum.distrib)
    finally show ?case by simp
  qed simp
  moreover have "\<forall>t \<in> set ts. 0 \<le> fst t \<and> fst t < int (length (tm_group_packing gm))"
    using assms by (auto simp: transfers_ok_def)
  moreover have "length (concat (buckets_of gm ts)) = (\<Sum>i<length (tm_group_packing gm). length (filter (\<lambda>t. fst t = int i) ts))"
    by (simp add: buckets_of_def length_concat comp_def group_pairs_def interv_sum_list_conv_sum_set_nat atLeast0LessThan)
  ultimately show ?thesis by simp
qed

section \<open>Load and commit generations\<close>

text \<open>Reachable workspaces, with the last load if it was accepted.\<close>

inductive ws_reach :: "workspace \<Rightarrow> (transfer_geometry \<times> (int \<times> int \<times> int) list) option \<Rightarrow> bool" where
  fresh: "ws_reach new_workspace None"
| load: "ws_reach ws cur \<Longrightarrow> load_block_transfers junk ws ts gm = (ws', r) \<Longrightarrow>
         ws_reach ws' (case r of Inl _ \<Rightarrow> None | Inr _ \<Rightarrow> Some (gm, ts))"
| commit: "ws_reach ws cur \<Longrightarrow> commit_block_transfers junk ws n = (ws', r) \<Longrightarrow> ws_reach ws' cur"

definition holds_prefix :: "'a list option \<Rightarrow> 'a list \<Rightarrow> bool" where
  "holds_prefix table xs \<longleftrightarrow> (\<exists>t. table = Some t \<and> take (length xs) t = xs)"

definition ws_inv :: "workspace \<Rightarrow> (transfer_geometry \<times> (int \<times> int \<times> int) list) option \<Rightarrow> bool" where
  "ws_inv ws cur \<longleftrightarrow>
     0 \<le> ws_load_generation ws \<and>
     (case cur of
        None \<Rightarrow> ws_offsets_count ws = 0 \<and> ws_commit_generation ws = -1
      | Some (gm, ts) \<Rightarrow>
          transfers_ok gm ts \<and>
          ws_offsets_count ws = int (length (tm_group_packing gm)) + 1 \<and> ws_num_loaded ws = int (length ts) \<and>
          holds_prefix (ws_offsets_host ws) (group_offsets_from 0 (buckets_of gm ts)) \<and>
          (ts \<noteq> [] \<longrightarrow> holds_prefix (ws_block_host ws) (concat (buckets_of gm ts))) \<and>
          (ws_commit_generation ws = -1 \<or>
           ws_commit_generation ws = ws_load_generation ws \<and> ts \<noteq> [] \<and> ws_num_committed ws = int (length ts) \<and>
           holds_prefix (ws_block_device ws) (concat (buckets_of gm ts)) \<and>
           holds_prefix (ws_offsets_device ws) (group_offsets_from 0 (buckets_of gm ts))))"

lemma holds_copy [simp]: "holds_prefix (Some (copy_prefix t xs)) xs"
  by (simp add: holds_prefix_def copy_prefix_def)

lemma length_buckets [simp]: "length (buckets_of gm ts) = length (tm_group_packing gm)"
  by (simp add: buckets_of_def)

lemma offsets_empty: "group_offsets_from 0 (buckets_of gm []) = 0 # replicate (length (tm_group_packing gm)) 0"
proof -
  have "group_offsets_from 0 (replicate n []) = replicate (Suc n) 0" for n by (induction n) auto
  moreover have "buckets_of gm [] = replicate (length (tm_group_packing gm)) []"
    by (intro nth_equalityI) (simp_all add: buckets_of_def group_pairs_def)
  ultimately show ?thesis by simp
qed

lemma load_inv:
  assumes "ws_inv ws cur" and "load_block_transfers junk ws ts gm = (ws', r)"
  shows "ws_inv ws' (case r of Inl _ \<Rightarrow> None | Inr _ \<Rightarrow> Some (gm, ts))"
proof (cases "ts = []")
  case True
  then show ?thesis using assms
    by (auto simp: load_block_transfers_def Let_def invalidate_block_commit_def ws_inv_def transfers_ok_def
        offsets_empty)
next
  case False
  show ?thesis
  proof (cases "foldE (bucket_step gm) (replicate (length (tm_group_packing gm)) []) ts")
    case (Inl e)
    then show ?thesis using assms False
      by (auto simp: load_block_transfers_def Let_def invalidate_block_commit_def ws_inv_def)
  next
    case (Inr bs)
    then have "transfers_ok gm ts" "bs = buckets_of gm ts" using buckets_result by blast+
    then show ?thesis using assms False Inr
      by (auto simp: load_block_transfers_def Let_def invalidate_block_commit_def ws_inv_def length_concat_buckets)
  qed
qed

lemma commit_inv:
  assumes "ws_inv ws cur" and "commit_block_transfers junk ws n = (ws', r)"
  shows "ws_inv ws' cur"
proof (cases r)
  case (Inl e)
  then have "ws' = ws" using assms(2)
    by (auto simp: commit_block_transfers_def Let_def split: sum.splits prod.splits)
  then show ?thesis using assms(1) by simp
next
  case (Inr out)
  then obtain rows offs where n: "n = ws_num_loaded ws" "0 < n" and tabs: "ws_block_host ws = Some rows" "ws_offsets_host ws = Some offs"
    and k: "0 < ws_offsets_count ws" and g: "ws_commit_generation ws \<noteq> ws_load_generation ws"
    and ws': "ws' = ws\<lparr>ws_block_device := Some (copy_prefix (ensure_table (junk, junk) (ws_block_device ws) (nat n)) (take (nat n) rows)),
        ws_offsets_device := Some (copy_prefix (ensure_table junk (ws_offsets_device ws) (nat (ws_offsets_count ws)))
          (take (nat (ws_offsets_count ws)) offs)),
        ws_num_committed := n, ws_commit_generation := ws_load_generation ws\<rparr>"
    using assms(2)
    by (auto simp: commit_block_transfers_def Let_def require_loaded_block_state_def result_simps
        split: sum.splits prod.splits option.splits)
  obtain gm ts where cur: "cur = Some (gm, ts)" using assms(1) k by (cases cur) (auto simp: ws_inv_def)
  have I: "ws_num_loaded ws = int (length ts)" "holds_prefix (ws_offsets_host ws) (group_offsets_from 0 (buckets_of gm ts))"
    "ts \<noteq> [] \<longrightarrow> holds_prefix (ws_block_host ws) (concat (buckets_of gm ts))" "transfers_ok gm ts"
    "ws_offsets_count ws = int (length (tm_group_packing gm)) + 1"
    using assms(1) cur by (simp_all add: ws_inv_def)
  have ts: "ts \<noteq> []" using I(1) n by auto
  have "take (nat n) rows = concat (buckets_of gm ts)"
    using I(3) ts n I(1) tabs by (auto simp: holds_prefix_def length_concat_buckets [OF I(4)])
  moreover have "take (nat (ws_offsets_count ws)) offs = group_offsets_from 0 (buckets_of gm ts)"
    using I(2,5) tabs by (auto simp: holds_prefix_def nat_add_distrib)
  ultimately show ?thesis using assms(1) n I ts by (simp add: ws_inv_def cur ws')
qed

lemma ws_reach_inv: "ws_reach ws cur \<Longrightarrow> ws_inv ws cur"
proof (induction rule: ws_reach.induct)
  case fresh
  show ?case by (simp add: ws_inv_def new_workspace_def)
next
  case (load ws cur junk ts gm ws' r)
  from load_inv [OF load(3,2)] show ?case .
next
  case (commit ws cur junk n ws' r)
  from commit_inv [OF commit(3,2)] show ?case .
qed

lemma tables_of_last_load:
  assumes "ws_inv ws cur"
    and "committed_block_tables ws n = Inr (rows, offsets) \<or>
         (host_block_rows ws n = Inr rows \<and> block_group_offsets_host ws = Inr offsets \<and> 0 < n)"
  shows "\<exists>gm ts. cur = Some (gm, ts) \<and> transfers_ok gm ts \<and> n = int (length ts) \<and>
     rows = concat (buckets_of gm ts) \<and> offsets = group_offsets_from 0 (buckets_of gm ts)"
proof -
  note I = assms(1)
  have "0 < ws_offsets_count ws"
    using assms(2) by (auto simp: committed_block_tables_def block_group_offsets_device_def block_group_offsets_host_def
        result_simps split: option.splits)
  then obtain gm ts where cur: "cur = Some (gm, ts)" using I by (cases cur) (auto simp: ws_inv_def)
  have ok: "transfers_ok gm ts" and cnt: "nat (ws_offsets_count ws) = Suc (length (tm_group_packing gm))"
    using I cur by (simp_all add: ws_inv_def nat_add_distrib)
  let ?bs = "buckets_of gm ts"
  have "n = int (length ts) \<and> rows = concat ?bs \<and> offsets = group_offsets_from 0 ?bs"
    using assms(2)
  proof
    assume "committed_block_tables ws n = Inr (rows, offsets)"
    then have "ws_commit_generation ws = ws_load_generation ws" "n = ws_num_committed ws"
      and t: "\<exists>t. ws_block_device ws = Some t \<and> rows = take (nat n) t"
        "\<exists>t. ws_offsets_device ws = Some t \<and> offsets = take (nat (ws_offsets_count ws)) t"
      by (auto simp: committed_block_tables_def require_committed_block_state_def block_group_offsets_device_def
          result_simps split: option.splits)
    moreover from this have "n = int (length ts)" "nat n = length ts" "holds_prefix (ws_block_device ws) (concat ?bs)"
      "holds_prefix (ws_offsets_device ws) (group_offsets_from 0 ?bs)"
      using I cur by (auto simp: ws_inv_def)
    ultimately show ?thesis using cnt by (auto simp: holds_prefix_def length_concat_buckets [OF ok])
  next
    assume "host_block_rows ws n = Inr rows \<and> block_group_offsets_host ws = Inr offsets \<and> 0 < n"
    then have "n = ws_num_loaded ws" "0 < n"
      and t: "\<exists>t. ws_block_host ws = Some t \<and> rows = take (nat n) t"
        "\<exists>t. ws_offsets_host ws = Some t \<and> offsets = take (nat (ws_offsets_count ws)) t"
      by (auto simp: host_block_rows_def block_group_offsets_host_def result_simps split: option.splits)
    moreover from this have "n = int (length ts)" "nat n = length ts" "holds_prefix (ws_block_host ws) (concat ?bs)"
      "holds_prefix (ws_offsets_host ws) (group_offsets_from 0 ?bs)"
      using I cur by (auto simp: ws_inv_def)
    ultimately show ?thesis using cnt by (auto simp: holds_prefix_def length_concat_buckets [OF ok])
  qed
  then show ?thesis using cur ok by blast
qed

text \<open>After a rejected load nothing can be committed and no offsets are handed out.\<close>

lemma rejected_load_tables:
  assumes "ws_inv ws None"
  shows "\<exists>e. committed_block_tables ws n = Inl e" and "\<exists>e. snd (commit_block_transfers junk ws n) = Inl e"
    and "\<exists>e. block_group_offsets_host ws = Inl e"
proof -
  have k: "\<not> 0 < ws_offsets_count ws" using assms by (auto simp: ws_inv_def)
  show "\<exists>e. committed_block_tables ws n = Inl e"
    using tables_of_last_load [OF assms, of n] by (cases "committed_block_tables ws n") auto
  show "\<exists>e. block_group_offsets_host ws = Inl e"
    using k by (auto simp: block_group_offsets_host_def raise_if_def split: option.split)
  show "\<exists>e. snd (commit_block_transfers junk ws n) = Inl e"
    using k by (auto simp: commit_block_transfers_def require_loaded_block_state_def raise_if_def split: option.split)
qed

text \<open>C8: the transfer tables are those of the last load. In every reachable workspace, if the committed Device tables
  are handed out, or the Host rows together with the Host offsets (the pair the DMA path reads), then the last
  load was accepted and the tables hold exactly its block pairs, bucketed by group in submission order. After a
  rejected load the committed tables and the Host offsets are refused and nothing can be committed; the Host
  rows alone are not refused, which is why the Host tables are claimed as a pair.\<close>

theorem committed_tables_current:
  assumes "ws_reach ws cur"
  shows "(\<forall>n rows offsets. committed_block_tables ws n = Inr (rows, offsets) \<or>
         (host_block_rows ws n = Inr rows \<and> block_group_offsets_host ws = Inr offsets \<and> 0 < n) \<longrightarrow>
       (\<exists>gm transfers. cur = Some (gm, transfers) \<and> transfers_ok gm transfers \<and> n = int (length transfers) \<and>
         length rows = length transfers \<and>
         (\<forall>gi < length (tm_group_packing gm). group_slice rows offsets (int gi) = group_pairs transfers gi))) \<and>
     (cur = None \<longrightarrow> (\<exists>e. block_group_offsets_host ws = Inl e) \<and>
       (\<forall>n junk. (\<exists>e. committed_block_tables ws n = Inl e) \<and> (\<exists>e. snd (commit_block_transfers junk ws n) = Inl e)))"
proof -
  note inv = ws_reach_inv [OF assms]
  have "\<exists>gm transfers. cur = Some (gm, transfers) \<and> transfers_ok gm transfers \<and> n = int (length transfers) \<and>
     length rows = length transfers \<and>
     (\<forall>gi < length (tm_group_packing gm). group_slice rows offsets (int gi) = group_pairs transfers gi)"
    if tables: "committed_block_tables ws n = Inr (rows, offsets) \<or>
         (host_block_rows ws n = Inr rows \<and> block_group_offsets_host ws = Inr offsets \<and> 0 < n)" for n rows offsets
  proof -
    obtain gm ts where cur: "cur = Some (gm, ts)" and ok: "transfers_ok gm ts" and n: "n = int (length ts)"
      and rows: "rows = concat (buckets_of gm ts)" and offs: "offsets = group_offsets_from 0 (buckets_of gm ts)"
      using tables_of_last_load [OF inv tables] by blast
    have "group_slice rows offsets (int gi) = group_pairs ts gi" if "gi < length (tm_group_packing gm)" for gi
      unfolding rows offs using group_slice_bucket [of gi "buckets_of gm ts"] that by (simp add: buckets_of_def)
    then show ?thesis using cur ok n length_concat_buckets [OF ok] rows by blast
  qed
  then show ?thesis using rejected_load_tables inv by blast
qed

text \<open>A load of three pairs into two groups, committed.\<close>

definition demo_geometry :: transfer_geometry where
  "demo_geometry = \<lparr>tm_rows = [], tm_bound_device = None, tm_layer_slices = [], tm_group_packing = [1, 2],
     tm_host_lcm_block_bytes = 8, tm_num_host_lcm_blocks = 2, tm_num_device_lcm_blocks = 3, tm_row_work = []\<rparr>"

definition demo_committed :: workspace where
  "demo_committed = fst (commit_block_transfers 7 (fst (load_block_transfers 7 new_workspace
     [(1, 4, 3), (0, 2, 1), (1, 6, 4)] demo_geometry)) 3)"

lemma demo_committed_reach: "ws_reach demo_committed (Some (demo_geometry, [(1, 4, 3), (0, 2, 1), (1, 6, 4)]))"
proof -
  obtain ws r where l: "load_block_transfers 7 new_workspace [(1, 4, 3), (0, 2, 1), (1, 6, 4)] demo_geometry = (ws, r)"
    by (metis surj_pair)
  have "is_ok (snd (load_block_transfers 7 new_workspace [(1, 4, 3), (0, 2, 1), (1, 6, 4)] demo_geometry))" by code_simp
  then obtain v where r: "r = Inr v" using l by (cases r) auto
  have ws: "ws_reach ws (Some (demo_geometry, [(1, 4, 3), (0, 2, 1), (1, 6, 4)]))"
    using ws_reach.load [OF ws_reach.fresh l] r by simp
  obtain ws' r' where c: "commit_block_transfers 7 ws 3 = (ws', r')" by (metis surj_pair)
  then have "ws' = demo_committed" using l by (simp add: demo_committed_def)
  then show ?thesis using ws_reach.commit [OF ws c] by simp
qed

text \<open>The Host rows of the previous load after a rejected one.\<close>

lemma host_block_rows_stale:
  defines "ws \<equiv> fst (load_block_transfers 7 demo_committed [(5, 1, 1)] demo_geometry)"
  shows "ws_reach ws None" and "host_block_rows ws 3 = Inr [(2, 1), (4, 3), (6, 4)]"
proof -
  obtain ws' r where l: "load_block_transfers 7 demo_committed [(5, 1, 1)] demo_geometry = (ws', r)" by (metis surj_pair)
  have "\<not> is_ok (snd (load_block_transfers 7 demo_committed [(5, 1, 1)] demo_geometry))" by code_simp
  then obtain e where r: "r = Inl e" using l by (cases r) auto
  show "ws_reach ws None" using ws_reach.load [OF demo_committed_reach l] r l by (simp add: ws_def)
  show "host_block_rows ws 3 = Inr [(2, 1), (4, 3), (6, 4)]" unfolding ws_def by code_simp
qed

theorem committed_tables_current_witness:
  "(\<exists>gm transfers. transfers_ok gm transfers \<and> (3 :: int) = int (length transfers) \<and>
     group_slice [(2, 1), (4, 3), (6, 4)] [0, 1, 3] (int 1) = group_pairs transfers 1) \<and>
   (\<exists>e. committed_block_tables (fst (load_block_transfers 7 demo_committed [(5, 1, 1)] demo_geometry)) 3 = Inl e)"
proof -
  have "committed_block_tables demo_committed 3 = Inr ([(2, 1), (4, 3), (6, 4)], [0, 1, 3])" by code_simp
  moreover have "1 < length (tm_group_packing demo_geometry)" by code_simp
  ultimately have "\<exists>gm transfers. transfers_ok gm transfers \<and> (3 :: int) = int (length transfers) \<and>
     group_slice [(2, 1), (4, 3), (6, 4)] [0, 1, 3] (int 1) = group_pairs transfers 1"
    using committed_tables_current [OF demo_committed_reach] by blast
  then show ?thesis using committed_tables_current [OF host_block_rows_stale(1)] by blast
qed

section \<open>The geometry of a well-formed layout\<close>

text \<open>The row \<^verbatim>\<open>build_transfer_geometry\<close> appends for field \<open>fi\<close> of group \<open>gi\<close>.\<close>

definition layout_row :: "transfer_layout \<Rightarrow> nat \<Rightarrow> nat \<Rightarrow> geometry_row" where
  "layout_row L gi fi =
     (let g = tl_groups L ! gi; f = tg_fields g ! fi in
      \<lparr>gr_group_index = int gi, gr_device_buffer_index = cf_device_buffer_index f,
       gr_device_zero = cf_device_block_zero_offset_bytes f, gr_device_stride = cf_block_stride_bytes f,
       gr_host_block_bytes = host_group_bytes g, gr_host_field_offset = field_cursors 0 (tg_fields g) ! fi,
       gr_packing = tg_cache_blocks_per_lcm_block g, gr_payload_bytes = cf_payload_bytes f\<rparr>)"

definition field_at :: "transfer_layout \<Rightarrow> nat \<Rightarrow> nat \<Rightarrow> bool" where
  "field_at L gi fi \<longleftrightarrow> gi < length (tl_groups L) \<and> fi < length (tg_fields (tl_groups L ! gi))"

definition field_id_at :: "transfer_layout \<Rightarrow> nat \<times> nat \<Rightarrow> string" where
  "field_id_at L x = cf_field_id (tg_fields (tl_groups L ! fst x) ! snd x)"

definition entry_id :: "nat \<times> nat \<times> transfer_group \<times> transfer_field \<Rightarrow> string" where
  "entry_id e = cf_field_id (snd (snd (snd e)))"

lemma indexed_fields_mem:
  "field_at L gi fi \<Longrightarrow> (gi, fi, tl_groups L ! gi, tg_fields (tl_groups L ! gi) ! fi) \<in> set (indexed_fields L)"
proof -
  assume "field_at L gi fi"
  then have "(gi, tl_groups L ! gi) \<in> set (enumerate 0 (tl_groups L))"
    "(fi, tg_fields (tl_groups L ! gi) ! fi) \<in> set (enumerate 0 (tg_fields (tl_groups L ! gi)))"
    by (simp_all add: field_at_def in_set_enumerate_eq)
  then show ?thesis unfolding indexed_fields_def by force
qed

lemma indexed_fields_ids: "map entry_id (indexed_fields L) = map cf_field_id (layout_fields L)"
proof -
  have row: "map entry_id (map (\<lambda>(fi, f). (n, fi, g, f)) es) = map cf_field_id (map snd es)"
    for n g and es :: "(nat \<times> transfer_field) list"
    by (induction es) (auto simp: entry_id_def)
  have "map entry_id (concat (map (\<lambda>(gi, g). map (\<lambda>(fi, f). (gi, fi, g, f)) (enumerate 0 (tg_fields g)))
          (enumerate n gs))) = map cf_field_id (concat (map tg_fields gs))" for n and gs :: "transfer_group list"
    by (induction gs arbitrary: n) (simp_all only: enumerate_simps list.map concat.simps map_append prod.case row
        map_snd_enumerate)
  then show ?thesis by (simp add: indexed_fields_def layout_fields_def)
qed

lemma alist_update_new: "k \<notin> set (map fst d) \<Longrightarrow> AList.update k v d = d @ [(k, v)]"
  by (induction d) auto

lemma index_fold:
  assumes "distinct (map fst d @ map entry_id es)"
  shows "foldE index_step d es = Inr (d @ map (\<lambda>e. (entry_id e, e)) es)"
  using assms
proof (induction es arbitrary: d)
  case (Cons e es)
  have new: "entry_id e \<notin> set (map fst d)" using Cons.prems by auto
  have "index_step d e = Inr (d @ [(entry_id e, e)])"
    using new by (cases e) (simp add: index_step_def entry_id_def alist_update_new)
  moreover have "foldE index_step (d @ [(entry_id e, e)]) es = Inr ((d @ [(entry_id e, e)]) @ map (\<lambda>e. (entry_id e, e)) es)"
    using Cons.prems by (intro Cons.IH) auto
  ultimately show ?case by simp
qed simp

lemma index_lookup:
  assumes L: "layout_wf L"
  obtains d where "foldE index_step [] (indexed_fields L) = Inr d" "set (map fst d) = set (map cf_field_id (layout_fields L))"
    "\<And>gi fi. field_at L gi fi \<Longrightarrow> map_of d (field_id_at L (gi, fi)) = Some (gi, fi, tl_groups L ! gi, tg_fields (tl_groups L ! gi) ! fi)"
proof -
  let ?d = "map (\<lambda>e. (entry_id e, e)) (indexed_fields L)"
  have dist: "distinct (map entry_id (indexed_fields L))"
    unfolding indexed_fields_ids using L by (simp add: layout_wf_def)
  have keys: "map fst ?d = map entry_id (indexed_fields L)" by simp
  have "foldE index_step [] (indexed_fields L) = Inr ?d" using index_fold [of "[]" "indexed_fields L"] dist by simp
  moreover have "set (map fst ?d) = set (map cf_field_id (layout_fields L))" unfolding keys indexed_fields_ids ..
  moreover have "map_of ?d (field_id_at L (gi, fi)) = Some (gi, fi, tl_groups L ! gi, tg_fields (tl_groups L ! gi) ! fi)"
    if "field_at L gi fi" for gi fi
  proof (rule map_of_is_SomeI)
    show "distinct (map fst ?d)" unfolding keys by (rule dist)
    show "(field_id_at L (gi, fi), gi, fi, tl_groups L ! gi, tg_fields (tl_groups L ! gi) ! fi) \<in> set ?d"
      using indexed_fields_mem [OF that] by (force simp: field_id_at_def entry_id_def)
  qed
  ultimately show ?thesis using that by blast
qed

definition row_for :: "transfer_layout \<Rightarrow> string \<Rightarrow> geometry_row \<Rightarrow> bool" where
  "row_for L field_id row \<longleftrightarrow> (\<exists>gi fi. field_at L gi fi \<and> field_id_at L (gi, fi) = field_id \<and> row = layout_row L gi fi)"

lemma layout_field_pos: "i \<in> cf_field_id ` set (layout_fields L) \<Longrightarrow> \<exists>gi fi. field_at L gi fi \<and> field_id_at L (gi, fi) = i"
  by (force simp: layout_fields_def in_set_conv_nth field_at_def field_id_at_def)

lemma storage_fields:
  assumes "host_cache_storage L n = Inr hs"
  shows "hs_cache_block_bytes hs = map host_group_bytes (tl_groups L)"
    and "hs_field_offsets hs = map (\<lambda>g. field_cursors 0 (tg_fields g)) (tl_groups L)"
    and "hs_lcm_block_bytes hs = compute_host_lcm_block_bytes L" and "hs_num_lcm_blocks hs = n" and "0 < n"
  using assms by (auto simp: host_cache_storage_def compute_host_layout_def compute_host_lcm_block_bytes_def result_simps)

lemma row_fold:
  assumes hs: "host_cache_storage L n = Inr hs"
    and d: "\<And>gi fi. field_at L gi fi \<Longrightarrow> map_of d (field_id_at L (gi, fi)) = Some (gi, fi, tl_groups L ! gi, tg_fields (tl_groups L ! gi) ! fi)"
    and "distinct ids" and "set ids \<inter> consumed = {}" and "set ids \<subseteq> cf_field_id ` set (layout_fields L)"
  shows "\<exists>rows'. foldE (row_step hs d) (rows, consumed) ids = Inr (rows @ rows', consumed \<union> set ids) \<and> list_all2 (row_for L) ids rows'"
  using assms(3-5)
proof (induction ids arbitrary: rows consumed)
  case (Cons i ids)
  obtain gi fi where p: "field_at L gi fi" "field_id_at L (gi, fi) = i" using layout_field_pos [of i L] Cons.prems by auto
  have bounds: "gi < length (tl_groups L)" "fi < length (tg_fields (tl_groups L ! gi))" using p by (auto simp: field_at_def)
  have step: "row_step hs d (rows, consumed) i = Inr (rows @ [layout_row L gi fi], insert i consumed)"
    using d [OF p(1)] p(2) Cons.prems bounds
    by (simp add: row_step_def list_at_def storage_fields [OF hs] layout_row_def Let_def)
  obtain rows' where "foldE (row_step hs d) (rows @ [layout_row L gi fi], insert i consumed) ids =
      Inr ((rows @ [layout_row L gi fi]) @ rows', insert i consumed \<union> set ids)" "list_all2 (row_for L) ids rows'"
    using Cons.IH [of "insert i consumed" "rows @ [layout_row L gi fi]"] Cons.prems by auto
  moreover have "row_for L i (layout_row L gi fi)" using p unfolding row_for_def by blast
  ultimately show ?case using step by (intro exI [of _ "layout_row L gi fi # rows'"]) simp
qed simp

fun slices_from :: "int \<Rightarrow> nat list \<Rightarrow> (int \<times> int) list" where
  "slices_from n [] = []"
| "slices_from n (k # ks) = (n, int k) # slices_from (n + int k) ks"

lemma slices_accepted: "foldE slice_step n (slices_from n ks) = Inr (n + int (sum_list ks))"
  by (induction ks arbitrary: n) (simp_all add: slice_step_def)

lemma consumer_fold:
  assumes hs: "host_cache_storage L n = Inr hs"
    and d: "\<And>gi fi. field_at L gi fi \<Longrightarrow> map_of d (field_id_at L (gi, fi)) = Some (gi, fi, tl_groups L ! gi, tg_fields (tl_groups L ! gi) ! fi)"
    and "distinct (concat cs)" and "set (concat cs) \<inter> consumed = {}" and "set (concat cs) \<subseteq> cf_field_id ` set (layout_fields L)"
  shows "\<exists>rows'. foldE (consumer_step hs d) ((rows, consumed), slices) cs =
      Inr ((rows @ rows', consumed \<union> set (concat cs)), slices @ slices_from (int (length rows)) (map length cs)) \<and>
    list_all2 (row_for L) (concat cs) rows'"
  using assms(3-5)
proof (induction cs arbitrary: rows consumed slices)
  case (Cons c cs)
  obtain r1 where r1: "foldE (row_step hs d) (rows, consumed) c = Inr (rows @ r1, consumed \<union> set c)" "list_all2 (row_for L) c r1"
    using row_fold [OF hs d, of c consumed rows] Cons.prems by auto
  have len: "length r1 = length c" using list_all2_lengthD [OF r1(2)] by simp
  have step: "consumer_step hs d ((rows, consumed), slices) c =
      Inr ((rows @ r1, consumed \<union> set c), slices @ [(int (length rows), int (length c))])"
    by (simp add: consumer_step_def Let_def r1(1) len)
  have cs: "distinct (concat cs)" "set (concat cs) \<inter> (consumed \<union> set c) = {}" "set (concat cs) \<subseteq> cf_field_id ` set (layout_fields L)"
    using Cons.prems by auto
  obtain r2 where r2: "foldE (consumer_step hs d) ((rows @ r1, consumed \<union> set c), slices @ [(int (length rows), int (length c))]) cs =
      Inr (((rows @ r1) @ r2, (consumed \<union> set c) \<union> set (concat cs)),
        (slices @ [(int (length rows), int (length c))]) @ slices_from (int (length (rows @ r1))) (map length cs))"
    "list_all2 (row_for L) (concat cs) r2"
    using Cons.IH [OF cs, of "rows @ r1" "slices @ [(int (length rows), int (length c))]"] by blast
  show ?case
  proof (intro exI [of _ "r1 @ r2"] conjI)
    show "foldE (consumer_step hs d) ((rows, consumed), slices) (c # cs) =
      Inr ((rows @ r1 @ r2, consumed \<union> set (concat (c # cs))), slices @ slices_from (int (length rows)) (map length (c # cs)))"
      using step r2(1) len by (simp add: Un_assoc)
    show "list_all2 (row_for L) (concat (c # cs)) (r1 @ r2)" using r1(2) r2(2) by (simp add: list_all2_appendI)
  qed
qed simp

lemma layout_row_valid:
  assumes L: "layout_wf L" and f: "field_at L gi fi"
  shows "validate_geometry_row (map tg_cache_blocks_per_lcm_block (tl_groups L)) (int (length (tl_buffers L)))
     (compute_host_lcm_block_bytes L) (layout_row L gi fi) = Inr ()"
proof -
  have gi: "gi < length (tl_groups L)" and fi: "fi < length (tg_fields (tl_groups L ! gi))" using f by (auto simp: field_at_def)
  let ?g = "tl_groups L ! gi" and ?f = "tg_fields (tl_groups L ! gi) ! fi"
  have mem: "?f \<in> set (layout_fields L)" using nth_mem [OF gi] nth_mem [OF fi] by (auto simp: layout_fields_def)
  have wf: "field_wf ?f" "cf_device_buffer_index ?f < int (length (tl_buffers L))"
    using L mem by (auto simp: layout_wf_def)
  note F = host_field_in_block(1) [OF L gi fi] host_field_in_block(2) [OF L gi fi, of 0]
  have pay: "host_payload L (gi, 0, fi) = cf_payload_bytes ?f" by (simp add: host_payload_def)
  have "0 < host_group_bytes ?g" using F wf(1) unfolding pay by (simp add: field_wf_def)
  moreover have "tg_cache_blocks_per_lcm_block ?g * host_group_bytes ?g \<le> compute_host_lcm_block_bytes L"
    using gi by (intro host_lcm_bytes_max) simp
  ultimately show ?thesis using wf F gi unfolding pay
    by (simp add: validate_geometry_row_def layout_row_def Let_def field_wf_def raise_if_def)
qed

lemma rows_valid:
  assumes "layout_wf L" and "list_all2 (row_for L) ids rows"
  shows "mapE (validate_geometry_row (map tg_cache_blocks_per_lcm_block (tl_groups L)) (int (length (tl_buffers L)))
     (compute_host_lcm_block_bytes L)) rows = Inr (map (\<lambda>_. ()) rows)"
proof (rule mapE_all)
  fix row assume "row \<in> set rows"
  from list_all2_right [OF assms(2) this] obtain i where "row_for L i row" by blast
  then obtain gi fi where "field_at L gi fi" "row = layout_row L gi fi" unfolding row_for_def by blast
  then show "validate_geometry_row (map tg_cache_blocks_per_lcm_block (tl_groups L)) (int (length (tl_buffers L)))
     (compute_host_lcm_block_bytes L) row = Inr ()" using layout_row_valid [OF assms(1)] by simp
qed

lemma wf_host_bytes_pos: "layout_wf L \<Longrightarrow> 0 < compute_host_lcm_block_bytes L"
proof -
  assume L: "layout_wf L"
  have g: "0 < length (tl_groups L)" using L by (simp add: layout_wf_def)
  then have "tg_fields (tl_groups L ! 0) \<noteq> []" using L by (auto simp: layout_wf_def group_wf_def)
  then have f: "0 < length (tg_fields (tl_groups L ! 0))" by simp
  note P = group_fields_positive [OF L g] and F = host_field_in_block(1) [OF L g f] host_field_in_block(2) [OF L g f, of 0]
  have "0 < host_payload L (0, 0, 0)" using P(1) f by (simp add: host_payload_def)
  then have "0 < host_group_bytes (tl_groups L ! 0)" using F by linarith
  then have "0 < tg_cache_blocks_per_lcm_block (tl_groups L ! 0) * host_group_bytes (tl_groups L ! 0)" using P(2) by simp
  also have "\<dots> \<le> compute_host_lcm_block_bytes L" using g by (intro host_lcm_bytes_max) simp
  finally show ?thesis .
qed

lemma geometry_of_layout:
  assumes L: "layout_wf L" and hs: "host_cache_storage L n = Inr hs"
  shows "\<exists>gm. build_transfer_geometry L hs kernel_backend device = Inr gm \<and>
    list_all2 (row_for L) (concat (tl_consumers L)) (tm_rows gm) \<and>
    tm_layer_slices gm = slices_from 0 (map length (tl_consumers L)) \<and>
    tm_group_packing gm = map tg_cache_blocks_per_lcm_block (tl_groups L) \<and>
    tm_host_lcm_block_bytes gm = compute_host_lcm_block_bytes L \<and> tm_num_host_lcm_blocks gm = n \<and>
    tm_num_device_lcm_blocks gm = tl_num_lcm_blocks L \<and> (tm_bound_device gm = (if kernel_backend then Some device else None)) \<and>
    tm_row_work gm = map (\<lambda>row. (gr_group_index row, (gr_payload_bytes row + HOST_CACHE_TRANSFER_CHUNK_BYTES - 1) div HOST_CACHE_TRANSFER_CHUNK_BYTES)) (tm_rows gm)"
proof -
  let ?cs = "tl_consumers L" and ?ids = "map cf_field_id (layout_fields L)"
  obtain d where d: "foldE index_step [] (indexed_fields L) = Inr d" "set (map fst d) = set ?ids"
    "\<And>gi fi. field_at L gi fi \<Longrightarrow> map_of d (field_id_at L (gi, fi)) = Some (gi, fi, tl_groups L ! gi, tg_fields (tl_groups L ! gi) ! fi)"
    by (rule index_lookup [OF L]) blast
  have cs: "distinct (concat ?cs)" "set (concat ?cs) = set ?ids" using L by (simp_all add: layout_wf_def)
  have cs': "set (concat ?cs) \<inter> {} = {}" "set (concat ?cs) \<subseteq> cf_field_id ` set (layout_fields L)" using cs(2) by simp_all
  obtain rows where fold: "foldE (consumer_step hs d) (([], {}), []) ?cs =
      Inr (([] @ rows, {} \<union> set (concat ?cs)), [] @ slices_from (int (length ([] :: geometry_row list))) (map length ?cs))"
    and rows: "list_all2 (row_for L) (concat ?cs) rows"
  proof -
    have "\<exists>rows. foldE (consumer_step hs d) (([], {}), []) ?cs =
      Inr (([] @ rows, {} \<union> set (concat ?cs)), [] @ slices_from (int (length ([] :: geometry_row list))) (map length ?cs)) \<and>
      list_all2 (row_for L) (concat ?cs) rows" by (rule consumer_fold [OF hs _ cs(1) cs']) (rule d(3))
    then show ?thesis using that by blast
  qed
  have len: "length rows = sum_list (map length ?cs)" using list_all2_lengthD [OF rows] by (simp add: length_concat)
  have ne: "layout_fields L \<noteq> []" and gne: "tl_groups L \<noteq> []" and bufs: "tl_buffers L \<noteq> []" and num: "0 < tl_num_lcm_blocks L"
  proof -
    show gne: "tl_groups L \<noteq> []" "tl_buffers L \<noteq> []" "0 < tl_num_lcm_blocks L" using L by (simp_all add: layout_wf_def)
    obtain g where "g \<in> set (tl_groups L)" using gne(1) by (cases "tl_groups L") auto
    then have "tg_fields g \<noteq> []" using L by (auto simp: layout_wf_def group_wf_def)
    then show "layout_fields L \<noteq> []" using \<open>g \<in> set (tl_groups L)\<close> by (auto simp: layout_fields_def)
  qed
  have rne: "rows \<noteq> []"
  proof
    assume "rows = []"
    then have "concat ?cs = []" using rows by simp
    then show False using cs(2) ne by (metis empty_set map_is_Nil_conv set_empty)
  qed
  have pk: "\<not> list_ex (\<lambda>packing. packing \<le> 0) (map tg_cache_blocks_per_lcm_block (tl_groups L))"
    using L by (auto simp: list_ex_iff layout_wf_def group_wf_def not_le)
  note hsf = storage_fields [OF hs]
  let ?gm = "\<lparr>tm_rows = rows, tm_bound_device = None, tm_layer_slices = slices_from 0 (map length ?cs),
     tm_group_packing = map tg_cache_blocks_per_lcm_block (tl_groups L),
     tm_host_lcm_block_bytes = compute_host_lcm_block_bytes L, tm_num_host_lcm_blocks = n,
     tm_num_device_lcm_blocks = tl_num_lcm_blocks L,
     tm_row_work = map (\<lambda>row. (gr_group_index row, (gr_payload_bytes row + HOST_CACHE_TRANSFER_CHUNK_BYTES - 1) div HOST_CACHE_TRANSFER_CHUNK_BYTES)) rows\<rparr>"
  have "build_host_transfer_geometry rows (slices_from 0 (map length ?cs)) (map tg_cache_blocks_per_lcm_block (tl_groups L))
      (compute_host_lcm_block_bytes L) n (tl_num_lcm_blocks L) (int (length (tl_buffers L))) = Inr ?gm"
    using rne gne bufs num pk wf_host_bytes_pos [OF L] hsf(5) rows_valid [OF L rows] slices_accepted [of 0 "map length ?cs"] len
    by (simp add: build_host_transfer_geometry_def raise_if_def)
  then have "build_transfer_geometry L hs kernel_backend device = (if kernel_backend then bind_geometry ?gm device else Inr ?gm)"
    unfolding build_transfer_geometry_def d(1) bindE_simps fold using cs(2) d(2)
    by (simp add: hsf)
  then show ?thesis using rows by (simp add: bind_geometry_def)
qed

section \<open>The ranges of a layout\<close>

text \<open>One copied field of one block pair: field \<open>fi\<close> of group \<open>gi\<close>, Device block \<open>d\<close>, Host block \<open>h\<close>.\<close>

type_synonym copy_item = "nat \<times> nat \<times> int \<times> int"

definition copy_items :: "(nat \<times> nat) list \<Rightarrow> (int \<times> int \<times> int) list \<Rightarrow> copy_item list" where
  "copy_items poss ts = concat (map (\<lambda>(gi, fi). map (\<lambda>pr. (gi, fi, pr)) (group_pairs ts gi)) poss)"

definition item_field :: "transfer_layout \<Rightarrow> copy_item \<Rightarrow> transfer_field" where
  "item_field L x = (case x of (gi, fi, d, h) \<Rightarrow> tg_fields (tl_groups L ! gi) ! fi)"

definition item_range :: "transfer_layout \<Rightarrow> copy_item \<Rightarrow> byte_range" where
  "item_range L x = (case x of (gi, fi, d, h) \<Rightarrow>
     (cf_device_buffer_index (item_field L x), device_offset (item_field L x) d, host_start L (gi, h, fi),
      cf_payload_bytes (item_field L x)))"

lemma layout_row_range: "pair_range (compute_host_lcm_block_bytes L) (layout_row L gi fi) (d, h) = item_range L (gi, fi, d, h)"
  by (simp add: pair_range_def layout_row_def item_range_def item_field_def host_start_def device_offset_def Let_def)

definition rows_ranges :: "int \<Rightarrow> (int \<times> int \<times> int) list \<Rightarrow> geometry_row list \<Rightarrow> byte_range list" where
  "rows_ranges parent_bytes ts rows = concat (map (\<lambda>row. map (pair_range parent_bytes row) (group_pairs ts (nat (gr_group_index row)))) rows)"

lemma rows_ranges_items:
  "rows_ranges (compute_host_lcm_block_bytes L) ts (map (\<lambda>(gi, fi). layout_row L gi fi) poss) = map (item_range L) (copy_items poss ts)"
proof -
  have row: "map (pair_range (compute_host_lcm_block_bytes L) (layout_row L gi fi)) (group_pairs ts (nat (gr_group_index (layout_row L gi fi)))) =
      map (item_range L) (map (\<lambda>pr. (gi, fi, pr)) (group_pairs ts gi))" for gi fi
    using layout_row_range [of L gi fi] by (auto simp: layout_row_def Let_def)
  show ?thesis unfolding rows_ranges_def copy_items_def
    by (induction poss) (auto simp: row simp del: map_map)
qed

text \<open>The rows of a built geometry name every field of the layout once.\<close>

lemma row_positions:
  assumes "list_all2 (row_for L) ids rows" and "distinct ids"
  obtains poss where "rows = map (\<lambda>(gi, fi). layout_row L gi fi) poss" "distinct poss" "map (field_id_at L) poss = ids"
    "\<forall>(gi, fi) \<in> set poss. field_at L gi fi"
proof -
  have "\<exists>poss. rows = map (\<lambda>(gi, fi). layout_row L gi fi) poss \<and> map (field_id_at L) poss = ids \<and> (\<forall>(gi, fi) \<in> set poss. field_at L gi fi)"
    using assms(1)
  proof (induction ids rows rule: list_all2_induct)
    case (Cons i ids row rows)
    then obtain poss where "rows = map (\<lambda>(gi, fi). layout_row L gi fi) poss" "map (field_id_at L) poss = ids"
      "\<forall>(gi, fi) \<in> set poss. field_at L gi fi" by blast
    moreover from Cons(1) obtain gi fi where "field_at L gi fi" "field_id_at L (gi, fi) = i" "row = layout_row L gi fi"
      unfolding row_for_def by blast
    ultimately show ?case by (intro exI [of _ "(gi, fi) # poss"]) simp
  qed simp
  then show ?thesis using that assms(2) by (metis distinct_map)
qed

lemma loaded_ranges:
  assumes inv: "ws_inv ws (Some (gm, ts))" and ne: "ts \<noteq> []"
    and rows: "\<forall>row \<in> set (tm_rows gm). 0 \<le> gr_group_index row \<and> gr_group_index row < int (length (tm_group_packing gm))"
  shows "make_block_ranges gm ws (int (length ts)) off cnt =
    Inr (rows_ranges (tm_host_lcm_block_bytes gm) ts (take cnt (drop off (tm_rows gm))))"
proof -
  let ?bs = "buckets_of gm ts"
  have I: "transfers_ok gm ts" "ws_offsets_count ws = int (length (tm_group_packing gm)) + 1" "ws_num_loaded ws = int (length ts)"
    "holds_prefix (ws_offsets_host ws) (group_offsets_from 0 ?bs)" "holds_prefix (ws_block_host ws) (concat ?bs)"
    using inv ne by (simp_all add: ws_inv_def)
  have h: "host_block_rows ws (int (length ts)) = Inr (concat ?bs)"
    using I(3,5) by (auto simp: host_block_rows_def holds_prefix_def length_concat_buckets [OF I(1)])
  have o: "block_group_offsets_host ws = Inr (group_offsets_from 0 ?bs)"
    using I(2,4) by (auto simp: block_group_offsets_host_def holds_prefix_def nat_add_distrib raise_if_def)
  have slice: "group_slice (concat ?bs) (group_offsets_from 0 ?bs) (gr_group_index row) = group_pairs ts (nat (gr_group_index row))"
    if "row \<in> set (take cnt (drop off (tm_rows gm)))" for row
  proof -
    have "row \<in> set (tm_rows gm)" using that by (meson in_set_dropD in_set_takeD)
    then have "0 \<le> gr_group_index row" "nat (gr_group_index row) < length ?bs" using rows by auto
    then show ?thesis using group_slice_bucket [of "nat (gr_group_index row)" ?bs] by (simp add: buckets_of_def)
  qed
  show ?thesis unfolding make_block_ranges_def Let_def h o rows_ranges_def
    using slice by (auto intro!: arg_cong [where f = concat] map_cong)
qed

section \<open>What a batch of copies does\<close>

lemma length_read_bytes [simp]: "0 \<le> n \<Longrightarrow> int (length (read_bytes m a n)) = n"
  by (simp add: read_bytes_def)

definition item_host :: "copy_item \<Rightarrow> nat \<times> int \<times> nat" where
  "item_host x = (case x of (gi, fi, d, h) \<Rightarrow> (gi, h, fi))"

definition item_page :: "transfer_layout \<Rightarrow> copy_item \<Rightarrow> string \<times> int" where
  "item_page L x = (case x of (gi, fi, d, h) \<Rightarrow> (cf_field_id (item_field L x), d))"

lemma group_pairs_iff: "p \<in> set (group_pairs ts gi) \<longleftrightarrow> (int gi, p) \<in> set ts"
  by (induction ts) (auto simp: group_pairs_def)

lemma copy_items_iff: "(gi, fi, p) \<in> set (copy_items poss ts) \<longleftrightarrow> (gi, fi) \<in> set poss \<and> (int gi, p) \<in> set ts"
  by (induction poss) (auto simp: copy_items_def group_pairs_iff)

lemma distinct_copy_items:
  assumes "distinct poss" and "distinct (map (\<lambda>(g, p). (g, k p)) ts)"
  shows "distinct (map (\<lambda>(gi, fi, p). (gi, fi, k p)) (copy_items poss ts))"
  using assms(1)
proof (induction poss)
  case (Cons q poss)
  obtain gi fi where q: "q = (gi, fi)" by (cases q)
  have one: "distinct (map (\<lambda>p. (gi, fi, k p)) (group_pairs ts gi))"
    using assms(2)
  proof (induction ts)
    case (Cons t ts)
    obtain g p where t: "t = (g, p)" by (cases t)
    have IH: "distinct (map (\<lambda>p. (gi, fi, k p)) (group_pairs ts gi))" using Cons by simp
    have "k p \<notin> k ` set (group_pairs ts gi)" if "g = int gi"
    proof
      assume "k p \<in> k ` set (group_pairs ts gi)"
      then obtain p' where "(int gi, p') \<in> set ts" "k p = k p'" by (auto simp: group_pairs_iff)
      then have "(g, k p) \<in> (\<lambda>(g, p). (g, k p)) ` set ts"
        using that by (intro image_eqI [of _ _ "(int gi, p')"]) simp_all
      then show False using Cons.prems t by simp
    qed
    then show ?case using IH t by (auto simp: group_pairs_def)
  qed (simp add: group_pairs_def)
  have "map (\<lambda>(gi, fi, p). (gi, fi, k p)) (copy_items (q # poss) ts) =
      map (\<lambda>p. (gi, fi, k p)) (group_pairs ts gi) @ map (\<lambda>(gi, fi, p). (gi, fi, k p)) (copy_items poss ts)"
    by (simp add: copy_items_def q comp_def)
  moreover have "(gi, fi, p) \<notin> set (copy_items poss ts)" for p
    using copy_items_iff [of gi fi p poss ts] Cons.prems q by simp
  ultimately show ?case using one Cons by auto
qed (simp add: copy_items_def)

text \<open>A Device-to-Host batch is a batch of writes to Host regions.\<close>

definition host_write :: "transfer_layout \<Rightarrow> memory list \<Rightarrow> copy_item \<Rightarrow> (nat \<times> int \<times> nat) \<times> int list" where
  "host_write L devs x = (case x of (gi, fi, d, h) \<Rightarrow>
     (item_host x, read_bytes (devs ! nat (cf_device_buffer_index (item_field L x))) (device_offset (item_field L x) d)
        (cf_payload_bytes (item_field L x))))"

lemma d2h_fold:
  "transfer_dma D2H (map (item_range L) items) ms =
   ms\<lparr>ms_host := fold (\<lambda>(r, bs) m. write_bytes m (host_start L r) bs) (map (host_write L (ms_device ms)) items) (ms_host ms)\<rparr>"
proof (induction items arbitrary: ms)
  case (Cons x items)
  obtain gi fi d h where x: "x = (gi, fi, d, h)" by (metis prod_cases4)
  show ?case using Cons [of "dma_copy D2H (item_range L x) ms"]
    by (simp add: transfer_dma_def x dma_copy_def item_range_def host_write_def item_host_def Let_def)
qed (simp add: transfer_dma_def)

definition device_write :: "transfer_layout \<Rightarrow> memory \<Rightarrow> copy_item \<Rightarrow> (string \<times> int) \<times> int list" where
  "device_write L host x =
     (item_page L x, read_bytes host (host_start L (item_host x)) (cf_payload_bytes (item_field L x)))"

lemma h2d_fold:
  assumes "\<forall>x \<in> set items. cf_device_buffer_index (item_field L x) = 0 \<and>
      page_start P (item_page L x) = device_offset (item_field L x) (snd (item_page L x))"
    and "ms_device ms = [dev]"
  shows "transfer_dma H2D (map (item_range L) items) ms =
    ms\<lparr>ms_device := [fold (\<lambda>(r, bs) m. write_bytes m (page_start P r) bs) (map (device_write L (ms_host ms)) items) dev]\<rparr>"
  using assms
proof (induction items arbitrary: ms dev)
  case (Cons x items)
  obtain gi fi d h where x: "x = (gi, fi, d, h)" by (metis prod_cases4)
  let ?dev = "write_bytes dev (page_start P (item_page L x)) (read_bytes (ms_host ms) (host_start L (item_host x)) (cf_payload_bytes (item_field L x)))"
  have step: "dma_copy H2D (item_range L x) ms = ms\<lparr>ms_device := [?dev]\<rparr>"
    using Cons.prems by (simp add: x dma_copy_def item_range_def item_host_def item_page_def Let_def)
  show ?case using Cons.IH [of "ms\<lparr>ms_device := [?dev]\<rparr>" ?dev] Cons.prems step
    by (simp add: transfer_dma_def device_write_def)
qed (simp add: transfer_dma_def)

lemma distinct_item_host:
  assumes "distinct poss" and "distinct (map (\<lambda>(g, p). (g, snd p)) ts)"
  shows "distinct (map item_host (copy_items poss ts))"
proof -
  have "map item_host (copy_items poss ts) = map (\<lambda>(a, b, c). (a, c, b)) (map (\<lambda>(gi, fi, p). (gi, fi, snd p)) (copy_items poss ts))"
    by (auto simp: item_host_def)
  moreover have "inj (\<lambda>(a :: nat, b :: nat, c :: int). (a, c, b))" by (auto simp: inj_on_def)
  ultimately show ?thesis using distinct_copy_items [OF assms]
    by (metis (no_types, lifting) distinct_map inj_on_subset subset_UNIV)
qed

lemma distinct_item_page:
  assumes "distinct poss" and "distinct (map (field_id_at L) poss)" and "distinct (map (\<lambda>(g, p). (g, fst p)) ts)"
  shows "distinct (map (item_page L) (copy_items poss ts))"
proof -
  let ?ks = "map (\<lambda>(gi, fi, p). (gi, fi, fst p)) (copy_items poss ts)"
  let ?page = "\<lambda>(gi, fi, d :: int). (field_id_at L (gi, fi), d)"
  have "map (item_page L) (copy_items poss ts) = map ?page ?ks"
    by (auto simp: item_page_def item_field_def field_id_at_def)
  moreover have "inj_on ?page (set ?ks)"
  proof (rule inj_onI)
    fix x y assume "x \<in> set ?ks" "y \<in> set ?ks" and eq: "?page x = ?page y"
    then obtain gi fi p gi' fi' p' where x: "x = (gi, fi, fst p)" "(gi, fi, p) \<in> set (copy_items poss ts)"
      and y: "y = (gi', fi', fst p')" "(gi', fi', p') \<in> set (copy_items poss ts)" by auto
    then have "(gi, fi) \<in> set poss" "(gi', fi') \<in> set poss" using copy_items_iff by blast+
    then have "(gi, fi) = (gi', fi')" using assms(2) eq x y by (auto simp: distinct_map dest: inj_onD)
    then show "x = y" using eq x y by simp
  qed
  ultimately show ?thesis using distinct_copy_items [OF assms(1,3)] by (simp only: distinct_map)
qed

lemma field_at_payload:
  assumes "layout_wf L" and "field_at L gi fi"
  shows "0 < cf_payload_bytes (tg_fields (tl_groups L ! gi) ! fi)"
  using group_fields_positive(1) [OF assms(1), of gi] assms(2) by (auto simp: field_at_def)

lemma map_of_map_key:
  assumes "distinct (map key xs)" and "x \<in> set xs"
  shows "map_of (map (\<lambda>x. (key x, v x)) xs) (key x) = Some (v x)"
  using assms by (intro map_of_is_SomeI) (auto simp: comp_def)

lemma d2h_result:
  fixes ms :: mem_state
  assumes L: "layout_wf L" and poss: "distinct poss" "\<forall>(gi, fi) \<in> set poss. field_at L gi fi"
    and ts: "distinct (map (\<lambda>(g, p). (g, snd p)) ts)" and n: "0 \<le> n"
    and reg: "\<forall>x \<in> set (copy_items poss ts). item_host x \<in> host_regions L n lease"
  defines "ms' \<equiv> transfer_dma D2H (map (item_range L) (copy_items poss ts)) ms"
  shows "ms_device ms' = ms_device ms"
    and "(gi, fi, d, h) \<in> set (copy_items poss ts) \<Longrightarrow>
      read_bytes (ms_host ms') (host_start L (gi, h, fi)) (cf_payload_bytes (tg_fields (tl_groups L ! gi) ! fi)) =
      read_bytes (ms_device ms ! nat (cf_device_buffer_index (tg_fields (tl_groups L ! gi) ! fi)))
        (device_offset (tg_fields (tl_groups L ! gi) ! fi) d) (cf_payload_bytes (tg_fields (tl_groups L ! gi) ! fi))"
    and "r \<in> host_regions L n lease \<Longrightarrow> r \<notin> item_host ` set (copy_items poss ts) \<Longrightarrow>
      read_bytes (ms_host ms') (host_start L r) (host_payload L r) = read_bytes (ms_host ms) (host_start L r) (host_payload L r)"
proof -
  let ?items = "copy_items poss ts" and ?w = "host_write L (ms_device ms)"
  have ms': "ms' = ms\<lparr>ms_host := fold (\<lambda>(r, bs) m. write_bytes m (host_start L r) bs) (map ?w ?items) (ms_host ms)\<rparr>"
    unfolding ms'_def by (rule d2h_fold)
  then show "ms_device ms' = ms_device ms" by simp
  have fst_w: "map fst (map ?w ?items) = map item_host ?items" by (auto simp: host_write_def)
  have dist: "distinct (map item_host ?items)" by (rule distinct_item_host [OF poss(1) ts])
  have pay: "int (length bs) = host_payload L r" if rb: "(r, bs) \<in> set (map ?w ?items)" for r bs
  proof -
    from rb obtain gi fi d h where x: "(gi, fi, d, h) \<in> set ?items" "(r, bs) = ?w (gi, fi, d, h)" by auto
    then have "(gi, fi) \<in> set poss" using copy_items_iff by blast
    then have "field_at L gi fi" using poss(2) by auto
    then have "0 \<le> cf_payload_bytes (tg_fields (tl_groups L ! gi) ! fi)" using field_at_payload [OF L] less_imp_le by blast
    then show ?thesis using x(2) by (simp add: host_write_def item_host_def host_payload_def item_field_def)
  qed
  have batch: "read_bytes (ms_host ms') (host_start L r) (host_payload L r) =
      (case map_of (map ?w ?items) r of None \<Rightarrow> read_bytes (ms_host ms) (host_start L r) (host_payload L r) | Some bs \<Rightarrow> bs)"
    if "r \<in> host_regions L n lease" for r
  proof -
    have "set (map fst (map ?w ?items)) \<subseteq> host_regions L n lease" unfolding fst_w using reg by auto
    moreover have "distinct (map fst (map ?w ?items))" unfolding fst_w by (rule dist)
    moreover have "\<forall>(r, bs) \<in> set (map ?w ?items). int (length bs) = host_payload L r" using pay by blast
    ultimately show ?thesis using host_region.batch [of "(L, n, lease)" "map ?w ?items" r "ms_host ms"] L n that
      unfolding ms' prod.case by simp
  qed
  have w: "map ?w ?items = map (\<lambda>x. (item_host x, snd (?w x))) ?items" by (auto simp: host_write_def)
  show "read_bytes (ms_host ms') (host_start L (gi, h, fi)) (cf_payload_bytes (tg_fields (tl_groups L ! gi) ! fi)) =
      read_bytes (ms_device ms ! nat (cf_device_buffer_index (tg_fields (tl_groups L ! gi) ! fi)))
        (device_offset (tg_fields (tl_groups L ! gi) ! fi) d) (cf_payload_bytes (tg_fields (tl_groups L ! gi) ! fi))"
    if x: "(gi, fi, d, h) \<in> set ?items"
  proof -
    have "map_of (map ?w ?items) (item_host (gi, fi, d, h)) = Some (snd (?w (gi, fi, d, h)))"
      unfolding w using map_of_map_key [OF dist x] .
    moreover have "item_host (gi, fi, d, h) \<in> host_regions L n lease" using reg x by blast
    ultimately show ?thesis using batch [of "(gi, h, fi)"]
      by (simp add: item_host_def host_payload_def host_write_def item_field_def)
  qed
  assume r: "r \<in> host_regions L n lease" "r \<notin> item_host ` set ?items"
  then have "map_of (map ?w ?items) r = None" by (auto simp: map_of_eq_None_iff host_write_def)
  then show "read_bytes (ms_host ms') (host_start L r) (host_payload L r) = read_bytes (ms_host ms) (host_start L r) (host_payload L r)"
    using batch [OF r(1)] by simp
qed

text \<open>A layout that addresses the pages of a plan, as \<open>layout_from_lcm_plan\<close> gives it.\<close>

definition addresses_plan :: "cache_memory_plan \<Rightarrow> transfer_layout \<Rightarrow> bool" where
  "addresses_plan P L \<longleftrightarrow> plan_ok P \<and> layout_wf L \<and>
     (\<forall>f \<in> set (layout_fields L). cf_device_buffer_index f = 0) \<and>
     (\<forall>tg \<in> set (tl_groups L). \<forall>tf \<in> set (tg_fields tg). \<forall>b.
        0 \<le> b \<and> b \<le> tl_num_lcm_blocks L * tg_cache_blocks_per_lcm_block tg \<longrightarrow>
        page_start P (cf_field_id tf, b) = device_offset tf b \<and> page_payload P (cf_field_id tf, b) = cf_payload_bytes tf)"

lemma plan_layout_addresses:
  assumes P: "plan_ok P" and L: "layout_from_lcm_plan P buffer consumers gids fids = Inr L"
  shows "addresses_plan P L"
proof -
  have "cf_device_buffer_index f = 0" if f: "f \<in> set (layout_fields L)" for f
  proof -
    from f obtain tg where "tg \<in> set (tl_groups L)" "f \<in> set (tg_fields tg)" by (auto simp: layout_fields_def)
    then obtain g f' where "f' \<in> set (mp_fields P)" "transfer_field_of P f' = Inr f"
      by (rule layout_from_plan_field [OF P L])
    then show ?thesis using transfer_field_of_Inr(5) [OF P] by blast
  qed
  then show ?thesis unfolding addresses_plan_def page_start_def
    using P layout_from_plan_wf [OF P L] layout_from_plan_address(1,2) [OF P L] by auto
qed

lemma h2d_result:
  fixes ms :: mem_state
  assumes A: "addresses_plan P L" and poss: "distinct poss" "\<forall>(gi, fi) \<in> set poss. field_at L gi fi"
    and ids: "distinct (map (field_id_at L) poss)" and ts: "distinct (map (\<lambda>(g, p). (g, fst p)) ts)"
    and blk: "\<forall>(gi, fi, d, h) \<in> set (copy_items poss ts). 0 \<le> d \<and> d \<le> tl_num_lcm_blocks L * tg_cache_blocks_per_lcm_block (tl_groups L ! gi)"
    and reg: "\<forall>x \<in> set (copy_items poss ts). item_page L x \<in> leased_pages P lease" and dev: "ms_device ms = [dev]"
  defines "ms' \<equiv> transfer_dma H2D (map (item_range L) (copy_items poss ts)) ms"
  shows "ms_host ms' = ms_host ms"
    and "(gi, fi, d, h) \<in> set (copy_items poss ts) \<Longrightarrow>
      read_bytes (ms_device ms' ! 0) (device_offset (tg_fields (tl_groups L ! gi) ! fi) d) (cf_payload_bytes (tg_fields (tl_groups L ! gi) ! fi)) =
      read_bytes (ms_host ms) (host_start L (gi, h, fi)) (cf_payload_bytes (tg_fields (tl_groups L ! gi) ! fi))"
    and "r \<in> leased_pages P lease \<Longrightarrow> r \<notin> item_page L ` set (copy_items poss ts) \<Longrightarrow>
      read_bytes (ms_device ms' ! 0) (page_start P r) (page_payload P r) = read_bytes dev (page_start P r) (page_payload P r)"
proof -
  let ?items = "copy_items poss ts" and ?w = "device_write L (ms_host ms)"
  have L: "layout_wf L" and P: "plan_ok P" using A by (auto simp: addresses_plan_def)
  have item: "cf_device_buffer_index (item_field L x) = 0 \<and>
      page_start P (item_page L x) = device_offset (item_field L x) (snd (item_page L x)) \<and>
      page_payload P (item_page L x) = cf_payload_bytes (item_field L x) \<and> 0 \<le> cf_payload_bytes (item_field L x)"
    if x: "x \<in> set ?items" for x
  proof -
    obtain gi fi d h where xx: "x = (gi, fi, d, h)" by (metis prod_cases4)
    have "(gi, fi) \<in> set poss" using x xx copy_items_iff by blast
    then have fa: "field_at L gi fi" using poss(2) by auto
    then have g: "tl_groups L ! gi \<in> set (tl_groups L)" and f: "tg_fields (tl_groups L ! gi) ! fi \<in> set (tg_fields (tl_groups L ! gi))"
      by (simp_all add: field_at_def)
    have "tg_fields (tl_groups L ! gi) ! fi \<in> set (layout_fields L)" using g f by (auto simp: layout_fields_def)
    moreover have "0 \<le> d \<and> d \<le> tl_num_lcm_blocks L * tg_cache_blocks_per_lcm_block (tl_groups L ! gi)" using blk x xx by auto
    ultimately show ?thesis using A g f field_at_payload [OF L fa, THEN less_imp_le]
      by (simp add: addresses_plan_def xx item_field_def item_page_def)
  qed
  have ms': "ms' = ms\<lparr>ms_device := [fold (\<lambda>(r, bs) m. write_bytes m (page_start P r) bs) (map ?w ?items) dev]\<rparr>"
    unfolding ms'_def using item dev by (intro h2d_fold) blast+
  then show "ms_host ms' = ms_host ms" by simp
  have fst_w: "map fst (map ?w ?items) = map (item_page L) ?items" by (auto simp: device_write_def)
  have dist: "distinct (map (item_page L) ?items)" by (rule distinct_item_page [OF poss(1) ids ts])
  have batch: "read_bytes (ms_device ms' ! 0) (page_start P r) (page_payload P r) =
      (case map_of (map ?w ?items) r of None \<Rightarrow> read_bytes dev (page_start P r) (page_payload P r) | Some bs \<Rightarrow> bs)"
    if "r \<in> leased_pages P lease" for r
  proof -
    have "set (map fst (map ?w ?items)) \<subseteq> leased_pages P lease" unfolding fst_w using reg by auto
    moreover have "distinct (map fst (map ?w ?items))" unfolding fst_w by (rule dist)
    moreover have "\<forall>(r, bs) \<in> set (map ?w ?items). int (length bs) = page_payload P r"
      using item by (auto simp: device_write_def)
    ultimately show ?thesis using leased_region.batch [of "(P, lease)" "map ?w ?items" r dev] P that
      unfolding ms' prod.case by simp
  qed
  have w: "map ?w ?items = map (\<lambda>x. (item_page L x, snd (?w x))) ?items" by (auto simp: device_write_def)
  show "read_bytes (ms_device ms' ! 0) (device_offset (tg_fields (tl_groups L ! gi) ! fi) d) (cf_payload_bytes (tg_fields (tl_groups L ! gi) ! fi)) =
      read_bytes (ms_host ms) (host_start L (gi, h, fi)) (cf_payload_bytes (tg_fields (tl_groups L ! gi) ! fi))"
    if x: "(gi, fi, d, h) \<in> set ?items"
  proof -
    have "map_of (map ?w ?items) (item_page L (gi, fi, d, h)) = Some (snd (?w (gi, fi, d, h)))"
      unfolding w using map_of_map_key [OF dist x] .
    moreover have "item_page L (gi, fi, d, h) \<in> leased_pages P lease" using reg x by blast
    ultimately show ?thesis using batch [of "item_page L (gi, fi, d, h)"] item [OF x]
      by (simp add: item_page_def item_host_def device_write_def item_field_def)
  qed
  assume r: "r \<in> leased_pages P lease" "r \<notin> item_page L ` set ?items"
  then have "map_of (map ?w ?items) r = None" by (auto simp: map_of_eq_None_iff device_write_def)
  then show "read_bytes (ms_device ms' ! 0) (page_start P r) (page_payload P r) = read_bytes dev (page_start P r) (page_payload P r)"
    using batch [OF r(1)] by simp
qed

text \<open>C22: the transfer geometry of a validated layout always builds and is complete. For a well-formed layout and
  its Host storage, \<^verbatim>\<open>build_transfer_geometry\<close> raises none of its errors; its rows are, in consumer order,
  one row per field with that field's group, buffer, Device and Host addressing; the layer slices are
  consecutive and cover the rows consumer by consumer; the packing and the pool sizes are the layout's;
  and the geometry is bound to the Device exactly when the kernel transport was asked for.\<close>

theorem geometry_complete:
  assumes "layout_wf L" and "host_cache_storage L n = Inr hs"
  shows "\<exists>gm. build_transfer_geometry L hs kernel_backend device = Inr gm \<and>
    list_all2 (row_for L) (concat (tl_consumers L)) (tm_rows gm) \<and>
    tm_layer_slices gm = slices_from 0 (map length (tl_consumers L)) \<and>
    tm_group_packing gm = map tg_cache_blocks_per_lcm_block (tl_groups L) \<and>
    tm_host_lcm_block_bytes gm = compute_host_lcm_block_bytes L \<and> tm_num_host_lcm_blocks gm = n \<and>
    tm_num_device_lcm_blocks gm = tl_num_lcm_blocks L \<and>
    tm_bound_device gm = (if kernel_backend then Some device else None)"
  using geometry_of_layout [OF assms] by blast

theorem geometry_complete_witness:
  "\<exists>hs gm. host_cache_storage demo_target 2 = Inr hs \<and> build_transfer_geometry demo_target hs True 0 = Inr gm \<and>
    tm_layer_slices gm = [(0, 2)] \<and> tm_bound_device gm = Some 0"
proof -
  obtain hs where hs: "host_cache_storage demo_target 2 = Inr hs" by (simp add: host_cache_storage_def compute_host_layout_def)
  have "slices_from 0 (map length (tl_consumers demo_target)) = [(0, 2)]" by code_simp
  then show ?thesis using hs geometry_complete [OF demo_layouts_wf(1) hs, of True 0] by auto
qed

end
