(* ===== verification/Transfer_Kernel.thy ===== *)
theory Transfer_Kernel
  imports Host_Transfer
begin

text \<open>
  The mapped-Host Triton transport (\<^verbatim>\<open>ops/kvcache/triton.py\<close> of the kernel package) and the choice of
  transport (\<^verbatim>\<open>ops/kvcache/host_transfer.py\<close>, \<^verbatim>\<open>cache/transfer/lanes.py\<close>). The kernel runs as
  \<open>nprogs\<close> programs that interleave freely; each program is the sequence of its masked chunk copies
  and, in a layered transfer, of its arrivals at the layer counters. The state of a launch is what
  every program still has to do, the bytes, the counters and the ready flags; one step is one
  instruction of one program, and every program sees the steps in the same order: the memory model
  below the kernel's fences and acquire and release operations is not modelled.

  Lemmas: every complete run copies what the DMA transport copies, whatever the interleaving; a set
  ready flag means its layer and all earlier layers have landed; every run ends with all flags set;
  and a block written back and loaded again holds its bytes, on either transport.
\<close>

section \<open>Programs of the kernel\<close>

definition chunk_count :: "int \<Rightarrow> nat" where
  "chunk_count payload_bytes =
     nat (tdiv (payload_bytes + HOST_CACHE_TRANSFER_CHUNK_BYTES - 1) HOST_CACHE_TRANSFER_CHUNK_BYTES)"

text \<open>The bytes one work item moves: lanes at or past the payload are masked off.\<close>

definition chunk_range :: "int \<Rightarrow> geometry_row \<Rightarrow> int \<times> int \<Rightarrow> nat \<Rightarrow> byte_range" where
  "chunk_range host_lcm_block_bytes row pair chunk_index =
     (let host_zero_based = snd pair - 1;
          host_parent = tdiv host_zero_based (gr_packing row);
          host_child = tmod host_zero_based (gr_packing row);
          dev_off = gr_device_zero row + fst pair * gr_device_stride row;
          host_off = host_parent * host_lcm_block_bytes + host_child * gr_host_block_bytes row + gr_host_field_offset row;
          byte_offset = int chunk_index * HOST_CACHE_TRANSFER_CHUNK_BYTES
      in (gr_device_buffer_index row, dev_off + byte_offset, host_off + byte_offset,
          min HOST_CACHE_TRANSFER_CHUNK_BYTES (gr_payload_bytes row - byte_offset)))"

text \<open>\<open>range(start, stop, step)\<close>.\<close>

function step_range :: "nat \<Rightarrow> nat \<Rightarrow> nat \<Rightarrow> nat list" where
  "step_range start stop step = (if start < stop \<and> 0 < step then start # step_range (start + step) stop step else [])"
  by auto
termination by (relation "measure (\<lambda>(start, stop, step). stop - start)") auto

declare step_range.simps [simp del]

definition copy_row ::
  "int \<Rightarrow> (int \<times> int) list \<Rightarrow> int list \<Rightarrow> nat \<Rightarrow> nat \<Rightarrow> geometry_row \<Rightarrow> byte_range list" where
  "copy_row host_lcm_block_bytes block_pairs group_offsets pid nprogs row =
     (let group_start = group_offsets ! nat (gr_group_index row);
          group_end = group_offsets ! nat (gr_group_index row + 1);
          num_chunks = chunk_count (gr_payload_bytes row);
          group_work_items = nat (group_end - group_start) * num_chunks
      in map (\<lambda>work_id. chunk_range host_lcm_block_bytes row
                (block_pairs ! (nat group_start + work_id div num_chunks)) (work_id mod num_chunks))
           (step_range pid group_work_items nprogs))"

definition copy_geometry_slice ::
  "transfer_geometry \<Rightarrow> (int \<times> int) list \<Rightarrow> int list \<Rightarrow> nat \<Rightarrow> nat \<Rightarrow> nat \<Rightarrow> nat \<Rightarrow> byte_range list" where
  "copy_geometry_slice gm block_pairs group_offsets geometry_offset num_geometry_rows pid nprogs =
     concat (map (copy_row (tm_host_lcm_block_bytes gm) block_pairs group_offsets pid nprogs)
       (take num_geometry_rows (drop geometry_offset (tm_rows gm))))"

datatype instr = Copy byte_range | Arrive nat

definition kernel_program ::
  "transfer_geometry \<Rightarrow> (int \<times> int) list \<Rightarrow> int list \<Rightarrow> bool \<Rightarrow> nat \<Rightarrow> nat \<Rightarrow> nat \<Rightarrow> nat \<Rightarrow> instr list" where
  "kernel_program gm block_pairs group_offsets signal_layers geometry_offset num_geometry_rows nprogs pid =
     (if signal_layers
      then concat (map (\<lambda>(layer_index, slice_offset, slice_rows).
             map Copy (copy_geometry_slice gm block_pairs group_offsets (nat slice_offset) (nat slice_rows) pid nprogs)
             @ [Arrive layer_index])
           (enumerate 0 (tm_layer_slices gm)))
      else map Copy (copy_geometry_slice gm block_pairs group_offsets geometry_offset num_geometry_rows pid nprogs))"

record launch =
  la_programs :: "instr list list"
  la_mem :: mem_state
  la_counts :: "nat list"
  la_flags :: "nat list"

text \<open>\<^verbatim>\<open>_arrive_and_signal_layer\<close>: a fetch-and-add, and the last arrival stores the flag.\<close>

definition arrive :: "nat \<Rightarrow> nat \<Rightarrow> launch \<Rightarrow> launch" where
  "arrive nprogs layer s =
     (let old = la_counts s ! layer in
      s\<lparr>la_counts := (la_counts s)[layer := old + 1],
        la_flags := (if old = nprogs - 1 then (la_flags s)[layer := 1] else la_flags s)\<rparr>)"

definition exec_instr :: "direction \<Rightarrow> nat \<Rightarrow> instr \<Rightarrow> launch \<Rightarrow> launch" where
  "exec_instr dir nprogs i s =
     (case i of
        Copy r \<Rightarrow> s\<lparr>la_mem := dma_copy dir r (la_mem s)\<rparr>
      | Arrive layer \<Rightarrow> arrive nprogs layer s)"

inductive kernel_step :: "direction \<Rightarrow> nat \<Rightarrow> launch \<Rightarrow> launch \<Rightarrow> bool" for dir nprogs where
  run: "p < length (la_programs s) \<Longrightarrow> la_programs s ! p = i # rest \<Longrightarrow>
        kernel_step dir nprogs s (exec_instr dir nprogs i (s\<lparr>la_programs := (la_programs s)[p := rest]\<rparr>))"

definition kernel_launch ::
  "transfer_geometry \<Rightarrow> (int \<times> int) list \<Rightarrow> int list \<Rightarrow> (nat list \<times> nat list) option \<Rightarrow> nat \<Rightarrow> nat \<Rightarrow> nat \<Rightarrow>
   mem_state \<Rightarrow> launch" where
  "kernel_launch gm block_pairs group_offsets layer_tables geometry_offset num_geometry_rows nprogs ms =
     \<lparr>la_programs = map (kernel_program gm block_pairs group_offsets (layer_tables \<noteq> None) geometry_offset
        num_geometry_rows nprogs) [0..<nprogs],
      la_mem = ms,
      la_counts = (case layer_tables of None \<Rightarrow> [] | Some (flags, counts) \<Rightarrow> counts),
      la_flags = (case layer_tables of None \<Rightarrow> [] | Some (flags, counts) \<Rightarrow> flags)\<rparr>"

text \<open>\<^verbatim>\<open>transfer_cache_blocks\<close> of the Triton file: the guards, the grid and the launch (\<open>None\<close>: nothing launched).\<close>

definition transfer_cache_blocks_triton ::
  "int \<Rightarrow> transfer_geometry \<Rightarrow> (int \<times> int) list \<Rightarrow> int list \<Rightarrow> nat \<Rightarrow> nat \<Rightarrow> int \<Rightarrow> int option \<Rightarrow>
   (nat list \<times> nat list) option \<Rightarrow> mem_state \<Rightarrow> (nat \<times> launch) option result" where
  "transfer_cache_blocks_triton default_cap gm block_pairs group_offsets geometry_offset num_geometry_rows work_items
     grid_cap layer_tables ms =
     raise_if (case layer_tables of None \<Rightarrow> False
               | Some (flags, counts) \<Rightarrow> length flags \<noteq> length (tm_layer_slices gm) \<or> length counts \<noteq> length (tm_layer_slices gm))
       (ValueError ''layer ready tables must cover the same layers'')
    (if layer_tables = None \<and> (work_items \<le> 0 \<or> num_geometry_rows = 0) then Inr None
     else let cap = (case grid_cap of None \<Rightarrow> default_cap | Some c \<Rightarrow> c) in
       raise_if (cap \<le> 0) (ValueError ''grid_cap must be positive'')
         (let nprogs = nat (max 1 (min cap (if work_items > 0 then work_items else 1)))
          in Inr (Some (nprogs, kernel_launch gm block_pairs group_offsets layer_tables geometry_offset
                          num_geometry_rows nprogs ms))))"

text \<open>The waiting kernel polls one flag; the value says whether the poll ends the wait.\<close>

definition wait_layer_ready :: "bool \<Rightarrow> nat list \<Rightarrow> int \<Rightarrow> bool result" where
  "wait_layer_ready nvidia flags layer_index =
     raise_if (\<not> nvidia) (RuntimeError ''wait_layer_ready requires NVIDIA PTX'')
    (raise_if (\<not> (0 \<le> layer_index \<and> layer_index < int (length flags))) (IndexError ''layer_index outside'')
       (Inr (flags ! nat layer_index \<noteq> 0)))"

text \<open>Ready flags and arrival counters of a workspace, zeroed for every layered transfer.\<close>

record layer_ready =
  lr_flags :: "nat list option"
  lr_counts :: "nat list option"
  lr_device :: int
  lr_num :: nat

definition prepare_layer_ready :: "layer_ready \<Rightarrow> nat \<Rightarrow> int \<Rightarrow> layer_ready \<times> nat list result" where
  "prepare_layer_ready lr num_layers device =
     (if num_layers = 0 then (lr, Inl (ValueError ''num_layers must be positive''))
      else
        let fresh = (\<lambda>capacity. lr\<lparr>lr_flags := Some (replicate capacity 0), lr_counts := Some (replicate capacity 0),
                       lr_device := device, lr_num := num_layers\<rparr>);
            lr' = (case (lr_flags lr, lr_counts lr) of
                (Some flags, Some counts) \<Rightarrow>
                  if lr_device lr = device \<and> num_layers \<le> length flags \<and> num_layers \<le> length counts
                  then lr\<lparr>lr_flags := Some (copy_prefix flags (replicate num_layers 0)),
                          lr_counts := Some (copy_prefix counts (replicate num_layers 0)), lr_num := num_layers\<rparr>
                  else fresh (max num_layers (length flags * 2))
              | (Some flags, None) \<Rightarrow> fresh (max num_layers (length flags * 2))
              | (None, _) \<Rightarrow> fresh num_layers)
        in (lr', Inr (take num_layers (case lr_flags lr' of None \<Rightarrow> [] | Some flags \<Rightarrow> flags))))"

definition layer_cta_counts :: "layer_ready \<Rightarrow> nat list result" where
  "layer_cta_counts lr =
     (case lr_counts lr of
        None \<Rightarrow> Inl (ValueError ''layer-ready state has not been prepared'')
      | Some counts \<Rightarrow> raise_if (lr_num lr = 0) (ValueError ''layer-ready state has not been prepared'')
          (Inr (take (lr_num lr) counts)))"

section \<open>Choice of transport\<close>

datatype transport_request = Backend_auto | Backend_triton | Backend_dma

datatype transport = Transport_triton | Transport_dma

record transfer_mode =
  tmo_backend :: transport
  tmo_layer_ready :: bool

definition transfer_mode_of :: "transport \<Rightarrow> bool \<Rightarrow> transfer_mode result" where
  "transfer_mode_of t layer_ready =
     raise_if (t = Transport_dma \<and> layer_ready) (ValueError ''DMA does not currently support layer_ready=True'')
       (Inr \<lparr>tmo_backend = t, tmo_layer_ready = layer_ready\<rparr>)"

definition uses_device_tables :: "transfer_mode \<Rightarrow> bool" where
  "uses_device_tables m \<longleftrightarrow> tmo_backend m = Transport_triton"

text \<open>What the platform reports of the bound buffers: the Device kind, what binding the addresses does, whether the
  ready-flag instructions exist, and the configured grid cap. \<^verbatim>\<open>bind_addresses\<close> finds a Device-visible pointer of the
  Host buffer, raises \<^verbatim>\<open>_MappedHostUnavailable\<close>, or lets another error through.\<close>

datatype host_pointer = Mapped | Unavailable | Pointer_error py_error

record platform =
  pf_npu :: bool
  pf_cuda :: bool
  pf_host_pointer :: host_pointer
  pf_nvidia :: bool
  pf_grid_cap :: int

record mode_cache =
  mc_key :: "int list option"
  mc_mode :: "transfer_mode option"

definition prepare_backend ::
  "platform \<Rightarrow> mode_cache \<Rightarrow> int list \<Rightarrow> transport_request \<Rightarrow> mode_cache \<times> transfer_mode result" where
  "prepare_backend pf cache key backend =
     (if backend = Backend_dma \<or> pf_npu pf then
        (cache, raise_if (backend = Backend_triton) (RuntimeError ''mapped Host Triton transfer is unavailable on NPU'')
                  (transfer_mode_of Transport_dma False))
      else
        let cache1 = (if mc_key cache \<noteq> Some key then \<lparr>mc_key = Some key, mc_mode = None\<rparr> else cache);
            resolved = (case mc_mode cache1 of
                Some m \<Rightarrow> Inr m
              | None \<Rightarrow>
                  (case pf_host_pointer pf of
                     Mapped \<Rightarrow> transfer_mode_of Transport_triton (pf_cuda pf \<and> pf_nvidia pf)
                   | Unavailable \<Rightarrow> raise_if (backend = Backend_triton) (RuntimeError ''mapped Host access is not available'')
                         (transfer_mode_of Transport_dma False)
                   | Pointer_error e \<Rightarrow> Inl e))
        in case resolved of
             Inl e \<Rightarrow> (cache1, Inl e)
           | Inr m \<Rightarrow> (cache1\<lparr>mc_mode := Some m\<rparr>,
                raise_if (backend = Backend_triton \<and> \<not> uses_device_tables m)
                  (RuntimeError ''mapped Host access is not available'') (Inr m)))"

section \<open>Submitting a transfer\<close>

text \<open>What a submission leaves on the stream: nothing, DMA copies (with the ready flags filled after them), or
  a kernel launch.\<close>

datatype submission = Sub_none | Sub_dma mem_state "nat list option" | Sub_kernel nat launch

record lane =
  ln_workspace :: workspace
  ln_mode :: mode_cache
  ln_ready :: layer_ready

definition submit_dma ::
  "direction \<Rightarrow> transfer_geometry \<Rightarrow> workspace \<Rightarrow> int \<Rightarrow> nat \<Rightarrow> nat \<Rightarrow> nat list option \<Rightarrow> mem_state \<Rightarrow> submission result" where
  "submit_dma dir gm ws num_blocks geometry_offset num_geometry_rows layer_ready_flags ms =
     bindE (make_block_ranges gm ws num_blocks geometry_offset num_geometry_rows) (\<lambda>ranges.
     bindE (transfer_cache_ranges dir ranges ms) (\<lambda>ms'.
     Inr (Sub_dma ms' (map_option (map (\<lambda>_. 1)) layer_ready_flags))))"

definition submit_kernel ::
  "platform \<Rightarrow> transfer_geometry \<Rightarrow> lane \<Rightarrow> int \<Rightarrow> nat \<Rightarrow> nat \<Rightarrow> int \<Rightarrow> int option \<Rightarrow> nat list option \<Rightarrow> mem_state \<Rightarrow>
   submission result" where
  "submit_kernel pf gm lane num_blocks geometry_offset num_geometry_rows work_items grid_cap layer_ready_flags ms =
     raise_if (tm_bound_device gm = None) (ValueError ''geometry must be bound before a Triton block transfer'')
    (bindE (committed_block_tables (ln_workspace lane) num_blocks) (\<lambda>(block_rows, group_offsets).
     bindE (case layer_ready_flags of
              None \<Rightarrow> Inr None
            | Some flags \<Rightarrow> bindE (layer_cta_counts (ln_ready lane)) (\<lambda>counts. Inr (Some (flags, counts)))) (\<lambda>layer_tables.
     bindE (transfer_cache_blocks_triton (pf_grid_cap pf) gm block_rows group_offsets geometry_offset num_geometry_rows
              work_items grid_cap layer_tables ms) (\<lambda>l.
     Inr (case l of None \<Rightarrow> Sub_none | Some (nprogs, s) \<Rightarrow> Sub_kernel nprogs s)))))"

definition check_transfer_arguments ::
  "direction \<Rightarrow> transfer_geometry \<Rightarrow> int \<Rightarrow> int \<Rightarrow> int \<Rightarrow> nat list option \<Rightarrow> unit result" where
  "check_transfer_arguments dir gm num_blocks geometry_offset num_geometry_rows layer_ready_flags =
     raise_if (geometry_offset < 0 \<or> num_geometry_rows < 0) (ValueError ''geometry slice values must be non-negative'')
    (raise_if (geometry_offset + num_geometry_rows > int (length (tm_rows gm)))
       (ValueError ''geometry slice lies outside the static table'')
    (raise_if (num_blocks < 0) (ValueError ''num_blocks must be non-negative'')
    (case layer_ready_flags of
       None \<Rightarrow> Inr ()
     | Some flags \<Rightarrow>
         raise_if (dir \<noteq> H2D \<or> geometry_offset \<noteq> 0 \<or> num_geometry_rows \<noteq> int (length (tm_rows gm)))
           (ValueError ''layer-ready flags require a full-geometry H2D transfer'')
        (raise_if (length flags \<noteq> length (tm_layer_slices gm))
           (ValueError ''layer_ready_flags must cover every geometry layer'') (Inr ())))))"

definition transfer_cache_blocks ::
  "platform \<Rightarrow> int list \<Rightarrow> direction \<Rightarrow> transfer_geometry \<Rightarrow> lane \<Rightarrow> int \<Rightarrow> int \<Rightarrow> int \<Rightarrow> transport_request \<Rightarrow> int option \<Rightarrow>
   nat list option \<Rightarrow> mem_state \<Rightarrow> lane \<times> submission result" where
  "transfer_cache_blocks pf key dir gm lane num_blocks geometry_offset num_geometry_rows backend grid_cap layer_ready_flags ms =
     (let off = nat geometry_offset; cnt = nat num_geometry_rows;
          dma = submit_dma dir gm (ln_workspace lane) num_blocks off cnt layer_ready_flags ms in
      case check_transfer_arguments dir gm num_blocks geometry_offset num_geometry_rows layer_ready_flags of
        Inl e \<Rightarrow> (lane, Inl e)
      | Inr _ \<Rightarrow>
          if num_blocks = 0 \<or> layer_ready_flags = None \<and> num_geometry_rows = 0 then (lane, Inr Sub_none)
          else if backend = Backend_dma then (lane, dma)
          else if layer_ready_flags \<noteq> None \<and> \<not> pf_nvidia pf then
            (lane, raise_if (backend = Backend_triton) (ValueError ''flagged Triton transfers require NVIDIA PTX'') dma)
          else case block_work_items gm (ln_workspace lane) off cnt of
            Inl e \<Rightarrow> (lane, Inl e)
          | Inr work_items \<Rightarrow>
              if work_items = 0 \<and> layer_ready_flags = None then
                (lane, bindE (host_block_rows (ln_workspace lane) num_blocks) (\<lambda>_. Inr Sub_none))
              else case prepare_backend pf (ln_mode lane) key backend of
                (cache, Inl e) \<Rightarrow> (lane\<lparr>ln_mode := cache\<rparr>, Inl e)
              | (cache, Inr mode) \<Rightarrow>
                  (lane\<lparr>ln_mode := cache\<rparr>,
                   if \<not> uses_device_tables mode then dma
                   else submit_kernel pf gm lane num_blocks off cnt work_items grid_cap layer_ready_flags ms))"

text \<open>\<^verbatim>\<open>HostTransferLane._stage\<close> and \<^verbatim>\<open>_start\<close>.\<close>

definition lane_stage ::
  "int \<Rightarrow> platform \<Rightarrow> int list \<Rightarrow> transfer_geometry \<Rightarrow> transport_request \<Rightarrow> (int \<times> int \<times> int) list \<Rightarrow> lane \<Rightarrow> lane \<times> int result" where
  "lane_stage junk pf key gm backend transfers lane =
     (case load_block_transfers junk (ln_workspace lane) transfers gm of
        (ws, Inl e) \<Rightarrow> (lane\<lparr>ln_workspace := ws\<rparr>, Inl e)
      | (ws, Inr (num_blocks, _)) \<Rightarrow>
          (case prepare_backend pf (ln_mode lane) key backend of
             (cache, Inl e) \<Rightarrow> (lane\<lparr>ln_workspace := ws, ln_mode := cache\<rparr>, Inl e)
           | (cache, Inr mode) \<Rightarrow>
               if uses_device_tables mode then
                 case commit_block_transfers junk ws num_blocks of
                   (ws', r) \<Rightarrow> (lane\<lparr>ln_workspace := ws', ln_mode := cache\<rparr>, bindE r (\<lambda>_. Inr num_blocks))
               else (lane\<lparr>ln_workspace := ws, ln_mode := cache\<rparr>, Inr num_blocks)))"

definition lane_start ::
  "int \<Rightarrow> platform \<Rightarrow> int list \<Rightarrow> direction \<Rightarrow> transfer_geometry \<Rightarrow> transport_request \<Rightarrow> (int \<times> int \<times> int) list \<Rightarrow> lane \<Rightarrow>
   mem_state \<Rightarrow> lane \<times> submission result" where
  "lane_start junk pf key dir gm backend transfers lane ms =
     (if transfers = [] then (lane, Inr Sub_none)
      else case lane_stage junk pf key gm backend transfers lane of
        (lane', Inl e) \<Rightarrow> (lane', Inl e)
      | (lane', Inr num_blocks) \<Rightarrow>
          transfer_cache_blocks pf key dir gm lane' num_blocks 0 (int (length (tm_rows gm))) backend None None ms)"

text \<open>The bytes once the completion event of a submission has been reached.\<close>

inductive finishes :: "direction \<Rightarrow> submission \<Rightarrow> mem_state \<Rightarrow> mem_state \<Rightarrow> bool" for dir where
  none: "finishes dir Sub_none ms ms"
| dma: "finishes dir (Sub_dma ms' flags) ms ms'"
| kernel: "(kernel_step dir nprogs)\<^sup>*\<^sup>* s s' \<Longrightarrow> \<forall>prog \<in> set (la_programs s'). prog = [] \<Longrightarrow>
           finishes dir (Sub_kernel nprogs s) ms (la_mem s')"

section \<open>What a set of copies does, in any order\<close>

text \<open>A byte of a Device buffer or of the Host buffer, and the source of every byte a range writes.\<close>

datatype loc = Dev nat int | Hst int

definition loc_val :: "mem_state \<Rightarrow> loc \<Rightarrow> int" where
  "loc_val ms l = (case l of Dev b a \<Rightarrow> (ms_device ms ! b) a | Hst a \<Rightarrow> ms_host ms a)"

definition copy_pairs :: "direction \<Rightarrow> byte_range \<Rightarrow> (loc \<times> loc) set" where
  "copy_pairs dir r = (case r of (buffer_index, dev_off, host_off, num_bytes) \<Rightarrow>
     (\<lambda>i. case dir of D2H \<Rightarrow> (Hst (host_off + i), Dev (nat buffer_index) (dev_off + i))
                    | H2D \<Rightarrow> (Dev (nat buffer_index) (dev_off + i), Hst (host_off + i))) ` {0..<num_bytes})"

definition all_pairs :: "direction \<Rightarrow> byte_range set \<Rightarrow> (loc \<times> loc) set" where
  "all_pairs dir R = (\<Union>r \<in> R. copy_pairs dir r)"

definition buffers_in :: "mem_state \<Rightarrow> byte_range set \<Rightarrow> bool" where
  "buffers_in ms R \<longleftrightarrow> (\<forall>r \<in> R. nat (fst r) < length (ms_device ms))"

lemma length_ms_device [simp]:
  "length (ms_device (dma_copy dir r ms)) = length (ms_device ms)"
  "ms_device_bytes (dma_copy dir r ms) = ms_device_bytes ms" "ms_host_bytes (dma_copy dir r ms) = ms_host_bytes ms"
  by (cases dir; simp add: dma_copy_def Let_def split: prod.splits)+

lemma shift_mem: "a - off \<in> {0..<n} \<Longrightarrow> (\<exists>i \<in> {0..<n}. a = off + i)" for a :: int
  by (intro bexI [of _ "a - off"]) simp_all

lemma update_nth: "xs[i := v] ! j = (if i = j \<and> i < length xs then v else xs ! j)"
  by (cases "i < length xs") (auto simp: nth_list_update list_update_beyond)

lemma dma_copy_loc:
  assumes "nat (fst r) < length (ms_device ms)"
  shows "(x, y) \<in> copy_pairs dir r \<Longrightarrow> loc_val (dma_copy dir r ms) x = loc_val ms y"
    and "x \<notin> Domain (copy_pairs dir r) \<Longrightarrow> loc_val (dma_copy dir r ms) x = loc_val ms x"
proof -
  obtain b d h n where r: "r = (b, d, h, n)" by (metis prod_cases4)
  show "loc_val (dma_copy dir r ms) x = loc_val ms y" if "(x, y) \<in> copy_pairs dir r"
    using that assms by (cases dir) (auto simp: r copy_pairs_def dma_copy_def loc_val_def write_bytes_def read_bytes_def Let_def)
  assume x: "x \<notin> Domain (copy_pairs dir r)"
  show "loc_val (dma_copy dir r ms) x = loc_val ms x"
  proof (cases dir)
    case D2H
    have "a - h \<notin> {0..<n}" if "x = Hst a" for a
      using x shift_mem [of a h n] by (auto simp: r D2H copy_pairs_def that)
    then show ?thesis by (cases x) (auto simp: r D2H dma_copy_def loc_val_def write_bytes_def read_bytes_def Let_def)
  next
    case H2D
    have "a - d \<notin> {0..<n}" if "x = Dev (nat b) a" for a
      using x shift_mem [of a d n] by (auto simp: r H2D copy_pairs_def that)
    then show ?thesis
      by (cases x) (auto simp: r H2D dma_copy_def loc_val_def write_bytes_def read_bytes_def Let_def update_nth)
  qed
qed

lemma copy_source_kept:
  assumes "(x, y) \<in> all_pairs dir R" shows "y \<notin> Domain (copy_pairs dir r)"
  using assms by (cases dir) (auto simp: all_pairs_def copy_pairs_def split: prod.splits)

text \<open>Copies whose destinations have one source each may be made in any order.\<close>

lemma transfer_dma_locs:
  assumes "single_valued (all_pairs dir (set rs))" and "buffers_in ms (set rs)"
  shows "(\<forall>y. (x, y) \<in> all_pairs dir (set rs) \<longrightarrow> loc_val (transfer_dma dir rs ms) x = loc_val ms y) \<and>
    (x \<notin> Domain (all_pairs dir (set rs)) \<longrightarrow> loc_val (transfer_dma dir rs ms) x = loc_val ms x)"
  using assms
proof (induction rs arbitrary: ms)
  case (Cons r rs)
  let ?ms = "dma_copy dir r ms"
  have U: "all_pairs dir (set (r # rs)) = copy_pairs dir r \<union> all_pairs dir (set rs)" by (simp add: all_pairs_def)
  then have sv: "single_valued (all_pairs dir (set rs))" using Cons.prems(1) by (auto intro: single_valued_subset)
  have b: "buffers_in ?ms (set rs)" "nat (fst r) < length (ms_device ms)" using Cons.prems(2) by (auto simp: buffers_in_def)
  have step: "transfer_dma dir (r # rs) ms = transfer_dma dir rs ?ms" by (simp add: transfer_dma_def)
  note IH = Cons.IH [OF sv b(1)]
  show ?case
  proof (cases "x \<in> Domain (all_pairs dir (set rs))")
    case True
    then obtain z where z: "(x, z) \<in> all_pairs dir (set rs)" by blast
    then have "loc_val (transfer_dma dir rs ?ms) x = loc_val ms z"
      using IH dma_copy_loc(2) [OF b(2) copy_source_kept [OF z]] by simp
    moreover have "y = z" if "(x, y) \<in> all_pairs dir (set (r # rs))" for y
      using Cons.prems(1) that z U by (auto dest: single_valuedD)
    ultimately show ?thesis unfolding step using z U by auto
  next
    case False
    then have "loc_val (transfer_dma dir rs ?ms) x = loc_val ?ms x" using IH by simp
    then show ?thesis unfolding step U using False dma_copy_loc [OF b(2), where x = x] by (auto simp: Domain_iff)
  qed
qed (simp add: transfer_dma_def all_pairs_def)

lemma transfer_dma_loc:
  assumes "single_valued (all_pairs dir (set rs))" and "buffers_in ms (set rs)"
  shows "(x, y) \<in> all_pairs dir (set rs) \<Longrightarrow> loc_val (transfer_dma dir rs ms) x = loc_val ms y"
    and "x \<notin> Domain (all_pairs dir (set rs)) \<Longrightarrow> loc_val (transfer_dma dir rs ms) x = loc_val ms x"
  using transfer_dma_locs [OF assms] by blast+

lemma mem_state_eqI:
  fixes ms ms' :: mem_state
  assumes "length (ms_device ms) = length (ms_device ms')" "ms_device_bytes ms = ms_device_bytes ms'"
    "ms_host_bytes ms = ms_host_bytes ms'"
    and v: "\<And>x. (\<forall>b a. x = Dev b a \<longrightarrow> b < length (ms_device ms)) \<Longrightarrow> loc_val ms x = loc_val ms' x"
  shows "ms = ms'"
proof -
  have "ms_device ms = ms_device ms'"
    using assms(1) v [of "Dev _ _"] by (intro nth_equalityI ext) (auto simp: loc_val_def)
  moreover have "ms_host ms = ms_host ms'" using v [of "Hst _"] by (intro ext) (auto simp: loc_val_def)
  ultimately show ?thesis using assms(2,3) by simp
qed

lemma transfer_dma_sizes [simp]:
  "length (ms_device (transfer_dma dir rs ms)) = length (ms_device ms)"
  "ms_device_bytes (transfer_dma dir rs ms) = ms_device_bytes ms" "ms_host_bytes (transfer_dma dir rs ms) = ms_host_bytes ms"
  by (induction rs arbitrary: ms) (simp_all add: transfer_dma_def)

lemma transfer_dma_same_pairs:
  assumes eq: "all_pairs dir (set rs) = all_pairs dir (set rs')" and sv: "single_valued (all_pairs dir (set rs))"
    and b: "buffers_in ms (set rs)" "buffers_in ms (set rs')"
  shows "transfer_dma dir rs ms = transfer_dma dir rs' ms"
proof (rule mem_state_eqI)
  fix x
  note L = transfer_dma_loc [OF sv b(1)] and R = transfer_dma_loc [OF sv [unfolded eq] b(2)]
  show "loc_val (transfer_dma dir rs ms) x = loc_val (transfer_dma dir rs' ms) x"
  proof (cases "x \<in> Domain (all_pairs dir (set rs))")
    case True
    then obtain y where "(x, y) \<in> all_pairs dir (set rs)" by blast
    then show ?thesis using L(1) R(1) eq by metis
  next
    case False
    then show ?thesis using L(2) R(2) eq by metis
  qed
qed simp_all

section \<open>The programs of a launch cover the ranges of the DMA transport\<close>

lemma step_range_iff: "w \<in> set (step_range a b s) \<longleftrightarrow> 0 < s \<and> a \<le> w \<and> w < b \<and> (w - a) mod s = 0"
proof (induction a b s rule: step_range.induct)
  case (1 a b s)
  show ?case
  proof (cases "a < b \<and> 0 < s")
    case True
    have "w = a \<or> a + s \<le> w \<and> (w - (a + s)) mod s = 0 \<longleftrightarrow> a \<le> w \<and> (w - a) mod s = 0"
    proof (cases "a + s \<le> w")
      case True
      then have "(w - a) mod s = (w - (a + s)) mod s" by (metis add_leE le_mod_geq nat_add_left_cancel_le diff_diff_left le_add_diff_inverse)
      then show ?thesis using True by auto
    next
      case False
      then show ?thesis using \<open>a < b \<and> 0 < s\<close> by (cases "a \<le> w") auto
    qed
    then show ?thesis using True 1 [OF True] by (auto simp: step_range.simps [of a b s])
  qed (auto simp: step_range.simps [of a b s])
qed

text \<open>Strided over the grid, the programs share out the work items.\<close>

lemma programs_cover: "0 < n \<Longrightarrow> (\<Union>pid \<in> {..<n}. set (step_range pid b n)) = {..<b}"
proof (intro equalityI subsetI)
  fix w assume "0 < n" "w \<in> {..<b}"
  then have "w \<in> set (step_range (w mod n) b n)" by (simp add: step_range_iff minus_mod_eq_mult_div)
  then show "w \<in> (\<Union>pid \<in> {..<n}. set (step_range pid b n))" using \<open>0 < n\<close> by (intro UN_I [of "w mod n"]) simp_all
qed (auto simp: step_range_iff)

lemma pair_index_cover:
  fixes k nc :: nat
  assumes "0 < nc"
  shows "(\<lambda>w. f (w div nc) (w mod nc)) ` {..<k * nc} = (\<Union>j \<in> {..<k}. f j ` {..<nc})"
proof (intro equalityI subsetI)
  fix x assume "x \<in> (\<Union>j \<in> {..<k}. f j ` {..<nc})"
  then obtain j c where x: "j < k" "c < nc" "x = f j c" by auto
  have "j * nc + c < k * nc"
  proof -
    have "j * nc + c < Suc j * nc" using x by simp
    also have "\<dots> \<le> k * nc" using x by (intro mult_right_mono) simp_all
    finally show ?thesis .
  qed
  then show "x \<in> (\<lambda>w. f (w div nc) (w mod nc)) ` {..<k * nc}" using x by (intro image_eqI [of _ _ "j * nc + c"]) simp_all
next
  fix x assume "x \<in> (\<lambda>w. f (w div nc) (w mod nc)) ` {..<k * nc}"
  then obtain w where "x = f (w div nc) (w mod nc)" "w < k * nc" by auto
  then show "x \<in> (\<Union>j \<in> {..<k}. f j ` {..<nc})" using assms
    by (intro UN_I [of "w div nc"]) (simp_all add: less_mult_imp_div_less)
qed

lemma chunk_bound: "0 < n \<Longrightarrow> i < n \<longleftrightarrow> i div 4096 < int (chunk_count n) \<and> i < n" "0 < n \<Longrightarrow> 0 < chunk_count n"
  by (auto simp: chunk_count_def HOST_CACHE_TRANSFER_CHUNK_BYTES_def tdiv_nonneg)

lemma chunks_cover:
  assumes "1 \<le> snd pair" "0 < gr_packing row" "0 < gr_payload_bytes row"
  shows "all_pairs dir (chunk_range B row pair ` {..<chunk_count (gr_payload_bytes row)}) = copy_pairs dir (pair_range B row pair)"
proof -
  let ?n = "gr_payload_bytes row"
  obtain b d h where r: "pair_range B row pair = (b, d, h, ?n)" by (simp add: pair_range_def)
  have c: "chunk_range B row pair c = (b, d + int c * 4096, h + int c * 4096, min 4096 (?n - int c * 4096))" for c
    using r assms by (auto simp: chunk_range_def pair_range_def Let_def tdiv_nonneg tmod_nonneg HOST_CACHE_TRANSFER_CHUNK_BYTES_def)
  let ?f = "\<lambda>i. case dir of D2H \<Rightarrow> (Hst (h + i), Dev (nat b) (d + i)) | H2D \<Rightarrow> (Dev (nat b) (d + i), Hst (h + i))"
  have piece: "copy_pairs dir (chunk_range B row pair k) = ?f ` {int k * 4096..<int k * 4096 + min 4096 (?n - int k * 4096)}" for k
  proof -
    have "copy_pairs dir (chunk_range B row pair k) = ?f ` ((\<lambda>i. int k * 4096 + i) ` {0..<min 4096 (?n - int k * 4096)})"
      unfolding image_image c copy_pairs_def prod.case by (cases dir) (simp_all add: add.assoc)
    then show ?thesis by (simp add: add.commute)
  qed
  have "{0..<?n} = (\<Union>k \<in> {..<chunk_count ?n}. {int k * 4096..<int k * 4096 + min 4096 (?n - int k * 4096)})"
  proof (intro equalityI subsetI)
    fix i assume i: "i \<in> {0..<?n}"
    let ?k = "nat (i div 4096)"
    have ik: "int ?k = i div 4096" using i by simp
    have k: "int ?k * 4096 \<le> i" "i < int ?k * 4096 + 4096" unfolding ik by presburger+
    have "?k < chunk_count ?n" using chunk_bound(1) [OF assms(3), of i] i by auto
    then show "i \<in> (\<Union>k \<in> {..<chunk_count ?n}. {int k * 4096..<int k * 4096 + min 4096 (?n - int k * 4096)})"
      using k i by (intro UN_I [of ?k]) auto
  qed auto
  then have "copy_pairs dir (pair_range B row pair) = (\<Union>k \<in> {..<chunk_count ?n}. ?f ` {int k * 4096..<int k * 4096 + min 4096 (?n - int k * 4096)})"
    by (simp add: copy_pairs_def r image_UN)
  then show ?thesis by (simp add: all_pairs_def piece)
qed

text \<open>Tables a launch may use: every group's rows are inside the block table, Host blocks are 1-based.\<close>

definition row_tables_ok :: "(int \<times> int) list \<Rightarrow> int list \<Rightarrow> geometry_row \<Rightarrow> bool" where
  "row_tables_ok pairs offs row \<longleftrightarrow> 0 < gr_packing row \<and> 0 < gr_payload_bytes row \<and>
     0 \<le> offs ! nat (gr_group_index row) \<and> offs ! nat (gr_group_index row) \<le> offs ! nat (gr_group_index row + 1) \<and>
     offs ! nat (gr_group_index row + 1) \<le> int (length pairs) \<and> (\<forall>p \<in> set pairs. 1 \<le> snd p)"

definition slice_ranges :: "int \<Rightarrow> (int \<times> int) list \<Rightarrow> int list \<Rightarrow> geometry_row list \<Rightarrow> byte_range list" where
  "slice_ranges B pairs offs rows = concat (map (\<lambda>row. map (pair_range B row) (group_slice pairs offs (gr_group_index row))) rows)"

lemma set_group_slice:
  assumes "0 \<le> offs ! nat g" "offs ! nat g \<le> offs ! nat (g + 1)" "offs ! nat (g + 1) \<le> int (length pairs)"
  shows "set (group_slice pairs offs g) = (\<lambda>j. pairs ! (nat (offs ! nat g) + j)) ` {..<nat (offs ! nat (g + 1) - offs ! nat g)}"
proof -
  let ?s = "nat (offs ! nat g)" and ?k = "nat (offs ! nat (g + 1) - offs ! nat g)"
  have len: "?s \<le> nat (offs ! nat (g + 1))" "nat (offs ! nat (g + 1)) \<le> length pairs" "?k = nat (offs ! nat (g + 1)) - ?s"
    using assms by (simp_all add: nat_diff_distrib)
  have "group_slice pairs offs g = map (\<lambda>j. pairs ! (?s + j)) [0..<?k]"
    unfolding group_slice_def Let_def len(3) using len(1,2) by (intro nth_equalityI) (simp_all add: less_diff_conv2 less_diff_conv add.commute)
  then show ?thesis by (auto simp: atLeast0LessThan)
qed

lemma all_pairs_Union: "all_pairs dir (\<Union>i \<in> I. R i) = (\<Union>i \<in> I. all_pairs dir (R i))"
  by (auto simp: all_pairs_def)

lemma copy_row_cover:
  assumes ok: "row_tables_ok pairs offs row" and n: "0 < n"
  shows "all_pairs dir (\<Union>pid \<in> {..<n}. set (copy_row B pairs offs pid n row)) = all_pairs dir (set (slice_ranges B pairs offs [row]))"
proof -
  let ?s = "offs ! nat (gr_group_index row)" and ?e = "offs ! nat (gr_group_index row + 1)"
  let ?nc = "chunk_count (gr_payload_bytes row)"
  have H: "0 < gr_packing row" "0 < gr_payload_bytes row" "0 \<le> ?s" "?s \<le> ?e" "?e \<le> int (length pairs)" "\<forall>p \<in> set pairs. 1 \<le> snd p"
    using ok by (auto simp: row_tables_ok_def)
  let ?item = "\<lambda>j. chunk_range B row (pairs ! (nat ?s + j))"
  have "(\<Union>pid \<in> {..<n}. set (copy_row B pairs offs pid n row)) =
      (\<lambda>w. ?item (w div ?nc) (w mod ?nc)) ` (\<Union>pid \<in> {..<n}. set (step_range pid (nat (?e - ?s) * ?nc) n))"
    by (simp add: copy_row_def Let_def image_UN)
  also have "\<dots> = (\<Union>j \<in> {..<nat (?e - ?s)}. ?item j ` {..<?nc})"
    unfolding programs_cover [OF n] by (rule pair_index_cover [OF chunk_bound(2) [OF H(2)]])
  finally have "all_pairs dir (\<Union>pid \<in> {..<n}. set (copy_row B pairs offs pid n row)) =
      (\<Union>j \<in> {..<nat (?e - ?s)}. all_pairs dir (?item j ` {..<?nc}))" by (simp add: all_pairs_Union)
  also have "\<dots> = (\<Union>j \<in> {..<nat (?e - ?s)}. copy_pairs dir (pair_range B row (pairs ! (nat ?s + j))))"
  proof (intro SUP_cong refl)
    fix j assume "j \<in> {..<nat (?e - ?s)}"
    then have "nat ?s + j < length pairs" using H by auto
    then have "1 \<le> snd (pairs ! (nat ?s + j))" using H(6) nth_mem by blast
    then show "all_pairs dir (?item j ` {..<?nc}) = copy_pairs dir (pair_range B row (pairs ! (nat ?s + j)))"
      by (rule chunks_cover [OF _ H(1,2)])
  qed
  also have "\<dots> = all_pairs dir (set (slice_ranges B pairs offs [row]))"
    by (simp add: slice_ranges_def set_group_slice [OF H(3-5)] all_pairs_def image_image)
  finally show ?thesis .
qed

lemma slice_cover:
  assumes ok: "\<forall>row \<in> set (take cnt (drop off (tm_rows gm))). row_tables_ok pairs offs row" and n: "0 < n"
  shows "all_pairs dir (\<Union>pid \<in> {..<n}. set (copy_geometry_slice gm pairs offs off cnt pid n)) =
    all_pairs dir (set (slice_ranges (tm_host_lcm_block_bytes gm) pairs offs (take cnt (drop off (tm_rows gm)))))"
proof -
  let ?rows = "take cnt (drop off (tm_rows gm))" and ?B = "tm_host_lcm_block_bytes gm"
  have "(\<Union>pid \<in> {..<n}. set (copy_geometry_slice gm pairs offs off cnt pid n)) =
      (\<Union>row \<in> set ?rows. \<Union>pid \<in> {..<n}. set (copy_row ?B pairs offs pid n row))"
    by (auto simp: copy_geometry_slice_def)
  then have "all_pairs dir (\<Union>pid \<in> {..<n}. set (copy_geometry_slice gm pairs offs off cnt pid n)) =
      (\<Union>row \<in> set ?rows. all_pairs dir (set (slice_ranges ?B pairs offs [row])))"
    using copy_row_cover [OF _ n] ok by (simp add: all_pairs_Union)
  also have "\<dots> = all_pairs dir (set (slice_ranges ?B pairs offs ?rows))"
    by (auto simp: slice_ranges_def all_pairs_def)
  finally show ?thesis .
qed

section \<open>Reachable states of a launch\<close>

definition copied :: "instr list list \<Rightarrow> byte_range set" where
  "copied pre = {r. Copy r \<in> set (concat pre)}"

definition arrivals :: "nat \<Rightarrow> instr list list \<Rightarrow> nat" where
  "arrivals l pre = sum_list (map (\<lambda>is. count_list is (Arrive l)) pre)"

text \<open>What every program has executed so far (\<open>pre\<close>) determines the bytes, the counters and the flags.\<close>

definition launch_inv :: "direction \<Rightarrow> nat \<Rightarrow> instr list list \<Rightarrow> mem_state \<Rightarrow> instr list list \<Rightarrow> launch \<Rightarrow> bool" where
  "launch_inv dir nprogs progs ms0 pre s \<longleftrightarrow>
     length pre = length progs \<and> length (la_programs s) = length progs \<and>
     (\<forall>p < length progs. progs ! p = pre ! p @ la_programs s ! p) \<and>
     (\<exists>xs. la_mem s = transfer_dma dir xs ms0 \<and> set xs = copied pre) \<and>
     length (la_flags s) = length (la_counts s) \<and>
     (\<forall>l < length (la_counts s). la_counts s ! l = arrivals l pre \<and>
        la_flags s ! l = (if nprogs \<le> la_counts s ! l then 1 else 0))"

lemma copied_update:
  assumes "p < length pre" shows "copied (pre[p := pre ! p @ [i]]) = (case i of Copy r \<Rightarrow> insert r (copied pre) | Arrive l \<Rightarrow> copied pre)"
proof -
  have "set (concat pre) = set (concat (take p pre @ pre ! p # drop (Suc p) pre))" using id_take_nth_drop [OF assms] by simp
  then have "set (concat (pre[p := pre ! p @ [i]])) = insert i (set (concat pre))"
    using assms by (auto simp: upd_conv_take_nth_drop)
  then show ?thesis by (cases i) (simp_all only: copied_def instr.case, auto)
qed

lemma arrivals_update:
  assumes "p < length pre"
  shows "arrivals l (pre[p := pre ! p @ [i]]) = arrivals l pre + (if i = Arrive l then 1 else 0)"
proof -
  have "count_list (pre ! p) (Arrive l) \<le> arrivals l pre"
    unfolding arrivals_def using assms by (intro member_le_sum_list) simp_all
  then show ?thesis using assms unfolding arrivals_def map_update by (simp add: sum_list_update)
qed

lemma launch_step_inv:
  assumes inv: "launch_inv dir nprogs progs ms0 pre s" and step: "kernel_step dir nprogs s s'" and n: "0 < nprogs"
  shows "\<exists>pre'. launch_inv dir nprogs progs ms0 pre' s'"
  using step
proof cases
  case (run p i rest)
  let ?pre = "pre[p := pre ! p @ [i]]"
  have I: "length pre = length progs" "length (la_programs s) = length progs"
    "\<forall>q < length progs. progs ! q = pre ! q @ la_programs s ! q" "length (la_flags s) = length (la_counts s)"
    "\<forall>l < length (la_counts s). la_counts s ! l = arrivals l pre \<and> la_flags s ! l = (if nprogs \<le> la_counts s ! l then 1 else 0)"
    using inv unfolding launch_inv_def by blast+
  obtain xs where xs: "la_mem s = transfer_dma dir xs ms0" "set xs = copied pre" using inv unfolding launch_inv_def by blast
  have p: "p < length pre" using run(2) I by simp
  have progs': "la_programs s' = (la_programs s)[p := rest]"
    using run(1) by (cases i) (simp_all add: exec_instr_def arrive_def Let_def)
  then have pq: "\<forall>q < length progs. progs ! q = ?pre ! q @ la_programs s' ! q"
    using I(1-3) run(2,3) by (auto simp: nth_list_update)
  have "launch_inv dir nprogs progs ms0 ?pre s'"
  proof (cases i)
    case (Copy r)
    have "la_mem s' = transfer_dma dir (xs @ [r]) ms0" using run(1) xs by (simp add: Copy exec_instr_def transfer_dma_def)
    moreover have "set (xs @ [r]) = copied ?pre" using xs copied_update [OF p, of i] Copy by simp
    moreover have "la_counts s' = la_counts s" "la_flags s' = la_flags s" using run(1) by (simp_all add: Copy exec_instr_def)
    moreover have "arrivals l ?pre = arrivals l pre" for l using arrivals_update [OF p, of l i] Copy by simp
    ultimately show ?thesis using I pq progs' unfolding launch_inv_def by (intro conjI exI [of _ "xs @ [r]"]) simp_all
  next
    case (Arrive k)
    have "la_mem s' = transfer_dma dir xs ms0" using run(1) xs by (simp add: Arrive exec_instr_def arrive_def Let_def)
    moreover have "set xs = copied ?pre" using xs copied_update [OF p, of i] Arrive by simp
    moreover have c: "la_counts s' = (la_counts s)[k := la_counts s ! k + 1]"
      "la_flags s' = (if la_counts s ! k = nprogs - 1 then (la_flags s)[k := 1] else la_flags s)"
      using run(1) by (simp_all add: Arrive exec_instr_def arrive_def Let_def)
    moreover have "la_counts s' ! l = arrivals l ?pre \<and> la_flags s' ! l = (if nprogs \<le> la_counts s' ! l then 1 else 0)"
      if "l < length (la_counts s')" for l
      using that I(4,5) arrivals_update [OF p, of l i] Arrive n unfolding c by (auto simp: nth_list_update)
    ultimately show ?thesis using I pq progs' unfolding launch_inv_def by (intro conjI exI [of _ xs]) simp_all
  qed
  then show ?thesis ..
qed

lemma launch_reach_inv:
  assumes "(kernel_step dir nprogs)\<^sup>*\<^sup>* s s'" and "launch_inv dir nprogs progs ms0 pre s" and "0 < nprogs"
  shows "\<exists>pre'. launch_inv dir nprogs progs ms0 pre' s'"
  using assms(1,2)
proof (induction rule: rtranclp_induct)
  case (step y z)
  then show ?case using launch_step_inv [OF _ step(2) assms(3)] by blast
qed blast

lemma launch_init_inv:
  assumes "la_counts s = replicate k 0" and "la_flags s = replicate k 0" and "0 < nprogs"
  shows "launch_inv dir nprogs (la_programs s) (la_mem s) (replicate (length (la_programs s)) []) s"
proof -
  have "arrivals l (replicate m []) = 0" for l m by (induction m) (simp_all add: arrivals_def)
  then show ?thesis unfolding launch_inv_def using assms
    by (intro conjI exI [of _ "[]"]) (auto simp: transfer_dma_def copied_def)
qed

text \<open>A run: every step shortens what is left, and a state with something left has a step.\<close>

definition remaining :: "launch \<Rightarrow> nat" where
  "remaining s = sum_list (map length (la_programs s))"

lemma step_remaining: "kernel_step dir nprogs s s' \<Longrightarrow> remaining s = Suc (remaining s')"
proof (induction rule: kernel_step.induct)
  case (run p s i rest)
  have "la_programs (exec_instr dir nprogs i (s\<lparr>la_programs := (la_programs s)[p := rest]\<rparr>)) = (la_programs s)[p := rest]"
    by (cases i) (simp_all add: exec_instr_def arrive_def Let_def)
  moreover have "length (la_programs s ! p) \<le> remaining s"
    unfolding remaining_def using run(1) by (intro member_le_sum_list) simp_all
  ultimately show ?case using run unfolding remaining_def by (simp add: map_update sum_list_update)
qed

lemma step_exists: "remaining s \<noteq> 0 \<Longrightarrow> \<exists>s'. kernel_step dir nprogs s s'"
proof -
  assume "remaining s \<noteq> 0"
  then obtain prog where "prog \<in> set (la_programs s)" "prog \<noteq> []" by (auto simp: remaining_def)
  then obtain p i rest where "p < length (la_programs s)" "la_programs s ! p = i # rest" by (metis in_set_conv_nth neq_Nil_conv)
  then show ?thesis using kernel_step.run by blast
qed

lemma remaining_zero: "remaining s = 0 \<longleftrightarrow> (\<forall>prog \<in> set (la_programs s). prog = [])"
  by (simp add: remaining_def sum_list_eq_0_iff)

lemma run_ends: "\<exists>s'. (kernel_step dir nprogs)\<^sup>*\<^sup>* s s' \<and> remaining s' = 0"
proof (induction "remaining s" arbitrary: s)
  case (Suc n)
  then obtain t where t: "kernel_step dir nprogs s t" using step_exists [of s] by (metis nat.distinct(1))
  then have "n = remaining t" using step_remaining [OF t] Suc(2) by simp
  from Suc(1) [OF this] show ?case using t by (meson converse_rtranclp_into_rtranclp)
qed auto

lemma run_length: "(kernel_step dir nprogs ^^ k) s s' \<Longrightarrow> remaining s = k + remaining s'"
proof (induction k arbitrary: s')
  case (Suc k)
  then obtain t where "(kernel_step dir nprogs ^^ k) s t" "kernel_step dir nprogs t s'" by auto
  then show ?case using Suc(1) step_remaining by fastforce
qed simp

lemma finished_inv:
  assumes "launch_inv dir nprogs progs ms0 pre s" and "remaining s = 0" shows "pre = progs"
proof (rule nth_equalityI)
  fix p assume "p < length pre"
  moreover from this have "la_programs s ! p = []" using assms by (auto simp: launch_inv_def remaining_zero)
  ultimately show "pre ! p = progs ! p" using assms(1) by (simp add: launch_inv_def)
qed (use assms(1) in \<open>simp add: launch_inv_def\<close>)

section \<open>Outcome of a launch\<close>

definition layer_rows :: "transfer_geometry \<Rightarrow> nat \<Rightarrow> geometry_row list" where
  "layer_rows gm l = (case tm_layer_slices gm ! l of (slice_offset, slice_rows) \<Rightarrow>
     take (nat slice_rows) (drop (nat slice_offset) (tm_rows gm)))"

definition launch_rows :: "transfer_geometry \<Rightarrow> bool \<Rightarrow> nat \<Rightarrow> nat \<Rightarrow> geometry_row list" where
  "launch_rows gm layered off cnt =
     (if layered then concat (map (layer_rows gm) [0..<length (tm_layer_slices gm)]) else take cnt (drop off (tm_rows gm)))"

text \<open>Flags and counters as \<open>prepare_layer_ready\<close> leaves them.\<close>

definition tables_zero :: "transfer_geometry \<Rightarrow> (nat list \<times> nat list) option \<Rightarrow> bool" where
  "tables_zero gm tables \<longleftrightarrow> (case tables of None \<Rightarrow> True
     | Some (flags, counts) \<Rightarrow> flags = replicate (length (tm_layer_slices gm)) 0 \<and> counts = replicate (length (tm_layer_slices gm)) 0)"

text \<open>What makes a launch well-formed: a positive grid, zeroed tables, block tables that match the geometry,
  known buffers, and no byte written from two sources.\<close>

definition launch_ok ::
  "direction \<Rightarrow> transfer_geometry \<Rightarrow> (int \<times> int) list \<Rightarrow> int list \<Rightarrow> (nat list \<times> nat list) option \<Rightarrow> nat \<Rightarrow> nat \<Rightarrow> nat \<Rightarrow> mem_state \<Rightarrow> bool" where
  "launch_ok dir gm pairs offs tables off cnt nprogs ms \<longleftrightarrow>
     0 < nprogs \<and> tables_zero gm tables \<and>
     (\<forall>row \<in> set (launch_rows gm (tables \<noteq> None) off cnt). row_tables_ok pairs offs row \<and> nat (gr_device_buffer_index row) < length (ms_device ms)) \<and>
     single_valued (all_pairs dir (set (slice_ranges (tm_host_lcm_block_bytes gm) pairs offs (launch_rows gm (tables \<noteq> None) off cnt))))"

lemma slice_ranges_append: "set (slice_ranges B pairs offs (concat rss)) = (\<Union>rs \<in> set rss. set (slice_ranges B pairs offs rs))"
  by (auto simp: slice_ranges_def)

lemma layered_program_set:
  "Copy r \<in> set (kernel_program gm pairs offs True off cnt n pid) \<longleftrightarrow>
   (\<exists>l < length (tm_layer_slices gm). r \<in> set (copy_geometry_slice gm pairs offs (nat (fst (tm_layer_slices gm ! l))) (nat (snd (tm_layer_slices gm ! l))) pid n))"
proof -
  have e: "set (enumerate 0 xs) = (\<lambda>l. (l, xs ! l)) ` {..<length xs}" for xs :: "'a list"
    by (auto simp: in_set_enumerate_eq image_iff)
  show ?thesis unfolding kernel_program_def if_True set_concat set_map e image_image UN_iff bex_simps lessThan_iff
    by (auto simp: case_prod_beta)
qed

lemma programs_pairs:
  assumes "launch_ok dir gm pairs offs tables off cnt n ms"
  shows "all_pairs dir (copied (map (kernel_program gm pairs offs (tables \<noteq> None) off cnt n) [0..<n])) =
    all_pairs dir (set (slice_ranges (tm_host_lcm_block_bytes gm) pairs offs (launch_rows gm (tables \<noteq> None) off cnt)))"
proof -
  let ?B = "tm_host_lcm_block_bytes gm" and ?ly = "tables \<noteq> None"
  have n: "0 < n" and ok: "\<forall>row \<in> set (launch_rows gm ?ly off cnt). row_tables_ok pairs offs row"
    using assms by (auto simp: launch_ok_def)
  have cp: "copied (map (kernel_program gm pairs offs ly off cnt n) [0..<n]) = {r. \<exists>pid < n. Copy r \<in> set (kernel_program gm pairs offs ly off cnt n pid)}" for ly
    by (auto simp: copied_def)
  show ?thesis
  proof (cases ?ly)
    case False
    have "copied (map (kernel_program gm pairs offs False off cnt n) [0..<n]) = (\<Union>pid \<in> {..<n}. set (copy_geometry_slice gm pairs offs off cnt pid n))"
      unfolding cp by (auto simp: kernel_program_def)
    then show ?thesis using slice_cover [OF _ n, of cnt off gm pairs offs dir] ok False by (simp add: launch_rows_def)
  next
    case True
    let ?L = "length (tm_layer_slices gm)"
    let ?cs = "\<lambda>l pid. copy_geometry_slice gm pairs offs (nat (fst (tm_layer_slices gm ! l))) (nat (snd (tm_layer_slices gm ! l))) pid n"
    have "copied (map (kernel_program gm pairs offs True off cnt n) [0..<n]) = (\<Union>l \<in> {..<?L}. \<Union>pid \<in> {..<n}. set (?cs l pid))"
      unfolding cp layered_program_set by auto
    then have "all_pairs dir (copied (map (kernel_program gm pairs offs True off cnt n) [0..<n])) =
        (\<Union>l \<in> {..<?L}. all_pairs dir (\<Union>pid \<in> {..<n}. set (?cs l pid)))" by (simp only: all_pairs_Union)
    also have "\<dots> = (\<Union>l \<in> {..<?L}. all_pairs dir (set (slice_ranges ?B pairs offs (layer_rows gm l))))"
    proof (intro SUP_cong refl)
      fix l assume l: "l \<in> {..<?L}"
      have rows: "layer_rows gm l = take (nat (snd (tm_layer_slices gm ! l))) (drop (nat (fst (tm_layer_slices gm ! l))) (tm_rows gm))"
        by (simp add: layer_rows_def case_prod_beta)
      have "\<forall>row \<in> set (layer_rows gm l). row_tables_ok pairs offs row" using ok True l by (auto simp: launch_rows_def)
      then show "all_pairs dir (\<Union>pid \<in> {..<n}. set (?cs l pid)) = all_pairs dir (set (slice_ranges ?B pairs offs (layer_rows gm l)))"
        unfolding rows by (rule slice_cover [OF _ n])
    qed
    also have "\<dots> = all_pairs dir (set (slice_ranges ?B pairs offs (launch_rows gm True off cnt)))"
      by (auto simp: launch_rows_def slice_ranges_append all_pairs_def)
    finally show ?thesis using True by simp
  qed
qed

lemma slice_ranges_buffer: "r \<in> set (slice_ranges B pairs offs rows) \<Longrightarrow> \<exists>row \<in> set rows. fst r = gr_device_buffer_index row"
  by (auto simp: slice_ranges_def pair_range_def)

lemma copied_buffers:
  assumes "launch_ok dir gm pairs offs tables off cnt n ms"
  shows "buffers_in ms (copied (map (kernel_program gm pairs offs (tables \<noteq> None) off cnt n) [0..<n]))"
    and "buffers_in ms (set (slice_ranges B pairs offs (launch_rows gm (tables \<noteq> None) off cnt)))"
proof -
  have rows: "\<forall>row \<in> set (launch_rows gm (tables \<noteq> None) off cnt). nat (gr_device_buffer_index row) < length (ms_device ms)"
    using assms by (auto simp: launch_ok_def)
  have slice: "\<exists>row \<in> set (take c (drop k (tm_rows gm))). fst r = gr_device_buffer_index row"
    if "r \<in> set (copy_geometry_slice gm pairs offs k c pid n)" for r k c pid
    using that by (auto simp: copy_geometry_slice_def copy_row_def chunk_range_def Let_def)
  have "\<exists>row \<in> set (launch_rows gm (tables \<noteq> None) off cnt). fst r = gr_device_buffer_index row"
    if "Copy r \<in> set (kernel_program gm pairs offs (tables \<noteq> None) off cnt n pid)" for r pid
  proof (cases "tables \<noteq> None")
    case True
    then have "Copy r \<in> set (kernel_program gm pairs offs True off cnt n pid)" using that by simp
    then obtain l where l: "l < length (tm_layer_slices gm)"
      "r \<in> set (copy_geometry_slice gm pairs offs (nat (fst (tm_layer_slices gm ! l))) (nat (snd (tm_layer_slices gm ! l))) pid n)"
      unfolding layered_program_set by blast
    from slice [OF l(2)] have "\<exists>row \<in> set (layer_rows gm l). fst r = gr_device_buffer_index row"
      by (simp add: layer_rows_def case_prod_beta)
    then obtain row where "row \<in> set (layer_rows gm l)" "fst r = gr_device_buffer_index row" ..
    then show ?thesis using True l(1) by (intro bexI [of _ row]) (auto simp: launch_rows_def)
  next
    case False
    then show ?thesis using that slice by (auto simp: launch_rows_def kernel_program_def)
  qed
  then show "buffers_in ms (copied (map (kernel_program gm pairs offs (tables \<noteq> None) off cnt n) [0..<n]))"
    unfolding buffers_in_def copied_def using rows by fastforce
  show "buffers_in ms (set (slice_ranges B pairs offs (launch_rows gm (tables \<noteq> None) off cnt)))"
    unfolding buffers_in_def using slice_ranges_buffer rows by fastforce
qed

lemma kernel_launch_parts:
  "la_programs (kernel_launch gm pairs offs tables off cnt n ms) = map (kernel_program gm pairs offs (tables \<noteq> None) off cnt n) [0..<n]"
  "la_mem (kernel_launch gm pairs offs tables off cnt n ms) = ms"
  by (simp_all add: kernel_launch_def)

lemma reach_inv:
  assumes ok: "launch_ok dir gm pairs offs tables off cnt n ms"
    and run: "(kernel_step dir n)\<^sup>*\<^sup>* (kernel_launch gm pairs offs tables off cnt n ms) s"
  obtains pre where "launch_inv dir n (map (kernel_program gm pairs offs (tables \<noteq> None) off cnt n) [0..<n]) ms pre s"
proof -
  let ?s0 = "kernel_launch gm pairs offs tables off cnt n ms"
  let ?k = "if tables = None then 0 else length (tm_layer_slices gm)"
  have n: "0 < n" and z: "la_counts ?s0 = replicate ?k 0" "la_flags ?s0 = replicate ?k 0"
    using ok by (auto simp: launch_ok_def tables_zero_def kernel_launch_def split: option.splits)
  from launch_reach_inv [OF run launch_init_inv [OF z n] n] show thesis
    using that unfolding kernel_launch_parts by blast
qed

lemma reached_copies:
  assumes ok: "launch_ok dir gm pairs offs tables off cnt n ms"
    and inv: "launch_inv dir n (map (kernel_program gm pairs offs (tables \<noteq> None) off cnt n) [0..<n]) ms pre s"
  obtains xs where "la_mem s = transfer_dma dir xs ms" "set xs = copied pre" "buffers_in ms (set xs)"
    "single_valued (all_pairs dir (set xs))"
proof -
  let ?progs = "map (kernel_program gm pairs offs (tables \<noteq> None) off cnt n) [0..<n]"
  obtain xs where xs: "la_mem s = transfer_dma dir xs ms" "set xs = copied pre" using inv unfolding launch_inv_def by blast
  have "set (concat pre) \<subseteq> set (concat ?progs)"
  proof
    fix i assume "i \<in> set (concat pre)"
    then obtain xs where "xs \<in> set pre" "i \<in> set xs" by auto
    then obtain p where p: "p < length pre" "i \<in> set (pre ! p)" by (metis in_set_conv_nth)
    then have "p < length ?progs" "i \<in> set (?progs ! p)" using inv unfolding launch_inv_def by auto
    then show "i \<in> set (concat ?progs)" by (metis UN_I nth_mem set_concat)
  qed
  then have sub: "copied pre \<subseteq> copied ?progs" by (auto simp: copied_def)
  have "all_pairs dir (copied pre) \<subseteq> all_pairs dir (copied ?progs)" unfolding all_pairs_def by (rule UN_mono [OF sub]) simp
  moreover have "single_valued (all_pairs dir (copied ?progs))"
    unfolding programs_pairs [OF ok] using ok by (simp add: launch_ok_def)
  ultimately have "single_valued (all_pairs dir (set xs))" unfolding xs(2) by (rule single_valued_subset)
  moreover have "buffers_in ms (set xs)" using copied_buffers(1) [OF ok] sub unfolding xs(2) buffers_in_def by blast
  ultimately show thesis using that xs by blast
qed

lemma finished_memory:
  assumes ok: "launch_ok dir gm pairs offs tables off cnt n ms"
    and run: "(kernel_step dir n)\<^sup>*\<^sup>* (kernel_launch gm pairs offs tables off cnt n ms) s" and fin: "remaining s = 0"
  shows "la_mem s = transfer_dma dir (slice_ranges (tm_host_lcm_block_bytes gm) pairs offs (launch_rows gm (tables \<noteq> None) off cnt)) ms"
proof -
  let ?progs = "map (kernel_program gm pairs offs (tables \<noteq> None) off cnt n) [0..<n]"
  obtain pre where inv: "launch_inv dir n ?progs ms pre s" by (rule reach_inv [OF ok run])
  obtain xs where xs: "la_mem s = transfer_dma dir xs ms" "set xs = copied pre" "buffers_in ms (set xs)" "single_valued (all_pairs dir (set xs))"
    by (rule reached_copies [OF ok inv])
  have "pre = ?progs" by (rule finished_inv [OF inv fin])
  then have "all_pairs dir (set xs) = all_pairs dir (set (slice_ranges (tm_host_lcm_block_bytes gm) pairs offs (launch_rows gm (tables \<noteq> None) off cnt)))"
    using xs(2) programs_pairs [OF ok] by simp
  from transfer_dma_same_pairs [OF this xs(4,3) copied_buffers(2) [OF ok]] show ?thesis using xs(1) by simp
qed

text \<open>C4: the Triton transport copies what the DMA transport copies. Take a well-formed launch: a positive number of
  programs, block tables that match the geometry, zeroed layer tables if there are any, and no destination
  byte with two sources. Whatever the interleaving of the programs, once all of them have ended the bytes
  are those the DMA transport leaves after copying, one by one, the byte ranges of the same rows and block
  pairs; the chunking, the masked tail and the strided sharing of work items change nothing.\<close>

theorem triton_matches_dma:
  assumes "launch_ok dir gm pairs offs tables off cnt n ms"
    and "(kernel_step dir n)\<^sup>*\<^sup>* (kernel_launch gm pairs offs tables off cnt n ms) s"
    and "\<forall>prog \<in> set (la_programs s). prog = []"
  shows "la_mem s = transfer_dma dir (slice_ranges (tm_host_lcm_block_bytes gm) pairs offs
                      (launch_rows gm (tables \<noteq> None) off cnt)) ms"
  using finished_memory [OF assms(1,2)] assms(3) by (simp add: remaining_zero)

section \<open>The ready flags\<close>

lemma sum_list_all_one:
  fixes f :: "'a \<Rightarrow> nat"
  assumes "length xs \<le> sum_list (map f xs)" and "\<forall>x \<in> set xs. f x \<le> 1" and "x \<in> set xs"
  shows "f x = 1"
  using assms
proof (induction xs)
  case (Cons y ys)
  have "sum_list (map f ys) \<le> length ys"
  proof -
    have "sum_list (map f ys) \<le> sum_list (map (\<lambda>_. 1) ys)" using Cons.prems(2) by (intro sum_list_mono) simp
    then show ?thesis by (simp add: sum_list_triv)
  qed
  moreover have "f y \<le> 1" using Cons.prems(2) by simp
  ultimately have "f y = 1" "length ys \<le> sum_list (map f ys)" using Cons.prems(1) by simp_all
  then show ?case using Cons by auto
qed simp

text \<open>The layered program of one program id: the copies of layer \<open>l\<close>, then its arrival, then later layers.\<close>

definition layer_part :: "transfer_geometry \<Rightarrow> (int \<times> int) list \<Rightarrow> int list \<Rightarrow> nat \<Rightarrow> nat \<Rightarrow> nat \<Rightarrow> instr list" where
  "layer_part gm pairs offs n pid l = map Copy (copy_geometry_slice gm pairs offs (nat (fst (tm_layer_slices gm ! l)))
     (nat (snd (tm_layer_slices gm ! l))) pid n) @ [Arrive l]"

lemma layered_program: "kernel_program gm pairs offs True off cnt n pid = concat (map (layer_part gm pairs offs n pid) [0..<length (tm_layer_slices gm)])"
proof -
  have "enumerate 0 xs = map (\<lambda>l. (l, xs ! l)) [0..<length xs]" for xs :: "(int \<times> int) list"
    by (intro nth_equalityI) (simp_all add: nth_enumerate_eq)
  then show ?thesis by (simp add: kernel_program_def layer_part_def [abs_def] comp_def case_prod_beta)
qed

lemma arrive_in_parts: "Arrive l \<in> set (concat (map (layer_part gm pairs offs n pid) ls)) \<longleftrightarrow> l \<in> set ls"
  by (auto simp: layer_part_def)

lemma arrivals_once: "distinct ls \<Longrightarrow> count_list (concat (map (layer_part gm pairs offs n pid) ls)) (Arrive l) = (if l \<in> set ls then 1 else 0)"
proof (induction ls)
  case (Cons k ls)
  have "count_list (layer_part gm pairs offs n pid k) (Arrive l) = (if l = k then 1 else 0)"
    by (auto simp: layer_part_def count_list_0_iff)
  then show ?case using Cons by auto
qed simp

lemma prefix_before:
  assumes "pre @ rest = A @ x # B" and "x \<in> set pre" and "x \<notin> set A"
  shows "set A \<subseteq> set pre"
proof -
  from assms(1) obtain us where "pre = A @ us \<or> pre @ us = A" by (auto simp: append_eq_append_conv2)
  then show ?thesis using assms(2,3) by auto
qed

lemma flag_copied:
  assumes inv: "launch_inv dir n (map (kernel_program gm pairs offs True off cnt n) [0..<n]) ms pre s"
    and l: "l < length (la_flags s)" "l < length (tm_layer_slices gm)" and f: "la_flags s ! l \<noteq> 0"
    and k: "k \<le> l" and pid: "pid < n"
  shows "set (copy_geometry_slice gm pairs offs (nat (fst (tm_layer_slices gm ! k))) (nat (snd (tm_layer_slices gm ! k))) pid n) \<subseteq> copied pre"
proof -
  let ?part = "layer_part gm pairs offs n" and ?L = "length (tm_layer_slices gm)"
  let ?prog = "\<lambda>p. concat (map (?part p) [0..<?L])"
  have len: "length pre = n" and pre: "\<forall>p < n. ?prog p = pre ! p @ la_programs s ! p"
    using inv unfolding launch_inv_def layered_program by simp_all
  have "n \<le> arrivals l pre" using inv l f unfolding launch_inv_def by (auto split: if_splits)
  then have sum: "length pre \<le> sum_list (map (\<lambda>is. count_list is (Arrive l)) pre)" by (simp add: arrivals_def len)
  have le: "count_list (pre ! p) (Arrive l) \<le> 1" if "p < n" for p
  proof -
    have "count_list (?prog p) (Arrive l) = 1" using arrivals_once [of "[0..<?L]" gm pairs offs n p l] l(2) by simp
    moreover have "?prog p = pre ! p @ la_programs s ! p" using pre that by blast
    ultimately show ?thesis by (metis count_list_append le_add1)
  qed
  have "count_list (pre ! pid) (Arrive l) = 1"
    using sum_list_all_one [OF sum] le len pid by (metis in_set_conv_nth)
  then have m: "Arrive l \<in> set (pre ! pid)" by (metis count_notin zero_neq_one)
  let ?A = "concat (map (?part pid) [0..<l]) @ map Copy (copy_geometry_slice gm pairs offs (nat (fst (tm_layer_slices gm ! l))) (nat (snd (tm_layer_slices gm ! l))) pid n)"
  have "[0..<?L] = [0..<l] @ l # [Suc l..<?L]" using l(2) by (metis less_imp_le_nat upt_add_eq_append upt_conv_Cons le_add_diff_inverse zero_le)
  then have e: "pre ! pid @ la_programs s ! pid = ?A @ Arrive l # concat (map (?part pid) [Suc l..<?L])"
    using pre pid by (simp add: layer_part_def)
  have na: "Arrive l \<notin> set ?A" using arrive_in_parts [of l gm pairs offs n pid "[0..<l]"] by auto
  have sub: "set ?A \<subseteq> set (pre ! pid)" by (rule prefix_before [OF e m na])
  have cp: "Copy r \<in> set ?A" if "r \<in> set (copy_geometry_slice gm pairs offs (nat (fst (tm_layer_slices gm ! k))) (nat (snd (tm_layer_slices gm ! k))) pid n)" for r
  proof (cases "k = l")
    case False
    then have "k \<in> set [0..<l]" using k by simp
    moreover have "Copy r \<in> set (?part pid k)" using that by (simp add: layer_part_def)
    ultimately show ?thesis by auto
  qed (use that in simp)
  have "pre ! pid \<in> set pre" using pid len by simp
  then have "set (pre ! pid) \<subseteq> set (concat pre)" by auto
  then show ?thesis unfolding copied_def using sub cp by blast
qed

lemma reached_flag_count:
  assumes "(kernel_step dir n)\<^sup>*\<^sup>* s s'"
  shows "length (la_flags s') = length (la_flags s)"
  using assms
proof (induction rule: rtranclp_induct)
  case (step y z)
  from step(2) have "length (la_flags z) = length (la_flags y)"
    by cases (simp add: exec_instr_def arrive_def Let_def split: instr.splits)
  then show ?case using step(3) by simp
qed simp

lemma launch_flag_count:
  "tables_zero gm (Some t) \<Longrightarrow> length (la_flags (kernel_launch gm pairs offs (Some t) off cnt n ms)) = length (tm_layer_slices gm)"
  by (cases t) (simp add: tables_zero_def kernel_launch_def)

lemma pairs_read:
  assumes "single_valued (all_pairs H2D (set xs))" and "buffers_in ms (set xs)"
    and sub: "copy_pairs H2D (b, d, h, k) \<subseteq> all_pairs H2D (set xs)"
  shows "read_bytes (ms_device (transfer_dma H2D xs ms) ! nat b) d k = read_bytes (ms_host ms) h k"
proof (rule nth_equalityI)
  fix i assume i: "i < length (read_bytes (ms_device (transfer_dma H2D xs ms) ! nat b) d k)"
  then have "int i < k" by (simp add: read_bytes_def)
  then have "(Dev (nat b) (d + int i), Hst (h + int i)) \<in> copy_pairs H2D (b, d, h, k)" by (auto simp: copy_pairs_def)
  then have "loc_val (transfer_dma H2D xs ms) (Dev (nat b) (d + int i)) = loc_val ms (Hst (h + int i))"
    using transfer_dma_loc(1) [OF assms(1,2)] sub by blast
  then show "read_bytes (ms_device (transfer_dma H2D xs ms) ! nat b) d k ! i = read_bytes (ms_host ms) h k ! i"
    using \<open>int i < k\<close> by (simp add: loc_val_def read_bytes_def)
qed (simp add: read_bytes_def)

text \<open>C5: a layer is never released early. In every reachable state of a layered Host-to-Device launch, at any
  point of any interleaving, if a wait for layer \<open>l\<close> returns, then every byte range of layer \<open>l\<close> and of all
  earlier layers already holds the Host bytes on the Device: the last arrival of a counter raises the flag,
  and a program arrives only after its own copies of that layer.\<close>

theorem layer_ready_safe:
  assumes "launch_ok H2D gm pairs offs (Some tables) off cnt n ms"
    and "(kernel_step H2D n)\<^sup>*\<^sup>* (kernel_launch gm pairs offs (Some tables) off cnt n ms) s"
    and "wait_layer_ready nvidia (la_flags s) (int l) = Inr True" and "k \<le> l"
    and "(b, d, h, len) \<in> set (slice_ranges (tm_host_lcm_block_bytes gm) pairs offs (layer_rows gm k))"
  shows "read_bytes (ms_device (la_mem s) ! nat b) d len = read_bytes (ms_host ms) h len"
proof -
  let ?cs = "\<lambda>pid. set (copy_geometry_slice gm pairs offs (nat (fst (tm_layer_slices gm ! k))) (nat (snd (tm_layer_slices gm ! k))) pid n)"
  have flag: "l < length (la_flags s)" "la_flags s ! l \<noteq> 0" using assms(3) by (auto simp: wait_layer_ready_def result_simps)
  have n: "0 < n" and z: "tables_zero gm (Some tables)"
    and rows: "\<forall>row \<in> set (launch_rows gm True off cnt). row_tables_ok pairs offs row" using assms(1) by (auto simp: launch_ok_def)
  have l: "l < length (tm_layer_slices gm)" using flag(1) reached_flag_count [OF assms(2)] launch_flag_count [OF z] by simp
  obtain pre where inv: "launch_inv H2D n (map (kernel_program gm pairs offs True off cnt n) [0..<n]) ms pre s"
    using reach_inv [OF assms(1,2)] by auto
  obtain xs where xs: "la_mem s = transfer_dma H2D xs ms" "set xs = copied pre" "buffers_in ms (set xs)" "single_valued (all_pairs H2D (set xs))"
    using reached_copies [OF assms(1), of pre s] inv by auto
  have "?cs pid \<subseteq> set xs" if "pid < n" for pid unfolding xs(2) by (rule flag_copied [OF inv flag(1) l flag(2) assms(4) that])
  then have "all_pairs H2D (\<Union>pid \<in> {..<n}. ?cs pid) \<subseteq> all_pairs H2D (set xs)" unfolding all_pairs_def by blast
  moreover have "all_pairs H2D (\<Union>pid \<in> {..<n}. ?cs pid) = all_pairs H2D (set (slice_ranges (tm_host_lcm_block_bytes gm) pairs offs (layer_rows gm k)))"
  proof -
    have "\<forall>row \<in> set (layer_rows gm k). row_tables_ok pairs offs row" using rows assms(4) l by (auto simp: launch_rows_def)
    then show ?thesis using slice_cover [OF _ n] by (simp add: layer_rows_def case_prod_beta)
  qed
  ultimately have "copy_pairs H2D (b, d, h, len) \<subseteq> all_pairs H2D (set xs)" using assms(5) by (auto simp: all_pairs_def)
  from pairs_read [OF xs(4,3) this] show ?thesis using xs(1) by simp
qed

lemma finished_flags:
  assumes ok: "launch_ok dir gm pairs offs (Some tables) off cnt n ms"
    and run: "(kernel_step dir n)\<^sup>*\<^sup>* (kernel_launch gm pairs offs (Some tables) off cnt n ms) s" and fin: "remaining s = 0"
    and l: "l < length (tm_layer_slices gm)"
  shows "l < length (la_flags s) \<and> la_flags s ! l = 1"
proof -
  let ?progs = "map (kernel_program gm pairs offs True off cnt n) [0..<n]"
  obtain pre where inv: "launch_inv dir n ?progs ms pre s" using reach_inv [OF ok run] by auto
  have "tables_zero gm (Some tables)" using ok by (simp add: launch_ok_def)
  then have len: "l < length (la_flags s)" using reached_flag_count [OF run] launch_flag_count l by simp
  have "pre = ?progs" by (rule finished_inv [OF inv fin])
  moreover have "arrivals l ?progs = n"
  proof -
    have "count_list (kernel_program gm pairs offs True off cnt n p) (Arrive l) = 1" for p
      unfolding layered_program using arrivals_once [of "[0..<length (tm_layer_slices gm)]" gm pairs offs n p l] l by simp
    then have "map (\<lambda>is. count_list is (Arrive l)) ?progs = replicate n 1" by (intro nth_equalityI) simp_all
    then show ?thesis by (simp add: arrivals_def sum_list_replicate)
  qed
  ultimately show ?thesis using inv len unfolding launch_inv_def by auto
qed

text \<open>C6: a layered transfer always completes and releases every layer. Every run of the launch takes at most as
  many steps as its programs have instructions; while some program has work left a step is possible; and
  when no program has work left, a wait for any layer returns. No interleaving deadlocks or leaves a waiter
  spinning.\<close>

theorem kernel_completes:
  assumes "launch_ok dir gm pairs offs (Some tables) off cnt n ms"
    and "(kernel_step dir n ^^ j) (kernel_launch gm pairs offs (Some tables) off cnt n ms) s"
  shows "j \<le> remaining (kernel_launch gm pairs offs (Some tables) off cnt n ms) \<and>
    (if \<exists>prog \<in> set (la_programs s). prog \<noteq> [] then \<exists>s'. kernel_step dir n s s'
     else \<forall>l < length (tm_layer_slices gm). wait_layer_ready True (la_flags s) (int l) = Inr True)"
proof -
  have run: "(kernel_step dir n)\<^sup>*\<^sup>* (kernel_launch gm pairs offs (Some tables) off cnt n ms) s"
    using assms(2) by (rule relpowp_imp_rtranclp)
  have "wait_layer_ready True (la_flags s) (int l) = Inr True" if "remaining s = 0" "l < length (tm_layer_slices gm)" for l
    using finished_flags [OF assms(1) run that] by (simp add: wait_layer_ready_def raise_if_def)
  moreover have "\<exists>s'. kernel_step dir n s s'" if "\<exists>prog \<in> set (la_programs s). prog \<noteq> []"
    using that step_exists [of s dir n] by (auto simp: remaining_zero)
  ultimately show ?thesis using run_length [OF assms(2)] by (auto simp: remaining_zero)
qed

section \<open>Ranges that are apart\<close>

definition ranges_apart :: "direction \<Rightarrow> byte_range \<Rightarrow> byte_range \<Rightarrow> bool" where
  "ranges_apart dir r r' \<longleftrightarrow> (case (r, r') of ((b, d, h, n), (b', d', h', n')) \<Rightarrow>
     (case dir of D2H \<Rightarrow> disjoint_ranges h n h' n' | H2D \<Rightarrow> nat b \<noteq> nat b' \<or> disjoint_ranges d n d' n'))"

lemma apart_single_valued:
  assumes "\<forall>r \<in> R. \<forall>r' \<in> R. r \<noteq> r' \<longrightarrow> ranges_apart dir r r'"
  shows "single_valued (all_pairs dir R)"
proof (rule single_valuedI)
  fix x y z assume "(x, y) \<in> all_pairs dir R" "(x, z) \<in> all_pairs dir R"
  then obtain r r' where r: "r \<in> R" "(x, y) \<in> copy_pairs dir r" and r': "r' \<in> R" "(x, z) \<in> copy_pairs dir r'"
    by (auto simp: all_pairs_def)
  obtain b d h n b' d' h' n' where q: "r = (b, d, h, n)" "r' = (b', d', h', n')" by (metis prod_cases4)
  show "y = z"
  proof (cases "r = r'")
    case True
    then show ?thesis using r r' q by (cases dir) (auto simp: copy_pairs_def)
  next
    case False
    then have "ranges_apart dir r r'" using assms r r' by blast
    then show ?thesis using r r' q by (cases dir) (auto simp: copy_pairs_def ranges_apart_def disjoint_ranges_def)
  qed
qed

text \<open>A workspace that prepared its layer tables hands out zeroed flags and counters.\<close>

lemma prepared_tables_zero:
  assumes "prepare_layer_ready lr (length (tm_layer_slices gm)) device = (lr', Inr flags)"
  shows "\<exists>counts. layer_cta_counts lr' = Inr counts \<and> tables_zero gm (Some (flags, counts))"
proof -
  let ?k = "length (tm_layer_slices gm)"
  have k: "?k \<noteq> 0" using assms by (auto simp: prepare_layer_ready_def)
  have tk: "take ?k (copy_prefix xs (replicate ?k 0)) = replicate ?k 0" for xs :: "nat list" by (simp add: copy_prefix_def)
  show ?thesis using assms k
    by (auto simp: prepare_layer_ready_def Let_def layer_cta_counts_def tables_zero_def raise_if_def tk
        split: option.splits if_splits)
qed

section \<open>A concrete launch\<close>

definition demo_kernel_geometry :: transfer_geometry where
  "demo_kernel_geometry = demo_geometry\<lparr>tm_rows :=
     [\<lparr>gr_group_index = 0, gr_device_buffer_index = 0, gr_device_zero = 0, gr_device_stride = 5000, gr_host_block_bytes = 5000,
       gr_host_field_offset = 0, gr_packing = 1, gr_payload_bytes = 5000\<rparr>,
      \<lparr>gr_group_index = 1, gr_device_buffer_index = 0, gr_device_zero = 20000, gr_device_stride = 8, gr_host_block_bytes = 8,
       gr_host_field_offset = 0, gr_packing = 2, gr_payload_bytes = 8\<rparr>],
     tm_layer_slices := [(0, 1), (1, 1)], tm_host_lcm_block_bytes := 6000\<rparr>"

definition demo_memory :: mem_state where
  "demo_memory = \<lparr>ms_device = [\<lambda>_. 0], ms_device_bytes = [30000], ms_host = (\<lambda>a. a mod 251), ms_host_bytes = 12000\<rparr>"

lemma demo_launch_ok:
  "launch_ok H2D demo_kernel_geometry [(2, 1), (4, 3), (6, 4)] [0, 1, 3] (Some ([0, 0], [0, 0])) 0 2 2 demo_memory"
proof -
  have "single_valued (all_pairs H2D (set (slice_ranges 6000 [(2, 1), (4, 3), (6, 4)] [0, 1, 3] (launch_rows demo_kernel_geometry True 0 2))))"
    by (rule apart_single_valued) code_simp
  moreover have "tm_host_lcm_block_bytes demo_kernel_geometry = 6000" by code_simp
  moreover have "\<forall>row \<in> set (launch_rows demo_kernel_geometry True 0 2). row_tables_ok [(2, 1), (4, 3), (6, 4)] [0, 1, 3] row \<and>
      nat (gr_device_buffer_index row) < length (ms_device demo_memory)" by code_simp
  moreover have "tables_zero demo_kernel_geometry (Some ([0, 0], [0, 0]))" by code_simp
  ultimately show ?thesis by (simp add: launch_ok_def)
qed

abbreviation demo_launch :: launch where
  "demo_launch \<equiv> kernel_launch demo_kernel_geometry [(2, 1), (4, 3), (6, 4)] [0, 1, 3] (Some ([0, 0], [0, 0])) 0 2 2 demo_memory"

lemma demo_finished:
  obtains s where "(kernel_step H2D 2)\<^sup>*\<^sup>* demo_launch s"
    "remaining s = 0" "\<forall>prog \<in> set (la_programs s). prog = []" "wait_layer_ready True (la_flags s) (int 1) = Inr True"
proof -
  obtain s where s: "(kernel_step H2D 2)\<^sup>*\<^sup>* demo_launch s" "remaining s = 0" using run_ends by blast
  have "(1 :: nat) < length (tm_layer_slices demo_kernel_geometry)" by code_simp
  from finished_flags [OF demo_launch_ok s this] have "wait_layer_ready True (la_flags s) (int 1) = Inr True"
    by (simp add: wait_layer_ready_def raise_if_def)
  then show thesis using that s by (simp add: remaining_zero)
qed

theorem triton_matches_dma_witness:
  "\<exists>s. (kernel_step H2D 2)\<^sup>*\<^sup>* demo_launch s \<and>
     la_mem s = transfer_dma H2D [(0, 10000, 0, 5000), (0, 20032, 6000, 8), (0, 20048, 6008, 8)] demo_memory"
proof -
  obtain s where s: "(kernel_step H2D 2)\<^sup>*\<^sup>* demo_launch s"
    "\<forall>prog \<in> set (la_programs s). prog = []" by (rule demo_finished)
  have "slice_ranges (tm_host_lcm_block_bytes demo_kernel_geometry) [(2, 1), (4, 3), (6, 4)] [0, 1, 3] (launch_rows demo_kernel_geometry True 0 2) =
      [(0, 10000, 0, 5000), (0, 20032, 6000, 8), (0, 20048, 6008, 8)]" by code_simp
  then show ?thesis using triton_matches_dma [OF demo_launch_ok s] s(1) by auto
qed

theorem layer_ready_safe_witness:
  "\<exists>s :: launch. wait_layer_ready True (la_flags s) (int 1) = Inr True \<and>
     read_bytes (ms_device (la_mem s) ! 0) 10000 5000 = read_bytes (ms_host demo_memory) 0 5000"
proof -
  obtain s where s: "(kernel_step H2D 2)\<^sup>*\<^sup>* demo_launch s"
    and w: "wait_layer_ready True (la_flags s) (int 1) = Inr True" by (rule demo_finished)
  have "(0, 10000, 0, 5000) \<in> set (slice_ranges (tm_host_lcm_block_bytes demo_kernel_geometry) [(2, 1), (4, 3), (6, 4)] [0, 1, 3] (layer_rows demo_kernel_geometry 0))"
    by code_simp
  from layer_ready_safe [OF demo_launch_ok s w _ this]
  have "read_bytes (ms_device (la_mem s) ! 0) 10000 5000 = read_bytes (ms_host demo_memory) 0 5000" by simp
  then show ?thesis using w by blast
qed

theorem kernel_completes_witness:
  "\<exists>s. kernel_step H2D 2 demo_launch s"
proof -
  have "(kernel_step H2D 2 ^^ 0) demo_launch demo_launch" by simp
  moreover have "\<exists>prog \<in> set (la_programs demo_launch). prog \<noteq> []"
    by (simp add: kernel_launch_def kernel_program_def demo_kernel_geometry_def demo_geometry_def enumerate_eq_zip exI [of _ 0])
  ultimately show ?thesis using kernel_completes [OF demo_launch_ok] by (metis (no_types, lifting))
qed

end
