(* ===== verification/Transfer_Lane.thy ===== *)
theory Transfer_Lane
  imports Transfer_Kernel
begin

text \<open>
  Whole batches on a transfer lane (\<^verbatim>\<open>cache/transfer/lanes.py\<close>, \<^verbatim>\<open>cache/transfer/ops.py\<close>): from a planned
  arena, its transfer layout, the Host storage and the geometry built from them, through staging, the
  choice of transport and the copy itself. A lane accepts every valid batch on either transport and copies
  exactly its blocks; a write-back followed by a load restores the bytes and disturbs no other leased page.
\<close>

section \<open>Valid batches\<close>

text \<open>The rows of one batch: known groups, blocks inside both pools, Host parents leased to the group and Device
  pages leased to the fields' group.\<close>

definition batch_ok ::
  "cache_memory_plan \<Rightarrow> transfer_layout \<Rightarrow> int \<Rightarrow> (int \<Rightarrow> string option) \<Rightarrow> (int \<Rightarrow> nat option) \<Rightarrow> (int \<times> int \<times> int) list \<Rightarrow> bool" where
  "batch_ok P L n dlease hlease ts \<longleftrightarrow> (\<forall>(g, d, h) \<in> set ts.
     0 \<le> g \<and> nat g < length (tl_groups L) \<and>
     1 \<le> d \<and> d \<le> tl_num_lcm_blocks L * tg_cache_blocks_per_lcm_block (tl_groups L ! nat g) \<and>
     1 \<le> h \<and> h \<le> n * tg_cache_blocks_per_lcm_block (tl_groups L ! nat g) \<and>
     hlease ((h - 1) div tg_cache_blocks_per_lcm_block (tl_groups L ! nat g)) = Some (nat g) \<and>
     (\<forall>f \<in> set (tg_fields (tl_groups L ! nat g)). (cf_field_id f, d) \<in> leased_pages P dlease))"

text \<open>No two rows of a batch write the same destination block of a group.\<close>

definition batch_distinct :: "direction \<Rightarrow> (int \<times> int \<times> int) list \<Rightarrow> bool" where
  "batch_distinct dir ts \<longleftrightarrow> (case dir of D2H \<Rightarrow> distinct (map (\<lambda>(g, p). (g, snd p)) ts)
                                      | H2D \<Rightarrow> distinct (map (\<lambda>(g, p). (g, fst p)) ts))"

text \<open>The geometry of a layout, by the positions of its rows.\<close>

definition geometry_at :: "transfer_layout \<Rightarrow> int \<Rightarrow> (nat \<times> nat) list \<Rightarrow> transfer_geometry \<Rightarrow> bool" where
  "geometry_at L n poss gm \<longleftrightarrow>
     tm_rows gm = map (\<lambda>(gi, fi). layout_row L gi fi) poss \<and> distinct poss \<and> distinct (map (field_id_at L) poss) \<and>
     (\<forall>gi fi. (gi, fi) \<in> set poss \<longleftrightarrow> field_at L gi fi) \<and>
     tm_group_packing gm = map tg_cache_blocks_per_lcm_block (tl_groups L) \<and>
     tm_host_lcm_block_bytes gm = compute_host_lcm_block_bytes L \<and> tm_num_host_lcm_blocks gm = n \<and>
     tm_num_device_lcm_blocks gm = tl_num_lcm_blocks L \<and>
     tm_row_work gm = map (\<lambda>row. (gr_group_index row, (gr_payload_bytes row + HOST_CACHE_TRANSFER_CHUNK_BYTES - 1) div HOST_CACHE_TRANSFER_CHUNK_BYTES)) (tm_rows gm)"

lemma field_id_at_inj:
  assumes L: "layout_wf L" and "field_at L gi fi" "field_at L gi' fi'" "field_id_at L (gi, fi) = field_id_at L (gi', fi')"
  shows "gi = gi' \<and> fi = fi'"
proof -
  obtain d where "foldE index_step [] (indexed_fields L) = Inr d" "set (map fst d) = set (map cf_field_id (layout_fields L))"
    and d: "\<And>gi fi. field_at L gi fi \<Longrightarrow> map_of d (field_id_at L (gi, fi)) = Some (gi, fi, tl_groups L ! gi, tg_fields (tl_groups L ! gi) ! fi)"
    by (rule index_lookup [OF L]) blast
  show ?thesis using trans [OF sym [OF d [OF assms(2)]] d [OF assms(3), folded assms(4)]]
    by (simp only: option.inject prod.inject)
qed

lemma field_at_layout: "field_at L gi fi \<Longrightarrow> tg_fields (tl_groups L ! gi) ! fi \<in> set (layout_fields L)"
  unfolding layout_fields_def field_at_def set_concat set_map by (intro UN_I [of "tg_fields (tl_groups L ! gi)"]) simp_all

lemma geometry_positions:
  assumes L: "layout_wf L" and hs: "host_cache_storage L n = Inr hs" and gm: "build_transfer_geometry L hs kb device = Inr gm"
  obtains poss where "geometry_at L n poss gm" "tm_bound_device gm = (if kb then Some device else None)"
proof -
  obtain gm' where "build_transfer_geometry L hs kb device = Inr gm'"
    and G: "list_all2 (row_for L) (concat (tl_consumers L)) (tm_rows gm')"
    "tm_group_packing gm' = map tg_cache_blocks_per_lcm_block (tl_groups L)"
    "tm_host_lcm_block_bytes gm' = compute_host_lcm_block_bytes L" "tm_num_host_lcm_blocks gm' = n"
    "tm_num_device_lcm_blocks gm' = tl_num_lcm_blocks L" "tm_bound_device gm' = (if kb then Some device else None)"
    "tm_row_work gm' = map (\<lambda>row. (gr_group_index row, (gr_payload_bytes row + HOST_CACHE_TRANSFER_CHUNK_BYTES - 1) div HOST_CACHE_TRANSFER_CHUNK_BYTES)) (tm_rows gm')"
    using geometry_of_layout [OF L hs, of kb device] by blast
  then have gm': "gm' = gm" using gm by simp
  have ids: "distinct (concat (tl_consumers L))" "set (concat (tl_consumers L)) = set (map cf_field_id (layout_fields L))"
    using L by (simp_all add: layout_wf_def)
  obtain poss where poss: "tm_rows gm' = map (\<lambda>(gi, fi). layout_row L gi fi) poss" "distinct poss"
    "map (field_id_at L) poss = concat (tl_consumers L)" "\<forall>(gi, fi) \<in> set poss. field_at L gi fi"
    by (rule row_positions [OF G(1) ids(1)])
  have "(gi, fi) \<in> set poss" if fa: "field_at L gi fi" for gi fi
  proof -
    have "field_id_at L (gi, fi) \<in> set (map cf_field_id (layout_fields L))"
      using field_at_layout [OF fa] by (simp add: field_id_at_def)
    then have "field_id_at L (gi, fi) \<in> set (map (field_id_at L) poss)" using poss(3) ids(2) by simp
    then obtain gi' fi' where q: "(gi', fi') \<in> set poss" "field_id_at L (gi, fi) = field_id_at L (gi', fi')" by auto
    then have "field_at L gi' fi'" using poss(4) by auto
    from field_id_at_inj [OF L fa this q(2)] show ?thesis using q(1) by simp
  qed
  then have "geometry_at L n poss gm" using poss ids(1) G gm' by (auto simp: geometry_at_def)
  then show thesis using that G(6) gm' by simp
qed

lemma batch_transfers_ok:
  assumes "geometry_at L n poss gm" and "batch_ok P L n dlease hlease ts"
  shows "transfers_ok gm ts"
  using assms by (auto simp: transfers_ok_def batch_ok_def geometry_at_def max_device_block_id_def max_host_block_id_def)

text \<open>Every copied field of the batch is a leased Host region and a leased Device page.\<close>

lemma batch_items:
  assumes G: "geometry_at L n poss gm" and B: "batch_ok P L n dlease hlease ts" and x: "(gi, fi, d, h) \<in> set (copy_items poss ts)"
  shows "field_at L gi fi" and "(gi, h, fi) \<in> host_regions L n hlease" and "item_page L (gi, fi, d, h) \<in> leased_pages P dlease"
    and "1 \<le> d" and "d \<le> tl_num_lcm_blocks L * tg_cache_blocks_per_lcm_block (tl_groups L ! gi)"
proof -
  from x have q: "(gi, fi) \<in> set poss" "(int gi, d, h) \<in> set ts" using copy_items_iff by blast+
  show fa: "field_at L gi fi" using q(1) G by (simp add: geometry_at_def)
  have b: "1 \<le> d" "d \<le> tl_num_lcm_blocks L * tg_cache_blocks_per_lcm_block (tl_groups L ! gi)"
    "1 \<le> h" "h \<le> n * tg_cache_blocks_per_lcm_block (tl_groups L ! gi)"
    "hlease ((h - 1) div tg_cache_blocks_per_lcm_block (tl_groups L ! gi)) = Some gi"
    "\<forall>f \<in> set (tg_fields (tl_groups L ! gi)). (cf_field_id f, d) \<in> leased_pages P dlease"
    using B q(2) unfolding batch_ok_def by auto
  show "1 \<le> d" "d \<le> tl_num_lcm_blocks L * tg_cache_blocks_per_lcm_block (tl_groups L ! gi)" using b by blast+
  show "(gi, h, fi) \<in> host_regions L n hlease" using fa b by (simp add: host_regions_def field_at_def)
  show "item_page L (gi, fi, d, h) \<in> leased_pages P dlease" using fa b(6) by (simp add: item_page_def item_field_def field_at_def)
qed

section \<open>The byte ranges of a batch\<close>

text \<open>The arena and the Host buffer a batch runs on.\<close>

definition memory_for :: "cache_memory_plan \<Rightarrow> transfer_layout \<Rightarrow> int \<Rightarrow> mem_state \<Rightarrow> bool" where
  "memory_for P L n ms \<longleftrightarrow> length (ms_device ms) = 1 \<and> ms_device_bytes ms = [arena_bytes P] \<and>
     ms_host_bytes ms = n * compute_host_lcm_block_bytes L"

lemma item_fields:
  assumes A: "addresses_plan P L" and G: "geometry_at L n poss gm" and B: "batch_ok P L n dlease hlease ts"
    and x: "(gi, fi, d, h) \<in> set (copy_items poss ts)"
  shows "item_range L (gi, fi, d, h) = (0, page_start P (item_page L (gi, fi, d, h)), host_start L (gi, h, fi), cf_payload_bytes (item_field L (gi, fi, d, h)))"
    and "page_payload P (item_page L (gi, fi, d, h)) = cf_payload_bytes (item_field L (gi, fi, d, h))"
    and "host_payload L (gi, h, fi) = cf_payload_bytes (item_field L (gi, fi, d, h))"
    and "0 < cf_payload_bytes (item_field L (gi, fi, d, h))"
proof -
  note I = batch_items [OF G B x]
  let ?g = "tl_groups L ! gi" let ?f = "tg_fields ?g ! fi"
  have g: "?g \<in> set (tl_groups L)" and f: "?f \<in> set (tg_fields ?g)" using I(1) by (simp_all add: field_at_def)
  have "?f \<in> set (layout_fields L)" by (rule field_at_layout [OF I(1)])
  then have z: "cf_device_buffer_index ?f = 0" using A by (simp add: addresses_plan_def)
  have a: "page_start P (cf_field_id ?f, d) = device_offset ?f d" "page_payload P (cf_field_id ?f, d) = cf_payload_bytes ?f"
    using A g f I(4,5) unfolding addresses_plan_def by auto
  show "item_range L (gi, fi, d, h) = (0, page_start P (item_page L (gi, fi, d, h)), host_start L (gi, h, fi), cf_payload_bytes (item_field L (gi, fi, d, h)))"
    using z a by (simp add: item_range_def item_field_def item_page_def)
  show "page_payload P (item_page L (gi, fi, d, h)) = cf_payload_bytes (item_field L (gi, fi, d, h))"
    using a by (simp add: item_field_def item_page_def)
  show "host_payload L (gi, h, fi) = cf_payload_bytes (item_field L (gi, fi, d, h))" by (simp add: host_payload_def item_field_def)
  have "layout_wf L" using A by (simp add: addresses_plan_def)
  from field_at_payload [OF this I(1)] show "0 < cf_payload_bytes (item_field L (gi, fi, d, h))" by (simp add: item_field_def)
qed

lemma batch_in_bounds:
  assumes A: "addresses_plan P L" and G: "geometry_at L n poss gm" and B: "batch_ok P L n dlease hlease ts" and n: "0 \<le> n"
    and M: "memory_for P L n ms" and x: "x \<in> set (copy_items poss ts)"
  shows "validate_range ms (item_range L x) = Inr ()"
proof -
  obtain gi fi d h where q: "x = (gi, fi, d, h)" by (metis prod_cases4)
  note x' = x [unfolded q]
  have P: "plan_ok P" and L: "layout_wf L" using A by (simp_all add: addresses_plan_def)
  note I = batch_items [OF G B x'] and F = item_fields [OF A G B x']
  have "0 \<le> page_start P (item_page L x) \<and> page_start P (item_page L x) + page_payload P (item_page L x) \<le> arena_bytes P"
    using leased_region.inside [of "(P, dlease)" "item_page L x"] P I(3) q by simp
  moreover have "0 \<le> host_start L (gi, h, fi) \<and> host_start L (gi, h, fi) + host_payload L (gi, h, fi) \<le> n * compute_host_lcm_block_bytes L"
    using host_region.inside [of "(L, n, hlease)" "(gi, h, fi)"] L n I(2) by simp
  ultimately show ?thesis using M F unfolding q F(1) by (simp add: validate_range_def memory_for_def raise_if_def)
qed

lemma validate_all: "\<forall>r \<in> set rs. validate_range ms r = Inr () \<Longrightarrow> mapE (validate_range ms) rs = Inr (map (\<lambda>_. ()) rs)"
  by (induction rs) auto

lemma batch_apart:
  assumes A: "addresses_plan P L" and G: "geometry_at L n poss gm" and B: "batch_ok P L n dlease hlease ts" and n: "0 \<le> n"
    and D: "batch_distinct dir ts"
  shows "single_valued (all_pairs dir (set (map (item_range L) (copy_items poss ts))))"
proof (rule apart_single_valued, intro ballI impI)
  fix r r' assume "r \<in> set (map (item_range L) (copy_items poss ts))" "r' \<in> set (map (item_range L) (copy_items poss ts))" and ne: "r \<noteq> r'"
  then obtain x x' where x: "x \<in> set (copy_items poss ts)" "r = item_range L x" and x': "x' \<in> set (copy_items poss ts)" "r' = item_range L x'" by auto
  obtain gi fi d h where q: "x = (gi, fi, d, h)" by (metis prod_cases4)
  obtain gi' fi' d' h' where q': "x' = (gi', fi', d', h')" by (metis prod_cases4)
  have P: "plan_ok P" and L: "layout_wf L" and poss: "distinct poss" "distinct (map (field_id_at L) poss)"
    using A G by (simp_all add: addresses_plan_def geometry_at_def)
  note I = batch_items [OF G B x(1) [unfolded q]] and F = item_fields [OF A G B x(1) [unfolded q]]
  note I' = batch_items [OF G B x'(1) [unfolded q']] and F' = item_fields [OF A G B x'(1) [unfolded q']]
  have xx: "x \<noteq> x'" using ne x(2) x'(2) by blast
  show "ranges_apart dir r r'"
  proof (cases dir)
    case D2H
    have "distinct (map item_host (copy_items poss ts))" using distinct_item_host [OF poss(1)] D D2H by (simp add: batch_distinct_def)
    then have "(gi, h, fi) \<noteq> (gi', h', fi')" using xx x(1) x'(1) q q' unfolding distinct_map inj_on_def by (auto simp: item_host_def)
    from host_region.apart [of "(L, n, hlease)" "(gi, h, fi)" "(gi', h', fi')"] this L n I(2) I'(2)
    show ?thesis using D2H F F' x(2) x'(2) q q' by (simp add: ranges_apart_def)
  next
    case H2D
    have "distinct (map (item_page L) (copy_items poss ts))" using distinct_item_page [OF poss] D H2D by (simp add: batch_distinct_def)
    then have "item_page L x \<noteq> item_page L x'" using xx x(1) x'(1) unfolding distinct_map inj_on_def by blast
    from leased_region.apart [of "(P, dlease)" "item_page L x" "item_page L x'"] this P I(3) I'(3)
    show ?thesis using H2D F F' x(2) x'(2) q q' by (simp add: ranges_apart_def)
  qed
qed

section \<open>Staged tables\<close>

lemma geometry_groups:
  assumes "geometry_at L n poss gm"
  shows "\<forall>row \<in> set (tm_rows gm). 0 \<le> gr_group_index row \<and> gr_group_index row < int (length (tm_group_packing gm))"
  using assms by (auto simp: geometry_at_def layout_row_def field_at_def Let_def)

lemma staged_ranges:
  assumes G: "geometry_at L n poss gm" and ok: "transfers_ok gm ts"
  shows "slice_ranges (tm_host_lcm_block_bytes gm) (concat (buckets_of gm ts)) (group_offsets_from 0 (buckets_of gm ts)) (tm_rows gm) =
    map (item_range L) (copy_items poss ts)"
proof -
  have "group_slice (concat (buckets_of gm ts)) (group_offsets_from 0 (buckets_of gm ts)) (gr_group_index row) = group_pairs ts (nat (gr_group_index row))"
    if "row \<in> set (tm_rows gm)" for row
  proof -
    have "0 \<le> gr_group_index row" "nat (gr_group_index row) < length (buckets_of gm ts)" using that geometry_groups [OF G] by auto
    then show ?thesis using group_slice_bucket [of "nat (gr_group_index row)" "buckets_of gm ts"] by (simp add: buckets_of_def)
  qed
  then have "slice_ranges (tm_host_lcm_block_bytes gm) (concat (buckets_of gm ts)) (group_offsets_from 0 (buckets_of gm ts)) (tm_rows gm) =
      rows_ranges (tm_host_lcm_block_bytes gm) ts (tm_rows gm)"
    unfolding slice_ranges_def rows_ranges_def by (auto intro!: arg_cong [where f = concat] map_cong)
  then show ?thesis using G rows_ranges_items [of L ts poss] by (simp add: geometry_at_def)
qed

lemma staged_row_tables:
  assumes L: "layout_wf L" and G: "geometry_at L n poss gm" and ok: "transfers_ok gm ts" and row: "row \<in> set (tm_rows gm)"
  shows "row_tables_ok (concat (buckets_of gm ts)) (group_offsets_from 0 (buckets_of gm ts)) row"
proof -
  let ?bs = "buckets_of gm ts" and ?i = "nat (gr_group_index row)"
  obtain gi fi where r: "row = layout_row L gi fi" "field_at L gi fi" using G row by (auto simp: geometry_at_def)
  have i: "nat (gr_group_index row + 1) = Suc ?i" "Suc ?i \<le> length ?bs" using geometry_groups [OF G] row by (auto simp: nat_add_distrib)
  have "0 < gr_packing row" "0 < gr_payload_bytes row"
    using r group_fields_positive(2) [OF L, of gi] field_at_payload [OF L r(2)] by (auto simp: layout_row_def field_at_def Let_def)
  moreover have "length (concat (take ?i ?bs)) \<le> length (concat (take (Suc ?i) ?bs))" "length (concat (take (Suc ?i) ?bs)) \<le> length (concat ?bs)"
  proof -
    have "concat ?bs = concat (take (Suc ?i) ?bs) @ concat (drop (Suc ?i) ?bs)" by (metis append_take_drop_id concat_append)
    then show "length (concat (take (Suc ?i) ?bs)) \<le> length (concat ?bs)" by (metis le_add1 length_append)
    show "length (concat (take ?i ?bs)) \<le> length (concat (take (Suc ?i) ?bs))" using i(2) by (simp add: take_Suc_conv_app_nth)
  qed
  moreover have "\<forall>p \<in> set (concat ?bs). 1 \<le> snd p"
    using ok by (auto simp: buckets_of_def group_pairs_iff transfers_ok_def)
  ultimately show ?thesis unfolding row_tables_ok_def i(1) using i(2) by (simp add: group_offsets_nth)
qed

section \<open>Staging on a lane\<close>

text \<open>What \<^verbatim>\<open>prepare_backend\<close> resolves for a binding, and a cache that agrees with it.\<close>

definition resolved_mode :: "platform \<Rightarrow> transfer_mode" where
  "resolved_mode pf = (if pf_host_pointer pf = Mapped then \<lparr>tmo_backend = Transport_triton, tmo_layer_ready = pf_cuda pf \<and> pf_nvidia pf\<rparr>
                       else \<lparr>tmo_backend = Transport_dma, tmo_layer_ready = False\<rparr>)"

definition mode_ok :: "platform \<Rightarrow> int list \<Rightarrow> mode_cache \<Rightarrow> bool" where
  "mode_ok pf key cache \<longleftrightarrow> (mc_key cache = Some key \<longrightarrow> mc_mode cache = None \<or> mc_mode cache = Some (resolved_mode pf))"

definition available :: "platform \<Rightarrow> transport_request \<Rightarrow> bool" where
  "available pf backend \<longleftrightarrow> 0 < pf_grid_cap pf \<and> (backend = Backend_triton \<longrightarrow> \<not> pf_npu pf \<and> pf_host_pointer pf = Mapped) \<and>
     (backend = Backend_dma \<or> pf_npu pf \<or> pf_host_pointer pf \<in> {Mapped, Unavailable})"

definition uses_kernel :: "platform \<Rightarrow> transport_request \<Rightarrow> bool" where
  "uses_kernel pf backend \<longleftrightarrow> backend \<noteq> Backend_dma \<and> \<not> pf_npu pf \<and> pf_host_pointer pf = Mapped"

lemma prepare_backend_result:
  assumes "mode_ok pf key cache" and "available pf backend"
  shows "\<exists>cache' m. prepare_backend pf cache key backend = (cache', Inr m) \<and> mode_ok pf key cache' \<and> (uses_device_tables m \<longleftrightarrow> uses_kernel pf backend)"
  using assms
  by (auto simp: prepare_backend_def Let_def mode_ok_def available_def uses_kernel_def resolved_mode_def uses_device_tables_def
      transfer_mode_of_def raise_if_def split: option.splits host_pointer.splits)

lemma load_result:
  assumes "transfers_ok gm ts" and "ts \<noteq> []"
  shows "\<exists>ws' offs. load_block_transfers junk ws ts gm = (ws', Inr (int (length ts), offs)) \<and> ws_commit_generation ws' = -1"
proof -
  have "foldE (bucket_step gm) (replicate (length (tm_group_packing gm)) []) ts = Inr (buckets_of gm ts)"
    using assms(1) by (simp add: buckets_result)
  then show ?thesis using assms
    by (simp add: load_block_transfers_def Let_def invalidate_block_commit_def length_concat_buckets)
qed

lemma staged_host_tables:
  assumes inv: "ws_inv ws (Some (gm, ts))" and ne: "ts \<noteq> []"
  shows "host_block_rows ws (int (length ts)) = Inr (concat (buckets_of gm ts))"
    and "block_group_offsets_host ws = Inr (group_offsets_from 0 (buckets_of gm ts))"
  using inv ne
  by (auto simp: ws_inv_def host_block_rows_def block_group_offsets_host_def holds_prefix_def length_concat_buckets nat_add_distrib raise_if_def)

lemma commit_result:
  assumes inv: "ws_inv ws (Some (gm, ts))" and ne: "ts \<noteq> []" and g: "ws_commit_generation ws = -1"
  shows "\<exists>ws' v. commit_block_transfers junk ws (int (length ts)) = (ws', Inr v) \<and>
    committed_block_tables ws' (int (length ts)) = Inr (concat (buckets_of gm ts), group_offsets_from 0 (buckets_of gm ts))"
proof -
  obtain rows offs where t: "ws_block_host ws = Some rows" "ws_offsets_host ws = Some offs"
    using inv ne by (auto simp: ws_inv_def holds_prefix_def)
  have k: "0 < ws_offsets_count ws" "ws_commit_generation ws \<noteq> ws_load_generation ws" "ws_num_loaded ws = int (length ts)"
    using inv g by (auto simp: ws_inv_def)
  obtain ws' r where c: "commit_block_transfers junk ws (int (length ts)) = (ws', r)" by (metis surj_pair)
  then obtain v where r: "r = Inr v" and gen: "ws_commit_generation ws' = ws_load_generation ws'"
    using t k ne by (auto simp: commit_block_transfers_def require_loaded_block_state_def raise_if_def Let_def)
  have J: "ws_inv ws' (Some (gm, ts))" by (rule commit_inv [OF inv c])
  have ok: "transfers_ok gm ts" and cnt: "ws_offsets_count ws' = int (length (tm_group_packing gm)) + 1"
    and nc: "ws_num_committed ws' = int (length ts)"
    and dev: "holds_prefix (ws_block_device ws') (concat (buckets_of gm ts))"
      "holds_prefix (ws_offsets_device ws') (group_offsets_from 0 (buckets_of gm ts))"
    using J gen unfolding ws_inv_def by auto
  obtain tb to where tb: "ws_block_device ws' = Some tb" "take (length ts) tb = concat (buckets_of gm ts)"
    and to: "ws_offsets_device ws' = Some to" "take (Suc (length (tm_group_packing gm))) to = group_offsets_from 0 (buckets_of gm ts)"
    using dev unfolding holds_prefix_def length_concat_buckets [OF ok] by auto
  have req: "require_committed_block_state ws' = Inr ()" using gen by (simp add: require_committed_block_state_def raise_if_def)
  have "committed_block_tables ws' (int (length ts)) = Inr (concat (buckets_of gm ts), group_offsets_from 0 (buckets_of gm ts))"
    by (simp add: committed_block_tables_def block_group_offsets_device_def req nc cnt tb to raise_if_def nat_add_distrib)
  then show ?thesis using c r by blast
qed

definition lane_ok :: "platform \<Rightarrow> int list \<Rightarrow> lane \<Rightarrow> bool" where
  "lane_ok pf key lane \<longleftrightarrow> (\<exists>cur. ws_reach (ln_workspace lane) cur) \<and> mode_ok pf key (ln_mode lane)"

lemma lane_stage_result:
  assumes ok: "lane_ok pf key lane" and av: "available pf backend" and ts: "transfers_ok gm ts" "ts \<noteq> []"
  shows "\<exists>lane'. lane_stage junk pf key gm backend ts lane = (lane', Inr (int (length ts))) \<and> lane_ok pf key lane' \<and>
    ws_inv (ln_workspace lane') (Some (gm, ts)) \<and>
    (uses_kernel pf backend \<longrightarrow> committed_block_tables (ln_workspace lane') (int (length ts)) =
       Inr (concat (buckets_of gm ts), group_offsets_from 0 (buckets_of gm ts)))"
proof -
  obtain cur where r0: "ws_reach (ln_workspace lane) cur" and m0: "mode_ok pf key (ln_mode lane)" using ok by (auto simp: lane_ok_def)
  obtain ws offs where l: "load_block_transfers junk (ln_workspace lane) ts gm = (ws, Inr (int (length ts), offs))" and g: "ws_commit_generation ws = -1"
    using load_result [OF ts] by blast
  have r1: "ws_reach ws (Some (gm, ts))" using ws_reach.load [OF r0 l] by simp
  obtain cache m where p: "prepare_backend pf (ln_mode lane) key backend = (cache, Inr m)" "mode_ok pf key cache" "uses_device_tables m \<longleftrightarrow> uses_kernel pf backend"
    using prepare_backend_result [OF m0 av] by blast
  show ?thesis
  proof (cases "uses_kernel pf backend")
    case False
    then show ?thesis using l p r1 ws_reach_inv [OF r1] by (auto simp: lane_stage_def lane_ok_def)
  next
    case True
    obtain ws' v where c: "commit_block_transfers junk ws (int (length ts)) = (ws', Inr v)"
      "committed_block_tables ws' (int (length ts)) = Inr (concat (buckets_of gm ts), group_offsets_from 0 (buckets_of gm ts))"
      using commit_result [OF ws_reach_inv [OF r1] ts(2) g] by blast
    have r2: "ws_reach ws' (Some (gm, ts))" by (rule ws_reach.commit [OF r1 c(1)])
    show ?thesis using True l p r2 c ws_reach_inv [OF r2] by (auto simp: lane_stage_def lane_ok_def)
  qed
qed

section \<open>Submitting a staged batch\<close>

lemma fold_max_bounds:
  fixes f :: "'a \<Rightarrow> int"
  shows "w0 \<le> fold (\<lambda>x w. max w (f x)) xs w0 \<and> (\<forall>x \<in> set xs. f x \<le> fold (\<lambda>x w. max w (f x)) xs w0)"
proof (induction xs arbitrary: w0)
  case (Cons x xs)
  from Cons [of "max w0 (f x)"] show ?case by auto
qed simp

lemma work_items_zero:
  assumes L: "layout_wf L" and G: "geometry_at L n poss gm" and ok: "transfers_ok gm ts" and ws: "ws_inv ws (Some (gm, ts))" "ts \<noteq> []"
  shows "\<exists>w. block_work_items gm ws 0 (length (tm_rows gm)) = Inr w \<and> 0 \<le> w \<and> (w = 0 \<longrightarrow> copy_items poss ts = [])"
proof -
  let ?bs = "buckets_of gm ts" and ?offs = "group_offsets_from 0 (buckets_of gm ts)"
  let ?f = "\<lambda>(group_index, num_chunks) w. max w ((?offs ! nat (group_index + 1) - ?offs ! nat group_index) * num_chunks)"
  have "?f = (\<lambda>x w. max w ((?offs ! nat (fst x + 1) - ?offs ! nat (fst x)) * snd x))" by (simp add: fun_eq_iff)
  then have fold: "w0 \<le> fold ?f xs w0 \<and> (\<forall>x \<in> set xs. (?offs ! nat (fst x + 1) - ?offs ! nat (fst x)) * snd x \<le> fold ?f xs w0)" for xs and w0
    using fold_max_bounds [of w0 "\<lambda>x. (?offs ! nat (fst x + 1) - ?offs ! nat (fst x)) * snd x" xs] by simp
  let ?w = "fold ?f (tm_row_work gm) 0"
  have len: "length (tm_row_work gm) = length (tm_rows gm)" using G by (simp add: geometry_at_def)
  have w: "block_work_items gm ws 0 (length (tm_rows gm)) = Inr ?w"
    using staged_host_tables(2) [OF ws] len by (simp add: block_work_items_def)
  have "copy_items poss ts = []" if z: "?w = 0"
  proof -
    have "group_pairs ts gi = []" if q: "(gi, fi) \<in> set poss" for gi fi
    proof -
      let ?row = "layout_row L gi fi"
      have fa: "field_at L gi fi" and row: "?row \<in> set (tm_rows gm)" using G q by (auto simp: geometry_at_def)
      have gi: "gi < length ?bs" using G fa by (simp add: geometry_at_def field_at_def)
      have idx: "gr_group_index ?row = int gi" "gr_payload_bytes ?row = cf_payload_bytes (tg_fields (tl_groups L ! gi) ! fi)"
        by (simp_all add: layout_row_def Let_def)
      let ?nc = "(gr_payload_bytes ?row + HOST_CACHE_TRANSFER_CHUNK_BYTES - 1) div HOST_CACHE_TRANSFER_CHUNK_BYTES"
      have "tm_row_work gm = map (\<lambda>row. (gr_group_index row, (gr_payload_bytes row + HOST_CACHE_TRANSFER_CHUNK_BYTES - 1) div HOST_CACHE_TRANSFER_CHUNK_BYTES)) (tm_rows gm)"
        using G unfolding geometry_at_def by blast
      then have "(int gi, ?nc) \<in> set (tm_row_work gm)" unfolding idx(1) [symmetric] using row by simp
      then have "(?offs ! nat (int gi + 1) - ?offs ! nat (int gi)) * ?nc \<le> 0" using fold [of 0 "tm_row_work gm"] z by fastforce
      moreover have "0 < ?nc" using field_at_payload [OF L fa] idx by (simp add: HOST_CACHE_TRANSFER_CHUNK_BYTES_def)
      ultimately have "?offs ! Suc gi - ?offs ! gi \<le> 0" by (simp add: mult_le_0_iff nat_add_distrib)
      then have "length (?bs ! gi) = 0" using gi by (simp add: group_offsets_nth take_Suc_conv_app_nth)
      then show ?thesis using gi by (simp add: buckets_of_def)
    qed
    then show ?thesis by (force simp: copy_items_def)
  qed
  then show ?thesis using w fold [of 0 "tm_row_work gm"] by blast
qed

inductive_cases finishes_noneE: "finishes dir Sub_none ms ms'"
inductive_cases finishes_dmaE: "finishes dir (Sub_dma m flags) ms ms'"
inductive_cases finishes_kernelE: "finishes dir (Sub_kernel n s) ms ms'"

text \<open>A submission that must end, and ends with the bytes \<open>target\<close>.\<close>

definition finishes_with :: "direction \<Rightarrow> submission \<Rightarrow> mem_state \<Rightarrow> mem_state \<Rightarrow> bool" where
  "finishes_with dir sub ms target \<longleftrightarrow> (\<exists>ms'. finishes dir sub ms ms') \<and> (\<forall>ms'. finishes dir sub ms ms' \<longrightarrow> ms' = target)"

lemma finishes_with_none: "finishes_with dir Sub_none ms ms"
  unfolding finishes_with_def by (auto intro: finishes.none elim: finishes_noneE)

lemma finishes_with_dma: "finishes_with dir (Sub_dma m flags) ms m"
  unfolding finishes_with_def by (auto intro: finishes.dma elim: finishes_dmaE)

lemma finishes_with_kernel:
  assumes "launch_ok dir gm pairs offs tables off cnt n ms"
  shows "finishes_with dir (Sub_kernel n (kernel_launch gm pairs offs tables off cnt n ms)) ms
    (transfer_dma dir (slice_ranges (tm_host_lcm_block_bytes gm) pairs offs (launch_rows gm (tables \<noteq> None) off cnt)) ms)"
proof -
  let ?s0 = "kernel_launch gm pairs offs tables off cnt n ms"
  obtain s where "(kernel_step dir n)\<^sup>*\<^sup>* ?s0 s" "\<forall>prog \<in> set (la_programs s). prog = []"
    using run_ends [of dir n ?s0] unfolding remaining_zero by blast
  then have "\<exists>ms'. finishes dir (Sub_kernel n ?s0) ms ms'" using finishes.kernel by blast
  moreover have "ms' = transfer_dma dir (slice_ranges (tm_host_lcm_block_bytes gm) pairs offs (launch_rows gm (tables \<noteq> None) off cnt)) ms"
    if "finishes dir (Sub_kernel n ?s0) ms ms'" for ms'
    using that
  proof (rule finishes_kernelE)
    fix s assume ms': "ms' = la_mem s" and run: "(kernel_step dir n)\<^sup>*\<^sup>* ?s0 s" and fin: "\<forall>prog \<in> set (la_programs s). prog = []"
    show ?thesis unfolding ms' using finished_memory [OF assms run] fin by (simp add: remaining_zero)
  qed
  ultimately show ?thesis unfolding finishes_with_def by blast
qed

lemma submit_dma_result:
  assumes A: "addresses_plan P L" and G: "geometry_at L n poss gm" and B: "batch_ok P L n dlease hlease ts" and n: "0 \<le> n"
    and M: "memory_for P L n ms" and ws: "ws_inv ws (Some (gm, ts))" "ts \<noteq> []"
  shows "submit_dma dir gm ws (int (length ts)) 0 (length (tm_rows gm)) None ms =
    Inr (Sub_dma (transfer_dma dir (map (item_range L) (copy_items poss ts)) ms) None)"
proof -
  have "make_block_ranges gm ws (int (length ts)) 0 (length (tm_rows gm)) = Inr (map (item_range L) (copy_items poss ts))"
    using loaded_ranges [OF ws geometry_groups [OF G], of 0 "length (tm_rows gm)"] G rows_ranges_items [of L ts poss]
    by (simp add: geometry_at_def)
  moreover have "mapE (validate_range ms) (map (item_range L) (copy_items poss ts)) = Inr (map (\<lambda>_. ()) (map (item_range L) (copy_items poss ts)))"
    using batch_in_bounds [OF A G B n M] by (intro validate_all) auto
  ultimately show ?thesis by (simp add: submit_dma_def transfer_cache_ranges_def)
qed

lemma batch_launch_ok:
  assumes A: "addresses_plan P L" and G: "geometry_at L n poss gm" and B: "batch_ok P L n dlease hlease ts" and n: "0 \<le> n"
    and M: "memory_for P L n ms" and D: "batch_distinct dir ts" and k: "0 < nprogs"
  shows "launch_ok dir gm (concat (buckets_of gm ts)) (group_offsets_from 0 (buckets_of gm ts)) None 0 (length (tm_rows gm)) nprogs ms"
proof -
  have L: "layout_wf L" and z: "\<forall>f \<in> set (layout_fields L). cf_device_buffer_index f = 0" using A by (simp_all add: addresses_plan_def)
  have ok: "transfers_ok gm ts" by (rule batch_transfers_ok [OF G B])
  have rows: "launch_rows gm (None \<noteq> None) 0 (length (tm_rows gm)) = tm_rows gm" by (simp add: launch_rows_def)
  have "nat (gr_device_buffer_index row) < length (ms_device ms)" if row: "row \<in> set (tm_rows gm)" for row
  proof -
    obtain gi fi where r: "row = layout_row L gi fi" "field_at L gi fi" using G row by (auto simp: geometry_at_def)
    then have "tg_fields (tl_groups L ! gi) ! fi \<in> set (layout_fields L)" by (intro field_at_layout)
    then show ?thesis using z r M by (simp add: layout_row_def memory_for_def Let_def)
  qed
  then show ?thesis unfolding launch_ok_def rows staged_ranges [OF G ok]
    using k staged_row_tables [OF L G ok] batch_apart [OF A G B n D] by (auto simp: tables_zero_def)
qed

lemma lane_batch:
  assumes A: "addresses_plan P L" and G: "geometry_at L n poss gm" and bound: "uses_kernel pf backend \<longrightarrow> tm_bound_device gm \<noteq> None"
    and B: "batch_ok P L n dlease hlease ts" and n: "0 \<le> n" and M: "memory_for P L n ms" and D: "batch_distinct dir ts"
    and lane: "lane_ok pf key lane" and av: "available pf backend"
  shows "\<exists>lane' sub. lane_start junk pf key dir gm backend ts lane ms = (lane', Inr sub) \<and> lane_ok pf key lane' \<and>
    finishes_with dir sub ms (transfer_dma dir (map (item_range L) (copy_items poss ts)) ms)"
proof (cases "ts = []")
  case True
  have "copy_items poss [] = []" by (simp add: copy_items_def group_pairs_def)
  then show ?thesis using True lane finishes_with_none by (auto simp: lane_start_def transfer_dma_def)
next
  case ne: False
  have L: "layout_wf L" using A by (simp add: addresses_plan_def)
  have ok: "transfers_ok gm ts" by (rule batch_transfers_ok [OF G B])
  let ?target = "transfer_dma dir (map (item_range L) (copy_items poss ts)) ms"
  let ?pairs = "concat (buckets_of gm ts)" and ?offs = "group_offsets_from 0 (buckets_of gm ts)"
  obtain lane1 where st: "lane_stage junk pf key gm backend ts lane = (lane1, Inr (int (length ts)))" and l1: "lane_ok pf key lane1"
    and inv: "ws_inv (ln_workspace lane1) (Some (gm, ts))"
    and com: "uses_kernel pf backend \<longrightarrow> committed_block_tables (ln_workspace lane1) (int (length ts)) = Inr (?pairs, ?offs)"
    using lane_stage_result [OF lane av ok ne] by blast
  have rows: "tm_rows gm \<noteq> []"
  proof -
    have "field_at L 0 0" using L by (auto simp: field_at_def layout_wf_def group_wf_def)
    then show ?thesis using G by (auto simp: geometry_at_def)
  qed
  have args: "check_transfer_arguments dir gm (int (length ts)) 0 (int (length (tm_rows gm))) None = Inr ()"
    by (simp add: check_transfer_arguments_def raise_if_def)
  note dma = submit_dma_result [OF A G B n M inv ne, of dir]
  obtain w where w: "block_work_items gm (ln_workspace lane1) 0 (length (tm_rows gm)) = Inr w" "0 \<le> w" "w = 0 \<longrightarrow> copy_items poss ts = []"
    using work_items_zero [OF L G ok inv ne] by blast
  obtain cache m where p: "prepare_backend pf (ln_mode lane1) key backend = (cache, Inr m)" "mode_ok pf key cache" "uses_device_tables m \<longleftrightarrow> uses_kernel pf backend"
    using prepare_backend_result av l1 unfolding lane_ok_def by blast
  have start: "lane_start junk pf key dir gm backend ts lane ms =
      transfer_cache_blocks pf key dir gm lane1 (int (length ts)) 0 (int (length (tm_rows gm))) backend None None ms"
    using st ne by (simp add: lane_start_def)
  consider "backend = Backend_dma" | "backend \<noteq> Backend_dma" "w = 0" | "backend \<noteq> Backend_dma" "w \<noteq> 0" "\<not> uses_kernel pf backend"
    | "backend \<noteq> Backend_dma" "w \<noteq> 0" "uses_kernel pf backend" by blast
  then show ?thesis
  proof cases
    case 1
    then show ?thesis using start ne rows l1 finishes_with_dma
      by (auto simp: transfer_cache_blocks_def Let_def args dma)
  next
    case 2
    then show ?thesis using start ne rows l1 w finishes_with_none staged_host_tables(1) [OF inv ne]
      by (auto simp: transfer_cache_blocks_def Let_def args transfer_dma_def)
  next
    case 3
    then show ?thesis using start ne rows l1 w p finishes_with_dma
      by (auto simp: transfer_cache_blocks_def Let_def args dma lane_ok_def)
  next
    case 4
    let ?n = "nat (max 1 (min (pf_grid_cap pf) (if w > 0 then w else 1)))"
    have "submit_kernel pf gm lane1 (int (length ts)) 0 (length (tm_rows gm)) w None None ms =
        Inr (Sub_kernel ?n (kernel_launch gm ?pairs ?offs None 0 (length (tm_rows gm)) ?n ms))"
      using com bound 4 w(2) rows av by (simp add: submit_kernel_def transfer_cache_blocks_triton_def Let_def raise_if_def available_def)
    moreover have "finishes_with dir (Sub_kernel ?n (kernel_launch gm ?pairs ?offs None 0 (length (tm_rows gm)) ?n ms)) ms ?target"
      using finishes_with_kernel [OF batch_launch_ok [OF A G B n M D, of ?n]] staged_ranges [OF G ok] by (simp add: launch_rows_def)
    ultimately show ?thesis using start ne rows l1 w p 4
      by (auto simp: transfer_cache_blocks_def Let_def args lane_ok_def)
  qed
qed

section \<open>Write back and load\<close>

lemma storage_size: "host_cache_storage L n = Inr hs \<Longrightarrow> 0 \<le> n"
  by (auto simp: host_cache_storage_def result_simps)

lemma copy_item_of:
  assumes "geometry_at L n poss gm" and "batch_ok P L n dlease hlease ts" and "(g, d, h) \<in> set ts" and "f \<in> set (tg_fields (tl_groups L ! nat g))"
  obtains fi where "(nat g, fi, d, h) \<in> set (copy_items poss ts)" "tg_fields (tl_groups L ! nat g) ! fi = f"
proof -
  obtain fi where fi: "fi < length (tg_fields (tl_groups L ! nat g))" "tg_fields (tl_groups L ! nat g) ! fi = f"
    using assms(4) by (metis in_set_conv_nth)
  have g: "0 \<le> g" "nat g < length (tl_groups L)" using assms(2,3) by (auto simp: batch_ok_def)
  then have "(nat g, fi) \<in> set poss" using assms(1) fi by (simp add: geometry_at_def field_at_def)
  moreover have "(int (nat g), d, h) \<in> set ts" using assms(3) g by simp
  ultimately have "(nat g, fi, d, h) \<in> set (copy_items poss ts)" using copy_items_iff by blast
  then show thesis using that fi by blast
qed

lemma writeback_host:
  assumes A: "addresses_plan P L" and G: "geometry_at L n poss gm" and B: "batch_ok P L n dlease hlease ts" and n: "0 \<le> n"
    and D: "batch_distinct D2H ts" and x: "(gi, fi, d, h) \<in> set (copy_items poss ts)"
  shows "read_bytes (ms_host (transfer_dma D2H (map (item_range L) (copy_items poss ts)) ms)) (host_start L (gi, h, fi)) (cf_payload_bytes (tg_fields (tl_groups L ! gi) ! fi)) =
    read_bytes (ms_device ms ! 0) (device_offset (tg_fields (tl_groups L ! gi) ! fi) d) (cf_payload_bytes (tg_fields (tl_groups L ! gi) ! fi))"
proof -
  have L: "layout_wf L" and z: "\<forall>f \<in> set (layout_fields L). cf_device_buffer_index f = 0" using A by (simp_all add: addresses_plan_def)
  have poss: "distinct poss" "\<forall>(gi, fi) \<in> set poss. field_at L gi fi" using G by (auto simp: geometry_at_def)
  have reg: "\<forall>x \<in> set (copy_items poss ts). item_host x \<in> host_regions L n hlease"
    using batch_items(2) [OF G B] by (auto simp: item_host_def)
  have dist: "distinct (map (\<lambda>(g, p). (g, snd p)) ts)" using D by (simp add: batch_distinct_def)
  have "cf_device_buffer_index (tg_fields (tl_groups L ! gi) ! fi) = 0"
    using z field_at_layout [OF batch_items(1) [OF G B x]] by blast
  then show ?thesis using d2h_result(2) [OF L poss dist n reg x, of ms] by simp
qed

lemma load_device:
  assumes A: "addresses_plan P L" and G: "geometry_at L n poss gm" and B: "batch_ok P L n dlease hlease ts"
    and D: "batch_distinct H2D ts" and dev: "length (ms_device ms) = 1"
  shows "(gi, fi, d, h) \<in> set (copy_items poss ts) \<Longrightarrow>
    read_bytes (ms_device (transfer_dma H2D (map (item_range L) (copy_items poss ts)) ms) ! 0) (device_offset (tg_fields (tl_groups L ! gi) ! fi) d) (cf_payload_bytes (tg_fields (tl_groups L ! gi) ! fi)) =
    read_bytes (ms_host ms) (host_start L (gi, h, fi)) (cf_payload_bytes (tg_fields (tl_groups L ! gi) ! fi))"
    and "r \<in> leased_pages P dlease \<Longrightarrow> r \<notin> item_page L ` set (copy_items poss ts) \<Longrightarrow>
    read_bytes (ms_device (transfer_dma H2D (map (item_range L) (copy_items poss ts)) ms) ! 0) (page_start P r) (page_payload P r) =
    read_bytes (ms_device ms ! 0) (page_start P r) (page_payload P r)"
proof -
  have poss: "distinct poss" "\<forall>(gi, fi) \<in> set poss. field_at L gi fi" "distinct (map (field_id_at L) poss)" using G by (auto simp: geometry_at_def)
  have dist: "distinct (map (\<lambda>(g, p). (g, fst p)) ts)" using D by (simp add: batch_distinct_def)
  have blk: "\<forall>(gi, fi, d, h) \<in> set (copy_items poss ts). 0 \<le> d \<and> d \<le> tl_num_lcm_blocks L * tg_cache_blocks_per_lcm_block (tl_groups L ! gi)"
    using batch_items(4,5) [OF G B] by fastforce
  have reg: "\<forall>x \<in> set (copy_items poss ts). item_page L x \<in> leased_pages P dlease" using batch_items(3) [OF G B] by auto
  have dv: "ms_device ms = [ms_device ms ! 0]" using dev by (cases "ms_device ms") auto
  note R = h2d_result [OF A poss dist blk reg dv]
  show "read_bytes (ms_device (transfer_dma H2D (map (item_range L) (copy_items poss ts)) ms) ! 0) (device_offset (tg_fields (tl_groups L ! gi) ! fi) d) (cf_payload_bytes (tg_fields (tl_groups L ! gi) ! fi)) =
    read_bytes (ms_host ms) (host_start L (gi, h, fi)) (cf_payload_bytes (tg_fields (tl_groups L ! gi) ! fi))"
    if "(gi, fi, d, h) \<in> set (copy_items poss ts)" using R(2) [OF that] .
  show "read_bytes (ms_device (transfer_dma H2D (map (item_range L) (copy_items poss ts)) ms) ! 0) (page_start P r) (page_payload P r) =
    read_bytes (ms_device ms ! 0) (page_start P r) (page_payload P r)"
    if "r \<in> leased_pages P dlease" "r \<notin> item_page L ` set (copy_items poss ts)" using R(3) [OF that] .
qed

text \<open>Device state \<open>ms2\<close> after a load, against the bytes \<open>ms\<close> that were written back and the bytes \<open>ms1\<close> just before
  the load.\<close>

definition restored ::
  "cache_memory_plan \<Rightarrow> transfer_layout \<Rightarrow> (int \<Rightarrow> string option) \<Rightarrow> (int \<times> int \<times> int) list \<Rightarrow> (int \<times> int \<times> int) list \<Rightarrow>
   mem_state \<Rightarrow> mem_state \<Rightarrow> mem_state \<Rightarrow> bool" where
  "restored P L dlease out back ms ms1 ms2 \<longleftrightarrow>
     (\<forall>g d d' h f. (g, d, h) \<in> set out \<and> (g, d', h) \<in> set back \<and> f \<in> set (tg_fields (tl_groups L ! nat g)) \<longrightarrow>
        read_bytes (ms_device ms2 ! 0) (device_offset f d') (cf_payload_bytes f) =
        read_bytes (ms_device ms ! 0) (device_offset f d) (cf_payload_bytes f)) \<and>
     (\<forall>r \<in> leased_pages P dlease.
        (\<forall>(g, d', h) \<in> set back. \<forall>f \<in> set (tg_fields (tl_groups L ! nat g)). r \<noteq> (cf_field_id f, d')) \<longrightarrow>
        read_bytes (ms_device ms2 ! 0) (page_start P r) (page_payload P r) =
        read_bytes (ms_device ms1 ! 0) (page_start P r) (page_payload P r))"

lemma roundtrip_restored:
  fixes ms ms1 :: mem_state
  assumes A: "addresses_plan P L" and G: "geometry_at L n poss gm" and n: "0 \<le> n"
    and out: "batch_ok P L n dlease hlease out" "batch_distinct D2H out"
    and bk: "batch_ok P L n dlease' hlease back" "batch_distinct H2D back"
    and host: "ms_host ms1 = ms_host (transfer_dma D2H (map (item_range L) (copy_items poss out)) ms)"
    and len: "length (ms_device ms1) = 1"
  shows "restored P L dlease' out back ms ms1 (transfer_dma H2D (map (item_range L) (copy_items poss back)) ms1)"
  unfolding restored_def
proof (intro conjI allI impI ballI, elim conjE)
  fix g d d' h f assume q: "(g, d, h) \<in> set out" "(g, d', h) \<in> set back" "f \<in> set (tg_fields (tl_groups L ! nat g))"
  obtain fi where x: "(nat g, fi, d, h) \<in> set (copy_items poss out)" "tg_fields (tl_groups L ! nat g) ! fi = f"
    by (rule copy_item_of [OF G out(1) q(1,3)])
  have x': "(nat g, fi, d', h) \<in> set (copy_items poss back)"
    using x(1) q(2) batch_items(1) [OF G out(1) x(1)] bk(1) copy_items_iff [of "nat g" fi] by (auto simp: batch_ok_def)
  show "read_bytes (ms_device (transfer_dma H2D (map (item_range L) (copy_items poss back)) ms1) ! 0) (device_offset f d') (cf_payload_bytes f) =
      read_bytes (ms_device ms ! 0) (device_offset f d) (cf_payload_bytes f)"
    using load_device(1) [OF A G bk len x'] writeback_host [OF A G out(1) n out(2) x(1), of ms] host x(2) by simp
next
  fix r assume r: "r \<in> leased_pages P dlease'"
    and other: "\<forall>(g, d', h) \<in> set back. \<forall>f \<in> set (tg_fields (tl_groups L ! nat g)). r \<noteq> (cf_field_id f, d')"
  have "r \<noteq> item_page L (gi, fi, d, h)" if x: "(gi, fi, d, h) \<in> set (copy_items poss back)" for gi fi d h
  proof -
    have "(int gi, d, h) \<in> set back" "tg_fields (tl_groups L ! gi) ! fi \<in> set (tg_fields (tl_groups L ! gi))"
      using x copy_items_iff [of gi fi] batch_items(1) [OF G bk(1) x] by (auto simp: field_at_def)
    then show ?thesis using other by (fastforce simp: item_page_def item_field_def)
  qed
  then have "r \<notin> item_page L ` set (copy_items poss back)" by auto
  then show "read_bytes (ms_device (transfer_dma H2D (map (item_range L) (copy_items poss back)) ms1) ! 0) (page_start P r) (page_payload P r) =
      read_bytes (ms_device ms1 ! 0) (page_start P r) (page_payload P r)"
    using load_device(2) [OF A G bk len r] by blast
qed

text \<open>C3: cache blocks survive a round trip through the Host. Take a plan, a transfer layout of it, its Host
  storage and geometry. A valid write-back batch is accepted by the lane on whichever transport the platform
  and the request select, it always completes, and it has one outcome. If the Device then changes in any way
  while the Host bytes stay, a valid load batch on any lane is accepted, completes and has one outcome in
  which every field of a Device block loaded from a written-back Host block holds the bytes the original
  block had; every other leased Device page is as it was before the load.\<close>

theorem block_roundtrip:
  assumes "plan_ok P" and "layout_from_lcm_plan P buffer consumers gids fids = Inr L" and "host_cache_storage L n = Inr hs"
    and "build_transfer_geometry L hs kb device = Inr gm" and "uses_kernel pf backend \<longrightarrow> kb" and "available pf backend"
    and "lane_ok pf key lane" and "lane_ok pf key lane'" and "memory_for P L n ms"
    and "batch_ok P L n dlease hlease out" and "batch_distinct D2H out"
    and "batch_ok P L n dlease' hlease back" and "batch_distinct H2D back"
  shows "\<exists>lane1 sub1 ms1. lane_start junk pf key D2H gm backend out lane ms = (lane1, Inr sub1) \<and> finishes_with D2H sub1 ms ms1 \<and>
    (\<forall>ms1'. ms_host ms1' = ms_host ms1 \<and> memory_for P L n ms1' \<longrightarrow>
      (\<exists>lane2 sub2 ms2. lane_start junk pf key H2D gm backend back lane' ms1' = (lane2, Inr sub2) \<and>
         finishes_with H2D sub2 ms1' ms2 \<and> restored P L dlease' out back ms ms1' ms2))"
proof -
  have A: "addresses_plan P L" by (rule plan_layout_addresses [OF assms(1,2)])
  then have L: "layout_wf L" by (simp add: addresses_plan_def)
  have n: "0 \<le> n" by (rule storage_size [OF assms(3)])
  obtain poss where G: "geometry_at L n poss gm" and b: "tm_bound_device gm = (if kb then Some device else None)"
    by (rule geometry_positions [OF L assms(3,4)])
  have bound: "uses_kernel pf backend \<longrightarrow> tm_bound_device gm \<noteq> None" using assms(5) b by simp
  let ?dma = "\<lambda>dir ts. transfer_dma dir (map (item_range L) (copy_items poss ts))"
  obtain lane1 sub1 where s1: "lane_start junk pf key D2H gm backend out lane ms = (lane1, Inr sub1)" "finishes_with D2H sub1 ms (?dma D2H out ms)"
    using lane_batch [OF A G bound assms(10) n assms(9,11,7,6)] by blast
  have "\<exists>lane2 sub2 ms2. lane_start junk pf key H2D gm backend back lane' ms1' = (lane2, Inr sub2) \<and>
      finishes_with H2D sub2 ms1' ms2 \<and> restored P L dlease' out back ms ms1' ms2"
    if m: "ms_host ms1' = ms_host (?dma D2H out ms)" "memory_for P L n ms1'" for ms1'
  proof -
    have "length (ms_device ms1') = 1" using m(2) by (simp add: memory_for_def)
    from roundtrip_restored [OF A G n assms(10-13) m(1) this] show ?thesis
      using lane_batch [OF A G bound assms(12) n m(2) assms(13,8,6), of junk] by blast
  qed
  then show ?thesis using s1 by blast
qed

section \<open>Addresses of the kernel\<close>

lemma chunk_valid:
  assumes v: "validate_range ms (pair_range B row pair) = Inr ()" and p: "1 \<le> snd pair" "0 < gr_packing row"
    and c: "c < chunk_count (gr_payload_bytes row)"
  shows "validate_range ms (chunk_range B row pair c) = Inr ()"
proof -
  obtain b d h where r: "pair_range B row pair = (b, d, h, gr_payload_bytes row)" by (simp add: pair_range_def)
  have k: "chunk_range B row pair c = (b, d + int c * 4096, h + int c * 4096, min 4096 (gr_payload_bytes row - int c * 4096))"
    using r p by (auto simp: chunk_range_def pair_range_def Let_def tdiv_nonneg tmod_nonneg HOST_CACHE_TRANSFER_CHUNK_BYTES_def)
  have bnd: "0 \<le> b \<and> b < int (length (ms_device ms))" "0 \<le> d" "0 \<le> h" "0 < gr_payload_bytes row"
    "d + gr_payload_bytes row \<le> ms_device_bytes ms ! nat b" "h + gr_payload_bytes row \<le> ms_host_bytes ms"
    using v unfolding r validate_range_def by (auto simp: raise_if_def split: if_splits)
  have "int c < (gr_payload_bytes row + 4095) div 4096"
    using c bnd(4) by (simp add: chunk_count_def HOST_CACHE_TRANSFER_CHUNK_BYTES_def tdiv_nonneg)
  then have "int c * 4096 < gr_payload_bytes row" by linarith
  then show ?thesis using bnd unfolding k validate_range_def by (simp add: raise_if_def min_def)
qed

lemma program_copy_row:
  assumes "Copy r \<in> set (kernel_program gm pairs offs layered off cnt n pid)"
  shows "\<exists>row \<in> set (tm_rows gm). r \<in> set (copy_row (tm_host_lcm_block_bytes gm) pairs offs pid n row)"
proof -
  have "\<exists>k c. r \<in> set (copy_geometry_slice gm pairs offs k c pid n)"
    using assms layered_program_set [of r gm pairs offs off cnt n pid] by (cases layered) (auto simp: kernel_program_def)
  then obtain k c row where "row \<in> set (take c (drop k (tm_rows gm)))" "r \<in> set (copy_row (tm_host_lcm_block_bytes gm) pairs offs pid n row)"
    by (auto simp: copy_geometry_slice_def)
  then show ?thesis by (meson in_set_dropD in_set_takeD)
qed

text \<open>C7: the kernel never touches memory outside its buffers. The kernel dereferences raw addresses and checks no
  range, unlike the DMA transport. For a valid batch of a layout of a plan, every chunk copy of every program
  of a launch over the staged tables, whatever the grid size and with or without layer signalling, would pass
  the range checks of the DMA transport: the buffer exists, the size is positive, and both ends lie inside
  the arena and the Host buffer.\<close>

theorem kernel_memory_safe:
  assumes "plan_ok P" and "layout_from_lcm_plan P buffer consumers gids fids = Inr L" and "host_cache_storage L n = Inr hs"
    and "build_transfer_geometry L hs kb device = Inr gm" and "memory_for P L n ms" and "batch_ok P L n dlease hlease ts"
    and "Copy r \<in> set (kernel_program gm (concat (buckets_of gm ts)) (group_offsets_from 0 (buckets_of gm ts)) layered off cnt nprogs pid)"
  shows "validate_range ms r = Inr ()"
proof -
  have A: "addresses_plan P L" by (rule plan_layout_addresses [OF assms(1,2)])
  then have L: "layout_wf L" by (simp add: addresses_plan_def)
  have n: "0 \<le> n" by (rule storage_size [OF assms(3)])
  obtain poss where G: "geometry_at L n poss gm" by (rule geometry_positions [OF L assms(3,4)])
  have ok: "transfers_ok gm ts" by (rule batch_transfers_ok [OF G assms(6)])
  let ?pairs = "concat (buckets_of gm ts)" and ?offs = "group_offsets_from 0 (buckets_of gm ts)" and ?B = "tm_host_lcm_block_bytes gm"
  obtain row where row: "row \<in> set (tm_rows gm)" "r \<in> set (copy_row ?B ?pairs ?offs pid nprogs row)"
    using program_copy_row [OF assms(7)] by blast
  note T = staged_row_tables [OF L G ok row(1), unfolded row_tables_ok_def]
  let ?s = "?offs ! nat (gr_group_index row)" and ?e = "?offs ! nat (gr_group_index row + 1)" and ?nc = "chunk_count (gr_payload_bytes row)"
  obtain w where w: "w < nat (?e - ?s) * ?nc" "r = chunk_range ?B row (?pairs ! (nat ?s + w div ?nc)) (w mod ?nc)"
    using row(2) by (auto simp: copy_row_def Let_def step_range_iff)
  let ?pair = "?pairs ! (nat ?s + w div ?nc)"
  have nc: "0 < ?nc" using w(1) by (cases "?nc = 0") auto
  have j: "w div ?nc < nat (?e - ?s)" using w(1) by (simp add: less_mult_imp_div_less)
  have "?pair \<in> set (group_slice ?pairs ?offs (gr_group_index row))" using set_group_slice [of ?offs "gr_group_index row" ?pairs] T j by blast
  then have "pair_range ?B row ?pair \<in> set (slice_ranges ?B ?pairs ?offs (tm_rows gm))" using row(1) by (auto simp: slice_ranges_def)
  then have "validate_range ms (pair_range ?B row ?pair) = Inr ()"
    unfolding staged_ranges [OF G ok] using batch_in_bounds [OF A G assms(6) n assms(5)] by auto
  moreover have "1 \<le> snd ?pair"
  proof -
    have "nat ?s + w div ?nc < length ?pairs" using T j by linarith
    then show ?thesis using T nth_mem by blast
  qed
  ultimately show ?thesis unfolding w(2) using T nc by (intro chunk_valid) simp_all
qed

text \<open>The demo plan: block 1 of group \<open>a\<close> is written back to Host block 1 by the kernel and loaded into block 2.\<close>

definition demo_platform :: platform where
  "demo_platform = \<lparr>pf_npu = False, pf_cuda = True, pf_host_pointer = Mapped, pf_nvidia = True, pf_grid_cap = 64\<rparr>"

definition demo_lane :: lane where
  "demo_lane = \<lparr>ln_workspace = new_workspace, ln_mode = \<lparr>mc_key = None, mc_mode = None\<rparr>,
     ln_ready = \<lparr>lr_flags = None, lr_counts = None, lr_device = 0, lr_num = 0\<rparr>\<rparr>"

definition demo_bytes :: mem_state where
  "demo_bytes = \<lparr>ms_device = [\<lambda>a. a], ms_device_bytes = [arena_bytes demo_plan], ms_host = (\<lambda>_. 0),
     ms_host_bytes = 2 * compute_host_lcm_block_bytes demo_target\<rparr>"

lemma demo_batches:
  "batch_ok demo_plan demo_target 2 demo_lease (\<lambda>_. Some 0) [(0, 1, 1)]"
  "batch_ok demo_plan demo_target 2 demo_lease (\<lambda>_. Some 0) [(0, 2, 1)]"
  unfolding batch_ok_def leased_pages_iff by code_simp+

theorem block_roundtrip_witness:
  "\<exists>gm lane1 sub1 ms1. lane_start 0 demo_platform [7] D2H gm Backend_auto [(0, 1, 1)] demo_lane demo_bytes = (lane1, Inr sub1) \<and>
     finishes_with D2H sub1 demo_bytes ms1"
proof -
  obtain hs where hs: "host_cache_storage demo_target 2 = Inr hs" by (simp add: host_cache_storage_def compute_host_layout_def)
  obtain gm where gm: "build_transfer_geometry demo_target hs True 0 = Inr gm"
    using geometry_of_layout [OF demo_layouts_wf(1) hs] by blast
  have av: "uses_kernel demo_platform Backend_auto \<longrightarrow> True" "available demo_platform Backend_auto" by code_simp+
  have "ws_reach (ln_workspace demo_lane) None" using ws_reach.fresh by (simp add: demo_lane_def)
  then have lane: "lane_ok demo_platform [7] demo_lane" by (auto simp: lane_ok_def mode_ok_def demo_lane_def)
  have mem: "memory_for demo_plan demo_target 2 demo_bytes" by (simp add: memory_for_def demo_bytes_def)
  have dist: "batch_distinct D2H [(0, 1, 1)]" "batch_distinct H2D [(0, 2, 1)]" by code_simp+
  show ?thesis
    using block_roundtrip [OF demo_plan_ok demo_target_view hs gm av lane lane mem demo_batches(1) dist(1) demo_batches(2) dist(2)] by blast
qed

definition demo_storage :: host_storage where
  "demo_storage = projr (host_cache_storage demo_target 2)"

definition demo_built :: transfer_geometry where
  "demo_built = projr (build_transfer_geometry demo_target demo_storage True 0)"

theorem kernel_memory_safe_witness:
  "validate_range demo_bytes (0, 12, 0, 6) = Inr ()"
proof -
  have "is_ok (host_cache_storage demo_target 2)" "is_ok (build_transfer_geometry demo_target demo_storage True 0)" by code_simp+
  then have hs: "host_cache_storage demo_target 2 = Inr demo_storage" and gm: "build_transfer_geometry demo_target demo_storage True 0 = Inr demo_built"
    unfolding demo_storage_def demo_built_def by auto
  have mem: "memory_for demo_plan demo_target 2 demo_bytes" by (simp add: memory_for_def demo_bytes_def)
  have "Copy (0, 12, 0, 6) \<in> set (kernel_program demo_built (concat (buckets_of demo_built [(0, 1, 1)]))
      (group_offsets_from 0 (buckets_of demo_built [(0, 1, 1)])) False 0 2 1 0)" by code_simp
  from kernel_memory_safe [OF demo_plan_ok demo_target_view hs gm mem demo_batches(1) this] show ?thesis .
qed

end
