(* ===== verification/Transfer_Owners.thy ===== *)
theory Transfer_Owners
  imports Block_Placement Transfer_Layout "HOL-Library.Multiset" "HOL-Library.Sublist"
begin

text \<open>
  The control side of a transfer: which rows of a batch a rank copies (\<^verbatim>\<open>cache/transfer/ownership.py\<close>), the
  queue of copies in flight and the pinned-memory bounds (\<^verbatim>\<open>cache/transfer/lanes.py\<close>).

  The three parallel lists the translation fills per group are one list of triples here. A completion event
  is an identifier; \<open>query\<close> says which events have completed.
\<close>

section \<open>Owner translation\<close>

record owner_translation =
  ot_shard_counts :: "int list"
  ot_device_virtual_counts :: "int list"
  ot_host_virtual_counts :: "int list"
  ot_rank :: int



definition num_groups :: "owner_translation \<Rightarrow> nat" where
  "num_groups t = length (ot_shard_counts t)"

type_synonym transfer_row = "int \<times> int \<times> int"

definition row_bucket_step ::
  "owner_translation \<Rightarrow> (nat \<times> int \<times> int) list list \<Rightarrow> nat \<times> transfer_row \<Rightarrow> (nat \<times> int \<times> int) list list result" where
  "row_bucket_step t buckets entry =
     (case entry of (position, g, device_block, host_block) \<Rightarrow>
        raise_if (\<not> (0 \<le> g \<and> g < int (num_groups t))) (IndexError ''cache transfer names unknown group'')
       (raise_if (device_block \<le> 0 \<or> host_block \<le> 0) (ValueError ''a cache transfer cannot name the null block 0'')
          (Inr (buckets[nat g := buckets ! nat g @ [(position, device_block, host_block)]]))))"

definition owned_group_rows ::
  "owner_translation \<Rightarrow> nat \<times> (nat \<times> int \<times> int) list \<Rightarrow> (nat \<times> transfer_row) list result" where
  "owned_group_rows t bucket =
     (case bucket of (g, rows) \<Rightarrow>
        if rows = [] then Inr []
        else
          bindE (owned_local_pages (map (\<lambda>(_, d, _). d) rows) (ot_shard_counts t ! g) (ot_rank t) (ot_device_virtual_counts t ! g))
            (\<lambda>(device_owned, device_local).
          bindE (owned_local_pages (map (\<lambda>(_, _, h). h) rows) (ot_shard_counts t ! g) (ot_rank t) (ot_host_virtual_counts t ! g))
            (\<lambda>(host_owned, host_local).
          raise_if (device_owned \<noteq> host_owned) (ValueError ''cache transfer pairs blocks owned by different ranks'')
            (let owned_positions = map fst (filter snd (zip (map fst rows) device_owned))
             in Inr (map (\<lambda>(position, d, h). (position, int g, d, h)) (zip owned_positions (zip device_local host_local)))))))"

definition owned_positions :: "owner_translation \<Rightarrow> transfer_row list \<Rightarrow> (nat \<times> transfer_row) list result" where
  "owned_positions t rows =
     bindE (foldE (row_bucket_step t) (replicate (num_groups t) []) (enumerate 0 rows)) (\<lambda>buckets.
     bindE (mapE (owned_group_rows t) (enumerate 0 buckets)) (\<lambda>owned. Inr (concat owned)))"

text \<open>The Host-only form; its result is sorted by position.\<close>

definition host_bucket_step ::
  "owner_translation \<Rightarrow> (nat \<times> int) list list \<Rightarrow> nat \<times> int \<times> int \<Rightarrow> (nat \<times> int) list list result" where
  "host_bucket_step t buckets entry =
     (case entry of (position, g, host_block) \<Rightarrow>
        raise_if (\<not> (0 \<le> g \<and> g < int (num_groups t))) (IndexError ''cache transfer names unknown group'')
       (raise_if (host_block \<le> 0) (ValueError ''a cache transfer cannot name the null block 0'')
          (Inr (buckets[nat g := buckets ! nat g @ [(position, host_block)]]))))"

definition owned_group_hosts :: "owner_translation \<Rightarrow> nat \<times> (nat \<times> int) list \<Rightarrow> (nat \<times> int \<times> int) list result" where
  "owned_group_hosts t bucket =
     (case bucket of (g, rows) \<Rightarrow>
        if rows = [] then Inr []
        else
          bindE (owned_local_pages (map snd rows) (ot_shard_counts t ! g) (ot_rank t) (ot_host_virtual_counts t ! g))
            (\<lambda>(host_owned, host_local).
             let owned_positions = map fst (filter snd (zip (map fst rows) host_owned))
             in Inr (map (\<lambda>(position, l). (position, int g, l)) (zip owned_positions host_local))))"

definition owned_host_positions :: "owner_translation \<Rightarrow> (int \<times> int) list \<Rightarrow> (nat \<times> int \<times> int) list result" where
  "owned_host_positions t rows =
     bindE (foldE (host_bucket_step t) (replicate (num_groups t) []) (enumerate 0 rows)) (\<lambda>buckets.
     bindE (mapE (owned_group_hosts t) (enumerate 0 buckets)) (\<lambda>owned. Inr (sort_key fst (concat owned))))"

section \<open>The completion queue\<close>

text \<open>\<^verbatim>\<open>CompletionQueue\<close>: every operation holds the lock, so operations are atomic steps.\<close>

type_synonym ('e, 'p) completion_queue = "('e \<times> 'p) list"

definition cq_init :: "('e, 'p) completion_queue" where
  "cq_init = []"

definition cq_push :: "'e \<Rightarrow> 'p \<Rightarrow> ('e, 'p) completion_queue \<Rightarrow> ('e, 'p) completion_queue" where
  "cq_push finish_event payload pending = pending @ [(finish_event, payload)]"

fun pop_loop :: "('e \<Rightarrow> bool) \<Rightarrow> 'p list \<Rightarrow> ('e, 'p) completion_queue \<Rightarrow> ('e, 'p) completion_queue \<Rightarrow> ('e, 'p) completion_queue \<times> 'p list" where
  "pop_loop query ready still [] = (still, ready)"
| "pop_loop query ready still ((finish_event, payload) # pending) =
     (if query finish_event then pop_loop query (ready @ [payload]) still pending
      else pop_loop query ready (still @ [(finish_event, payload)]) pending)"

definition cq_pop_ready :: "('e \<Rightarrow> bool) \<Rightarrow> ('e, 'p) completion_queue \<Rightarrow> ('e, 'p) completion_queue \<times> 'p list" where
  "cq_pop_ready query pending = pop_loop query [] [] pending"

definition cq_drop_all :: "('e, 'p) completion_queue \<Rightarrow> ('e, 'p) completion_queue \<times> 'p list" where
  "cq_drop_all pending = ([], map snd pending)"

section \<open>Pinned memory\<close>

definition host_memory_share :: "int \<Rightarrow> int \<Rightarrow> int \<Rightarrow> int" where
  "host_memory_share available_bytes nprocs_per_node headroom_bytes = available_bytes div nprocs_per_node - headroom_bytes"

definition pinned_host_bytes :: "int \<Rightarrow> int" where
  "pinned_host_bytes nbytes = (if nbytes > 0 then 2 ^ bit_length (nbytes - 1) else 0)"

definition largest_pinned_fit :: "int \<Rightarrow> int" where
  "largest_pinned_fit room_bytes = (if room_bytes > 0 then 2 ^ (bit_length room_bytes - 1) else 0)"

definition check_host_memory :: "int \<Rightarrow> int \<Rightarrow> unit result" where
  "check_host_memory requested_bytes share_bytes =
     raise_if (requested_bytes > share_bytes) (ValueError ''Not enough Host memory'') (Inr ())"

section \<open>Buckets by group\<close>



definition local_row :: "owner_translation \<Rightarrow> nat \<times> transfer_row \<Rightarrow> nat \<times> transfer_row" where
  "local_row t e = (case e of (p, g, d, h) \<Rightarrow>
     (p, g, cyclic_local (ot_shard_counts t ! nat g) d, cyclic_local (ot_shard_counts t ! nat g) h))"




















text \<open>A pair of two other ranks: block 2 is rank 1's and block 3 is rank 2's, and rank 0 returns no row and no error.\<close>

lemma foreign_pair_dropped:
  "owned_positions \<lparr>ot_shard_counts = [3], ot_device_virtual_counts = [10], ot_host_virtual_counts = [10], ot_rank = 0\<rparr> [(0, 2, 3)] = Inr []"
  "cyclic_owner 3 2 = 1" "cyclic_owner 3 3 = 2"
  by code_simp+


section \<open>Copies in flight\<close>

lemma pop_loop_eq: "pop_loop query ready still pending =
   (still @ filter (\<lambda>x. \<not> query (fst x)) pending, ready @ map snd (filter (\<lambda>x. query (fst x)) pending))"
  by (induction query ready still pending rule: pop_loop.induct) auto

text \<open>Runs of the queue with its environment: completed events, what was pushed, released and dropped.\<close>

inductive cq_reach :: "('e, 'p) completion_queue \<Rightarrow> 'e set \<Rightarrow> ('e \<times> 'p) list \<Rightarrow> 'p list \<Rightarrow> 'p list \<Rightarrow> bool" where
  init: "cq_reach cq_init {} [] [] []"
| push: "cq_reach q C ps rs ds \<Longrightarrow> cq_reach (cq_push e p q) C (ps @ [(e, p)]) rs ds"
| complete: "cq_reach q C ps rs ds \<Longrightarrow> cq_reach q (insert e C) ps rs ds"
| pop: "cq_reach q C ps rs ds \<Longrightarrow> cq_pop_ready (\<lambda>e. e \<in> C) q = (q', out) \<Longrightarrow> cq_reach q' C ps (rs @ out) ds"
| drop: "cq_reach q C ps rs ds \<Longrightarrow> cq_drop_all q = (q', out) \<Longrightarrow> cq_reach q' C ps rs (ds @ out)"

definition cq_inv :: "('e, 'p) completion_queue \<Rightarrow> 'e set \<Rightarrow> ('e \<times> 'p) list \<Rightarrow> 'p list \<Rightarrow> 'p list \<Rightarrow> bool" where
  "cq_inv q C ps rs ds \<longleftrightarrow> subseq q ps \<and>
     (\<exists>R D. mset ps = R + mset q + D \<and> image_mset snd R = mset rs \<and> image_mset snd D = mset ds \<and> (\<forall>x \<in># R. fst x \<in> C))"

lemma cq_reach_inv: "cq_reach q C ps rs ds \<Longrightarrow> cq_inv q C ps rs ds"
proof (induction rule: cq_reach.induct)
  case init
  show ?case by (simp add: cq_inv_def cq_init_def)
next
  case (push q C ps rs ds e p)
  then obtain R D where "mset ps = R + mset q + D" "image_mset snd R = mset rs" "image_mset snd D = mset ds" "\<forall>x \<in># R. fst x \<in> C" and s: "subseq q ps"
    by (auto simp: cq_inv_def)
  then have "mset (ps @ [(e, p)]) = R + mset (cq_push e p q) + D" by (simp add: cq_push_def)
  moreover have "subseq (cq_push e p q) (ps @ [(e, p)])" using s by (simp add: cq_push_def)
  ultimately show ?case using push \<open>\<forall>x \<in># R. fst x \<in> C\<close> \<open>image_mset snd R = mset rs\<close> \<open>image_mset snd D = mset ds\<close> unfolding cq_inv_def by blast
next
  case (complete q C ps rs ds e)
  then show ?case unfolding cq_inv_def by blast
next
  case (pop q C ps rs ds q' out)
  then obtain R D where R: "mset ps = R + mset q + D" "image_mset snd R = mset rs" "image_mset snd D = mset ds" "\<forall>x \<in># R. fst x \<in> C" and s: "subseq q ps"
    by (auto simp: cq_inv_def)
  let ?in = "filter (\<lambda>x. fst x \<in> C) q"
  have q': "q' = filter (\<lambda>x. fst x \<notin> C) q" "out = map snd ?in" using pop(2) by (simp_all add: cq_pop_ready_def pop_loop_eq)
  have "mset q = mset ?in + mset q'" unfolding q' by (metis mset_filter multiset_partition)
  then have "mset ps = (R + mset ?in) + mset q' + D" using R(1) by simp
  moreover have "image_mset snd (R + mset ?in) = mset (rs @ out)" using R(2) q'(2) by simp
  moreover have "\<forall>x \<in># R + mset ?in. fst x \<in> C" using R(4) by auto
  moreover have "subseq q' ps" using s q'(1) by (metis subseq_filter_left subseq_order.trans)
  ultimately show ?case using R(3) unfolding cq_inv_def by blast
next
  case (drop q C ps rs ds q' out)
  then obtain R D where R: "mset ps = R + mset q + D" "image_mset snd R = mset rs" "image_mset snd D = mset ds" "\<forall>x \<in># R. fst x \<in> C"
    by (auto simp: cq_inv_def)
  have q': "q' = []" "out = map snd q" using drop(2) by (simp_all add: cq_drop_all_def)
  have "mset ps = R + mset q' + (D + mset q)" using R(1) q'(1) by simp
  moreover have "image_mset snd (D + mset q) = mset (ds @ out)" using R(3) q'(2) by simp
  ultimately show ?case using R q'(1) unfolding cq_inv_def by (intro conjI) (simp, blast)
qed

text \<open>C27: the completion queue releases every copy exactly once. In every reachable state the pushed copies are, as a
  multiset, the released, the pending and the dropped ones; a released copy's event has completed; the
  pending copies keep their push order; a poll returns exactly the pending copies whose event has completed,
  oldest first, and leaves nothing pending once all their events have.\<close>

theorem completion_queue_exact:
  assumes "cq_reach q C ps rs ds"
  shows "subseq q ps \<and>
    (\<exists>R D. mset ps = R + mset q + D \<and> image_mset snd R = mset rs \<and> image_mset snd D = mset ds \<and> (\<forall>x \<in># R. fst x \<in> C)) \<and>
    snd (cq_pop_ready (\<lambda>e. e \<in> C) q) = map snd (filter (\<lambda>x. fst x \<in> C) q) \<and>
    (set (map fst q) \<subseteq> C \<longrightarrow> fst (cq_pop_ready (\<lambda>e. e \<in> C) q) = [])"
  using cq_reach_inv [OF assms] by (auto simp: cq_inv_def cq_pop_ready_def pop_loop_eq filter_empty_conv)

theorem completion_queue_exact_witness:
  "snd (cq_pop_ready (\<lambda>e. e \<in> {2}) [(1 :: nat, ''a''), (2, ''b'')]) = [''b'']"
proof -
  have "cq_reach (cq_push 2 ''b'' (cq_push (1 :: nat) ''a'' cq_init)) (insert 2 {}) (([] @ [(1, ''a'')]) @ [(2, ''b'')]) [] []"
    by (intro cq_reach.intros)
  then show ?thesis using completion_queue_exact [of "[(1 :: nat, ''a''), (2, ''b'')]" "{2}"] by (simp add: cq_push_def cq_init_def)
qed

section \<open>Pinned sizes\<close>

lemma pinned_eq: "pinned_host_bytes n = (if n > 0 then 2 ^ bit_length_nat (nat (n - 1)) else 0)"
  by (simp add: pinned_host_bytes_def bit_length_def)

lemma fit_eq: "largest_pinned_fit n = (if n > 0 then 2 ^ (bit_length_nat (nat n) - 1) else 0)"
  by (simp add: largest_pinned_fit_def bit_length_def)

lemma pinned_bounds: "0 < n \<Longrightarrow> n \<le> pinned_host_bytes n \<and> pinned_host_bytes n < 2 * n"
proof -
  assume n: "0 < n"
  have "nat (n - 1) < 2 ^ bit_length_nat (nat (n - 1))" by (rule bits_upper)
  then have up: "n \<le> 2 ^ bit_length_nat (nat (n - 1))" using n by (simp add: nat_less_iff)
  have "2 ^ bit_length_nat (nat (n - 1)) < 2 * n"
  proof (cases "n = 1")
    case False
    then have "0 < nat (n - 1)" using n by simp
    from bits_lower [OF this] have "(2 :: int) ^ (bit_length_nat (nat (n - 1)) - 1) \<le> n - 1"
      using n by (simp add: le_nat_iff)
    moreover have "bit_length_nat (nat (n - 1)) = Suc (bit_length_nat (nat (n - 1)) - 1)" using \<open>0 < nat (n - 1)\<close> by (simp add: bit_length_nat.simps [of "nat (n - 1)"])
    ultimately show ?thesis by (metis (no_types, lifting) power_Suc mult_le_cancel_left_pos zero_less_numeral le_less_trans less_add_one mult_strict_left_mono linorder_not_le diff_add_cancel)
  qed (simp add: bit_length_nat.simps)
  then show ?thesis using n up by (simp add: pinned_eq)
qed

lemma pinned_power: "pinned_host_bytes (2 ^ j) = 2 ^ j"
proof -
  obtain m where m: "pinned_host_bytes (2 ^ j) = 2 ^ m" by (simp add: pinned_eq)
  have "(2 :: int) ^ j \<le> 2 ^ m" "(2 :: int) ^ m < 2 ^ Suc j" using pinned_bounds [of "2 ^ j"] m by simp_all
  then have "j \<le> m" "m < Suc j" by (simp_all only: power_increasing_iff power_strict_increasing_iff one_less_numeral_iff semiring_norm)
  then show ?thesis using m by simp
qed

lemma fit_lower: "0 < room \<Longrightarrow> largest_pinned_fit room \<le> room"
  using bits_lower [of "nat room"] by (simp add: fit_eq le_nat_iff)

lemma fit_upper:
  assumes "pinned_host_bytes n \<le> room" shows "n \<le> largest_pinned_fit room"
proof (cases "0 < n")
  case True
  let ?k = "bit_length_nat (nat (n - 1))"
  have k: "pinned_host_bytes n = 2 ^ ?k" using True by (simp add: pinned_eq)
  then have room: "0 < room" using assms by (metis less_le_trans zero_less_numeral zero_less_power)
  have "room < 2 ^ bit_length_nat (nat room)" using bits_upper [of "nat room"] room by (simp add: nat_less_iff)
  from le_less_trans [OF assms [unfolded k] this] have "(2 :: int) ^ ?k < 2 ^ bit_length_nat (nat room)" .
  then have "?k \<le> bit_length_nat (nat room) - 1" by simp
  then have "(2 :: int) ^ ?k \<le> largest_pinned_fit room" using room by (simp add: fit_eq)
  then show ?thesis using pinned_bounds [OF True] k by simp
next
  case False
  then show ?thesis by (simp add: fit_eq order_trans [of _ 0])
qed

text \<open>C28: the pinned-size arithmetic is exact. A pinned buffer takes at least its size and less than twice it; the
  largest buffer reported for a room fits in it; and every buffer whose pinned size fits in the room is at
  most that large. So a request of that size passes the Host memory check against the same room.\<close>

theorem pinned_fit_maximal:
  "(0 < n \<longrightarrow> n \<le> pinned_host_bytes n \<and> pinned_host_bytes n < 2 * n) \<and>
   (pinned_host_bytes n \<le> room \<longrightarrow> n \<le> largest_pinned_fit room) \<and>
   (0 \<le> room \<longrightarrow> check_host_memory (pinned_host_bytes (largest_pinned_fit room)) room = Inr ())"
proof (intro conjI impI)
  show "n \<le> pinned_host_bytes n" "pinned_host_bytes n < 2 * n" if "0 < n" using pinned_bounds [OF that] by simp_all
  show "n \<le> largest_pinned_fit room" if "pinned_host_bytes n \<le> room" by (rule fit_upper [OF that])
  assume "0 \<le> room"
  then have "pinned_host_bytes (largest_pinned_fit room) \<le> room"
    using fit_lower [of room] by (cases "room = 0") (simp_all add: fit_eq pinned_power pinned_host_bytes_def [of 0])
  then show "check_host_memory (pinned_host_bytes (largest_pinned_fit room)) room = Inr ()"
    by (simp add: check_host_memory_def raise_if_def)
qed

theorem pinned_fit_maximal_witness: "(5 :: int) \<le> largest_pinned_fit 12 \<and> pinned_host_bytes 5 < 2 * 5"
proof -
  have "pinned_host_bytes 5 \<le> 12" by code_simp
  then show ?thesis using pinned_fit_maximal [of 5 12] by simp
qed

end
