(* ===== verification/Stream_Order.thy ===== *)
theory Stream_Order
  imports TS_Prelude
begin

text \<open>
  Work on device streams, as the Host cache code submits it: the log of stream calls in
  submission order. The submitting thread is one more stream of the log: its synchronisations are
  waits, its writes to pinned tables are work. What the device promises about a log is not code of
  the repository; it is
  the predicate \<open>stream_order\<close> on the set of executed calls, with the two documented laws of
  streams and events: the calls of one stream run in submission order, and a wait runs only
  after the recording it waits for. Every \<open>record\<close> call has its own number, so an event object
  is the number of its last recording, or \<open>None\<close> before the first; waiting on such an event does
  nothing.
\<close>

section \<open>Stream calls\<close>

datatype stream = Host_thread | Write_stream | Load_stream | Caller_stream nat

datatype 'w call = Work 'w | Record nat | Wait nat

record 'w device =
  dv_log :: "(stream \<times> 'w call) list"
  dv_next_event :: nat

definition submit :: "stream \<Rightarrow> 'w call \<Rightarrow> 'w device \<Rightarrow> 'w device" where
  "submit s c d = d\<lparr>dv_log := dv_log d @ [(s, c)]\<rparr>"

definition record_event :: "stream \<Rightarrow> 'w device \<Rightarrow> 'w device \<times> nat" where
  "record_event s d =
     (d\<lparr>dv_log := dv_log d @ [(s, Record (dv_next_event d))], dv_next_event := Suc (dv_next_event d)\<rparr>, dv_next_event d)"

definition wait_event :: "stream \<Rightarrow> nat option \<Rightarrow> 'w device \<Rightarrow> 'w device" where
  "wait_event s event d = (case event of None \<Rightarrow> d | Some e \<Rightarrow> submit s (Wait e) d)"

text \<open>\<open>s.wait_stream(p)\<close> records an event on \<open>p\<close> and waits for it on \<open>s\<close>.\<close>

definition wait_stream :: "stream \<Rightarrow> stream \<Rightarrow> 'w device \<Rightarrow> 'w device" where
  "wait_stream s p d = (case record_event p d of (d', e) \<Rightarrow> submit s (Wait e) d')"

text \<open>\<open>event.synchronize()\<close>, also guarded by \<open>event.query()\<close>, and \<open>stream.synchronize()\<close>.\<close>

definition synchronize_event :: "nat option \<Rightarrow> 'w device \<Rightarrow> 'w device" where
  "synchronize_event event d = wait_event Host_thread event d"

definition synchronize_stream :: "stream \<Rightarrow> 'w device \<Rightarrow> 'w device" where
  "synchronize_stream s d = wait_stream Host_thread s d"

section \<open>What the device promises\<close>

definition stream_order :: "(stream \<times> 'w call) list \<Rightarrow> nat set \<Rightarrow> bool" where
  "stream_order calls executed \<longleftrightarrow> executed \<subseteq> {..<length calls} \<and>
     (\<forall>i \<in> executed. \<forall>j < i. fst (calls ! j) = fst (calls ! i) \<longrightarrow> j \<in> executed) \<and>
     (\<forall>i \<in> executed. \<forall>e. snd (calls ! i) = Wait e \<longrightarrow> (\<exists>j \<in> executed. snd (calls ! j) = Record e))"

definition event_done :: "(stream \<times> 'w call) list \<Rightarrow> nat set \<Rightarrow> nat \<Rightarrow> bool" where
  "event_done calls executed e \<longleftrightarrow> (\<exists>j \<in> executed. snd (calls ! j) = Record e)"

text \<open>The recordings of a log have distinct numbers, all below the next one.\<close>

definition recordings :: "(stream \<times> 'w call) list \<Rightarrow> nat list" where
  "recordings calls = concat (map (\<lambda>(_, c). case c of Record e \<Rightarrow> [e] | _ \<Rightarrow> []) calls)"

definition device_ok :: "'w device \<Rightarrow> bool" where
  "device_ok d \<longleftrightarrow> distinct (recordings (dv_log d)) \<and> (\<forall>e \<in> set (recordings (dv_log d)). e < dv_next_event d)"

text \<open>A later device: more calls, and recordings numbered from where the earlier one stopped.\<close>

definition extends :: "'w device \<Rightarrow> 'w device \<Rightarrow> bool" where
  "extends d d' \<longleftrightarrow> (\<exists>more. dv_log d' = dv_log d @ more \<and>
     (\<forall>e \<in> set (recordings more). dv_next_event d \<le> e)) \<and> dv_next_event d \<le> dv_next_event d'"

section \<open>Lemmas\<close>

lemma recordings_simps [simp]:
  "recordings [] = []" "recordings ((s, Record e) # calls) = e # recordings calls"
  "recordings ((s, Work w) # calls) = recordings calls" "recordings ((s, Wait e) # calls) = recordings calls"
  "recordings (calls @ calls') = recordings calls @ recordings calls'"
  by (simp_all add: recordings_def)

lemma recordings_set: "e \<in> set (recordings calls) \<longleftrightarrow> (\<exists>s. (s, Record e) \<in> set calls)"
proof (induction calls)
  case (Cons x calls)
  then show ?case by (cases x; cases "snd x") auto
qed simp

lemma recordings_mem: "e \<in> set (recordings calls) \<longleftrightarrow> (\<exists>j < length calls. snd (calls ! j) = Record e)"
  unfolding recordings_set by (metis in_set_conv_nth prod.collapse snd_conv)

lemma recordings_unique:
  assumes "distinct (recordings calls)" "i < length calls" "j < length calls" "snd (calls ! i) = Record e" "snd (calls ! j) = Record e"
  shows "i = j"
  using assms
proof (induction calls arbitrary: i j)
  case (Cons x calls)
  obtain s c where x: "x = (s, c)" by (cases x)
  have later: "e \<in> set (recordings calls)" if "k < length calls" "snd (calls ! k) = Record e" for k
    unfolding recordings_mem using that by blast
  show ?case
  proof (cases i; cases j)
    fix i' j' assume "i = Suc i'" "j = Suc j'"
    then show ?thesis using Cons x by (cases c) auto
  qed (use Cons.prems x later in \<open>auto split: call.splits\<close>)
qed simp

lemma device_ok_submit:
  "device_ok d \<Longrightarrow> device_ok (submit s (Work w) d)" "device_ok d \<Longrightarrow> device_ok (submit s (Wait e) d)"
  by (simp_all add: device_ok_def submit_def)

lemma device_ok_record: "device_ok d \<Longrightarrow> device_ok (fst (record_event s d))"
  by (auto simp: device_ok_def record_event_def)

lemma extends_refl [simp]: "extends d d"
  by (auto simp: extends_def)

lemma extends_trans: "extends d d' \<Longrightarrow> extends d' d'' \<Longrightarrow> extends d d''"
  unfolding extends_def by (auto dest: order_trans) (meson order_trans)

lemma extends_submit: "extends d (submit s (Work w) d)" "extends d (submit s (Wait e) d)"
  by (simp_all add: extends_def submit_def)

lemma extends_record: "extends d (fst (record_event s d))"
  by (simp add: extends_def record_event_def)

text \<open>The fence: everything a stream was given before a recording has run before anything another
  stream runs after waiting for that recording.\<close>

lemma fence_order:
  assumes order: "stream_order calls executed" and unique: "distinct (recordings calls)"
    and work: "j < r" "fst (calls ! j) = s" and rec: "r < length calls" "calls ! r = (s, Record e)"
    and wait: "w \<le> i" "calls ! w = (f, Wait e)" "fst (calls ! i) = f" and i: "i \<in> executed"
  shows "j \<in> executed"
proof -
  have w: "w \<in> executed"
    using order i wait unfolding stream_order_def by (metis fst_conv le_neq_implies_less)
  then obtain r' where r': "r' \<in> executed" "snd (calls ! r') = Record e"
    using order wait(2) unfolding stream_order_def by (metis snd_conv)
  then have "r' = r" using order rec recordings_unique [OF unique, of r' r e] unfolding stream_order_def by auto
  with r'(1) order work rec(2) show ?thesis unfolding stream_order_def by (metis fst_conv)
qed

lemma done_order:
  assumes order: "stream_order calls executed" and unique: "distinct (recordings calls)"
    and work: "j < r" "fst (calls ! j) = s" and rec: "r < length calls" "calls ! r = (s, Record e)"
    and fin: "event_done calls executed e"
  shows "j \<in> executed"
proof -
  from fin obtain r' where r': "r' \<in> executed" "snd (calls ! r') = Record e" unfolding event_done_def by blast
  then have "r' = r" using order rec recordings_unique [OF unique, of r' r e] unfolding stream_order_def by auto
  with r'(1) order work rec(2) show ?thesis unfolding stream_order_def by (metis fst_conv)
qed

text \<open>A device that ran the whole log.\<close>

lemma stream_order_complete:
  assumes "\<forall>(s, c) \<in> set calls. case c of Wait e \<Rightarrow> e \<in> set (recordings calls) | _ \<Rightarrow> True"
  shows "stream_order calls {..<length calls}"
  unfolding stream_order_def
proof (intro conjI ballI allI impI)
  fix i e assume i: "i \<in> {..<length calls}" "snd (calls ! i) = Wait e"
  then have "calls ! i \<in> set calls" by simp
  with assms i(2) have "e \<in> set (recordings calls)" by (cases "calls ! i") auto
  then show "\<exists>j \<in> {..<length calls}. snd (calls ! j) = Record e" by (auto simp: recordings_mem)
qed auto

end
