(* ===== verification/Layerwise_Load.thy ===== *)
theory Layerwise_Load
  imports Stream_Order Transfer_Owners
begin

text \<open>
  The layer fences of Host loads, \<^verbatim>\<open>cache/l2/layerwise_load.py\<close>. A load owns one of three sets of
  events; the layers of a forward wait for the events of the sets they consume, or spin on the
  ready flags of the load's workspace. A slice of a flag table is the workspace, its first flag
  and its length.
\<close>

section \<open>Work of the Host cache on device streams\<close>

datatype lane_id =
    Ordered_write_lane
  | Pinned_write_lane
  | Snapshot_write_lane
  | Restore_l2_lane
  | Restore_pool_lane

text \<open>Every lane and every load workspace has a pinned table of rows, with a copy on the Device.\<close>

datatype row_table = Lane_table lane_id | Load_table nat

text \<open>The host fills a pinned table and uploads it; a lane copies a whole batch; a load copies one slice of the
  geometry for the rows of its workspace; the export and the import of a request slot; and the ready flags of a load
  workspace.\<close>

datatype work =
    Fill_rows row_table "transfer_row list"
  | Upload_rows row_table "transfer_row list"
  | Copy_batch lane_id "transfer_row list"
  | Copy_slice nat int int "transfer_row list"
  | Export_slot int int string
  | Import_slot int int string
  | Zero_flags nat
  | Fill_flags nat
  | Spin_flag nat int
  | Caller_work nat

type_synonym flag_slice = "nat \<times> int \<times> int"

section \<open>The events of one load\<close>

record load_events =
  le_layer_done_events :: "nat option list"
  le_start_event :: "nat option"
  le_layer_ready_init_event :: "nat option"
  le_layer_ready_flags :: "flag_slice option"
  le_wait_layer_ready :: bool

definition load_events_init :: "nat \<Rightarrow> load_events" where
  "load_events_init num_layers =
     \<lparr>le_layer_done_events = replicate num_layers None, le_start_event = None, le_layer_ready_init_event = None,
      le_layer_ready_flags = None, le_wait_layer_ready = False\<rparr>"

definition wait_for_layer :: "stream \<Rightarrow> int \<Rightarrow> load_events \<Rightarrow> work device \<Rightarrow> work device \<times> unit result" where
  "wait_for_layer current layer_index ev d =
     (case le_layer_ready_flags ev of
        Some (workspace, first, width) \<Rightarrow>
          if \<not> le_wait_layer_ready ev then (d, Inl (RuntimeError ''layer-ready flags bound without a waiter''))
          else
            let d1 = wait_event current (le_layer_ready_init_event ev) d
            in if \<not> (0 \<le> layer_index \<and> layer_index < width) then (d1, Inl (IndexError ''layer_index outside''))
               else (submit current (Work (Spin_flag workspace (first + layer_index))) d1, Inr ())
      | None \<Rightarrow>
          (case list_at (le_layer_done_events ev) layer_index of
             Inl e \<Rightarrow> (d, Inl e)
           | Inr event \<Rightarrow> (wait_event current event d, Inr ())))"

definition last_layer_done_event :: "load_events \<Rightarrow> nat option result" where
  "last_layer_done_event ev =
     (if le_layer_done_events ev = [] then Inl (IndexError []) else Inr (last (le_layer_done_events ev)))"

definition set_completion :: "nat \<Rightarrow> load_events \<Rightarrow> load_events" where
  "set_completion event ev = ev\<lparr>le_layer_done_events := replicate (length (le_layer_done_events ev)) (Some event)\<rparr>"

section \<open>The tracker\<close>

definition NUM_LOAD_EVENT_SETS :: nat where
  "NUM_LOAD_EVENT_SETS = 3"

record load_tracker =
  lt_event_sets :: "load_events list"
  lt_current_load_index :: int
  lt_consumer_indices :: "int list"

definition tracker_init :: "nat \<Rightarrow> load_tracker" where
  "tracker_init num_layers =
     \<lparr>lt_event_sets = replicate NUM_LOAD_EVENT_SETS (load_events_init num_layers),
      lt_current_load_index = -1, lt_consumer_indices = []\<rparr>"

definition begin_load :: "load_tracker \<Rightarrow> work device \<Rightarrow> (load_tracker \<times> work device \<times> nat) result" where
  "begin_load tr d =
     (let next_index = nat ((lt_current_load_index tr + 1) mod int (length (lt_event_sets tr)))
      in bindE (last_layer_done_event (lt_event_sets tr ! next_index)) (\<lambda>last_layer_done.
           Inr (tr\<lparr>lt_current_load_index := int next_index\<rparr>, synchronize_event last_layer_done d, next_index)))"

definition set_consumer :: "int \<Rightarrow> load_tracker \<Rightarrow> load_tracker" where
  "set_consumer index tr = tr\<lparr>lt_consumer_indices := if index < 0 then [] else [index]\<rparr>"

definition set_consumers :: "int list \<Rightarrow> load_tracker \<Rightarrow> load_tracker" where
  "set_consumers indices tr =
     tr\<lparr>lt_consumer_indices :=
        foldl (\<lambda>deduped index. if index \<ge> 0 \<and> index \<notin> set deduped then deduped @ [index] else deduped) [] indices\<rparr>"

fun wait_consumers :: "stream \<Rightarrow> int \<Rightarrow> load_events list \<Rightarrow> int list \<Rightarrow> work device \<Rightarrow> work device \<times> unit result" where
  "wait_consumers current layer_index sets [] d = (d, Inr ())"
| "wait_consumers current layer_index sets (c # cs) d =
     (case list_at sets c of
        Inl e \<Rightarrow> (d, Inl e)
      | Inr ev \<Rightarrow>
          (case wait_for_layer current layer_index ev d of
             (d', Inl e) \<Rightarrow> (d', Inl e)
           | (d', Inr _) \<Rightarrow> wait_consumers current layer_index sets cs d'))"

definition tracker_wait :: "stream \<Rightarrow> int \<Rightarrow> load_tracker \<Rightarrow> work device \<Rightarrow> work device \<times> unit result" where
  "tracker_wait current layer_index tr d =
     wait_consumers current layer_index (lt_event_sets tr) (lt_consumer_indices tr) d"

section \<open>Lemmas\<close>

lemma extends_wait_event [simp]: "extends d (wait_event s event d)"
  by (cases event) (simp_all add: wait_event_def extends_submit)

lemma device_ok_wait_event [simp]: "device_ok d \<Longrightarrow> device_ok (wait_event s event d)"
  by (cases event) (simp_all add: wait_event_def device_ok_submit)

lemma begin_load_Inr:
  assumes "begin_load tr d = Inr (tr', d', i)" "lt_event_sets tr \<noteq> []"
  shows "i < length (lt_event_sets tr)" "tr' = tr\<lparr>lt_current_load_index := int i\<rparr>"
    "le_layer_done_events (lt_event_sets tr ! i) \<noteq> []" "d' = synchronize_event (last (le_layer_done_events (lt_event_sets tr ! i))) d"
proof -
  have "0 < int (length (lt_event_sets tr))" using assms(2) by simp
  then have "nat ((lt_current_load_index tr + 1) mod int (length (lt_event_sets tr))) < length (lt_event_sets tr)"
    by (metis nat_less_iff pos_mod_bound pos_mod_sign zless_nat_eq_int_zless of_nat_less_iff nat_int)
  then show "i < length (lt_event_sets tr)" "tr' = tr\<lparr>lt_current_load_index := int i\<rparr>"
    "le_layer_done_events (lt_event_sets tr ! i) \<noteq> []" "d' = synchronize_event (last (le_layer_done_events (lt_event_sets tr ! i))) d"
    using assms(1) by (auto simp: begin_load_def result_simps last_layer_done_event_def Let_def split: if_splits)
qed

end
