(* ===== verification/Cache_Executor.thy ===== *)
theory Cache_Executor
  imports Layerwise_Load
begin

text \<open>
  The Host cache executor, \<^verbatim>\<open>cache/l2/executor.py\<close>, over the wire operations of
  \<^verbatim>\<open>cache/transfer/ops.py\<close>: what a plan's cache operations become on the write and load streams,
  and which acknowledgements follow. A plan is collected and translated first (pure, may
  raise), then launched; launching appends to the device log. The transports, the slot-state
  exporters and the driver can raise in the middle of a launch, so each such call has an
  outcome as an argument: it launched, or it raised, before or after its work was enqueued.
  Log messages are left out. The pool's storage exists exactly when its owner translation does.
  A transport without Device tables reads the pinned rows on the submitting thread, so it adds no
  reader of them to the log.
\<close>

section \<open>Wire operations\<close>

datatype host_tier = Tier_l2 | Tier_snapshot_pool

record cache_transfer =
  ct_group_id :: int
  ct_source_page :: int
  ct_destination_page :: int
  ct_content_hash :: string
  ct_page_offset :: int

record snapshot_op =
  so_op_id :: int
  so_request_id :: string
  so_request_pool_index :: int
  so_snapshot_slot :: int
  so_transfers :: "cache_transfer list"

record restore_op = snapshot_op +
  so_source_tier :: "host_tier list"

text \<open>The batches of the scheduler's write-back and load-back operations.\<close>

record page_batch =
  pb_op_ids :: "int list"
  pb_group_ids :: "int list list"
  pb_src_pages :: "int list list"
  pb_dst_pages :: "int list list"

datatype plan_op =
    Write_back_op page_batch "bool list"
  | Load_back_op page_batch
  | Snapshot_op snapshot_op
  | Restore_op restore_op
  | Other_op

section \<open>The executor\<close>

datatype ack_kind = Ack_write_back | Ack_load_back | Ack_snapshot | Ack_restore

record ack =
  ak_kind :: ack_kind
  ak_op_ids :: "int list"

record host_executor =
  hx_block_owners :: "owner_translation option"
  hx_snapshot_block_owners :: "owner_translation option"
  hx_max_retracted_requests :: int
  hx_layer_slices :: "(int \<times> int) list"
  hx_num_field_rows :: int
  hx_load_trackers :: "(load_tracker \<times> nat) list"
  hx_device :: "work device"
  hx_metadata_done :: "lane_id \<Rightarrow> nat option"
  hx_completions :: "(nat, ack) completion_queue"
  hx_load_poisoned :: bool
  hx_ready_load_acks :: "int list"

section \<open>Collecting a plan\<close>

definition ordered_unique :: "int list \<Rightarrow> int list" where
  "ordered_unique values = first_seen values"

definition hx_owners :: "host_executor \<Rightarrow> host_tier \<Rightarrow> owner_translation result" where
  "hx_owners ex tier =
     (case tier of
        Tier_l2 \<Rightarrow>
          (case hx_block_owners ex of
             None \<Rightarrow> Inl (RuntimeError ''cache op names Host L2 blocks but this engine has no L2 tier'')
           | Some t \<Rightarrow> Inr t)
      | Tier_snapshot_pool \<Rightarrow>
          (case hx_snapshot_block_owners ex of
             None \<Rightarrow> Inl (RuntimeError ''cache op names snapshot-pool blocks but this engine has no retraction snapshot pool'')
           | Some t \<Rightarrow> Inr t))"

definition owned_rows ::
  "host_executor \<Rightarrow> int list \<Rightarrow> int list \<Rightarrow> int list \<Rightarrow> bool \<Rightarrow> host_tier \<Rightarrow> (nat \<times> transfer_row) list result" where
  "owned_rows ex groups sources destinations source_is_device tier =
     raise_if (\<not> (length groups = length sources \<and> length sources = length destinations)) (ValueError ''ragged cache operation'')
       (let rows = map (\<lambda>(g, source, destination).
              if source_is_device then (g, source, destination) else (g, destination, source))
            (zip groups (zip sources destinations))
        in bindE (hx_owners ex tier) (\<lambda>t. owned_positions t rows))"

type_synonym collected = "int list \<times> transfer_row list"

definition append_op ::
  "host_executor \<Rightarrow> bool \<Rightarrow> host_tier \<Rightarrow> collected \<Rightarrow> int \<times> int list \<times> int list \<times> int list \<Rightarrow> collected result" where
  "append_op ex source_is_device tier acc entry =
     (case entry of (op_id, groups, sources, destinations) \<Rightarrow>
        raise_if (groups = []) (ValueError ''cache operation carries no transfers'')
       (bindE (owned_rows ex groups sources destinations source_is_device tier) (\<lambda>kept.
          Inr (fst acc @ [op_id], snd acc @ map snd kept))))"

definition append_transfers :: "host_executor \<Rightarrow> page_batch \<Rightarrow> bool \<Rightarrow> host_tier \<Rightarrow> collected \<Rightarrow> collected result" where
  "append_transfers ex batch source_is_device tier acc =
     raise_if (\<not> (length (pb_op_ids batch) = length (pb_group_ids batch) \<and>
                  length (pb_group_ids batch) = length (pb_src_pages batch) \<and>
                  length (pb_src_pages batch) = length (pb_dst_pages batch)))
       (ValueError ''ragged cache operation batch'')
       (foldE (append_op ex source_is_device tier) acc
         (zip (pb_op_ids batch) (zip (pb_group_ids batch) (zip (pb_src_pages batch) (pb_dst_pages batch)))))"

definition batch_slice :: "nat \<Rightarrow> page_batch \<Rightarrow> page_batch" where
  "batch_slice index b =
     \<lparr>pb_op_ids = take 1 (drop index (pb_op_ids b)), pb_group_ids = take 1 (drop index (pb_group_ids b)),
      pb_src_pages = take 1 (drop index (pb_src_pages b)), pb_dst_pages = take 1 (drop index (pb_dst_pages b))\<rparr>"

text \<open>The accumulators are the ordered and the pinned rows.\<close>

definition append_write_back ::
  "host_executor \<Rightarrow> page_batch \<Rightarrow> collected \<times> collected \<Rightarrow> nat \<times> bool \<Rightarrow> (collected \<times> collected) result" where
  "append_write_back ex b acc entry =
     (case entry of (index, pinned) \<Rightarrow>
        if pinned then bindE (append_transfers ex (batch_slice index b) True Tier_l2 (snd acc)) (\<lambda>c. Inr (fst acc, c))
        else bindE (append_transfers ex (batch_slice index b) True Tier_l2 (fst acc)) (\<lambda>c. Inr (c, snd acc)))"

definition append_write_backs ::
  "host_executor \<Rightarrow> page_batch \<Rightarrow> bool list \<Rightarrow> collected \<times> collected \<Rightarrow> (collected \<times> collected) result" where
  "append_write_backs ex b source_pinned acc =
     raise_if (length source_pinned \<noteq> length (pb_op_ids b)) (ValueError ''ragged cache operation batch'')
       (foldE (append_write_back ex b) acc (enumerate 0 source_pinned))"

definition check_snapshot_op :: "host_executor \<Rightarrow> 'a snapshot_op_scheme \<Rightarrow> unit result" where
  "check_snapshot_op ex op =
     raise_if (hx_snapshot_block_owners ex = None) (RuntimeError ''needs the retraction snapshot pool'')
    (raise_if (\<not> (1 \<le> so_snapshot_slot op \<and> so_snapshot_slot op \<le> hx_max_retracted_requests ex))
       (IndexError ''snapshot slot outside'') (Inr ()))"

definition transfers_batch :: "int \<Rightarrow> cache_transfer list \<Rightarrow> page_batch" where
  "transfers_batch op_id ts =
     \<lparr>pb_op_ids = [op_id], pb_group_ids = [map ct_group_id ts], pb_src_pages = [map ct_source_page ts],
      pb_dst_pages = [map ct_destination_page ts]\<rparr>"

definition append_snapshot_store :: "host_executor \<Rightarrow> snapshot_op \<Rightarrow> transfer_row list \<Rightarrow> transfer_row list result" where
  "append_snapshot_store ex op transfers =
     bindE (check_snapshot_op ex op) (\<lambda>_.
       if so_transfers op = [] then Inr transfers
       else bindE (append_transfers ex (transfers_batch (so_op_id op) (so_transfers op)) True Tier_snapshot_pool ([], transfers))
              (\<lambda>c. Inr (snd c)))"

definition append_restore_tier ::
  "host_executor \<Rightarrow> restore_op \<Rightarrow> host_tier \<Rightarrow> transfer_row list \<Rightarrow> transfer_row list result" where
  "append_restore_tier ex op tier transfers =
     (let rows = map fst (filter (\<lambda>(_, source_tier). source_tier = tier) (zip (so_transfers op) (so_source_tier op)))
      in if rows = [] then Inr transfers
         else bindE (append_transfers ex (transfers_batch (so_op_id op) rows) False tier ([], transfers)) (\<lambda>c. Inr (snd c)))"

text \<open>The rows by tier are the pair of the L2 rows and the pool rows.\<close>

definition append_restore ::
  "host_executor \<Rightarrow> restore_op \<Rightarrow> transfer_row list \<times> transfer_row list \<Rightarrow> (transfer_row list \<times> transfer_row list) result" where
  "append_restore ex op rows_by_tier =
     bindE (check_snapshot_op ex op) (\<lambda>_.
     raise_if (length (so_source_tier op) \<noteq> length (so_transfers op)) (ValueError ''ragged cache operation'')
    (bindE (append_restore_tier ex op Tier_l2 (fst rows_by_tier)) (\<lambda>l2_rows.
     bindE (append_restore_tier ex op Tier_snapshot_pool (snd rows_by_tier)) (\<lambda>pool_rows. Inr (l2_rows, pool_rows)))))"

definition check_distinct :: "'a snapshot_op_scheme list \<Rightarrow> unit result" where
  "check_distinct ops =
     raise_if (\<not> distinct (map so_op_id ops)) (ValueError ''duplicate snapshot op id in one plan'')
    (raise_if (\<not> distinct (map so_snapshot_slot ops)) (ValueError ''duplicate snapshot slot in one plan'') (Inr ()))"

record write_plan =
  wp_ordered :: collected
  wp_pinned :: collected
  wp_snapshot_ops :: "snapshot_op list"
  wp_snapshot_transfers :: "transfer_row list"

definition collect_write :: "host_executor \<Rightarrow> write_plan \<Rightarrow> plan_op \<Rightarrow> write_plan result" where
  "collect_write ex wp op =
     (case op of
        Write_back_op b pins \<Rightarrow>
          bindE (append_write_backs ex b pins (wp_ordered wp, wp_pinned wp)) (\<lambda>(ordered, pinned).
            Inr (wp\<lparr>wp_ordered := ordered, wp_pinned := pinned\<rparr>))
      | Snapshot_op s \<Rightarrow>
          bindE (append_snapshot_store ex s (wp_snapshot_transfers wp)) (\<lambda>transfers.
            Inr (wp\<lparr>wp_snapshot_ops := wp_snapshot_ops wp @ [s], wp_snapshot_transfers := transfers\<rparr>))
      | _ \<Rightarrow> Inr wp)"

definition collect_writes :: "host_executor \<Rightarrow> plan_op list \<Rightarrow> write_plan result" where
  "collect_writes ex cache_ops =
     bindE (foldE (collect_write ex)
       \<lparr>wp_ordered = ([], []), wp_pinned = ([], []), wp_snapshot_ops = [], wp_snapshot_transfers = []\<rparr> cache_ops) (\<lambda>wp.
     bindE (check_distinct (wp_snapshot_ops wp)) (\<lambda>_. Inr wp))"

record load_plan =
  lp_loads :: collected
  lp_restore_ops :: "restore_op list"
  lp_restore_rows :: "transfer_row list \<times> transfer_row list"

definition collect_load :: "host_executor \<Rightarrow> load_plan \<Rightarrow> plan_op \<Rightarrow> load_plan result" where
  "collect_load ex lp op =
     (case op of
        Load_back_op b \<Rightarrow> bindE (append_transfers ex b False Tier_l2 (lp_loads lp)) (\<lambda>c. Inr (lp\<lparr>lp_loads := c\<rparr>))
      | Restore_op r \<Rightarrow>
          bindE (append_restore ex r (lp_restore_rows lp)) (\<lambda>rows.
            Inr (lp\<lparr>lp_restore_ops := lp_restore_ops lp @ [r], lp_restore_rows := rows\<rparr>))
      | _ \<Rightarrow> Inr lp)"

definition collect_loads :: "host_executor \<Rightarrow> plan_op list \<Rightarrow> load_plan result" where
  "collect_loads ex cache_ops =
     bindE (foldE (collect_load ex) \<lparr>lp_loads = ([], []), lp_restore_ops = [], lp_restore_rows = ([], [])\<rparr> cache_ops) (\<lambda>lp.
     bindE (check_distinct (lp_restore_ops lp)) (\<lambda>_. Inr lp))"

section \<open>Launching stores\<close>

text \<open>How a call into a transport or an exporter ended: \<open>Raised True\<close> raised after its work was enqueued.\<close>

datatype launch = Launched | Raised bool py_error

fun launch_work :: "launch \<Rightarrow> stream \<Rightarrow> work \<Rightarrow> work device \<Rightarrow> work device \<times> unit result" where
  "launch_work Launched s w d = (submit s (Work w) d, Inr ())"
| "launch_work (Raised enqueued e) s w d = (if enqueued then submit s (Work w) d else d, Inl e)"

text \<open>How a lane's submission went: filling the pinned table (with choosing the transport behind it), whether the
  transport reads Device tables, uploading them, and the copy.\<close>

record lane_outcomes =
  la_fill :: launch
  la_device_tables :: bool
  la_upload :: launch
  la_copy :: launch

text \<open>\<open>HostTransferLane._stage\<close>: the upload's event is recorded also when the upload raises.\<close>

definition stage_rows ::
  "lane_outcomes \<Rightarrow> lane_id \<Rightarrow> transfer_row list \<Rightarrow> stream \<Rightarrow> host_executor \<Rightarrow> host_executor \<times> unit result" where
  "stage_rows la lane transfers s ex =
     (case launch_work (la_fill la) Host_thread (Fill_rows (Lane_table lane) transfers)
             (synchronize_event (hx_metadata_done ex lane) (hx_device ex)) of
        (d1, Inl e) \<Rightarrow> (ex\<lparr>hx_device := d1\<rparr>, Inl e)
      | (d1, Inr _) \<Rightarrow>
          if \<not> la_device_tables la then (ex\<lparr>hx_device := d1\<rparr>, Inr ())
          else case launch_work (la_upload la) s (Upload_rows (Lane_table lane) transfers) d1 of (d2, r) \<Rightarrow>
            (case record_event s d2 of (d3, metadata_done) \<Rightarrow>
               (ex\<lparr>hx_device := d3, hx_metadata_done := (hx_metadata_done ex)(lane := Some metadata_done)\<rparr>, r)))"

text \<open>\<open>HostTransferLane._start\<close>: behind the prerequisite stream, the batch, and its completion event. Staging and the
  submission may raise; recording an event and waiting for it do not.\<close>

definition start_lane ::
  "lane_outcomes \<Rightarrow> lane_id \<Rightarrow> transfer_row list \<Rightarrow> stream \<Rightarrow> stream option \<Rightarrow> host_executor \<Rightarrow> host_executor \<times> nat result" where
  "start_lane la lane transfers s prerequisite ex =
     (let ex1 = (case prerequisite of None \<Rightarrow> ex | Some p \<Rightarrow> ex\<lparr>hx_device := wait_stream s p (hx_device ex)\<rparr>)
      in case (if transfers = [] then (ex1, Inr ())
               else case stage_rows la lane transfers s ex1 of
                   (ex2, Inl e) \<Rightarrow> (ex2, Inl e)
                 | (ex2, Inr _) \<Rightarrow>
                     (case launch_work (la_copy la) s (Copy_batch lane transfers) (hx_device ex2) of
                        (d, r) \<Rightarrow> (ex2\<lparr>hx_device := d\<rparr>, r))) of
           (ex3, Inl e) \<Rightarrow> (ex3, Inl e)
         | (ex3, Inr _) \<Rightarrow> (case record_event s (hx_device ex3) of (d, finish) \<Rightarrow> (ex3\<lparr>hx_device := d\<rparr>, Inr finish)))"

definition push_ack :: "nat \<Rightarrow> ack_kind \<Rightarrow> int list \<Rightarrow> host_executor \<Rightarrow> host_executor" where
  "push_ack finish kind op_ids ex =
     ex\<lparr>hx_completions := cq_push finish \<lparr>ak_kind = kind, ak_op_ids = op_ids\<rparr> (hx_completions ex)\<rparr>"

definition start_writing ::
  "lane_outcomes \<Rightarrow> lane_id \<Rightarrow> collected \<Rightarrow> stream \<Rightarrow> host_executor \<Rightarrow> host_executor \<times> nat option result" where
  "start_writing la lane batch prerequisite_stream ex =
     (case batch of (op_ids, transfers) \<Rightarrow>
        if op_ids = [] then (ex, Inr None)
        else case start_lane la lane transfers Write_stream (Some prerequisite_stream) ex of
            (ex1, Inl e) \<Rightarrow> (ex1, Inl e)
          | (ex1, Inr finish) \<Rightarrow> (push_ack finish Ack_write_back (ordered_unique op_ids) ex1, Inr (Some finish)))"

fun export_slots :: "(int \<Rightarrow> launch) \<Rightarrow> snapshot_op list \<Rightarrow> work device \<Rightarrow> work device \<times> unit result" where
  "export_slots outcome [] d = (d, Inr ())"
| "export_slots outcome (op # ops) d =
     (case launch_work (outcome (so_op_id op)) Write_stream
             (Export_slot (so_request_pool_index op) (so_snapshot_slot op) (so_request_id op)) d of
        (d', Inl e) \<Rightarrow> (d', Inl e)
      | (d', Inr _) \<Rightarrow> export_slots outcome ops d')"

definition start_snapshot_store ::
  "lane_outcomes \<Rightarrow> (int \<Rightarrow> launch) \<Rightarrow> snapshot_op list \<Rightarrow> transfer_row list \<Rightarrow> stream \<Rightarrow> host_executor
    \<Rightarrow> host_executor \<times> nat option result" where
  "start_snapshot_store la exports ops transfers prerequisite_stream ex =
     (let ex1 = ex\<lparr>hx_device := wait_stream Write_stream prerequisite_stream (hx_device ex)\<rparr>
      in case (if transfers = [] then (ex1, Inr 0)
               else start_lane la Snapshot_write_lane transfers Write_stream None ex1) of
           (ex2, Inl e) \<Rightarrow> (ex2, Inl e)
         | (ex2, Inr _) \<Rightarrow>
             (case export_slots exports ops (hx_device ex2) of
                (d3, Inl e) \<Rightarrow> (ex2\<lparr>hx_device := d3\<rparr>, Inl e)
              | (d3, Inr _) \<Rightarrow>
                  (case record_event Write_stream d3 of (d4, finish) \<Rightarrow>
                     (push_ack finish Ack_snapshot (map so_op_id ops) (ex2\<lparr>hx_device := d4\<rparr>), Inr (Some finish)))))"

record write_outcomes =
  wo_ordered :: lane_outcomes
  wo_snapshot :: lane_outcomes
  wo_exports :: "int \<Rightarrow> launch"
  wo_pinned :: lane_outcomes

text \<open>The stream-ordered legs: the unpinned write-backs and the snapshot store.\<close>

definition start_ordered_legs ::
  "write_outcomes \<Rightarrow> write_plan \<Rightarrow> stream \<Rightarrow> host_executor \<Rightarrow> host_executor \<times> nat option result" where
  "start_ordered_legs wo wp prerequisite_stream ex =
     (case start_writing (wo_ordered wo) Ordered_write_lane (wp_ordered wp) prerequisite_stream ex of
        (ex1, Inl e) \<Rightarrow> (ex1, Inl e)
      | (ex1, Inr fence) \<Rightarrow>
          if wp_snapshot_ops wp = [] then (ex1, Inr fence)
          else start_snapshot_store (wo_snapshot wo) (wo_exports wo) (wp_snapshot_ops wp) (wp_snapshot_transfers wp)
                 prerequisite_stream ex1)"

definition fence_tail :: "stream \<Rightarrow> host_executor \<Rightarrow> host_executor" where
  "fence_tail fence_stream ex =
     (case record_event Write_stream (hx_device ex) of (d, tail) \<Rightarrow> ex\<lparr>hx_device := wait_event fence_stream (Some tail) d\<rparr>)"

definition submit_write_backs ::
  "write_outcomes \<Rightarrow> plan_op list \<Rightarrow> stream \<Rightarrow> stream \<Rightarrow> host_executor \<Rightarrow> host_executor \<times> unit result" where
  "submit_write_backs wo cache_ops prerequisite_stream fence_stream ex =
     (case collect_writes ex cache_ops of
        Inl e \<Rightarrow> (ex, Inl e)
      | Inr wp \<Rightarrow>
          (case start_ordered_legs wo wp prerequisite_stream ex of
             (ex1, Inl e) \<Rightarrow> (fence_tail fence_stream ex1, Inl e)
           | (ex1, Inr fence) \<Rightarrow>
               (case start_writing (wo_pinned wo) Pinned_write_lane (wp_pinned wp) prerequisite_stream
                       (ex1\<lparr>hx_device := wait_event fence_stream fence (hx_device ex1)\<rparr>) of
                  (ex2, Inl e) \<Rightarrow> (ex2, Inl e)
                | (ex2, Inr _) \<Rightarrow> (ex2, Inr ()))))"

section \<open>Launching loads\<close>

text \<open>How a failed load was retired: an event was published; or that raised, after the flags were filled or
  before, and the load stream was synchronised or that raised, too.\<close>

datatype retirement = Retired | Retirement_raised bool bool

fun flags_filled :: "retirement \<Rightarrow> bool" where
  "flags_filled Retired = True"
| "flags_filled (Retirement_raised filled _) = filled"

text \<open>What the surroundings of a load decide: whether a graph is being captured, how filling and uploading the rows
  went, whether the transport reads Device tables and signals layers, how resetting the flags and each transfer ended,
  and how a failed load was retired.\<close>

record load_outcomes =
  lo_capture_mode :: bool
  lo_fill :: launch
  lo_device_tables :: bool
  lo_upload :: launch
  lo_layer_ready :: bool
  lo_flags :: launch
  lo_copy :: "nat \<Rightarrow> launch"
  lo_retirement :: retirement
  lo_restore_l2 :: lane_outcomes
  lo_restore_pool :: lane_outcomes
  lo_imports :: "int \<Rightarrow> launch"

text \<open>An active tracker is its position, the event set it took and its number of consumers.\<close>

type_synonym active = "nat \<times> nat \<times> nat"

definition map_events :: "nat \<Rightarrow> nat \<Rightarrow> (load_events \<Rightarrow> load_events) \<Rightarrow> host_executor \<Rightarrow> host_executor" where
  "map_events p i f ex =
     (case hx_load_trackers ex ! p of (tr, n) \<Rightarrow>
        ex\<lparr>hx_load_trackers := (hx_load_trackers ex)[p :=
             (tr\<lparr>lt_event_sets := (lt_event_sets tr)[i := f (lt_event_sets tr ! i)]\<rparr>, n)]\<rparr>)"

record arming =
  am_exec :: host_executor
  am_active :: "active list"
  am_load_index :: "nat option"

definition arm_tracker :: "stream \<Rightarrow> nat \<Rightarrow> arming \<Rightarrow> arming \<times> unit result" where
  "arm_tracker prerequisite_stream p a =
     (case hx_load_trackers (am_exec a) ! p of (tr, consumer_count) \<Rightarrow>
        (case begin_load tr (hx_device (am_exec a)) of
           Inl e \<Rightarrow> (a, Inl e)
         | Inr (tr', d0, i) \<Rightarrow>
             let a1 = a\<lparr>am_exec := (am_exec a)\<lparr>hx_load_trackers := (hx_load_trackers (am_exec a))[p := (tr', consumer_count)], hx_device := d0\<rparr>,
                        am_active := am_active a @ [(p, i, consumer_count)]\<rparr>
             in if am_load_index a \<noteq> None \<and> am_load_index a \<noteq> Some i
                then (a1, Inl (RuntimeError ''target and draft Host-load trackers diverged''))
                else
                  case record_event prerequisite_stream (hx_device (am_exec a1)) of (d, start) \<Rightarrow>
                    (a1\<lparr>am_load_index := Some i,
                        am_exec := map_events p i (\<lambda>ev. ev\<lparr>le_start_event := Some start\<rparr>)
                          ((am_exec a1)\<lparr>hx_device := wait_event Load_stream (Some start) d\<rparr>)\<rparr>, Inr ())))"

fun arm_trackers :: "stream \<Rightarrow> nat list \<Rightarrow> arming \<Rightarrow> arming \<times> unit result" where
  "arm_trackers prerequisite_stream [] a = (a, Inr ())"
| "arm_trackers prerequisite_stream (p # ps) a =
     (case arm_tracker prerequisite_stream p a of
        (a', Inl e) \<Rightarrow> (a', Inl e)
      | (a', Inr _) \<Rightarrow> arm_trackers prerequisite_stream ps a')"

definition map_active :: "(load_events \<Rightarrow> load_events) \<Rightarrow> active list \<Rightarrow> host_executor \<Rightarrow> host_executor" where
  "map_active f actives ex = fold (\<lambda>(p, i, _). map_events p i f) actives ex"

text \<open>Filling the workspace: the pinned rows, their upload, and the reset of the ready flags.\<close>

definition prepare_workspace :: "load_outcomes \<Rightarrow> nat \<Rightarrow> transfer_row list \<Rightarrow> host_executor \<Rightarrow> host_executor \<times> unit result" where
  "prepare_workspace lo workspace transfers ex =
     (case launch_work (lo_fill lo) Host_thread (Fill_rows (Load_table workspace) transfers) (hx_device ex) of
        (d1, Inl e) \<Rightarrow> (ex\<lparr>hx_device := d1\<rparr>, Inl e)
      | (d1, Inr _) \<Rightarrow>
          (case (if lo_device_tables lo then launch_work (lo_upload lo) Load_stream (Upload_rows (Load_table workspace) transfers) d1
                 else (d1, Inr ())) of
             (d2, Inl e) \<Rightarrow> (ex\<lparr>hx_device := d2\<rparr>, Inl e)
           | (d2, Inr _) \<Rightarrow>
               (case (if lo_layer_ready lo then launch_work (lo_flags lo) Load_stream (Zero_flags workspace) d2 else (d2, Inr ())) of
                  (d3, r) \<Rightarrow> (ex\<lparr>hx_device := d3\<rparr>, r))))"

text \<open>The flags path: announce the reset, bind each tracker's slice, one launch for all layers.\<close>

fun bind_flags :: "nat \<Rightarrow> int \<Rightarrow> active list \<Rightarrow> host_executor \<Rightarrow> host_executor" where
  "bind_flags workspace flag_offset [] ex = ex"
| "bind_flags workspace flag_offset ((p, i, consumer_count) # actives) ex =
     bind_flags workspace (flag_offset + int consumer_count) actives
       (map_events p i (\<lambda>ev. ev\<lparr>le_layer_ready_flags := Some (workspace, flag_offset, int consumer_count),
                              le_wait_layer_ready := True\<rparr>) ex)"

fun announce_flags :: "active list \<Rightarrow> host_executor \<Rightarrow> host_executor" where
  "announce_flags [] ex = ex"
| "announce_flags ((p, i, _) # actives) ex =
     (case record_event Load_stream (hx_device ex) of (d, e) \<Rightarrow>
        announce_flags actives (map_events p i (\<lambda>ev. ev\<lparr>le_layer_ready_init_event := Some e\<rparr>) (ex\<lparr>hx_device := d\<rparr>)))"

definition load_with_flags ::
  "load_outcomes \<Rightarrow> nat \<Rightarrow> transfer_row list \<Rightarrow> active list \<Rightarrow> host_executor \<Rightarrow> host_executor \<times> nat option result" where
  "load_with_flags lo workspace transfers actives ex =
     (let ex2 = bind_flags workspace 0 actives (announce_flags actives ex)
      in case launch_work (lo_copy lo 0) Load_stream (Copy_slice workspace 0 (hx_num_field_rows ex) transfers) (hx_device ex2) of
           (d, Inl e) \<Rightarrow> (ex2\<lparr>hx_device := d\<rparr>, Inl e)
         | (d, Inr _) \<Rightarrow>
             (case record_event Load_stream d of (d', finish) \<Rightarrow>
                (map_active (set_completion finish) actives (ex2\<lparr>hx_device := d'\<rparr>), Inr (Some finish))))"

text \<open>The event path: one launch and one event per layer.\<close>

definition layer_steps :: "active list \<Rightarrow> active list" where
  "layer_steps actives = concat (map (\<lambda>(p, i, n). map (\<lambda>layer. (p, i, layer)) [0..<n]) actives)"

fun load_layers ::
  "load_outcomes \<Rightarrow> nat \<Rightarrow> transfer_row list \<Rightarrow> nat \<Rightarrow> active list \<Rightarrow> nat option \<Rightarrow> host_executor
    \<Rightarrow> host_executor \<times> nat option result" where
  "load_layers lo workspace transfers flat_layer_index [] finish ex = (ex, Inr finish)"
| "load_layers lo workspace transfers flat_layer_index ((p, i, layer) # steps) finish ex =
     (case list_at (hx_layer_slices ex) (int flat_layer_index) of
        Inl e \<Rightarrow> (ex, Inl e)
      | Inr (geometry_offset, num_geometry_rows) \<Rightarrow>
          (case launch_work (lo_copy lo flat_layer_index) Load_stream
                  (Copy_slice workspace geometry_offset num_geometry_rows transfers) (hx_device ex) of
             (d, Inl e) \<Rightarrow> (ex\<lparr>hx_device := d\<rparr>, Inl e)
           | (d, Inr _) \<Rightarrow>
               (case record_event Load_stream d of (d', e) \<Rightarrow>
                  if layer \<ge> length (le_layer_done_events (lt_event_sets (fst (hx_load_trackers ex ! p)) ! i))
                  then (ex\<lparr>hx_device := d'\<rparr>, Inl (IndexError []))
                  else load_layers lo workspace transfers (Suc flat_layer_index) steps (Some e)
                         (map_events p i (\<lambda>ev. ev\<lparr>le_layer_done_events := (le_layer_done_events ev)[layer := Some e]\<rparr>)
                            (ex\<lparr>hx_device := d'\<rparr>)))))"

definition load_by_layer ::
  "load_outcomes \<Rightarrow> nat \<Rightarrow> transfer_row list \<Rightarrow> active list \<Rightarrow> host_executor \<Rightarrow> host_executor \<times> nat option result" where
  "load_by_layer lo workspace transfers actives ex =
     load_layers lo workspace transfers 0 (layer_steps actives) None
       (map_active (\<lambda>ev. ev\<lparr>le_layer_ready_flags := None, le_wait_layer_ready := False\<rparr>) actives ex)"

definition retire_failed_load :: "load_outcomes \<Rightarrow> active list \<Rightarrow> nat option \<Rightarrow> host_executor \<Rightarrow> host_executor" where
  "retire_failed_load lo actives flags ex =
     (if actives = [] then ex
      else
        let ex1 = (case flags of
                     Some workspace \<Rightarrow>
                       if flags_filled (lo_retirement lo)
                       then ex\<lparr>hx_device := submit Load_stream (Work (Fill_flags workspace)) (hx_device ex)\<rparr> else ex
                   | None \<Rightarrow> ex)
        in case lo_retirement lo of
             Retired \<Rightarrow>
               (case record_event Load_stream (hx_device ex1) of (d, e) \<Rightarrow>
                  map_active (set_completion e) actives (ex1\<lparr>hx_device := d\<rparr>))
           | Retirement_raised _ synchronized \<Rightarrow>
               if synchronized then ex1\<lparr>hx_device := synchronize_stream Load_stream (hx_device ex1)\<rparr>
               else ex1\<lparr>hx_load_poisoned := True\<rparr>)"

definition failed_load ::
  "load_outcomes \<Rightarrow> arming \<Rightarrow> nat option \<Rightarrow> host_executor \<Rightarrow> py_error \<Rightarrow> host_executor \<times> nat option result" where
  "failed_load lo a flags ex e = (retire_failed_load lo (am_active a) flags ex, Inl e)"

definition launch_load :: "load_outcomes \<Rightarrow> collected \<Rightarrow> arming \<Rightarrow> nat \<Rightarrow> host_executor \<times> nat option result" where
  "launch_load lo batch a workspace =
     (case prepare_workspace lo workspace (snd batch) (am_exec a) of
        (ex, Inl e) \<Rightarrow> failed_load lo a None ex e
      | (ex, Inr _) \<Rightarrow>
          (case (if lo_layer_ready lo then load_with_flags else load_by_layer) lo workspace (snd batch) (am_active a) ex of
             (ex1, Inl e) \<Rightarrow> failed_load lo a (if lo_layer_ready lo then Some workspace else None) ex1 e
           | (ex1, Inr None) \<Rightarrow> failed_load lo a None ex1 (RuntimeError ''cache transfer layout has no layer consumers'')
           | (ex1, Inr (Some finish)) \<Rightarrow>
               (push_ack finish Ack_load_back (ordered_unique (fst batch)) ex1, Inr (Some workspace))))"

definition start_loading :: "load_outcomes \<Rightarrow> collected \<Rightarrow> stream \<Rightarrow> host_executor \<Rightarrow> host_executor \<times> nat option result" where
  "start_loading lo batch prerequisite_stream ex =
     (if hx_load_poisoned ex
      then (ex, Inl (RuntimeError ''L2 cache executor is poisoned after failed Host-load retirement''))
      else if fst batch = [] then (ex, Inr None)
      else if lo_capture_mode lo then (ex, Inl (RuntimeError ''Host cache load must run outside CUDA Graph capture''))
      else if snd batch = []
      then (ex\<lparr>hx_ready_load_acks := hx_ready_load_acks ex @ ordered_unique (fst batch)\<rparr>, Inr None)
      else
        case arm_trackers prerequisite_stream [0..<length (hx_load_trackers ex)]
               \<lparr>am_exec = ex, am_active = [], am_load_index = None\<rparr> of
          (a, Inl e) \<Rightarrow> failed_load lo a None (am_exec a) e
        | (a, Inr _) \<Rightarrow>
            (case am_load_index a of
               None \<Rightarrow> failed_load lo a None (am_exec a) (RuntimeError ''cache transfer layout has no layer consumers'')
             | Some workspace \<Rightarrow> launch_load lo batch a workspace))"

fun import_slots :: "(int \<Rightarrow> launch) \<Rightarrow> restore_op list \<Rightarrow> work device \<Rightarrow> work device \<times> unit result" where
  "import_slots outcome [] d = (d, Inr ())"
| "import_slots outcome (op # ops) d =
     (case launch_work (outcome (so_op_id op)) Load_stream
             (Import_slot (so_request_pool_index op) (so_snapshot_slot op) (so_request_id op)) d of
        (d', Inl e) \<Rightarrow> (d', Inl e)
      | (d', Inr _) \<Rightarrow> import_slots outcome ops d')"

definition start_restore ::
  "load_outcomes \<Rightarrow> restore_op list \<Rightarrow> transfer_row list \<times> transfer_row list \<Rightarrow> stream \<Rightarrow> host_executor
    \<Rightarrow> host_executor \<times> unit result" where
  "start_restore lo ops rows_by_tier prerequisite_stream ex =
     (if lo_capture_mode lo then (ex, Inl (RuntimeError ''a snapshot restore must run outside graph capture''))
      else
        let ex1 = ex\<lparr>hx_device := wait_stream Load_stream prerequisite_stream (hx_device ex)\<rparr>
        in case (if fst rows_by_tier = [] then (ex1, Inr 0)
                 else start_lane (lo_restore_l2 lo) Restore_l2_lane (fst rows_by_tier) Load_stream None ex1) of
             (ex2, Inl e) \<Rightarrow> (ex2, Inl e)
           | (ex2, Inr _) \<Rightarrow>
               (case (if snd rows_by_tier = [] then (ex2, Inr 0)
                      else start_lane (lo_restore_pool lo) Restore_pool_lane (snd rows_by_tier) Load_stream None ex2) of
                  (ex3, Inl e) \<Rightarrow> (ex3, Inl e)
                | (ex3, Inr _) \<Rightarrow>
                    (case import_slots (lo_imports lo) ops (hx_device ex3) of
                       (d4, Inl e) \<Rightarrow> (ex3\<lparr>hx_device := d4\<rparr>, Inl e)
                     | (d4, Inr _) \<Rightarrow>
                         (case record_event Load_stream d4 of (d5, finish) \<Rightarrow>
                            (push_ack finish Ack_restore (map so_op_id ops) (ex3\<lparr>hx_device := d5\<rparr>), Inr ())))))"

definition set_load_consumers :: "nat option \<Rightarrow> host_executor \<Rightarrow> host_executor" where
  "set_load_consumers load_index ex =
     ex\<lparr>hx_load_trackers := map (\<lambda>(tr, n).
          (set_consumer (case load_index of None \<Rightarrow> -1 | Some i \<Rightarrow> int i) tr, n)) (hx_load_trackers ex)\<rparr>"

definition submit_load_backs :: "load_outcomes \<Rightarrow> plan_op list \<Rightarrow> stream \<Rightarrow> host_executor \<Rightarrow> host_executor \<times> unit result" where
  "submit_load_backs lo cache_ops prerequisite_stream ex =
     (case collect_loads ex cache_ops of
        Inl e \<Rightarrow> (ex, Inl e)
      | Inr lp \<Rightarrow>
          (case start_loading lo (lp_loads lp) prerequisite_stream ex of
             (ex1, Inl e) \<Rightarrow> (ex1, Inl e)
           | (ex1, Inr load_index) \<Rightarrow>
               let ex2 = set_load_consumers load_index ex1
               in if lp_restore_ops lp = [] then (ex2, Inr ())
                  else start_restore lo (lp_restore_ops lp) (lp_restore_rows lp) prerequisite_stream ex2))"

section \<open>Acknowledgements\<close>

datatype done_event = Write_back_done int | Load_back_done int | Snapshot_done int | Restore_done int

definition ack_results :: "ack \<Rightarrow> done_event list" where
  "ack_results a =
     (case ak_kind a of
        Ack_write_back \<Rightarrow> map Write_back_done (ak_op_ids a)
      | Ack_load_back \<Rightarrow> map Load_back_done (ak_op_ids a)
      | Ack_snapshot \<Rightarrow> map Snapshot_done (ak_op_ids a)
      | Ack_restore \<Rightarrow> map Restore_done (ak_op_ids a))"

definition poll_results :: "(nat \<Rightarrow> bool) \<Rightarrow> host_executor \<Rightarrow> host_executor \<times> done_event list" where
  "poll_results query ex =
     (case cq_pop_ready query (hx_completions ex) of (still, ready) \<Rightarrow>
        (ex\<lparr>hx_ready_load_acks := [], hx_completions := still\<rparr>,
         map Load_back_done (hx_ready_load_acks ex) @ concat (map ack_results ready)))"

text \<open>The whole device is synchronised: every stream in use.\<close>

definition shutdown :: "stream list \<Rightarrow> host_executor \<Rightarrow> host_executor" where
  "shutdown streams ex =
     ex\<lparr>hx_device := fold synchronize_stream streams (hx_device ex), hx_completions := fst (cq_drop_all (hx_completions ex)),
        hx_ready_load_acks := []\<rparr>"

end
