(* ===== verification/Executor_Order.thy ===== *)
theory Executor_Order
  imports Cache_Executor
begin

text \<open>
  Ordering and acknowledgement of what the Host cache executor submits: which calls a submission
  adds to the device log, that the fence stream waits for every stream-ordered store, that
  acknowledgements follow the copies they name, that consumers of a load wait for their layer,
  and that a load refills a workspace only after its previous copies have run.
\<close>

section \<open>Calls a step adds\<close>

text \<open>A step that adds calls, whose work and streams satisfy \<open>P\<close>.\<close>

definition adds :: "(stream \<Rightarrow> 'w \<Rightarrow> bool) \<Rightarrow> 'w device \<Rightarrow> 'w device \<Rightarrow> bool" where
  "adds P d d' \<longleftrightarrow> (\<exists>calls. dv_log d' = dv_log d @ calls \<and> (\<forall>s w. (s, Work w) \<in> set calls \<longrightarrow> P s w)) \<and>
     extends d d' \<and> (device_ok d \<longrightarrow> device_ok d')"

lemma adds_refl [simp]: "adds P d d"
  by (simp add: adds_def)

lemma adds_trans: "adds P d d' \<Longrightarrow> adds P d' d'' \<Longrightarrow> adds P d d''"
proof -
  assume a: "adds P d d'" "adds P d' d''"
  from a(1) obtain calls where c: "dv_log d' = dv_log d @ calls" "\<forall>s w. (s, Work w) \<in> set calls \<longrightarrow> P s w" unfolding adds_def by blast
  from a(2) obtain calls' where c': "dv_log d'' = dv_log d' @ calls'" "\<forall>s w. (s, Work w) \<in> set calls' \<longrightarrow> P s w" unfolding adds_def by blast
  have "dv_log d'' = dv_log d @ (calls @ calls')" "\<forall>s w. (s, Work w) \<in> set (calls @ calls') \<longrightarrow> P s w" using c c' by auto
  then show ?thesis using a extends_trans [of d d' d''] unfolding adds_def by blast
qed

lemma adds_mono: "adds P d d' \<Longrightarrow> (\<And>s w. P s w \<Longrightarrow> Q s w) \<Longrightarrow> adds Q d d'"
  unfolding adds_def by blast

lemma adds_work: "P s w \<Longrightarrow> adds P d (submit s (Work w) d)"
  by (auto simp: adds_def submit_def extends_def device_ok_def)

lemma adds_record: "adds P d (fst (record_event s d))"
  by (auto simp: adds_def record_event_def extends_def device_ok_def)

lemma adds_record': "record_event s d = (d', e) \<Longrightarrow> adds P d d'"
  using adds_record [of P d s] by simp

lemma adds_wait: "adds P d (wait_event s e d)"
  by (auto simp: adds_def wait_event_def submit_def extends_def device_ok_def split: option.split)

lemma adds_wait_stream: "adds P d (wait_stream s p d)"
proof -
  have "wait_stream s p d = wait_event s (Some (snd (record_event p d))) (fst (record_event p d))"
    by (simp add: wait_stream_def wait_event_def record_event_def)
  then show ?thesis using adds_trans [OF adds_record adds_wait] by simp
qed

lemma adds_synchronize: "adds P d (synchronize_event e d)" "adds P d (synchronize_stream s d)"
  by (simp_all add: synchronize_event_def synchronize_stream_def adds_wait adds_wait_stream)

lemma adds_launch: "P s w \<Longrightarrow> launch_work outcome s w d = (d', r) \<Longrightarrow> adds P d d'"
  by (cases outcome) (auto simp: adds_work split: if_splits)

lemmas adds_intros = adds_refl adds_work adds_record adds_wait adds_wait_stream adds_synchronize

lemma adds_extends: "adds P d d' \<Longrightarrow> extends d d'"
  by (simp add: adds_def)

lemma adds_ok: "adds P d d' \<Longrightarrow> device_ok d \<Longrightarrow> device_ok d'"
  by (simp add: adds_def)

lemma adds_length: "adds P d d' \<Longrightarrow> length (dv_log d) \<le> length (dv_log d')"
  by (auto simp: adds_def)

lemma adds_nth:
  assumes "adds P d d'" "length (dv_log d) \<le> j" "j < length (dv_log d')" "snd (dv_log d' ! j) = Work w"
  shows "P (fst (dv_log d' ! j)) w"
proof -
  from assms(1) obtain calls where c: "dv_log d' = dv_log d @ calls"
    "\<forall>s w. (s, Work w) \<in> set calls \<longrightarrow> P s w" unfolding adds_def by blast
  have "dv_log d' ! j \<in> set calls" using assms(2,3) by (auto simp: c nth_append)
  then show ?thesis using c(2) assms(4) by (metis prod.collapse)
qed

lemma extends_nth: "extends d d' \<Longrightarrow> j < length (dv_log d) \<Longrightarrow> dv_log d' ! j = dv_log d ! j"
  by (auto simp: extends_def nth_append)

lemma extends_length: "extends d d' \<Longrightarrow> length (dv_log d) \<le> length (dv_log d')"
  by (auto simp: extends_def)

text \<open>A recording at the end of a log.\<close>

definition ends_recording :: "stream \<Rightarrow> nat \<Rightarrow> 'w device \<Rightarrow> bool" where
  "ends_recording s e d \<longleftrightarrow> dv_log d \<noteq> [] \<and> last (dv_log d) = (s, Record e)"

lemma ends_recording_record: "record_event s d = (d', e) \<Longrightarrow> ends_recording s e d'"
  by (auto simp: ends_recording_def record_event_def)

lemma ends_recording_nth:
  assumes "ends_recording s e d"
  obtains r where "length (dv_log d) = Suc r" "dv_log d ! r = (s, Record e)"
  using assms unfolding ends_recording_def by (metis last_conv_nth length_Suc_conv_rev diff_Suc_1 length_0_conv not0_implies_Suc)

text \<open>Work in a log that ends with a recording has run once that event is done, and before anything that a
  stream does after waiting for it.\<close>

lemma recorded_done:
  assumes "ends_recording s e d" "extends d d'" "device_ok d'" "stream_order (dv_log d') executed"
    "event_done (dv_log d') executed e" "j < length (dv_log d)" "dv_log d ! j = (s, Work w)"
  shows "j \<in> executed"
proof -
  obtain r where r: "length (dv_log d) = Suc r" "dv_log d ! r = (s, Record e)" using assms(1) by (rule ends_recording_nth)
  have "dv_log d' ! r = (s, Record e)" "r < length (dv_log d')"
    using r extends_nth [OF assms(2), of r] extends_length [OF assms(2)] by auto
  moreover have "j < r" using assms(6,7) r by (cases "j = r") auto
  moreover have "fst (dv_log d' ! j) = s" using extends_nth [OF assms(2,6)] assms(7) by simp
  ultimately show ?thesis using done_order [OF assms(4) _ _ _ _ _ assms(5), of j r s] assms(3) by (simp add: device_ok_def)
qed

lemma recorded_fence:
  assumes "ends_recording s e d" "extends (wait_event f (Some e) d) d'" "device_ok d'" "stream_order (dv_log d') executed"
    "length (dv_log d) \<le> i" "i \<in> executed" "fst (dv_log d' ! i) = f" "j < length (dv_log d)" "dv_log d ! j = (s, Work w)"
  shows "j \<in> executed"
proof -
  let ?w = "length (dv_log d)"
  obtain r where r: "length (dv_log d) = Suc r" "dv_log d ! r = (s, Record e)" using assms(1) by (rule ends_recording_nth)
  note x = extends_nth [OF assms(2)]
  have len: "?w < length (dv_log d')" using extends_length [OF assms(2)] by (simp add: wait_event_def submit_def)
  have at: "dv_log d' ! k = dv_log d ! k" if "k < ?w" for k
    using x [of k] that by (simp add: wait_event_def submit_def nth_append)
  have "dv_log d' ! ?w = (f, Wait e)" using x [of ?w] by (simp add: wait_event_def submit_def)
  moreover have "dv_log d' ! r = (s, Record e)" "r < length (dv_log d')" using r at [of r] len by auto
  moreover have "j < r" using assms(8,9) r by (cases "j = r") auto
  moreover have "fst (dv_log d' ! j) = s" using at [OF assms(8)] assms(9) by simp
  ultimately show ?thesis
    using fence_order [OF assms(4), of j r s e ?w i f] assms(3,5,6,7) by (simp add: device_ok_def)
qed

section \<open>Stores\<close>

definition copy_of :: "lane_id \<Rightarrow> transfer_row list \<Rightarrow> work list" where
  "copy_of lane transfers = (if transfers = [] then [] else [Copy_batch lane transfers])"

text \<open>Work present from some position on, whatever is added later.\<close>

definition has_work :: "stream \<Rightarrow> work list \<Rightarrow> work device \<Rightarrow> work device \<Rightarrow> bool" where
  "has_work s ws d d' \<longleftrightarrow> (\<forall>w \<in> set ws. \<exists>j. length (dv_log d) \<le> j \<and> j < length (dv_log d') \<and> dv_log d' ! j = (s, Work w))"

lemma has_work_Nil [simp]: "has_work s [] d d'"
  by (simp add: has_work_def)

lemma has_work_submit: "has_work s [w] d (submit s (Work w) d)"
  unfolding has_work_def by (auto intro!: exI [of _ "length (dv_log d)"] simp: submit_def)

lemma has_workI:
  "(\<And>w. w \<in> set ws \<Longrightarrow> \<exists>j. length (dv_log d) \<le> j \<and> j < length (dv_log d') \<and> dv_log d' ! j = (s, Work w)) \<Longrightarrow> has_work s ws d d'"
  by (simp add: has_work_def)

lemma has_workE:
  assumes "has_work s ws d d'" "w \<in> set ws"
  obtains j where "length (dv_log d) \<le> j" "j < length (dv_log d')" "dv_log d' ! j = (s, Work w)"
  using assms by (auto simp: has_work_def)

lemma has_work_later:
  assumes "has_work s ws d d'" "extends d' d''"
  shows "has_work s ws d d''"
proof (rule has_workI)
  fix w assume "w \<in> set ws"
  with assms(1) obtain j where "length (dv_log d) \<le> j" "j < length (dv_log d')" "dv_log d' ! j = (s, Work w)" by (rule has_workE)
  then show "\<exists>j. length (dv_log d) \<le> j \<and> j < length (dv_log d'') \<and> dv_log d'' ! j = (s, Work w)"
    using extends_nth [OF assms(2)] extends_length [OF assms(2)] by (intro exI [of _ j]) simp
qed

lemma has_work_earlier:
  assumes "has_work s ws d d'" "extends d0 d"
  shows "has_work s ws d0 d'"
proof (rule has_workI)
  fix w assume "w \<in> set ws"
  with assms(1) obtain j where "length (dv_log d) \<le> j" "j < length (dv_log d')" "dv_log d' ! j = (s, Work w)" by (rule has_workE)
  then show "\<exists>j. length (dv_log d0) \<le> j \<and> j < length (dv_log d') \<and> dv_log d' ! j = (s, Work w)"
    using extends_length [OF assms(2)] by (intro exI [of _ j]) simp
qed

lemma has_work_append: "has_work s ws d d' \<Longrightarrow> has_work s vs d d' \<Longrightarrow> has_work s (ws @ vs) d d'"
  by (auto simp: has_work_def)

lemma has_work_Cons: "has_work s [w] d d' \<Longrightarrow> has_work s vs d d' \<Longrightarrow> has_work s (w # vs) d d'"
  by (auto simp: has_work_def)

text \<open>A step that ends with the recording of the event it returns, after all of the given work.\<close>

definition performs :: "stream \<Rightarrow> work list \<Rightarrow> nat \<Rightarrow> work device \<Rightarrow> work device \<Rightarrow> bool" where
  "performs s ws e d d' \<longleftrightarrow> extends d d' \<and> ends_recording s e d' \<and> has_work s ws d d'"

lemma launch_ok: "launch_work outcome s w d = (d', Inr u) \<Longrightarrow> d' = submit s (Work w) d"
  by (cases outcome) auto

text \<open>The calls of a lane for its rows.\<close>

definition lane_call :: "stream \<Rightarrow> lane_id \<Rightarrow> transfer_row list \<Rightarrow> stream \<Rightarrow> work \<Rightarrow> bool" where
  "lane_call s lane transfers s' w \<longleftrightarrow> (s' = Host_thread \<and> w = Fill_rows (Lane_table lane) transfers) \<or>
     (s' = s \<and> (w = Upload_rows (Lane_table lane) transfers \<or> w = Copy_batch lane transfers))"

lemma stage_rows_adds:
  assumes "stage_rows la lane transfers s ex = (ex', r)"
  shows "adds (lane_call s lane transfers) (hx_device ex) (hx_device ex')"
proof -
  let ?P = "lane_call s lane transfers" and ?d0 = "synchronize_event (hx_metadata_done ex lane) (hx_device ex)"
  obtain d1 u where 1: "launch_work (la_fill la) Host_thread (Fill_rows (Lane_table lane) transfers) ?d0 = (d1, u)" by (metis surj_pair)
  obtain d2 v where 2: "launch_work (la_upload la) s (Upload_rows (Lane_table lane) transfers) d1 = (d2, v)" by (metis surj_pair)
  obtain d3 e where 3: "record_event s d2 = (d3, e)" by (metis surj_pair)
  have a1: "adds ?P (hx_device ex) d1" by (rule adds_trans [OF adds_synchronize(1) adds_launch [OF _ 1]]) (simp add: lane_call_def)
  have a2: "adds ?P d1 d2" by (rule adds_launch [OF _ 2]) (simp add: lane_call_def)
  have a3: "adds ?P (hx_device ex) d3" by (rule adds_trans [OF a1 adds_trans [OF a2 adds_record' [OF 3]]])
  have "hx_device ex' = d1 \<or> hx_device ex' = d3"
    using assms 1 2 3 by (cases u) (auto simp: stage_rows_def split: if_splits)
  with a1 a3 show ?thesis by auto
qed

text \<open>The middle of a lane's submission: staging and the copy, when there are rows.\<close>

definition lane_batch :: "lane_outcomes \<Rightarrow> lane_id \<Rightarrow> transfer_row list \<Rightarrow> stream \<Rightarrow> host_executor \<Rightarrow> host_executor \<times> unit result" where
  "lane_batch la lane transfers s ex =
     (if transfers = [] then (ex, Inr ())
      else case stage_rows la lane transfers s ex of
          (ex2, Inl e) \<Rightarrow> (ex2, Inl e)
        | (ex2, Inr _) \<Rightarrow>
            (case launch_work (la_copy la) s (Copy_batch lane transfers) (hx_device ex2) of (d, r) \<Rightarrow> (ex2\<lparr>hx_device := d\<rparr>, r)))"

lemma lane_batch_cases:
  assumes "lane_batch la lane transfers s ex = (ex', r)"
  obtains (empty) "transfers = []" "ex' = ex" "r = Inr ()"
  | (unstaged) "transfers \<noteq> []" "stage_rows la lane transfers s ex = (ex', r)" "\<exists>e. r = Inl e"
  | (copied) ex2 d where "transfers \<noteq> []" "stage_rows la lane transfers s ex = (ex2, Inr ())"
      "launch_work (la_copy la) s (Copy_batch lane transfers) (hx_device ex2) = (d, r)" "ex' = ex2\<lparr>hx_device := d\<rparr>"
  using assms by (auto simp: lane_batch_def split: if_splits prod.splits sum.splits)

lemma lane_batch_adds:
  assumes "lane_batch la lane transfers s ex = (ex', r)"
  shows "adds (lane_call s lane transfers) (hx_device ex) (hx_device ex')"
  using assms
proof (cases rule: lane_batch_cases)
  case (copied ex2 d)
  have "adds (lane_call s lane transfers) (hx_device ex2) d" by (rule adds_launch [OF _ copied(3)]) (simp add: lane_call_def)
  from adds_trans [OF stage_rows_adds [OF copied(2)] this] copied(4) show ?thesis by simp
qed (simp_all add: stage_rows_adds)

lemma lane_batch_works:
  assumes "lane_batch la lane transfers s ex = (ex', Inr u)"
  shows "has_work s (copy_of lane transfers) (hx_device ex) (hx_device ex')"
  using assms
proof (cases rule: lane_batch_cases)
  case (copied ex2 d)
  from has_work_earlier [OF has_work_submit adds_extends [OF stage_rows_adds [OF copied(2)]]]
  show ?thesis using copied(1,4) launch_ok [OF copied(3)] by (simp add: copy_of_def)
qed (simp_all add: copy_of_def)

lemma start_lane_cases:
  assumes "start_lane la lane transfers s p ex = (ex', r)"
  obtains ex1 ex3 u where "ex1 = (case p of None \<Rightarrow> ex | Some p \<Rightarrow> ex\<lparr>hx_device := wait_stream s p (hx_device ex)\<rparr>)"
    "lane_batch la lane transfers s ex1 = (ex3, u)" "(\<exists>e. u = Inl e \<and> r = Inl e \<and> ex' = ex3) \<or>
      (\<exists>d e. u = Inr () \<and> r = Inr e \<and> record_event s (hx_device ex3) = (d, e) \<and> ex' = ex3\<lparr>hx_device := d\<rparr>)"
proof -
  let ?ex1 = "case p of None \<Rightarrow> ex | Some p \<Rightarrow> ex\<lparr>hx_device := wait_stream s p (hx_device ex)\<rparr>"
  obtain ex3 u where b: "lane_batch la lane transfers s ?ex1 = (ex3, u)" by (metis surj_pair)
  have "start_lane la lane transfers s p ex = (case lane_batch la lane transfers s ?ex1 of (ex3, Inl e) \<Rightarrow> (ex3, Inl e)
    | (ex3, Inr _) \<Rightarrow> (case record_event s (hx_device ex3) of (d, finish) \<Rightarrow> (ex3\<lparr>hx_device := d\<rparr>, Inr finish)))"
    unfolding start_lane_def lane_batch_def Let_def ..
  with assms b show ?thesis by (intro that [OF refl b]) (auto split: sum.splits prod.splits)
qed

lemma prerequisite_adds: "adds P (hx_device ex) (hx_device (case p of None \<Rightarrow> ex | Some p \<Rightarrow> ex\<lparr>hx_device := wait_stream s p (hx_device ex)\<rparr>))"
  by (simp add: adds_intros split: option.split)

lemma start_lane_adds:
  assumes "start_lane la lane transfers s p ex = (ex', r)"
  shows "adds (lane_call s lane transfers) (hx_device ex) (hx_device ex')"
  using assms
proof (cases rule: start_lane_cases)
  case (1 ex1 ex3 u)
  have a: "adds (lane_call s lane transfers) (hx_device ex) (hx_device ex3)"
    using adds_trans [OF prerequisite_adds lane_batch_adds [OF 1(2) [unfolded 1(1)]]] .
  from 1(3) show ?thesis using a adds_trans [OF a adds_record'] by auto
qed

lemma start_lane_performs:
  assumes "start_lane la lane transfers s p ex = (ex', Inr e)"
  shows "performs s (copy_of lane transfers) e (hx_device ex) (hx_device ex')"
  using assms
proof (cases rule: start_lane_cases)
  case (1 ex1 ex3 u)
  then obtain d where d: "u = Inr ()" "record_event s (hx_device ex3) = (d, e)" "ex' = ex3\<lparr>hx_device := d\<rparr>" by auto
  have x: "extends (hx_device ex) (hx_device ex1)" unfolding 1(1) by (rule adds_extends [OF prerequisite_adds])
  have "has_work s (copy_of lane transfers) (hx_device ex) d"
    using has_work_later [OF has_work_earlier [OF lane_batch_works [OF 1(2) [unfolded d(1)]] x] adds_extends [OF adds_record' [OF d(2)]]] .
  then show ?thesis using adds_extends [OF start_lane_adds [OF assms]] ends_recording_record [OF d(2)] d(3) by (simp add: performs_def)
qed

text \<open>Appending an acknowledgement does not touch the device.\<close>

lemma push_ack_device [simp]: "hx_device (push_ack e k ids ex) = hx_device ex"
  by (simp add: push_ack_def)

lemma push_ack_queue [simp]: "hx_completions (push_ack e k ids ex) = hx_completions ex @ [(e, \<lparr>ak_kind = k, ak_op_ids = ids\<rparr>)]"
  by (simp add: push_ack_def cq_push_def)

text \<open>Steps that only submit: the device and the lanes' upload events change.\<close>

definition submits :: "host_executor \<Rightarrow> host_executor \<Rightarrow> bool" where
  "submits ex ex' \<longleftrightarrow> ex' = ex\<lparr>hx_device := hx_device ex', hx_metadata_done := hx_metadata_done ex'\<rparr>"

lemma submitsD:
  assumes "submits ex ex'"
  shows "hx_completions ex' = hx_completions ex" "hx_load_trackers ex' = hx_load_trackers ex" "hx_load_poisoned ex' = hx_load_poisoned ex"
    "hx_layer_slices ex' = hx_layer_slices ex"
  using arg_cong [OF assms [unfolded submits_def], of hx_completions] arg_cong [OF assms [unfolded submits_def], of hx_load_trackers]
    arg_cong [OF assms [unfolded submits_def], of hx_load_poisoned] arg_cong [OF assms [unfolded submits_def], of hx_layer_slices] by simp_all

lemma submits_refl [simp]: "submits ex ex" "submits ex (ex\<lparr>hx_device := d\<rparr>)" "submits ex (ex\<lparr>hx_device := d, hx_metadata_done := m\<rparr>)"
  by (simp_all add: submits_def)

lemma submits_trans: "submits a b \<Longrightarrow> submits b c \<Longrightarrow> submits a c"
  unfolding submits_def by (cases a; cases b; cases c) simp

lemma stage_rows_submits: "stage_rows la lane transfers s ex = (ex', r) \<Longrightarrow> submits ex ex'"
  by (auto simp: stage_rows_def split: prod.splits sum.splits if_splits)

lemma lane_batch_submits:
  assumes "lane_batch la lane transfers s ex = (ex', r)"
  shows "submits ex ex'"
  using assms
proof (cases rule: lane_batch_cases)
  case (copied ex2 d)
  from submits_trans [OF stage_rows_submits [OF copied(2)] submits_refl(2)] copied(4) show ?thesis by simp
qed (simp_all add: stage_rows_submits)

lemma start_lane_submits:
  assumes "start_lane la lane transfers s p ex = (ex', r)"
  shows "submits ex ex'"
  using assms
proof (cases rule: start_lane_cases)
  case (1 ex1 ex3 u)
  have "submits ex ex1" unfolding 1(1) by (simp split: option.split)
  note t = submits_trans [OF this lane_batch_submits [OF 1(2)]]
  from 1(3) t submits_trans [OF t submits_refl(2)] show ?thesis by auto
qed

lemma start_writing_cases:
  assumes "start_writing la lane batch p ex = (ex', r)"
  obtains (empty) "fst batch = []" "ex' = ex" "r = Inr None"
  | (failed) e where "fst batch \<noteq> []" "start_lane la lane (snd batch) Write_stream (Some p) ex = (ex', Inl e)" "r = Inl e"
  | (started) ex1 e where "fst batch \<noteq> []" "start_lane la lane (snd batch) Write_stream (Some p) ex = (ex1, Inr e)" "r = Inr (Some e)"
      "ex' = push_ack e Ack_write_back (ordered_unique (fst batch)) ex1"
  using assms by (cases batch) (auto simp: start_writing_def split: if_splits prod.splits sum.splits)

lemma start_writing_adds:
  assumes "start_writing la lane batch p ex = (ex', r)"
  shows "adds (lane_call Write_stream lane (snd batch)) (hx_device ex) (hx_device ex')"
  using assms by (cases rule: start_writing_cases) (auto dest: start_lane_adds)

lemma start_writing_ok:
  assumes "start_writing la lane batch p ex = (ex', Inr fence)" "fst batch \<noteq> []"
  obtains e where "fence = Some e" "performs Write_stream (copy_of lane (snd batch)) e (hx_device ex) (hx_device ex')"
    "hx_completions ex' = hx_completions ex @ [(e, \<lparr>ak_kind = Ack_write_back, ak_op_ids = ordered_unique (fst batch)\<rparr>)]"
  using assms(1)
proof (cases rule: start_writing_cases)
  case (started ex1 e)
  show ?thesis
    by (rule that [of e]) (use started start_lane_performs [OF started(2)] submitsD(1) [OF start_lane_submits [OF started(2)]] in simp_all)
qed (use assms(2) in auto)

definition export_of :: "snapshot_op \<Rightarrow> work" where
  "export_of op = Export_slot (so_request_pool_index op) (so_snapshot_slot op) (so_request_id op)"

definition export_call :: "stream \<Rightarrow> work \<Rightarrow> bool" where
  "export_call s w \<longleftrightarrow> s = Write_stream \<and> (\<exists>index slot request. w = Export_slot index slot request)"

lemma export_slots_adds: "export_slots outcome ops d = (d', r) \<Longrightarrow> adds export_call d d'"
proof (induction ops arbitrary: d)
  case (Cons op ops)
  let ?w = "Export_slot (so_request_pool_index op) (so_snapshot_slot op) (so_request_id op)"
  obtain d1 u where l: "launch_work (outcome (so_op_id op)) Write_stream ?w d = (d1, u)" by (metis surj_pair)
  have 1: "adds export_call d d1" by (rule adds_launch [OF _ l]) (simp add: export_call_def)
  show ?case
  proof (cases u)
    case (Inl e)
    then show ?thesis using Cons.prems l 1 by simp
  next
    case (Inr v)
    then show ?thesis using Cons.prems l by (intro adds_trans [OF 1 Cons.IH]) simp
  qed
qed simp

lemma export_slots_ok: "export_slots outcome ops d = (d', Inr u) \<Longrightarrow> has_work Write_stream (map export_of ops) d d'"
proof (induction ops arbitrary: d)
  case (Cons op ops)
  then obtain d1 where l: "launch_work (outcome (so_op_id op)) Write_stream (export_of op) d = (d1, Inr ())"
    and rest: "export_slots outcome ops d1 = (d', Inr u)" by (auto simp: export_of_def split: prod.splits sum.splits)
  have x: "extends d1 d'" by (rule adds_extends [OF export_slots_adds [OF rest]])
  have "extends d d1" unfolding launch_ok [OF l] by (rule extends_submit)
  with Cons.IH [OF rest] have "has_work Write_stream (map export_of ops) d d'" by (rule has_work_earlier)
  moreover have "has_work Write_stream [export_of op] d d'"
    using has_work_later [OF has_work_submit x [unfolded launch_ok [OF l]]] .
  ultimately show ?case by (simp add: has_work_Cons)
qed simp

definition snapshot_works :: "snapshot_op list \<Rightarrow> transfer_row list \<Rightarrow> work list" where
  "snapshot_works ops transfers = copy_of Snapshot_write_lane transfers @ map export_of ops"

text \<open>The optional rows of a snapshot or a restore.\<close>

lemma optional_rows:
  assumes "(if transfers = [] then (ex1, Inr 0) else start_lane la lane transfers s None ex1) = (ex2, r)"
  shows "adds (lane_call s lane transfers) (hx_device ex1) (hx_device ex2)" "submits ex1 ex2"
    "r = Inr e \<Longrightarrow> has_work s (copy_of lane transfers) (hx_device ex1) (hx_device ex2)"
proof -
  show "adds (lane_call s lane transfers) (hx_device ex1) (hx_device ex2)" "submits ex1 ex2"
    using assms start_lane_adds [of la lane transfers s None ex1 ex2 r] start_lane_submits [of la lane transfers s None ex1 ex2 r] by (auto split: if_splits)
  show "r = Inr e \<Longrightarrow> has_work s (copy_of lane transfers) (hx_device ex1) (hx_device ex2)"
    using assms start_lane_performs [of la lane transfers s None ex1 ex2 e] by (auto simp: performs_def copy_of_def split: if_splits)
qed

lemma snapshot_store_cases:
  assumes "start_snapshot_store la exports ops transfers p ex = (ex', r)"
  obtains ex1 ex2 u where "ex1 = ex\<lparr>hx_device := wait_stream Write_stream p (hx_device ex)\<rparr>"
    "(if transfers = [] then (ex1, Inr 0) else start_lane la Snapshot_write_lane transfers Write_stream None ex1) = (ex2, u)"
    "(\<exists>e. u = Inl e \<and> r = Inl e \<and> ex' = ex2) \<or>
     (\<exists>n d e. u = Inr n \<and> export_slots exports ops (hx_device ex2) = (d, Inl e) \<and> r = Inl e \<and> ex' = ex2\<lparr>hx_device := d\<rparr>) \<or>
     (\<exists>n d d' e. u = Inr n \<and> export_slots exports ops (hx_device ex2) = (d, Inr ()) \<and> record_event Write_stream d = (d', e) \<and>
        r = Inr (Some e) \<and> ex' = push_ack e Ack_snapshot (map so_op_id ops) (ex2\<lparr>hx_device := d'\<rparr>))"
proof -
  let ?ex1 = "ex\<lparr>hx_device := wait_stream Write_stream p (hx_device ex)\<rparr>"
  obtain ex2 u where b: "(if transfers = [] then (?ex1, Inr 0) else start_lane la Snapshot_write_lane transfers Write_stream None ?ex1) = (ex2, u)"
    by (rule that [OF prod.collapse [symmetric]])
  obtain d v where x: "export_slots exports ops (hx_device ex2) = (d, v)" by (metis surj_pair)
  obtain d' e where r: "record_event Write_stream d = (d', e)" by (metis surj_pair)
  note run = assms [unfolded start_snapshot_store_def Let_def b]
  show ?thesis
  proof (cases u)
    case (Inl e)
    then have "r = Inl e" "ex' = ex2" using run by simp_all
    then show ?thesis using Inl by (intro that [OF refl b] disjI1) simp
  next
    case u: (Inr n)
    show ?thesis
    proof (cases v)
      case (Inl e)
      then have "r = Inl e" "ex' = ex2\<lparr>hx_device := d\<rparr>" using run x u by simp_all
      then show ?thesis using u x Inl by (intro that [OF refl b] disjI2 [OF disjI1] exI [of _ n] exI [of _ d] exI [of _ e]) simp
    next
      case (Inr w)
      then have "r = Inr (Some e)" "ex' = push_ack e Ack_snapshot (map so_op_id ops) (ex2\<lparr>hx_device := d'\<rparr>)" using run x u r by simp_all
      then show ?thesis using u x r Inr by (intro that [OF refl b] disjI2 [OF disjI2] exI [of _ n] exI [of _ d] exI [of _ d'] exI [of _ e]) simp
    qed
  qed
qed

definition snapshot_call :: "transfer_row list \<Rightarrow> stream \<Rightarrow> work \<Rightarrow> bool" where
  "snapshot_call transfers s w \<longleftrightarrow> lane_call Write_stream Snapshot_write_lane transfers s w \<or> export_call s w"

lemma snapshot_store_adds:
  assumes "start_snapshot_store la exports ops transfers p ex = (ex', r)"
  shows "adds (snapshot_call transfers) (hx_device ex) (hx_device ex')"
  using assms
proof (cases rule: snapshot_store_cases)
  case (1 ex1 ex2 u)
  have a: "adds (snapshot_call transfers) (hx_device ex1) (hx_device ex2)"
    by (rule adds_mono [OF optional_rows(1) [OF 1(2)]]) (simp add: snapshot_call_def)
  have a2: "adds (snapshot_call transfers) (hx_device ex) (hx_device ex2)" using adds_trans [OF adds_wait_stream a [unfolded 1(1), simplified]] by simp
  have a3: "adds (snapshot_call transfers) (hx_device ex) d" if "export_slots exports ops (hx_device ex2) = (d, v)" for d v
    by (rule adds_trans [OF a2 adds_mono [OF export_slots_adds [OF that]]]) (simp add: snapshot_call_def)
  from 1(3) show ?thesis using a2 a3 adds_trans [OF a3 adds_record'] by (elim disjE exE conjE) auto
qed

lemma snapshot_store_ok:
  assumes "start_snapshot_store la exports ops transfers p ex = (ex', Inr fence)"
  obtains e where "fence = Some e" "performs Write_stream (snapshot_works ops transfers) e (hx_device ex) (hx_device ex')"
    "hx_completions ex' = hx_completions ex @ [(e, \<lparr>ak_kind = Ack_snapshot, ak_op_ids = map so_op_id ops\<rparr>)]"
  using assms
proof (cases rule: snapshot_store_cases)
  case (1 ex1 ex2 u)
  then obtain n d d' e where u: "u = Inr n" and x: "export_slots exports ops (hx_device ex2) = (d, Inr ())"
    and r: "record_event Write_stream d = (d', e)" and f: "fence = Some e"
    and ex': "ex' = push_ack e Ack_snapshot (map so_op_id ops) (ex2\<lparr>hx_device := d'\<rparr>)" by auto
  have x1: "extends (hx_device ex) (hx_device ex1)" unfolding 1(1) using adds_extends [OF adds_wait_stream] by simp
  have x2: "extends (hx_device ex1) (hx_device ex2)" by (rule adds_extends [OF optional_rows(1) [OF 1(2)]])
  have x3: "extends (hx_device ex2) d" by (rule adds_extends [OF export_slots_adds [OF x]])
  have x4: "extends d d'" by (rule adds_extends [OF adds_record' [OF r]])
  have "has_work Write_stream (copy_of Snapshot_write_lane transfers) (hx_device ex) d'"
    by (rule has_work_earlier [OF has_work_later [OF optional_rows(3) [OF 1(2) u] extends_trans [OF x3 x4]] x1])
  moreover have "has_work Write_stream (map export_of ops) (hx_device ex) d'"
    by (rule has_work_earlier [OF has_work_later [OF export_slots_ok [OF x] x4] extends_trans [OF x1 x2]])
  ultimately have "has_work Write_stream (snapshot_works ops transfers) (hx_device ex) d'"
    unfolding snapshot_works_def by (rule has_work_append)
  with adds_extends [OF snapshot_store_adds [OF assms]] ends_recording_record [OF r]
  have "performs Write_stream (snapshot_works ops transfers) e (hx_device ex) (hx_device ex')" by (simp add: performs_def ex')
  then show ?thesis by (rule that [OF f]) (use submitsD(1) [OF optional_rows(2) [OF 1(2)]] in \<open>simp add: ex' 1(1)\<close>)
qed

text \<open>Work of the stream-ordered legs.\<close>

definition ordered_work :: "work \<Rightarrow> bool" where
  "ordered_work w \<longleftrightarrow> (case w of
     Copy_batch lane _ \<Rightarrow> lane = Ordered_write_lane \<or> lane = Snapshot_write_lane | Export_slot _ _ _ \<Rightarrow> True | _ \<Rightarrow> False)"

definition ordered_call :: "stream \<Rightarrow> work \<Rightarrow> bool" where
  "ordered_call s w \<longleftrightarrow> (ordered_work w \<longrightarrow> s = Write_stream)"

lemma ordered_calls:
  "lane_call Write_stream lane transfers s w \<Longrightarrow> ordered_call s w" "snapshot_call transfers s w \<Longrightarrow> ordered_call s w"
  "lane_call Write_stream Pinned_write_lane transfers s w \<Longrightarrow> \<not> ordered_work w"
  by (auto simp: ordered_call_def lane_call_def snapshot_call_def export_call_def ordered_work_def)

lemma ordered_legs_cases:
  assumes "start_ordered_legs wo wp p ex = (ex', r)"
  obtains (writes) "start_writing (wo_ordered wo) Ordered_write_lane (wp_ordered wp) p ex = (ex', r)" "(\<exists>e. r = Inl e) \<or> wp_snapshot_ops wp = []"
  | (snapshots) ex1 f where "start_writing (wo_ordered wo) Ordered_write_lane (wp_ordered wp) p ex = (ex1, Inr f)" "wp_snapshot_ops wp \<noteq> []"
      "start_snapshot_store (wo_snapshot wo) (wo_exports wo) (wp_snapshot_ops wp) (wp_snapshot_transfers wp) p ex1 = (ex', r)"
  using assms by (auto simp: start_ordered_legs_def split: prod.splits sum.splits if_splits)

lemma ordered_legs_adds:
  assumes "start_ordered_legs wo wp p ex = (ex', r)"
  shows "adds ordered_call (hx_device ex) (hx_device ex')"
  using assms
proof (cases rule: ordered_legs_cases)
  case writes
  show ?thesis by (rule adds_mono [OF start_writing_adds [OF writes(1)]]) (rule ordered_calls)
next
  case (snapshots ex1 f)
  have "adds ordered_call (hx_device ex) (hx_device ex1)" by (rule adds_mono [OF start_writing_adds [OF snapshots(1)]]) (rule ordered_calls)
  moreover have "adds ordered_call (hx_device ex1) (hx_device ex')" by (rule adds_mono [OF snapshot_store_adds [OF snapshots(3)]]) (rule ordered_calls)
  ultimately show ?thesis by (rule adds_trans)
qed

lemma start_writing_fence:
  assumes "start_writing la lane batch p ex = (ex', Inr fence)"
  shows "(fence = None \<and> hx_device ex' = hx_device ex) \<or> (\<exists>e. fence = Some e \<and> ends_recording Write_stream e (hx_device ex'))"
  using assms by (cases rule: start_writing_cases) (auto dest!: start_lane_performs simp: performs_def)

lemma ordered_legs_fence:
  assumes "start_ordered_legs wo wp p ex = (ex', Inr fence)"
  shows "(fence = None \<and> hx_device ex' = hx_device ex) \<or> (\<exists>e. fence = Some e \<and> ends_recording Write_stream e (hx_device ex'))"
  using assms
proof (cases rule: ordered_legs_cases)
  case writes
  then show ?thesis by (auto dest: start_writing_fence)
next
  case (snapshots ex1 f)
  from snapshot_store_ok [OF snapshots(3)] show ?thesis by (auto simp: performs_def)
qed

lemma fence_tail_device:
  obtains d t where "hx_device (fence_tail f ex) = wait_event f (Some t) d" "ends_recording Write_stream t d" "adds ordered_call (hx_device ex) d"
proof -
  obtain d t where r: "record_event Write_stream (hx_device ex) = (d, t)" by (metis surj_pair)
  show ?thesis by (rule that [of t d]) (use r in \<open>simp_all add: fence_tail_def ends_recording_record adds_record'\<close>)
qed

text \<open>A device whose log ends with the fence: ordered work up to a recording, the wait for it on the fence stream,
  and no ordered work after that; or no ordered work at all.\<close>

definition fenced :: "stream \<Rightarrow> work device \<Rightarrow> work device \<Rightarrow> bool" where
  "fenced f d0 d' \<longleftrightarrow> adds (\<lambda>s w. \<not> ordered_work w) d0 d' \<or>
     (\<exists>e d1. adds ordered_call d0 d1 \<and> ends_recording Write_stream e d1 \<and>
        adds (\<lambda>s w. \<not> ordered_work w) (wait_event f (Some e) d1) d')"

lemma submit_write_backs_fenced:
  assumes "submit_write_backs wo cache_ops p f ex = (ex', r)"
  shows "fenced f (hx_device ex) (hx_device ex')"
proof (cases "collect_writes ex cache_ops")
  case (Inl e)
  then show ?thesis using assms by (simp add: submit_write_backs_def fenced_def)
next
  case (Inr wp)
  obtain ex1 u where l: "start_ordered_legs wo wp p ex = (ex1, u)" by (metis surj_pair)
  note a = ordered_legs_adds [OF l]
  show ?thesis
  proof (cases u)
    case (Inl e)
    then have ex': "ex' = fence_tail f ex1" using assms Inr l by (simp add: submit_write_backs_def)
    obtain d t where t: "hx_device (fence_tail f ex1) = wait_event f (Some t) d" "ends_recording Write_stream t d"
      "adds ordered_call (hx_device ex1) d" by (rule fence_tail_device)
    then show ?thesis unfolding fenced_def ex' using adds_trans [OF a t(3)] adds_refl by metis
  next
    case (Inr fence)
    let ?ex = "ex1\<lparr>hx_device := wait_event f fence (hx_device ex1)\<rparr>"
    obtain ex2 v where s: "start_writing (wo_pinned wo) Pinned_write_lane (wp_pinned wp) p ?ex = (ex2, v)" by (metis surj_pair)
    have "ex' = ex2" using assms \<open>collect_writes ex cache_ops = Inr wp\<close> l Inr s
      by (auto simp: submit_write_backs_def split: sum.splits)
    moreover have "adds (\<lambda>s w. \<not> ordered_work w) (hx_device ?ex) (hx_device ex2)"
      by (rule adds_mono [OF start_writing_adds [OF s]]) (rule ordered_calls(3))
    ultimately show ?thesis using ordered_legs_fence [OF l [unfolded Inr]] a unfolding fenced_def by (auto simp: wait_event_def)
  qed
qed

lemma fenced_order:
  assumes F: "fenced f d0 d'" and later: "extends d' d" "device_ok d" "stream_order (dv_log d) executed"
    and i: "length (dv_log d') \<le> i" "i \<in> executed" "fst (dv_log d ! i) = f"
    and j: "length (dv_log d0) \<le> j" "j < length (dv_log d')" "snd (dv_log d ! j) = Work w" "ordered_work w"
  shows "j \<in> executed"
proof -
  have w: "snd (dv_log d' ! j) = Work w" using extends_nth [OF later(1) j(2)] j(3) by simp
  from F consider (plain) "adds (\<lambda>s w. \<not> ordered_work w) d0 d'"
    | (fence) e d1 where "adds ordered_call d0 d1" "ends_recording Write_stream e d1"
        "adds (\<lambda>s w. \<not> ordered_work w) (wait_event f (Some e) d1) d'" unfolding fenced_def by blast
  then show ?thesis
  proof cases
    case plain
    from adds_nth [OF plain j(1,2) w] j(4) show ?thesis by simp
  next
    case (fence e d1)
    let ?d2 = "wait_event f (Some e) d1"
    have x: "extends ?d2 d" by (rule extends_trans [OF adds_extends [OF fence(3)] later(1)])
    have d2: "dv_log ?d2 = dv_log d1 @ [(f, Wait e)]" by (simp add: wait_event_def submit_def)
    consider "j < length (dv_log d1)" | "j = length (dv_log d1)" | "length (dv_log ?d2) \<le> j" unfolding d2 by fastforce
    then show ?thesis
    proof cases
      case 1
      have at: "dv_log d' ! j = dv_log d1 ! j"
        using extends_nth [OF adds_extends [OF fence(3)], of j] 1 by (simp add: d2 nth_append)
      then have "fst (dv_log d1 ! j) = Write_stream" using adds_nth [OF fence(1) j(1) 1] w j(4) by (simp add: ordered_call_def)
      then have "dv_log d1 ! j = (Write_stream, Work w)" using w at by (simp add: prod_eq_iff)
      moreover have "length (dv_log d1) \<le> i" using i(1) adds_length [OF fence(3)] by (simp add: d2)
      ultimately show ?thesis using recorded_fence [OF fence(2) x later(2,3) _ i(2,3) 1] by blast
    next
      case 2
      then have "dv_log d' ! j = (f, Wait e)" using extends_nth [OF adds_extends [OF fence(3)], of j] by (simp add: d2)
      with w show ?thesis by simp
    next
      case 3
      from adds_nth [OF fence(3) 3 j(2) w] j(4) show ?thesis by simp
    qed
  qed
qed

text \<open>C13: however a plan's stores end, with success or with an exception out of a transport or an exporter, whatever the
  fence stream runs after the call runs after every stream-ordered write-back, snapshot store and slot export the
  call enqueued, so page zeroing on that stream cannot overwrite a source that is still being read.\<close>

theorem write_backs_fenced:
  assumes "submit_write_backs wo cache_ops prerequisite_stream fence_stream ex = (ex', r)"
    and "extends (hx_device ex') d" and "device_ok d" and "stream_order (dv_log d) executed"
    and "length (dv_log (hx_device ex')) \<le> i" and "i \<in> executed" and "fst (dv_log d ! i) = fence_stream"
    and "length (dv_log (hx_device ex)) \<le> j" and "j < length (dv_log (hx_device ex'))"
    and "snd (dv_log d ! j) = Work w" and "ordered_work w"
  shows "j \<in> executed"
  by (rule fenced_order [OF submit_write_backs_fenced [OF assms(1)] assms(2-11)])

section \<open>Acknowledgements of stores\<close>

text \<open>The legs of a plan: each with its acknowledgement and its work.\<close>

definition write_legs :: "write_plan \<Rightarrow> (ack \<times> work list) list" where
  "write_legs wp =
     (if fst (wp_ordered wp) = [] then [] else
        [(\<lparr>ak_kind = Ack_write_back, ak_op_ids = ordered_unique (fst (wp_ordered wp))\<rparr>, copy_of Ordered_write_lane (snd (wp_ordered wp)))]) @
     (if wp_snapshot_ops wp = [] then [] else
        [(\<lparr>ak_kind = Ack_snapshot, ak_op_ids = map so_op_id (wp_snapshot_ops wp)\<rparr>, snapshot_works (wp_snapshot_ops wp) (wp_snapshot_transfers wp))]) @
     (if fst (wp_pinned wp) = [] then [] else
        [(\<lparr>ak_kind = Ack_write_back, ak_op_ids = ordered_unique (fst (wp_pinned wp))\<rparr>, copy_of Pinned_write_lane (snd (wp_pinned wp)))])"

text \<open>A step that queues the acknowledgements of its legs, each under an event recorded after the leg's work.\<close>

definition queues :: "(ack \<times> work list) list \<Rightarrow> host_executor \<Rightarrow> host_executor \<Rightarrow> bool" where
  "queues legs ex ex' \<longleftrightarrow> extends (hx_device ex) (hx_device ex') \<and>
     (\<exists>es. length es = length legs \<and> hx_completions ex' = hx_completions ex @ zip es (map fst legs) \<and>
        (\<forall>k < length legs. \<exists>d. ends_recording Write_stream (es ! k) d \<and> has_work Write_stream (snd (legs ! k)) (hx_device ex) d \<and>
           extends d (hx_device ex')))"

lemma queues_device: "extends (hx_device ex) d \<Longrightarrow> queues [] ex (ex\<lparr>hx_device := d\<rparr>)"
  by (simp add: queues_def)

lemma queues_refl [simp]: "queues [] ex ex"
  by (simp add: queues_def)

lemma queues_single:
  assumes "performs Write_stream ws e (hx_device ex) (hx_device ex')" "hx_completions ex' = hx_completions ex @ [(e, a)]"
  shows "queues [(a, ws)] ex ex'"
  using assms unfolding queues_def performs_def by (intro conjI exI [of _ "[e]"]) (auto intro: extends_refl)

lemma queues_append:
  assumes "queues legs ex ex1" "queues legs' ex1 ex2"
  shows "queues (legs @ legs') ex ex2"
proof -
  from assms(1) obtain es where 1: "extends (hx_device ex) (hx_device ex1)" "length es = length legs"
    "hx_completions ex1 = hx_completions ex @ zip es (map fst legs)"
    "\<And>k. k < length legs \<Longrightarrow> \<exists>d. ends_recording Write_stream (es ! k) d \<and> has_work Write_stream (snd (legs ! k)) (hx_device ex) d \<and> extends d (hx_device ex1)"
    unfolding queues_def by blast
  from assms(2) obtain es' where 2: "extends (hx_device ex1) (hx_device ex2)" "length es' = length legs'"
    "hx_completions ex2 = hx_completions ex1 @ zip es' (map fst legs')"
    "\<And>k. k < length legs' \<Longrightarrow> \<exists>d. ends_recording Write_stream (es' ! k) d \<and> has_work Write_stream (snd (legs' ! k)) (hx_device ex1) d \<and> extends d (hx_device ex2)"
    unfolding queues_def by blast
  have "\<exists>d. ends_recording Write_stream ((es @ es') ! k) d \<and> has_work Write_stream (snd ((legs @ legs') ! k)) (hx_device ex) d \<and> extends d (hx_device ex2)"
    if k: "k < length (legs @ legs')" for k
  proof (cases "k < length legs")
    case True
    from 1(4) [OF True] obtain d where "ends_recording Write_stream (es ! k) d" "has_work Write_stream (snd (legs ! k)) (hx_device ex) d" "extends d (hx_device ex1)" by blast
    then show ?thesis using True 1(2) extends_trans [OF _ 2(1)] by (intro exI [of _ d]) (simp add: nth_append)
  next
    case False
    then have "k - length legs < length legs'" using k by simp
    from 2(4) [OF this] obtain d where "ends_recording Write_stream (es' ! (k - length legs)) d"
      "has_work Write_stream (snd (legs' ! (k - length legs))) (hx_device ex1) d" "extends d (hx_device ex2)" by blast
    then show ?thesis using False 1(2) has_work_earlier [OF _ 1(1)] by (intro exI [of _ d]) (simp add: nth_append)
  qed
  then show ?thesis
    unfolding queues_def using 1(2,3) 2(2,3) extends_trans [OF 1(1) 2(1)] by (intro conjI exI [of _ "es @ es'"]) simp_all
qed

lemma start_writing_queues:
  assumes "start_writing la lane batch p ex = (ex', Inr fence)"
  shows "queues (if fst batch = [] then [] else
    [(\<lparr>ak_kind = Ack_write_back, ak_op_ids = ordered_unique (fst batch)\<rparr>, copy_of lane (snd batch))]) ex ex'"
proof (cases "fst batch = []")
  case True
  then show ?thesis using assms by (cases batch) (simp add: start_writing_def)
next
  case False
  obtain e where "performs Write_stream (copy_of lane (snd batch)) e (hx_device ex) (hx_device ex')"
    "hx_completions ex' = hx_completions ex @ [(e, \<lparr>ak_kind = Ack_write_back, ak_op_ids = ordered_unique (fst batch)\<rparr>)]"
    by (rule start_writing_ok [OF assms False])
  from queues_single [OF this] False show ?thesis by simp
qed

lemma ordered_legs_queue:
  assumes "start_ordered_legs wo wp p ex = (ex', Inr fence)"
  shows "queues ((if fst (wp_ordered wp) = [] then [] else
        [(\<lparr>ak_kind = Ack_write_back, ak_op_ids = ordered_unique (fst (wp_ordered wp))\<rparr>, copy_of Ordered_write_lane (snd (wp_ordered wp)))]) @
     (if wp_snapshot_ops wp = [] then [] else
        [(\<lparr>ak_kind = Ack_snapshot, ak_op_ids = map so_op_id (wp_snapshot_ops wp)\<rparr>, snapshot_works (wp_snapshot_ops wp) (wp_snapshot_transfers wp))])) ex ex'"
  using assms
proof (cases rule: ordered_legs_cases)
  case writes
  then show ?thesis using start_writing_queues [OF writes(1)] by simp
next
  case (snapshots ex1 f)
  obtain e where p: "performs Write_stream (snapshot_works (wp_snapshot_ops wp) (wp_snapshot_transfers wp)) e (hx_device ex1) (hx_device ex')"
    "hx_completions ex' = hx_completions ex1 @ [(e, \<lparr>ak_kind = Ack_snapshot, ak_op_ids = map so_op_id (wp_snapshot_ops wp)\<rparr>)]"
    by (rule snapshot_store_ok [OF snapshots(3)])
  from queues_append [OF start_writing_queues [OF snapshots(1)] queues_single [OF p]] snapshots(2) show ?thesis by simp
qed

lemma submit_write_backs_queue:
  assumes "submit_write_backs wo cache_ops prerequisite_stream fence_stream ex = (ex', Inr u)" "collect_writes ex cache_ops = Inr wp"
  shows "queues (write_legs wp) ex ex'"
proof -
  obtain ex1 fence where l: "start_ordered_legs wo wp prerequisite_stream ex = (ex1, Inr fence)"
    using assms by (auto simp: submit_write_backs_def split: sum.splits prod.splits)
  let ?ex = "ex1\<lparr>hx_device := wait_event fence_stream fence (hx_device ex1)\<rparr>"
  obtain f where s: "start_writing (wo_pinned wo) Pinned_write_lane (wp_pinned wp) prerequisite_stream ?ex = (ex', Inr f)"
    using assms l by (auto simp: submit_write_backs_def split: sum.splits prod.splits)
  have "queues [] ex1 ?ex" by (rule queues_device) simp
  from queues_append [OF ordered_legs_queue [OF l] queues_append [OF this start_writing_queues [OF s]]]
  show ?thesis by (simp add: write_legs_def)
qed

text \<open>C14: when a plan's stores are submitted, the completion queue gains exactly one acknowledgement per non-empty leg - the
  stream-ordered write-backs, the snapshot stores, the pinned write-backs - naming that leg's operations, and the event it
  waits for is done only after every copy and slot export of the leg, submitted by this call, has run.\<close>

theorem write_backs_acknowledged:
  assumes "submit_write_backs wo cache_ops prerequisite_stream fence_stream ex = (ex', Inr ())"
    and "collect_writes ex cache_ops = Inr wp"
    and "extends (hx_device ex') d" and "device_ok d" and "stream_order (dv_log d) executed"
  shows "\<exists>es. length es = length (write_legs wp) \<and> hx_completions ex' = hx_completions ex @ zip es (map fst (write_legs wp)) \<and>
    (\<forall>k < length (write_legs wp). event_done (dv_log d) executed (es ! k) \<longrightarrow>
       (\<forall>w \<in> set (snd (write_legs wp ! k)). \<exists>j \<in> executed. length (dv_log (hx_device ex)) \<le> j \<and> dv_log d ! j = (Write_stream, Work w)))"
proof -
  from submit_write_backs_queue [OF assms(1,2)] obtain es where es: "length es = length (write_legs wp)"
    "hx_completions ex' = hx_completions ex @ zip es (map fst (write_legs wp))"
    "\<And>k. k < length (write_legs wp) \<Longrightarrow> \<exists>d. ends_recording Write_stream (es ! k) d \<and>
       has_work Write_stream (snd (write_legs wp ! k)) (hx_device ex) d \<and> extends d (hx_device ex')"
    unfolding queues_def by blast
  have "\<exists>j \<in> executed. length (dv_log (hx_device ex)) \<le> j \<and> dv_log d ! j = (Write_stream, Work w)"
    if k: "k < length (write_legs wp)" and e: "event_done (dv_log d) executed (es ! k)" and w: "w \<in> set (snd (write_legs wp ! k))" for k w
  proof -
    from es(3) [OF k] obtain dk where dk: "ends_recording Write_stream (es ! k) dk"
      "has_work Write_stream (snd (write_legs wp ! k)) (hx_device ex) dk" "extends dk (hx_device ex')" by blast
    from dk(2) w obtain j where j: "length (dv_log (hx_device ex)) \<le> j" "j < length (dv_log dk)" "dv_log dk ! j = (Write_stream, Work w)" by (rule has_workE)
    have x: "extends dk d" by (rule extends_trans [OF dk(3) assms(3)])
    from recorded_done [OF dk(1) x assms(4,5) e j(2,3)] j extends_nth [OF x j(2)] show ?thesis by auto
  qed
  with es(1,2) show ?thesis by (intro exI [of _ es]) blast
qed

section \<open>An example\<close>

definition demo_executor :: host_executor where
  "demo_executor =
     \<lparr>hx_block_owners = Some \<lparr>ot_shard_counts = [1], ot_device_virtual_counts = [10], ot_host_virtual_counts = [10], ot_rank = 0\<rparr>,
      hx_snapshot_block_owners = Some \<lparr>ot_shard_counts = [1], ot_device_virtual_counts = [10], ot_host_virtual_counts = [4], ot_rank = 0\<rparr>,
      hx_max_retracted_requests = 2, hx_layer_slices = [(0, 4)], hx_num_field_rows = 4, hx_load_trackers = [(tracker_init 1, 1)],
      hx_device = \<lparr>dv_log = [], dv_next_event = 0\<rparr>, hx_metadata_done = (\<lambda>_. None), hx_completions = [], hx_load_poisoned = False, hx_ready_load_acks = []\<rparr>"

definition demo_batch :: page_batch where
  "demo_batch = \<lparr>pb_op_ids = [7], pb_group_ids = [[0]], pb_src_pages = [[3]], pb_dst_pages = [[2]]\<rparr>"

definition demo_stores :: "plan_op list" where
  "demo_stores = [Write_back_op demo_batch [False],
     Snapshot_op \<lparr>so_op_id = 9, so_request_id = ''r'', so_request_pool_index = 5, so_snapshot_slot = 1, so_transfers = []\<rparr>]"

definition demo_lane :: lane_outcomes where
  "demo_lane = \<lparr>la_fill = Launched, la_device_tables = True, la_upload = Launched, la_copy = Launched\<rparr>"

definition demo_write :: "host_executor \<times> unit result" where
  "demo_write = submit_write_backs \<lparr>wo_ordered = demo_lane, wo_snapshot = demo_lane, wo_exports = (\<lambda>_. Launched), wo_pinned = demo_lane\<rparr>
     demo_stores (Caller_stream 0) (Caller_stream 1) demo_executor"

definition demo_zeroing :: "work device" where
  "demo_zeroing = submit (Caller_stream 1) (Work (Caller_work 0)) (hx_device (fst demo_write))"

lemma demo_write_log: "dv_log demo_zeroing =
   [(Caller_stream 0, Record 0), (Write_stream, Wait 0), (Host_thread, Work (Fill_rows (Lane_table Ordered_write_lane) [(0, 3, 2)])),
    (Write_stream, Work (Upload_rows (Lane_table Ordered_write_lane) [(0, 3, 2)])), (Write_stream, Record 1),
    (Write_stream, Work (Copy_batch Ordered_write_lane [(0, 3, 2)])), (Write_stream, Record 2),
    (Caller_stream 0, Record 3), (Write_stream, Wait 3), (Write_stream, Work (Export_slot 5 1 ''r'')), (Write_stream, Record 4),
    (Caller_stream 1, Wait 4), (Caller_stream 1, Work (Caller_work 0))]"
  by code_simp

lemma demo_zeroing_ok:
  "device_ok demo_zeroing" "stream_order (dv_log demo_zeroing) {..<13}" "extends (hx_device (fst demo_write)) demo_zeroing"
proof -
  show "device_ok demo_zeroing" by code_simp
  have "stream_order (dv_log demo_zeroing) {..<length (dv_log demo_zeroing)}" by (rule stream_order_complete) code_simp
  moreover have "length (dv_log demo_zeroing) = 13" by code_simp
  ultimately show "stream_order (dv_log demo_zeroing) {..<13}" by simp
  show "extends (hx_device (fst demo_write)) demo_zeroing" unfolding demo_zeroing_def by (rule extends_submit)
qed

lemma demo_write_ends: "snd demo_write = Inr ()" "length (dv_log (hx_device (fst demo_write))) = 12"
  "collect_writes demo_executor demo_stores = Inr \<lparr>wp_ordered = ([7], [(0, 3, 2)]), wp_pinned = ([], []),
     wp_snapshot_ops = [\<lparr>so_op_id = 9, so_request_id = ''r'', so_request_pool_index = 5, so_snapshot_slot = 1, so_transfers = []\<rparr>],
     wp_snapshot_transfers = []\<rparr>"
  by code_simp+

theorem write_backs_fenced_witness:
  "snd (dv_log demo_zeroing ! 5) = Work (Copy_batch Ordered_write_lane [(0, 3, 2)]) \<and> fst (dv_log demo_zeroing ! 12) = Caller_stream 1 \<and> (5 :: nat) \<in> {..<13}"
proof -
  have run: "submit_write_backs \<lparr>wo_ordered = demo_lane, wo_snapshot = demo_lane, wo_exports = (\<lambda>_. Launched), wo_pinned = demo_lane\<rparr>
     demo_stores (Caller_stream 0) (Caller_stream 1) demo_executor = (fst demo_write, snd demo_write)" by (simp add: demo_write_def)
  have at: "snd (dv_log demo_zeroing ! 5) = Work (Copy_batch Ordered_write_lane [(0, 3, 2)])" "fst (dv_log demo_zeroing ! 12) = Caller_stream 1"
    by (simp_all add: demo_write_log)
  have "5 \<in> {..<13 :: nat}"
    by (rule write_backs_fenced [OF run demo_zeroing_ok(3,1,2) _ _ at(2) _ _ at(1)])
      (simp_all add: demo_write_ends demo_executor_def ordered_work_def)
  with at show ?thesis by simp
qed

theorem write_backs_acknowledged_witness:
  "\<exists>es. length es = 2 \<and> hx_completions (fst demo_write) = zip es [\<lparr>ak_kind = Ack_write_back, ak_op_ids = [7]\<rparr>, \<lparr>ak_kind = Ack_snapshot, ak_op_ids = [9]\<rparr>] \<and>
    (event_done (dv_log demo_zeroing) {..<13} (es ! 1) \<longrightarrow> (\<exists>j < 13. dv_log demo_zeroing ! j = (Write_stream, Work (Export_slot 5 1 ''r''))))"
proof -
  let ?wp = "\<lparr>wp_ordered = ([7], [(0, 3, 2)]), wp_pinned = ([], []),
     wp_snapshot_ops = [\<lparr>so_op_id = 9, so_request_id = ''r'', so_request_pool_index = 5, so_snapshot_slot = 1, so_transfers = []\<rparr>],
     wp_snapshot_transfers = []\<rparr>"
  have run: "submit_write_backs \<lparr>wo_ordered = demo_lane, wo_snapshot = demo_lane, wo_exports = (\<lambda>_. Launched), wo_pinned = demo_lane\<rparr>
     demo_stores (Caller_stream 0) (Caller_stream 1) demo_executor = (fst demo_write, Inr ())"
    using demo_write_ends(1) by (metis demo_write_def prod.collapse)
  have legs: "write_legs ?wp = [(\<lparr>ak_kind = Ack_write_back, ak_op_ids = [7]\<rparr>, [Copy_batch Ordered_write_lane [(0, 3, 2)]]),
    (\<lparr>ak_kind = Ack_snapshot, ak_op_ids = [9]\<rparr>, [Export_slot 5 1 ''r''])]" by code_simp
  obtain es where es: "length es = length (write_legs ?wp)" "hx_completions (fst demo_write) = hx_completions demo_executor @ zip es (map fst (write_legs ?wp))"
    "\<forall>k < length (write_legs ?wp). event_done (dv_log demo_zeroing) {..<13} (es ! k) \<longrightarrow>
       (\<forall>w \<in> set (snd (write_legs ?wp ! k)). \<exists>j \<in> {..<13}. length (dv_log (hx_device demo_executor)) \<le> j \<and> dv_log demo_zeroing ! j = (Write_stream, Work w))"
    using write_backs_acknowledged [OF run demo_write_ends(3) demo_zeroing_ok(3,1,2)] by blast
  show ?thesis
    using es(1,2) [unfolded legs] es(3) [unfolded legs, rule_format, of 1 "Export_slot 5 1 ''r''"]
    by (intro exI [of _ es]) (auto simp: demo_executor_def)
qed

end
