(* ===== verification/Executor_Loads.thy ===== *)
theory Executor_Loads
  imports Executor_Order
begin

text \<open>
  The load side of the Host cache executor: what arming the trackers and launching a load do to the event sets, that the
  consumers of a layer wait for its copy, and that a load workspace is refilled only after its earlier copies ran.
\<close>

section \<open>Event sets of the trackers\<close>

definition get_events :: "host_executor \<Rightarrow> nat \<Rightarrow> nat \<Rightarrow> load_events" where
  "get_events ex p i = lt_event_sets (fst (hx_load_trackers ex ! p)) ! i"

text \<open>Every tracker has its event sets, with one event per consumer.\<close>

definition trackers_ok :: "host_executor \<Rightarrow> bool" where
  "trackers_ok ex \<longleftrightarrow> (\<forall>p < length (hx_load_trackers ex).
     length (lt_event_sets (fst (hx_load_trackers ex ! p))) = NUM_LOAD_EVENT_SETS \<and>
     (\<forall>i < NUM_LOAD_EVENT_SETS. length (le_layer_done_events (get_events ex p i)) = snd (hx_load_trackers ex ! p)))"

definition slot_ok :: "host_executor \<Rightarrow> nat \<Rightarrow> nat \<Rightarrow> bool" where
  "slot_ok ex p i \<longleftrightarrow> p < length (hx_load_trackers ex) \<and> i < length (lt_event_sets (fst (hx_load_trackers ex ! p)))"

text \<open>What an update of the event sets keeps.\<close>

definition same_shape :: "host_executor \<Rightarrow> host_executor \<Rightarrow> bool" where
  "same_shape ex ex' \<longleftrightarrow> length (hx_load_trackers ex') = length (hx_load_trackers ex) \<and>
     (\<forall>p < length (hx_load_trackers ex). snd (hx_load_trackers ex' ! p) = snd (hx_load_trackers ex ! p) \<and>
        length (lt_event_sets (fst (hx_load_trackers ex' ! p))) = length (lt_event_sets (fst (hx_load_trackers ex ! p))) \<and>
        (\<forall>i < length (lt_event_sets (fst (hx_load_trackers ex ! p))).
           length (le_layer_done_events (get_events ex' p i)) = length (le_layer_done_events (get_events ex p i)))) \<and>
     hx_layer_slices ex' = hx_layer_slices ex \<and> hx_num_field_rows ex' = hx_num_field_rows ex"

lemma same_shape_refl [simp]: "same_shape ex ex"
  by (simp add: same_shape_def)

lemma same_shape_trans: "same_shape a b \<Longrightarrow> same_shape b c \<Longrightarrow> same_shape a c"
  by (simp add: same_shape_def)

lemma same_shape_slot: "same_shape ex ex' \<Longrightarrow> slot_ok ex' p i = slot_ok ex p i"
  by (auto simp: same_shape_def slot_ok_def)

lemma same_shape_trackers: "same_shape ex ex' \<Longrightarrow> trackers_ok ex \<Longrightarrow> trackers_ok ex'"
  by (simp add: same_shape_def trackers_ok_def)

lemma same_shape_device [simp]: "same_shape ex (ex\<lparr>hx_device := d\<rparr>)"
  by (simp add: same_shape_def get_events_def)

lemma get_events_device [simp]: "get_events (ex\<lparr>hx_device := d\<rparr>) p i = get_events ex p i"
  by (simp add: get_events_def)

lemma map_events_fields [simp]: "hx_device (map_events p i f ex) = hx_device ex" "hx_metadata_done (map_events p i f ex) = hx_metadata_done ex"
  "hx_completions (map_events p i f ex) = hx_completions ex" "hx_load_poisoned (map_events p i f ex) = hx_load_poisoned ex"
  by (simp_all add: map_events_def split: prod.split)

lemma get_events_map:
  assumes "slot_ok ex p i"
  shows "get_events (map_events p i f ex) p' i' = (if p' = p \<and> i' = i then f (get_events ex p i) else get_events ex p' i')"
proof (cases "p' = p")
  case True
  with assms show ?thesis
    by (simp add: map_events_def get_events_def slot_ok_def case_prod_unfold nth_list_update)
qed (simp add: map_events_def get_events_def case_prod_unfold)

lemma map_events_shape:
  assumes "slot_ok ex p i" "length (le_layer_done_events (f (get_events ex p i))) = length (le_layer_done_events (get_events ex p i))"
  shows "same_shape ex (map_events p i f ex)"
proof -
  have "length (le_layer_done_events (get_events (map_events p i f ex) p' i')) = length (le_layer_done_events (get_events ex p' i'))" for p' i'
    using assms(2) by (simp add: get_events_map [OF assms(1)])
  moreover have "length (lt_event_sets (fst (hx_load_trackers (map_events p i f ex) ! p'))) = length (lt_event_sets (fst (hx_load_trackers ex ! p')))"
    "snd (hx_load_trackers (map_events p i f ex) ! p') = snd (hx_load_trackers ex ! p')" for p'
    using assms(1) by (cases "p' = p"; simp add: map_events_def slot_ok_def case_prod_unfold)+
  moreover have "length (hx_load_trackers (map_events p i f ex)) = length (hx_load_trackers ex)"
    "hx_layer_slices (map_events p i f ex) = hx_layer_slices ex" "hx_num_field_rows (map_events p i f ex) = hx_num_field_rows ex"
    by (simp_all add: map_events_def case_prod_unfold)
  ultimately show ?thesis by (simp add: same_shape_def)
qed

section \<open>A layer behind its copy\<close>

text \<open>The event of a layer was recorded on the load stream after the given position of the log and the work there.\<close>

definition layer_fenced :: "host_executor \<Rightarrow> nat \<Rightarrow> nat \<Rightarrow> nat \<Rightarrow> nat \<times> work \<Rightarrow> bool" where
  "layer_fenced ex p i layer w \<longleftrightarrow> layer < length (le_layer_done_events (get_events ex p i)) \<and>
     (\<exists>e r. le_layer_done_events (get_events ex p i) ! layer = Some e \<and> r < length (dv_log (hx_device ex)) \<and>
        dv_log (hx_device ex) ! r = (Load_stream, Record e) \<and> fst w < r \<and> dv_log (hx_device ex) ! fst w = (Load_stream, Work (snd w)))"

lemma layer_fenced_mono:
  assumes "layer_fenced ex p i layer w" "extends (hx_device ex) (hx_device ex')"
    "le_layer_done_events (get_events ex' p i) = le_layer_done_events (get_events ex p i)"
  shows "layer_fenced ex' p i layer w"
proof -
  from assms(1) obtain e r where e: "layer < length (le_layer_done_events (get_events ex p i))"
    "le_layer_done_events (get_events ex p i) ! layer = Some e" "r < length (dv_log (hx_device ex))"
    "dv_log (hx_device ex) ! r = (Load_stream, Record e)" "fst w < r" "dv_log (hx_device ex) ! fst w = (Load_stream, Work (snd w))"
    unfolding layer_fenced_def by blast
  show ?thesis unfolding layer_fenced_def assms(3)
    using e extends_nth [OF assms(2), of r] extends_nth [OF assms(2), of "fst w"] extends_length [OF assms(2)]
    by (intro conjI exI [of _ e] exI [of _ r]) simp_all
qed

text \<open>A new recording at the end of the log fences everything already in it.\<close>

lemma layer_fenced_record:
  assumes "ends_recording Load_stream e (hx_device ex)" "layer < length (le_layer_done_events (get_events ex p i))"
    "le_layer_done_events (get_events ex p i) ! layer = Some e"
    "j < length (dv_log (hx_device ex))" "dv_log (hx_device ex) ! j = (Load_stream, Work w)"
  shows "layer_fenced ex p i layer (j, w)"
proof -
  obtain r where r: "length (dv_log (hx_device ex)) = Suc r" "dv_log (hx_device ex) ! r = (Load_stream, Record e)"
    using assms(1) by (rule ends_recording_nth)
  have "j < r" using assms(4,5) r by (cases "j = r") auto
  with r assms show ?thesis unfolding layer_fenced_def by (intro conjI exI [of _ e] exI [of _ r]) simp_all
qed

text \<open>The last event of a set was recorded on the load stream after position \<open>j\<close>; a tracker waits for that event
  before it takes the set again.\<close>

definition covers :: "host_executor \<Rightarrow> nat \<Rightarrow> nat \<Rightarrow> nat \<Rightarrow> bool" where
  "covers ex p i j \<longleftrightarrow> le_layer_done_events (get_events ex p i) \<noteq> [] \<and>
     (\<exists>e r. last (le_layer_done_events (get_events ex p i)) = Some e \<and> r < length (dv_log (hx_device ex)) \<and>
        dv_log (hx_device ex) ! r = (Load_stream, Record e) \<and> j < r)"

lemma covers_mono:
  assumes "covers ex p i j" "extends (hx_device ex) (hx_device ex')"
    "le_layer_done_events (get_events ex' p i) = le_layer_done_events (get_events ex p i)"
  shows "covers ex' p i j"
proof -
  from assms(1) obtain e r where e: "le_layer_done_events (get_events ex p i) \<noteq> []"
    "last (le_layer_done_events (get_events ex p i)) = Some e" "r < length (dv_log (hx_device ex))"
    "dv_log (hx_device ex) ! r = (Load_stream, Record e)" "j < r" unfolding covers_def by blast
  show ?thesis unfolding covers_def assms(3)
    using e extends_nth [OF assms(2), of r] extends_length [OF assms(2)] by (intro conjI exI [of _ e] exI [of _ r]) simp_all
qed

lemma covers_record:
  assumes "ends_recording Load_stream e (hx_device ex)" "le_layer_done_events (get_events ex p i) \<noteq> []"
    "last (le_layer_done_events (get_events ex p i)) = Some e" "Suc j < length (dv_log (hx_device ex))"
  shows "covers ex p i j"
proof -
  obtain r where r: "length (dv_log (hx_device ex)) = Suc r" "dv_log (hx_device ex) ! r = (Load_stream, Record e)"
    using assms(1) by (rule ends_recording_nth)
  with assms show ?thesis unfolding covers_def by (intro conjI exI [of _ e] exI [of _ r]) simp_all
qed

section \<open>Loading by layer\<close>

text \<open>Calls of a load: its rows, slices of them, and the flags of its workspace.\<close>

definition load_call :: "nat \<Rightarrow> transfer_row list \<Rightarrow> stream \<Rightarrow> work \<Rightarrow> bool" where
  "load_call workspace transfers s w \<longleftrightarrow> s = Load_stream \<and> ((\<exists>off n. w = Copy_slice workspace off n transfers) \<or>
     w = Upload_rows (Load_table workspace) transfers \<or> w = Zero_flags workspace \<or> w = Fill_flags workspace)"

text \<open>What launching part of a load keeps, whatever its outcome; the calls it adds satisfy \<open>P\<close>.\<close>

definition load_keeps :: "(stream \<Rightarrow> work \<Rightarrow> bool) \<Rightarrow> host_executor \<Rightarrow> host_executor \<Rightarrow> bool" where
  "load_keeps P ex ex' \<longleftrightarrow> same_shape ex ex' \<and>
     adds P (hx_device ex) (hx_device ex') \<and>
     (\<forall>p i layer w. slot_ok ex p i \<longrightarrow> layer_fenced ex p i layer w \<longrightarrow> layer_fenced ex' p i layer w) \<and>
     (\<forall>p i j. slot_ok ex p i \<longrightarrow> covers ex p i j \<longrightarrow> covers ex' p i j) \<and>
     hx_completions ex' = hx_completions ex \<and> hx_load_poisoned ex' = hx_load_poisoned ex \<and> hx_metadata_done ex' = hx_metadata_done ex"

lemma load_keeps_refl [simp]: "load_keeps P ex ex"
  by (simp add: load_keeps_def)

lemma load_keeps_length: "load_keeps P ex ex' \<Longrightarrow> length (dv_log (hx_device ex)) \<le> length (dv_log (hx_device ex'))"
  unfolding load_keeps_def by (blast intro: adds_length)

lemma load_keeps_mono: "load_keeps P ex ex' \<Longrightarrow> (\<And>s w. P s w \<Longrightarrow> Q s w) \<Longrightarrow> load_keeps Q ex ex'"
  unfolding load_keeps_def using adds_mono by blast

lemma load_keeps_trans:
  assumes "load_keeps P a b" "load_keeps P b c"
  shows "load_keeps P a c"
  using assms same_shape_trans [of a b c] adds_trans [of P "hx_device a" "hx_device b" "hx_device c"]
    same_shape_slot [of a b] by (auto simp: load_keeps_def)

lemma load_keeps_device:
  assumes "adds P (hx_device ex) d"
  shows "load_keeps P ex (ex\<lparr>hx_device := d\<rparr>)"
  using assms layer_fenced_mono [of ex _ _ _ _ "ex\<lparr>hx_device := d\<rparr>"] covers_mono [of ex _ _ _ "ex\<lparr>hx_device := d\<rparr>"]
    adds_extends [OF assms] by (simp add: load_keeps_def)

text \<open>An update of an event set that leaves each layer's event alone or sets it to one given event.\<close>

definition advances :: "nat \<Rightarrow> (load_events \<Rightarrow> load_events) \<Rightarrow> bool" where
  "advances e f \<longleftrightarrow> (\<forall>ev. length (le_layer_done_events (f ev)) = length (le_layer_done_events ev) \<and>
     (\<forall>l < length (le_layer_done_events ev). le_layer_done_events (f ev) ! l \<in> {le_layer_done_events ev ! l, Some e}))"

definition set_layer_event :: "nat \<Rightarrow> nat \<Rightarrow> load_events \<Rightarrow> load_events" where
  "set_layer_event layer e ev = ev\<lparr>le_layer_done_events := (le_layer_done_events ev)[layer := Some e]\<rparr>"

lemma advances_layer: "advances e (set_layer_event layer e)"
  unfolding advances_def set_layer_event_def by simp (metis nth_list_update_eq nth_list_update_neq)

lemma advances_completion: "advances e (set_completion e)"
  by (simp add: advances_def set_completion_def)

lemma advances_same: "(\<And>ev. le_layer_done_events (f ev) = le_layer_done_events ev) \<Longrightarrow> advances e f"
  by (simp add: advances_def)

lemma advance_cases:
  assumes "slot_ok ex p i" "advances e f" "l < length (le_layer_done_events (get_events ex p' i'))"
  shows "length (le_layer_done_events (get_events (map_events p i f ex) p' i')) = length (le_layer_done_events (get_events ex p' i'))"
    "le_layer_done_events (get_events (map_events p i f ex) p' i') ! l \<in> {le_layer_done_events (get_events ex p' i') ! l, Some e}"
  using assms(2,3) by (auto simp: get_events_map [OF assms(1)] advances_def)

lemma advance_fenced:
  assumes "slot_ok ex p i" "advances e f" "ends_recording Load_stream e (hx_device ex)" "layer_fenced ex p' i' l w"
  shows "layer_fenced (map_events p i f ex) p' i' l w"
proof -
  from assms(4) have l: "l < length (le_layer_done_events (get_events ex p' i'))" by (simp add: layer_fenced_def)
  note c = advance_cases [OF assms(1,2) l]
  from c(2) consider "le_layer_done_events (get_events (map_events p i f ex) p' i') ! l = Some e"
    | "le_layer_done_events (get_events (map_events p i f ex) p' i') ! l = le_layer_done_events (get_events ex p' i') ! l" by blast
  then show ?thesis
  proof cases
    case 1
    from assms(4) have "fst w < length (dv_log (hx_device ex))" "dv_log (hx_device ex) ! fst w = (Load_stream, Work (snd w))"
      unfolding layer_fenced_def by (meson less_trans)+
    with 1 l c(1) assms(3) have "layer_fenced (map_events p i f ex) p' i' l (fst w, snd w)" by (intro layer_fenced_record [of e]) simp_all
    then show ?thesis by simp
  next
    case 2
    with assms(4) c(1) show ?thesis by (simp add: layer_fenced_def)
  qed
qed

lemma advance_covers:
  assumes "slot_ok ex p i" "advances e f" "ends_recording Load_stream e (hx_device ex)" "covers ex p' i' j"
  shows "covers (map_events p i f ex) p' i' j"
proof -
  let ?old = "le_layer_done_events (get_events ex p' i')" and ?new = "le_layer_done_events (get_events (map_events p i f ex) p' i')"
  from assms(4) obtain e' r where c: "?old \<noteq> []" "r < length (dv_log (hx_device ex))" "j < r" unfolding covers_def by blast
  have l: "length ?old - 1 < length ?old" using c(1) by simp
  note d = advance_cases [OF assms(1,2) l]
  have ne: "?new \<noteq> []" using c(1) d(1) by (metis length_0_conv)
  have last: "last ?new = ?new ! (length ?old - 1)" "last ?old = ?old ! (length ?old - 1)"
    using last_conv_nth [OF ne] last_conv_nth [OF c(1)] d(1) by simp_all
  from d(2) consider "last ?new = Some e" | "last ?new = last ?old" unfolding last by blast
  then show ?thesis
  proof cases
    case 1
    with assms(3) ne c show ?thesis by (intro covers_record [of e]) simp_all
  next
    case 2
    with assms(4) ne show ?thesis by (simp add: covers_def)
  qed
qed

lemma advance_keeps:
  assumes "slot_ok ex p i" "advances e f" "ends_recording Load_stream e (hx_device ex)"
  shows "load_keeps P ex (map_events p i f ex)"
  using map_events_shape [OF assms(1), of f] advance_fenced [OF assms] advance_covers [OF assms] assms(2)
  by (simp add: load_keeps_def advances_def)

text \<open>Updates of other parts of an event set.\<close>

lemma other_update_keeps:
  assumes "slot_ok ex p i" "\<And>ev. le_layer_done_events (f ev) = le_layer_done_events ev"
  shows "load_keeps P ex (map_events p i f ex)"
proof -
  have "le_layer_done_events (get_events (map_events p i f ex) p' i') = le_layer_done_events (get_events ex p' i')" for p' i'
    by (simp add: get_events_map [OF assms(1)] assms(2))
  then show ?thesis using map_events_shape [OF assms(1), of f] assms(2) by (simp add: load_keeps_def layer_fenced_def covers_def)
qed

lemma load_keeps_slot: "load_keeps P ex ex' \<Longrightarrow> slot_ok ex' p i = slot_ok ex p i"
  by (simp add: load_keeps_def same_shape_slot)

lemma fold_keeps:
  assumes "\<And>p i n ex. (p, i, n) \<in> set xs \<Longrightarrow> slot_ok ex p i \<Longrightarrow> Q ex \<Longrightarrow> load_keeps P ex (g p i ex) \<and> Q (g p i ex)"
    and "\<forall>(p, i, n) \<in> set xs. slot_ok ex p i" and "Q ex"
  shows "load_keeps P ex (fold (\<lambda>(p, i, n). g p i) xs ex) \<and> Q (fold (\<lambda>(p, i, n). g p i) xs ex)"
  using assms
proof (induction xs arbitrary: ex)
  case (Cons x xs)
  obtain p i n where x: "x = (p, i, n)" by (cases x)
  have k: "load_keeps P ex (g p i ex)" "Q (g p i ex)" using Cons.prems x by auto
  have "load_keeps P (g p i ex) (fold (\<lambda>(p, i, n). g p i) xs (g p i ex)) \<and> Q (fold (\<lambda>(p, i, n). g p i) xs (g p i ex))"
    using Cons.prems k load_keeps_slot [OF k(1)] by (intro Cons.IH) auto
  with load_keeps_trans [OF k(1)] show ?case by (simp add: x)
qed simp

lemma completion_keeps:
  assumes "\<forall>(p, i, n) \<in> set actives. slot_ok ex p i" "ends_recording Load_stream e (hx_device ex)"
  shows "load_keeps P ex (map_active (set_completion e) actives ex)"
    "hx_device (map_active (set_completion e) actives ex) = hx_device ex"
proof -
  let ?Q = "\<lambda>ex'. hx_device ex' = hx_device ex"
  have "load_keeps P ex (map_active (set_completion e) actives ex) \<and> ?Q (map_active (set_completion e) actives ex)"
    unfolding map_active_def
    by (rule fold_keeps [where Q = ?Q]) (use assms advance_keeps [OF _ advances_completion] in auto)
  then show "load_keeps P ex (map_active (set_completion e) actives ex)"
    "hx_device (map_active (set_completion e) actives ex) = hx_device ex" by blast+
qed

lemma load_layers_step:
  assumes "load_layers lo workspace transfers flat ((p, i, layer) # steps) finish ex = (ex', r)" "slot_ok ex p i"
  shows "(\<exists>e. r = Inl e \<and> load_keeps (load_call workspace transfers) ex ex') \<or>
    (\<exists>ex1 e off n. load_layers lo workspace transfers (Suc flat) steps (Some e) ex1 = (ex', r) \<and> load_keeps (load_call workspace transfers) ex ex1 \<and>
       ends_recording Load_stream e (hx_device ex1) \<and> flat < length (hx_layer_slices ex) \<and> hx_layer_slices ex ! flat = (off, n) \<and>
       layer_fenced ex1 p i layer (length (dv_log (hx_device ex)), Copy_slice workspace off n transfers) \<and>
       layer < length (le_layer_done_events (get_events ex1 p i)) \<and> le_layer_done_events (get_events ex1 p i) ! layer = Some e \<and>
       (\<forall>q k. le_layer_ready_flags (get_events ex1 q k) = le_layer_ready_flags (get_events ex q k)))"
proof (cases "list_at (hx_layer_slices ex) (int flat)")
  case (Inl e)
  then show ?thesis using assms(1) by auto
next
  case (Inr s)
  obtain off n where s: "s = (off, n)" by (cases s)
  let ?w = "Copy_slice workspace off n transfers"
  have flat: "flat < length (hx_layer_slices ex)" "hx_layer_slices ex ! flat = (off, n)"
    using Inr by (auto simp: list_at_Inr_iff s)
  obtain d u where l: "launch_work (lo_copy lo flat) Load_stream ?w (hx_device ex) = (d, u)" by (metis surj_pair)
  have a: "adds (load_call workspace transfers) (hx_device ex) d"
    by (rule adds_launch [OF _ l]) (auto simp: load_call_def)
  show ?thesis
  proof (cases u)
    case (Inl e)
    then show ?thesis using assms(1) Inr l s load_keeps_device [OF a] by auto
  next
    case (Inr v)
    note d = launch_ok [OF l [unfolded Inr]]
    obtain d' e where rec: "record_event Load_stream d = (d', e)" by (metis surj_pair)
    have a': "adds (load_call workspace transfers) (hx_device ex) d'"
      using adds_trans [OF a adds_record' [OF rec]] .
    let ?ex = "ex\<lparr>hx_device := d'\<rparr>"
    have k: "load_keeps (load_call workspace transfers) ex ?ex" by (rule load_keeps_device [OF a'])
    have e: "ends_recording Load_stream e (hx_device ?ex)" using ends_recording_record [OF rec] by simp
    have so: "slot_ok ?ex p i" using assms(2) by (simp add: slot_ok_def)
    show ?thesis
    proof (cases "layer \<ge> length (le_layer_done_events (get_events ex p i))")
      case True
      then show ?thesis using assms(1) \<open>list_at (hx_layer_slices ex) (int flat) = Inr s\<close> l s Inr rec k by (auto simp: get_events_def)
    next
      case False
      let ?ex1 = "map_events p i (set_layer_event layer e) ?ex"
      have "load_layers lo workspace transfers (Suc flat) steps (Some e) ?ex1 = (ex', r)"
        using assms(1) \<open>list_at (hx_layer_slices ex) (int flat) = Inr s\<close> l s Inr rec False
        by (simp add: get_events_def set_layer_event_def [abs_def])
      moreover have "load_keeps (load_call workspace transfers) ex ?ex1" by (rule load_keeps_trans [OF k advance_keeps [OF so advances_layer e]])
      moreover have "layer_fenced ?ex1 p i layer (length (dv_log (hx_device ex)), ?w)"
      proof (rule layer_fenced_record [of e])
        show "dv_log (hx_device ?ex1) ! length (dv_log (hx_device ex)) = (Load_stream, Work ?w)"
          using rec by (auto simp: d record_event_def submit_def nth_append)
        show "length (dv_log (hx_device ex)) < length (dv_log (hx_device ?ex1))"
          using rec by (auto simp: d record_event_def submit_def)
      qed (use e False so in \<open>simp_all add: get_events_map set_layer_event_def\<close>)
      moreover have "layer < length (le_layer_done_events (get_events ?ex1 p i))" "le_layer_done_events (get_events ?ex1 p i) ! layer = Some e"
        using False so by (simp_all add: get_events_map set_layer_event_def)
      moreover have "le_layer_ready_flags (get_events ?ex1 q k) = le_layer_ready_flags (get_events ex q k)" for q k
        by (simp add: get_events_map [OF so] set_layer_event_def)
      ultimately show ?thesis
        using flat e by (intro disjI2 exI [of _ ?ex1] exI [of _ e] exI [of _ off] exI [of _ n]) (simp del: load_layers.simps)
    qed
  qed
qed

lemma load_layers_keeps:
  assumes "load_layers lo workspace transfers flat steps finish ex = (ex', r)" "\<forall>(p, i, layer) \<in> set steps. slot_ok ex p i"
  shows "load_keeps (load_call workspace transfers) ex ex'"
  using assms
proof (induction steps arbitrary: flat finish ex)
  case (Cons x steps)
  obtain p i layer where x: "x = (p, i, layer)" by (cases x)
  have so: "slot_ok ex p i" using Cons.prems(2) x by simp
  from load_layers_step [OF Cons.prems(1) [unfolded x] so] show ?case
  proof (elim disjE exE conjE)
    fix ex1 e off n
    assume l: "load_layers lo workspace transfers (Suc flat) steps (Some e) ex1 = (ex', r)" and k: "load_keeps (load_call workspace transfers) ex ex1"
    have "\<forall>(p, i, layer) \<in> set steps. slot_ok ex1 p i"
      using Cons.prems(2) same_shape_slot [of ex ex1] k by (auto simp: load_keeps_def)
    from Cons.IH [OF l this] show ?thesis by (rule load_keeps_trans [OF k])
  qed
qed simp

lemma load_layers_fenced:
  assumes "load_layers lo workspace transfers flat steps finish ex = (ex', Inr finish')" "\<forall>(p, i, layer) \<in> set steps. slot_ok ex p i"
    and "k < length steps" "steps ! k = (p, i, layer)"
  shows "flat + k < length (hx_layer_slices ex) \<and>
    (\<exists>j \<ge> length (dv_log (hx_device ex)). layer_fenced ex' p i layer
       (j, Copy_slice workspace (fst (hx_layer_slices ex ! (flat + k))) (snd (hx_layer_slices ex ! (flat + k))) transfers))"
  using assms
proof (induction steps arbitrary: flat finish ex k)
  case (Cons x steps)
  obtain p0 i0 l0 where x: "x = (p0, i0, l0)" by (cases x)
  have so: "slot_ok ex p0 i0" using Cons.prems(2) x by simp
  from load_layers_step [OF Cons.prems(1) [unfolded x] so] obtain ex1 e off n where
    l: "load_layers lo workspace transfers (Suc flat) steps (Some e) ex1 = (ex', Inr finish')" and keep: "load_keeps (load_call workspace transfers) ex ex1"
    and flat: "flat < length (hx_layer_slices ex)" "hx_layer_slices ex ! flat = (off, n)"
    and f: "layer_fenced ex1 p0 i0 l0 (length (dv_log (hx_device ex)), Copy_slice workspace off n transfers)" by auto
  have so1: "\<forall>(p, i, layer) \<in> set steps. slot_ok ex1 p i"
    using Cons.prems(2) same_shape_slot [of ex ex1] keep by (auto simp: load_keeps_def)
  have s: "hx_layer_slices ex1 = hx_layer_slices ex" using keep by (simp add: load_keeps_def same_shape_def)
  show ?case
  proof (cases k)
    case 0
    have "slot_ok ex1 p0 i0" using so keep same_shape_slot [of ex ex1] by (simp add: load_keeps_def)
    with load_layers_keeps [OF l so1] f have "layer_fenced ex' p0 i0 l0 (length (dv_log (hx_device ex)), Copy_slice workspace off n transfers)"
      by (simp add: load_keeps_def)
    then show ?thesis using 0 Cons.prems(4) x flat by auto
  next
    case (Suc k')
    have "length (dv_log (hx_device ex)) \<le> length (dv_log (hx_device ex1))" using load_keeps_length [OF keep] .
    then show ?thesis using Suc Cons.IH [OF l so1, of k'] Cons.prems(3,4) s by (auto intro: order_trans)
  qed
qed simp

lemma load_layers_finish:
  assumes "load_layers lo workspace transfers flat steps finish ex = (ex', Inr finish')" "\<forall>(p, i, layer) \<in> set steps. slot_ok ex p i"
  shows "(steps = [] \<and> finish' = finish) \<or> (\<exists>e. finish' = Some e \<and> ends_recording Load_stream e (hx_device ex'))"
  using assms
proof (induction steps arbitrary: flat finish ex)
  case (Cons x steps)
  obtain p0 i0 l0 where x: "x = (p0, i0, l0)" by (cases x)
  have so: "slot_ok ex p0 i0" using Cons.prems(2) x by simp
  from load_layers_step [OF Cons.prems(1) [unfolded x] so] obtain ex1 e where
    l: "load_layers lo workspace transfers (Suc flat) steps (Some e) ex1 = (ex', Inr finish')" and keep: "load_keeps (load_call workspace transfers) ex ex1"
    and e: "ends_recording Load_stream e (hx_device ex1)" by auto
  have so1: "\<forall>(p, i, layer) \<in> set steps. slot_ok ex1 p i"
    using Cons.prems(2) same_shape_slot [of ex ex1] keep by (auto simp: load_keeps_def)
  from Cons.IH [OF l so1] show ?case
  proof
    assume "steps = [] \<and> finish' = Some e"
    moreover from this l have "ex' = ex1" by simp
    ultimately show ?thesis using e by blast
  qed blast
qed simp

lemma load_layers_flags:
  assumes "load_layers lo workspace transfers flat steps finish ex = (ex', Inr finish')" "\<forall>(p, i, layer) \<in> set steps. slot_ok ex p i"
  shows "le_layer_ready_flags (get_events ex' q k) = le_layer_ready_flags (get_events ex q k)"
  using assms
proof (induction steps arbitrary: flat finish ex)
  case (Cons x steps)
  obtain p0 i0 l0 where x: "x = (p0, i0, l0)" by (cases x)
  have so: "slot_ok ex p0 i0" using Cons.prems(2) x by simp
  from load_layers_step [OF Cons.prems(1) [unfolded x] so] obtain ex1 e where
    l: "load_layers lo workspace transfers (Suc flat) steps (Some e) ex1 = (ex', Inr finish')" and keep: "load_keeps (load_call workspace transfers) ex ex1"
    and f: "\<forall>q k. le_layer_ready_flags (get_events ex1 q k) = le_layer_ready_flags (get_events ex q k)" by auto
  have "\<forall>(p, i, layer) \<in> set steps. slot_ok ex1 p i"
    using Cons.prems(2) same_shape_slot [of ex ex1] keep by (auto simp: load_keeps_def)
  from Cons.IH [OF l this] f show ?case by simp
qed simp

lemma load_layers_last:
  assumes "load_layers lo workspace transfers flat (xs @ [(p, i, layer)]) finish ex = (ex', Inr finish')"
    "\<forall>(p, i, layer) \<in> set (xs @ [(p, i, layer)]). slot_ok ex p i"
  shows "\<exists>e. layer < length (le_layer_done_events (get_events ex' p i)) \<and> le_layer_done_events (get_events ex' p i) ! layer = Some e \<and>
    ends_recording Load_stream e (hx_device ex')"
  using assms
proof (induction xs arbitrary: flat finish ex)
  case Nil
  have so: "slot_ok ex p i" using Nil.prems(2) by simp
  from load_layers_step [OF Nil.prems(1) [unfolded append_Nil] so] show ?case by auto
next
  case (Cons x xs)
  obtain p0 i0 l0 where x: "x = (p0, i0, l0)" by (cases x)
  have so: "slot_ok ex p0 i0" using Cons.prems(2) x by simp
  from load_layers_step [OF Cons.prems(1) [unfolded x append_Cons] so] obtain ex1 e where
    l: "load_layers lo workspace transfers (Suc flat) (xs @ [(p, i, layer)]) (Some e) ex1 = (ex', Inr finish')" and keep: "load_keeps (load_call workspace transfers) ex ex1"
    by auto
  have "\<forall>(p, i, layer) \<in> set (xs @ [(p, i, layer)]). slot_ok ex1 p i"
    using Cons.prems(2) same_shape_slot [of ex ex1] keep by (auto simp: load_keeps_def)
  from Cons.IH [OF l this] show ?case .
qed

section \<open>Work the host has waited for\<close>

text \<open>Position \<open>j\<close> of a stream is behind an event the host has synchronised with.\<close>

definition settled :: "work device \<Rightarrow> stream \<Rightarrow> nat \<Rightarrow> bool" where
  "settled d s j \<longleftrightarrow> (\<exists>r k e. j < r \<and> r < length (dv_log d) \<and> dv_log d ! r = (s, Record e) \<and>
     k < length (dv_log d) \<and> dv_log d ! k = (Host_thread, Wait e))"

lemma settled_mono:
  assumes "settled d s j" "extends d d'"
  shows "settled d' s j"
proof -
  from assms(1) obtain r k e where e: "j < r" "r < length (dv_log d)" "dv_log d ! r = (s, Record e)"
    "k < length (dv_log d)" "dv_log d ! k = (Host_thread, Wait e)" unfolding settled_def by blast
  then show ?thesis unfolding settled_def
    using extends_nth [OF assms(2), of r] extends_nth [OF assms(2), of k] extends_length [OF assms(2)]
    by (intro exI [of _ r] exI [of _ k] exI [of _ e]) simp
qed

lemma settled_synchronize:
  assumes "j < r" "r < length (dv_log d)" "dv_log d ! r = (s, Record e)"
  shows "settled (synchronize_event (Some e) d) s j"
  unfolding settled_def using assms
  by (intro exI [of _ r] exI [of _ "length (dv_log d)"] exI [of _ e]) (simp add: synchronize_event_def wait_event_def submit_def nth_append)

lemma settled_stream:
  assumes "j < length (dv_log d)"
  shows "settled (synchronize_stream s d) s j"
  unfolding settled_def using assms
  by (intro exI [of _ "length (dv_log d)"] exI [of _ "Suc (length (dv_log d))"] exI [of _ "dv_next_event d"])
    (simp add: synchronize_stream_def wait_stream_def record_event_def submit_def nth_append)

section \<open>Arming the trackers\<close>

text \<open>Arming takes event sets, synchronises with their last events and records start events; it submits no work and
  leaves the layer events alone.\<close>

definition no_call :: "stream \<Rightarrow> work \<Rightarrow> bool" where
  "no_call s w \<longleftrightarrow> False"

definition waited :: "nat option \<Rightarrow> work device \<Rightarrow> bool" where
  "waited event d \<longleftrightarrow> (case event of None \<Rightarrow> True | Some e \<Rightarrow> (\<exists>k < length (dv_log d). dv_log d ! k = (Host_thread, Wait e)))"

lemma waited_mono:
  assumes "waited event d" "extends d d'"
  shows "waited event d'"
proof (cases event)
  case (Some e)
  with assms(1) obtain k where "k < length (dv_log d)" "dv_log d ! k = (Host_thread, Wait e)" by (auto simp: waited_def)
  then show ?thesis using Some extends_nth [OF assms(2), of k] extends_length [OF assms(2)] by (auto simp: waited_def intro!: exI [of _ k])
qed (simp add: waited_def)

lemma waited_synchronize: "waited event (synchronize_event event d)"
proof (cases event)
  case (Some e)
  then show ?thesis by (simp add: waited_def synchronize_event_def wait_event_def submit_def) (rule exI [of _ "length (dv_log d)"], simp)
qed (simp add: waited_def)

definition arm_ok :: "host_executor \<Rightarrow> arming \<Rightarrow> bool" where
  "arm_ok ex a \<longleftrightarrow> load_keeps no_call ex (am_exec a) \<and>
     (\<forall>p i. le_layer_done_events (get_events (am_exec a) p i) = le_layer_done_events (get_events ex p i)) \<and>
     (\<forall>p. snd (hx_load_trackers (am_exec a) ! p) = snd (hx_load_trackers ex ! p)) \<and>
     (\<forall>(p, i, n) \<in> set (am_active a). slot_ok ex p i \<and> n = snd (hx_load_trackers ex ! p) \<and>
        le_layer_done_events (get_events ex p i) \<noteq> [] \<and> waited (last (le_layer_done_events (get_events ex p i))) (hx_device (am_exec a)))"

lemma arm_okD:
  assumes "arm_ok ex a"
  shows "load_keeps no_call ex (am_exec a)"
    "le_layer_done_events (get_events (am_exec a) p i) = le_layer_done_events (get_events ex p i)"
    "snd (hx_load_trackers (am_exec a) ! p) = snd (hx_load_trackers ex ! p)"
    "(p, i, n) \<in> set (am_active a) \<Longrightarrow> slot_ok ex p i \<and> n = snd (hx_load_trackers ex ! p) \<and>
       le_layer_done_events (get_events ex p i) \<noteq> [] \<and> waited (last (le_layer_done_events (get_events ex p i))) (hx_device (am_exec a))"
  using assms unfolding arm_ok_def by blast+

lemma take_set_keeps:
  fixes ex :: host_executor and tr' :: load_tracker
  assumes "p < length (hx_load_trackers ex)" "lt_event_sets tr' = lt_event_sets (fst (hx_load_trackers ex ! p))"
    "ex' = ex\<lparr>hx_load_trackers := (hx_load_trackers ex)[p := (tr', snd (hx_load_trackers ex ! p))]\<rparr>"
  shows "load_keeps P ex ex'" "get_events ex' q i = get_events ex q i"
    "snd (hx_load_trackers ex' ! q) = snd (hx_load_trackers ex ! q)" "slot_ok ex' q i = slot_ok ex q i"
proof -
  have g: "get_events ex' q i = get_events ex q i" for q i
    using assms by (cases "q = p") (simp_all add: get_events_def)
  have n: "snd (hx_load_trackers ex' ! q) = snd (hx_load_trackers ex ! q)"
    "length (lt_event_sets (fst (hx_load_trackers ex' ! q))) = length (lt_event_sets (fst (hx_load_trackers ex ! q)))" for q
    using assms by (cases "q = p"; simp)+
  show "get_events ex' q i = get_events ex q i" "snd (hx_load_trackers ex' ! q) = snd (hx_load_trackers ex ! q)" by (rule g, rule n)
  show "slot_ok ex' q i = slot_ok ex q i" using n(2) by (simp add: slot_ok_def assms(3))
  have "same_shape ex ex'" using n g by (simp add: same_shape_def assms(3))
  then show "load_keeps P ex ex'"
    by (simp add: load_keeps_def layer_fenced_def covers_def g) (simp add: assms(3))
qed

lemma arm_tracker_ok:
  assumes ok: "trackers_ok ex" "arm_ok ex a" and p: "p < length (hx_load_trackers ex)" and arm: "arm_tracker s p a = (a', r)"
  shows "arm_ok ex a' \<and> (r = Inr () \<longrightarrow> (\<exists>i. am_load_index a' = Some i \<and> am_load_index a \<in> {None, Some i} \<and>
    am_active a' = am_active a @ [(p, i, snd (hx_load_trackers ex ! p))]))"
proof -
  let ?n = "snd (hx_load_trackers ex ! p)"
  have sh: "same_shape ex (am_exec a)" using arm_okD(1) [OF ok(2)] by (simp add: load_keeps_def)
  have len: "length (hx_load_trackers (am_exec a)) = length (hx_load_trackers ex)" using sh by (simp add: same_shape_def)
  have pa: "p < length (hx_load_trackers (am_exec a))" using p len by simp
  obtain tr where tr: "hx_load_trackers (am_exec a) ! p = (tr, ?n)" using arm_okD(3) [OF ok(2), of p] by (metis prod.collapse)
  have "length (lt_event_sets (fst (hx_load_trackers (am_exec a) ! p))) = NUM_LOAD_EVENT_SETS"
    using same_shape_trackers [OF sh ok(1)] pa unfolding trackers_ok_def by blast
  then have sets: "length (lt_event_sets tr) = NUM_LOAD_EVENT_SETS" by (simp add: tr)
  then have ne: "lt_event_sets tr \<noteq> []" by (auto simp: NUM_LOAD_EVENT_SETS_def)
  show ?thesis
  proof (cases "begin_load tr (hx_device (am_exec a))")
    case (Inl e)
    then show ?thesis using arm ok(2) tr by (auto simp: arm_tracker_def)
  next
    case (Inr x)
    obtain tr' d0 i where x: "x = (tr', d0, i)" by (cases x)
    note b = begin_load_Inr [OF Inr [unfolded x] ne]
    let ?ex0 = "(am_exec a)\<lparr>hx_load_trackers := (hx_load_trackers (am_exec a))[p := (tr', ?n)]\<rparr>"
    let ?ex1 = "?ex0\<lparr>hx_device := d0\<rparr>"
    have T: "load_keeps no_call (am_exec a) ?ex0" "get_events ?ex0 q k = get_events (am_exec a) q k"
      "snd (hx_load_trackers ?ex0 ! q) = snd (hx_load_trackers (am_exec a) ! q)" "slot_ok ?ex0 q k = slot_ok (am_exec a) q k" for q k
      using take_set_keeps [of p "am_exec a" tr' ?ex0] pa tr b(2) by simp_all
    have k1: "load_keeps no_call ?ex0 ?ex1" by (rule load_keeps_device) (simp add: b(4) adds_synchronize)
    note keep = load_keeps_trans [OF load_keeps_trans [OF arm_okD(1) [OF ok(2)] T(1)] k1]
    have ev: "get_events (am_exec a) p i = lt_event_sets tr ! i" by (simp add: get_events_def tr)
    have slot: "slot_ok (am_exec a) p i" using pa b(1) tr by (simp add: slot_ok_def)
    have slot0: "slot_ok ex p i" using slot same_shape_slot [OF sh] by simp
    let ?a1 = "a\<lparr>am_exec := ?ex1, am_active := am_active a @ [(p, i, ?n)]\<rparr>"
    have le: "le_layer_done_events (lt_event_sets tr ! i) = le_layer_done_events (get_events ex p i)"
      using arm_okD(2) [OF ok(2), of p i] ev by simp
    have new: "le_layer_done_events (get_events ex p i) \<noteq> []" "waited (last (le_layer_done_events (get_events ex p i))) d0"
      using b(3,4) waited_synchronize unfolding le by simp_all
    have x0: "extends (hx_device (am_exec a)) d0" unfolding b(4) by (rule adds_extends [OF adds_synchronize(1)])
    have a1: "arm_ok ex ?a1"
      unfolding arm_ok_def
    proof (intro conjI allI)
      show "load_keeps no_call ex (am_exec ?a1)" using keep by simp
      show "le_layer_done_events (get_events (am_exec ?a1) q k) = le_layer_done_events (get_events ex q k)" for q k
        using T(2) [of q k] arm_okD(2) [OF ok(2), of q k] by simp
      show "snd (hx_load_trackers (am_exec ?a1) ! q) = snd (hx_load_trackers ex ! q)" for q
        using T(3) [of q] arm_okD(3) [OF ok(2), of q] by simp
      show "\<forall>(q, k, n) \<in> set (am_active ?a1). slot_ok ex q k \<and> n = snd (hx_load_trackers ex ! q) \<and>
          le_layer_done_events (get_events ex q k) \<noteq> [] \<and> waited (last (le_layer_done_events (get_events ex q k))) (hx_device (am_exec ?a1))"
        using slot0 new arm_okD(4) [OF ok(2)] waited_mono [OF _ x0] by auto
    qed
    show ?thesis
    proof (cases "am_load_index a \<noteq> None \<and> am_load_index a \<noteq> Some i")
      case True
      then have "a' = ?a1" "r = Inl (RuntimeError ''target and draft Host-load trackers diverged'')"
        using arm Inr x tr by (auto simp: arm_tracker_def Let_def)
      then show ?thesis using a1 by simp
    next
      case False
      obtain d start where rec: "record_event s (hx_device ?ex1) = (d, start)" by (metis surj_pair)
      let ?f = "\<lambda>ev. ev\<lparr>le_start_event := Some start\<rparr>"
      let ?ex2 = "?ex0\<lparr>hx_device := wait_event Load_stream (Some start) d\<rparr>"
      have a': "a' = ?a1\<lparr>am_load_index := Some i, am_exec := map_events p i ?f ?ex2\<rparr>" "r = Inr ()"
        using arm Inr x tr rec False by (auto simp: arm_tracker_def Let_def)
      have ad: "adds no_call (hx_device ?ex1) (wait_event Load_stream (Some start) d)" by (rule adds_trans [OF adds_record' [OF rec] adds_wait])
      then have k2: "load_keeps no_call ?ex1 ?ex2" using load_keeps_device [OF ad] by simp
      have so: "slot_ok ?ex2 p i" using slot T(4) [of p i] by (simp add: slot_ok_def)
      have k3: "load_keeps no_call ?ex2 (map_events p i ?f ?ex2)" by (rule other_update_keeps [OF so]) simp
      have k: "load_keeps no_call ex (am_exec a')"
        unfolding a' using load_keeps_trans [OF load_keeps_trans [OF keep k2] k3] by simp
      have e: "le_layer_done_events (get_events (am_exec a') q k) = le_layer_done_events (get_events ex q k)" for q k
        using T(2) [of q k] T(2) [of p i] arm_okD(2) [OF ok(2), of q k] arm_okD(2) [OF ok(2), of p i] by (simp add: a' get_events_map [OF so])
      have n: "snd (hx_load_trackers (am_exec a') ! q) = snd (hx_load_trackers ex ! q)" for q
        using T(3) [of q] arm_okD(3) [OF ok(2), of q] p pa
        by (cases "q = p") (simp_all add: a' map_events_def case_prod_unfold)
      have x: "extends (hx_device (am_exec ?a1)) (hx_device (am_exec a'))" using adds_extends [OF ad] by (simp add: a')
      have w: "slot_ok ex q k \<and> m = snd (hx_load_trackers ex ! q) \<and> le_layer_done_events (get_events ex q k) \<noteq> [] \<and>
          waited (last (le_layer_done_events (get_events ex q k))) (hx_device (am_exec a'))" if "(q, k, m) \<in> set (am_active a')" for q k m
      proof -
        have "(q, k, m) \<in> set (am_active ?a1)" using that by (simp add: a')
        from arm_okD(4) [OF a1 this] show ?thesis using waited_mono [OF _ x] by blast
      qed
      then have w': "\<forall>(q, k, m) \<in> set (am_active a'). slot_ok ex q k \<and> m = snd (hx_load_trackers ex ! q) \<and> le_layer_done_events (get_events ex q k) \<noteq> [] \<and>
          waited (last (le_layer_done_events (get_events ex q k))) (hx_device (am_exec a'))" by blast
      have "arm_ok ex a'" unfolding arm_ok_def by (intro conjI allI k e n w')
      moreover have "am_load_index a \<in> {None, Some i}" using False by blast
      ultimately show ?thesis by (simp add: a')
    qed
  qed
qed

lemma arm_trackers_ok:
  assumes "trackers_ok ex" "arm_ok ex a" "\<forall>p \<in> set ps. p < length (hx_load_trackers ex)" "arm_trackers s ps a = (a', r)"
  shows "arm_ok ex a' \<and> (r = Inr () \<longrightarrow> (ps = [] \<and> a' = a) \<or>
    (\<exists>i. am_load_index a' = Some i \<and> am_load_index a \<in> {None, Some i} \<and>
       am_active a' = am_active a @ map (\<lambda>p. (p, i, snd (hx_load_trackers ex ! p))) ps))"
  using assms
proof (induction ps arbitrary: a)
  case (Cons p ps)
  obtain a1 u where s: "arm_tracker s p a = (a1, u)" by (metis surj_pair)
  have p: "p < length (hx_load_trackers ex)" using Cons.prems(3) by simp
  note o = arm_tracker_ok [OF Cons.prems(1,2) p s]
  show ?case
  proof (cases u)
    case (Inl e)
    then show ?thesis using Cons.prems(4) s o by auto
  next
    case (Inr v)
    then have rest: "arm_trackers s ps a1 = (a', r)" using Cons.prems(4) s by simp
    from o Inr obtain i where i: "am_load_index a1 = Some i" "am_load_index a \<in> {None, Some i}"
      "am_active a1 = am_active a @ [(p, i, snd (hx_load_trackers ex ! p))]" by auto
    have "arm_ok ex a1" using o by blast
    from Cons.IH [OF Cons.prems(1) this _ rest] Cons.prems(3) i show ?thesis by auto
  qed
qed simp

section \<open>The outcome of a load\<close>

lemma announce_flags_keeps:
  assumes "\<forall>(p, i, n) \<in> set actives. slot_ok ex p i"
  shows "load_keeps P ex (announce_flags actives ex)"
  using assms
proof (induction actives arbitrary: ex)
  case (Cons x actives)
  obtain p i n where x: "x = (p, i, n)" by (cases x)
  obtain d e where r: "record_event Load_stream (hx_device ex) = (d, e)" by (metis surj_pair)
  let ?ex1 = "ex\<lparr>hx_device := d\<rparr>" and ?f = "\<lambda>ev. ev\<lparr>le_layer_ready_init_event := Some e\<rparr>"
  have "adds P (hx_device ex) d" by (rule adds_record' [OF r])
  then have k1: "load_keeps P ex ?ex1" by (rule load_keeps_device)
  have "slot_ok ?ex1 p i" using Cons.prems x by (simp add: slot_ok_def)
  then have "load_keeps P ?ex1 (map_events p i ?f ?ex1)" by (rule other_update_keeps) simp
  note k2 = load_keeps_trans [OF k1 this]
  have "load_keeps P (map_events p i ?f ?ex1) (announce_flags actives (map_events p i ?f ?ex1))"
    using Cons.prems load_keeps_slot [OF k2] by (intro Cons.IH) auto
  with load_keeps_trans [OF k2] show ?case by (simp add: x r)
qed simp

lemma bind_flags_keeps:
  assumes "\<forall>(p, i, n) \<in> set actives. slot_ok ex p i"
  shows "load_keeps P ex (bind_flags w off actives ex) \<and> hx_device (bind_flags w off actives ex) = hx_device ex"
  using assms
proof (induction actives arbitrary: ex off)
  case (Cons x actives)
  obtain p i n where x: "x = (p, i, n)" by (cases x)
  let ?f = "\<lambda>ev. ev\<lparr>le_layer_ready_flags := Some (w, off, int n), le_wait_layer_ready := True\<rparr>"
  have k: "load_keeps P ex (map_events p i ?f ex)"
    using Cons.prems x by (intro other_update_keeps) auto
  have "load_keeps P (map_events p i ?f ex) (bind_flags w (off + int n) actives (map_events p i ?f ex)) \<and>
      hx_device (bind_flags w (off + int n) actives (map_events p i ?f ex)) = hx_device (map_events p i ?f ex)"
    using Cons.prems load_keeps_slot [OF k] by (intro Cons.IH) auto
  with load_keeps_trans [OF k] show ?case by (simp add: x)
qed simp

text \<open>The executor right before the one launch of the flags path.\<close>

definition flags_ready :: "nat \<Rightarrow> active list \<Rightarrow> host_executor \<Rightarrow> host_executor" where
  "flags_ready workspace actives ex = bind_flags workspace 0 actives (announce_flags actives ex)"

lemma flags_ready_keeps:
  assumes "\<forall>(p, i, n) \<in> set actives. slot_ok ex p i"
  shows "load_keeps P ex (flags_ready workspace actives ex)"
proof -
  note k = announce_flags_keeps [OF assms, of P]
  have "\<forall>(p, i, n) \<in> set actives. slot_ok (announce_flags actives ex) p i" using assms load_keeps_slot [OF k] by auto
  from bind_flags_keeps [OF this] load_keeps_trans [OF k] show ?thesis unfolding flags_ready_def by blast
qed

text \<open>A launched load: it keeps what earlier loads set up, and on success its completion event is the last call and the last
  event of every set it took.\<close>

lemma load_with_flags_ok:
  assumes "load_with_flags lo workspace transfers actives ex = (ex', r)" "\<forall>(p, i, n) \<in> set actives. slot_ok ex p i"
  shows "load_keeps (load_call workspace transfers) ex ex'"
    "r = Inr finish \<Longrightarrow> \<exists>e d. finish = Some e \<and> ends_recording Load_stream e (hx_device ex') \<and>
       ex' = map_active (set_completion e) actives ((flags_ready workspace actives ex)\<lparr>hx_device := d\<rparr>)"
proof -
  let ?ex2 = "flags_ready workspace actives ex" and ?w = "Copy_slice workspace 0 (hx_num_field_rows ex) transfers"
  note k = flags_ready_keeps [OF assms(2), of "load_call workspace transfers"]
  obtain d u where l: "launch_work (lo_copy lo 0) Load_stream ?w (hx_device ?ex2) = (d, u)" by (metis surj_pair)
  have a: "adds (load_call workspace transfers) (hx_device ?ex2) d" by (rule adds_launch [OF _ l]) (simp add: load_call_def)
  obtain d' e where rec: "record_event Load_stream d = (d', e)" by (metis surj_pair)
  have a': "adds (load_call workspace transfers) (hx_device ?ex2) d'"
    using adds_trans [OF a adds_record [of _ d Load_stream]] rec by simp
  note k' = load_keeps_trans [OF k load_keeps_device [OF a']]
  have so: "\<forall>(p, i, n) \<in> set actives. slot_ok (?ex2\<lparr>hx_device := d'\<rparr>) p i" using assms(2) load_keeps_slot [OF k'] by auto
  have en: "ends_recording Load_stream e (hx_device (?ex2\<lparr>hx_device := d'\<rparr>))" using ends_recording_record [OF rec] by simp
  note c = completion_keeps(1) [OF so en, of "load_call workspace transfers"] completion_keeps(2) [OF so en]
  have "load_keeps (load_call workspace transfers) ex ex' \<and> (r = Inr finish \<longrightarrow> (\<exists>e d. finish = Some e \<and> ends_recording Load_stream e (hx_device ex') \<and>
       ex' = map_active (set_completion e) actives (?ex2\<lparr>hx_device := d\<rparr>)))"
  proof (cases u)
    case (Inl x)
    then have "ex' = ?ex2\<lparr>hx_device := d\<rparr>" "r = Inl x" using assms(1) l by (simp_all add: load_with_flags_def flags_ready_def Let_def)
    then show ?thesis using load_keeps_trans [OF k load_keeps_device [OF a]] by simp
  next
    case (Inr x)
    then have "ex' = map_active (set_completion e) actives (?ex2\<lparr>hx_device := d'\<rparr>)" "r = Inr (Some e)"
      using assms(1) l rec by (simp_all add: load_with_flags_def flags_ready_def Let_def)
    then show ?thesis using load_keeps_trans [OF k' c(1)] c(2) en by auto
  qed
  then show "load_keeps (load_call workspace transfers) ex ex'"
    "r = Inr finish \<Longrightarrow> \<exists>e d. finish = Some e \<and> ends_recording Load_stream e (hx_device ex') \<and>
       ex' = map_active (set_completion e) actives ((flags_ready workspace actives ex)\<lparr>hx_device := d\<rparr>)" by blast+
qed

lemma map_active_Cons: "map_active f ((p, i, n) # actives) ex = map_active f actives (map_events p i f ex)"
  by (simp add: map_active_def)

lemma map_active_other:
  assumes "\<forall>(p, i, n) \<in> set actives. slot_ok ex p i" "\<forall>n. (q, k, n) \<notin> set actives"
    and "\<And>ev. length (le_layer_done_events (f ev)) = length (le_layer_done_events ev)"
  shows "get_events (map_active f actives ex) q k = get_events ex q k"
  using assms(1,2)
proof (induction actives arbitrary: ex)
  case (Cons x actives)
  obtain p i n where x: "x = (p, i, n)" by (cases x)
  have so: "slot_ok ex p i" using Cons.prems(1) x by simp
  have "same_shape ex (map_events p i f ex)" by (rule map_events_shape [OF so]) (rule assms(3))
  then have "\<forall>(p', i', n) \<in> set actives. slot_ok (map_events p i f ex) p' i'" using Cons.prems(1) by (auto simp: same_shape_slot)
  moreover have "\<not> (q = p \<and> k = i)" using Cons.prems(2) x by auto
  ultimately show ?case using Cons.IH [of "map_events p i f ex"] Cons.prems(2) get_events_map [OF so, of f q k] by (auto simp: x map_active_Cons)
qed (simp add: map_active_def)

lemma completion_layers: "le_layer_done_events (set_completion e ev) = replicate (length (le_layer_done_events ev)) (Some e)"
  by (simp add: set_completion_def)

lemma completion_events:
  assumes "\<forall>(p, i, n) \<in> set actives. slot_ok ex p i" "(q, k, n) \<in> set actives"
  shows "le_layer_done_events (get_events (map_active (set_completion e) actives ex) q k) =
    replicate (length (le_layer_done_events (get_events ex q k))) (Some e)"
  using assms
proof (induction actives arbitrary: ex n)
  case (Cons x actives)
  obtain p i m where x: "x = (p, i, m)" by (cases x)
  let ?ex = "map_events p i (set_completion e) ex"
  have so: "slot_ok ex p i" using Cons.prems(1) x by simp
  have sh: "same_shape ex ?ex" by (rule map_events_shape [OF so]) (simp add: set_completion_def)
  have so': "\<forall>(p', i', n) \<in> set actives. slot_ok ?ex p' i'" using Cons.prems(1) same_shape_slot [OF sh] by auto
  have ge: "length (le_layer_done_events (get_events ?ex q k)) = length (le_layer_done_events (get_events ex q k))"
    by (simp add: get_events_map [OF so] set_completion_def)
  show ?case
  proof (cases "\<exists>n. (q, k, n) \<in> set actives")
    case True
    with Cons.IH [OF so'] ge show ?thesis by (auto simp: x map_active_Cons)
  next
    case False
    then have "q = p" "k = i" using Cons.prems(2) x by auto
    moreover have "get_events (map_active (set_completion e) actives ?ex) q k = get_events ?ex q k"
      using False by (intro map_active_other so') (auto simp: set_completion_def)
    ultimately show ?thesis by (simp add: x map_active_Cons get_events_map [OF so] completion_layers)
  qed
qed simp

lemma completion_covers:
  assumes "\<forall>(p, i, n) \<in> set actives. slot_ok ex p i" "(q, k, n) \<in> set actives" "le_layer_done_events (get_events ex q k) \<noteq> []"
    and "ends_recording Load_stream e (hx_device ex)" "Suc j < length (dv_log (hx_device ex))"
  shows "covers (map_active (set_completion e) actives ex) q k j"
proof (rule covers_record [of e])
  note c = completion_events [OF assms(1,2), of e] and d = completion_keeps(2) [OF assms(1,4)]
  show "ends_recording Load_stream e (hx_device (map_active (set_completion e) actives ex))" using assms(4) d by simp
  show "le_layer_done_events (get_events (map_active (set_completion e) actives ex) q k) \<noteq> []"
    "last (le_layer_done_events (get_events (map_active (set_completion e) actives ex) q k)) = Some e"
    using assms(3) by (simp_all add: c)
  show "Suc j < length (dv_log (hx_device (map_active (set_completion e) actives ex)))" using assms(5) d by simp
qed

text \<open>Clearing the flags of the sets.\<close>

lemma clear_flags_keeps:
  assumes "\<forall>(p, i, n) \<in> set actives. slot_ok ex p i"
  shows "load_keeps P ex (map_active (\<lambda>ev. ev\<lparr>le_layer_ready_flags := None, le_wait_layer_ready := False\<rparr>) actives ex)"
proof -
  have "load_keeps P ex (fold (\<lambda>(p, i, n). map_events p i (\<lambda>ev. ev\<lparr>le_layer_ready_flags := None, le_wait_layer_ready := False\<rparr>)) actives ex) \<and> True"
    by (rule fold_keeps [where Q = "\<lambda>_. True"]) (use assms in \<open>auto intro: other_update_keeps\<close>)
  then show ?thesis unfolding map_active_def by blast
qed

lemma layer_steps_slots: "\<forall>(p, i, n) \<in> set actives. slot_ok ex p i \<Longrightarrow> \<forall>(p, i, layer) \<in> set (layer_steps actives). slot_ok ex p i"
  by (auto simp: layer_steps_def)

lemma load_by_layer_keeps:
  assumes "load_by_layer lo workspace transfers actives ex = (ex', r)" "\<forall>(p, i, n) \<in> set actives. slot_ok ex p i"
  shows "load_keeps (load_call workspace transfers) ex ex'"
proof -
  let ?ex = "map_active (\<lambda>ev. ev\<lparr>le_layer_ready_flags := None, le_wait_layer_ready := False\<rparr>) actives ex"
  note k = clear_flags_keeps [OF assms(2), of "load_call workspace transfers"]
  have "\<forall>(p, i, n) \<in> set actives. slot_ok ?ex p i" using assms(2) load_keeps_slot [OF k] by auto
  from load_layers_keeps [OF _ layer_steps_slots [OF this]] assms(1) load_keeps_trans [OF k] show ?thesis
    unfolding load_by_layer_def by blast
qed

lemma concat_nth:
  "p < length xss \<Longrightarrow> l < length (xss ! p) \<Longrightarrow> concat xss ! (sum_list (map length (take p xss)) + l) = xss ! p ! l \<and>
     sum_list (map length (take p xss)) + l < length (concat xss)"
proof (induction xss arbitrary: p)
  case (Cons xs xss)
  then show ?case by (cases p) (auto simp: nth_append)
qed simp

definition flat_layer :: "host_executor \<Rightarrow> nat \<Rightarrow> nat \<Rightarrow> nat" where
  "flat_layer ex p layer = sum_list (take p (map snd (hx_load_trackers ex))) + layer"

text \<open>All trackers, in order, with one event set.\<close>

definition all_active :: "host_executor \<Rightarrow> nat \<Rightarrow> active list" where
  "all_active ex i = map (\<lambda>p. (p, i, snd (hx_load_trackers ex ! p))) [0..<length (hx_load_trackers ex)]"

lemma all_active_steps:
  assumes "p < length (hx_load_trackers ex)" "layer < snd (hx_load_trackers ex ! p)"
  shows "flat_layer ex p layer < length (layer_steps (all_active ex i))"
    "layer_steps (all_active ex i) ! flat_layer ex p layer = (p, i, layer)"
proof -
  let ?xss = "map (\<lambda>(p, i, n). map (\<lambda>layer. (p, i, layer)) [0..<n]) (all_active ex i)"
  have lens: "map length ?xss = map snd (hx_load_trackers ex)"
    by (rule nth_equalityI) (simp_all add: all_active_def)
  have "sum_list (map length (take p ?xss)) = sum_list (take p (map snd (hx_load_trackers ex)))"
    unfolding lens [symmetric] by (simp only: take_map)
  moreover have "?xss ! p ! layer = (p, i, layer)" "layer < length (?xss ! p)" "p < length ?xss" using assms by (simp_all add: all_active_def)
  ultimately show "flat_layer ex p layer < length (layer_steps (all_active ex i))"
    "layer_steps (all_active ex i) ! flat_layer ex p layer = (p, i, layer)"
    using concat_nth [of p ?xss layer] by (simp_all add: layer_steps_def flat_layer_def)
qed

text \<open>What a whole load keeps of the event sets.\<close>

definition events_keep :: "(stream \<Rightarrow> work \<Rightarrow> bool) \<Rightarrow> host_executor \<Rightarrow> host_executor \<Rightarrow> bool" where
  "events_keep P ex ex' \<longleftrightarrow> same_shape ex ex' \<and> hx_metadata_done ex' = hx_metadata_done ex \<and>
     adds P (hx_device ex) (hx_device ex') \<and>
     (\<forall>p i layer w. slot_ok ex p i \<longrightarrow> layer_fenced ex p i layer w \<longrightarrow> layer_fenced ex' p i layer w) \<and>
     (\<forall>p i j. slot_ok ex p i \<longrightarrow> covers ex p i j \<longrightarrow> covers ex' p i j)"

lemma load_keeps_events: "load_keeps P ex ex' \<Longrightarrow> events_keep P ex ex'"
  by (simp add: load_keeps_def events_keep_def)

text \<open>Changes that touch neither the trackers nor the device.\<close>

definition same_loads :: "host_executor \<Rightarrow> host_executor \<Rightarrow> bool" where
  "same_loads ex ex' \<longleftrightarrow> hx_load_trackers ex' = hx_load_trackers ex \<and> hx_device ex' = hx_device ex \<and>
     hx_layer_slices ex' = hx_layer_slices ex \<and> hx_num_field_rows ex' = hx_num_field_rows ex \<and> hx_metadata_done ex' = hx_metadata_done ex"

lemma same_loads_fenced: "same_loads ex ex' \<Longrightarrow> layer_fenced ex' p i l w = layer_fenced ex p i l w"
  and same_loads_covers: "same_loads ex ex' \<Longrightarrow> covers ex' p i j = covers ex p i j"
  and same_loads_shape: "same_loads ex ex' \<Longrightarrow> same_shape ex ex'"
  by (simp_all add: same_loads_def layer_fenced_def covers_def get_events_def same_shape_def)

lemma events_keep_same: "events_keep P ex ex1 \<Longrightarrow> same_loads ex1 ex' \<Longrightarrow> events_keep P ex ex'"
  using same_shape_trans [OF _ same_loads_shape, of ex ex1 ex']
  by (simp add: events_keep_def same_loads_fenced same_loads_covers) (simp add: same_loads_def)

text \<open>The device of a failed load: whatever was submitted is behind a published event, settled, or the executor is poisoned.\<close>

lemma map_active_device [simp]: "hx_device (map_active f actives ex) = hx_device ex"
  unfolding map_active_def by (induction actives arbitrary: ex) (auto split: prod.split)

lemma record_work:
  assumes "ends_recording s e d" "j < length (dv_log d)" "snd (dv_log d ! j) = Work w"
  shows "Suc j < length (dv_log d)"
  using assms by (cases "Suc j = length (dv_log d)") (auto elim: ends_recording_nth)

lemma retire_ok:
  assumes "ex' = retire_failed_load lo actives flags ex1" "load_keeps P ex ex1"
    "\<forall>(p, i, n) \<in> set actives. slot_ok ex p i" "\<And>w. flags = Some w \<Longrightarrow> P Load_stream (Fill_flags w)"
  shows "events_keep P ex ex'" "hx_load_poisoned ex1 \<Longrightarrow> hx_load_poisoned ex'"
    "(p, i, n) \<in> set actives \<Longrightarrow> le_layer_done_events (get_events ex1 p i) \<noteq> [] \<Longrightarrow> j < length (dv_log (hx_device ex')) \<Longrightarrow>
      snd (dv_log (hx_device ex') ! j) = Work w \<Longrightarrow> hx_load_poisoned ex' \<or> settled (hx_device ex') Load_stream j \<or> covers ex' p i j"
    "hx_completions ex' = hx_completions ex"
proof -
  let ?ex2 = "case flags of Some w \<Rightarrow> if flags_filled (lo_retirement lo)
      then ex1\<lparr>hx_device := submit Load_stream (Work (Fill_flags w)) (hx_device ex1)\<rparr> else ex1 | None \<Rightarrow> ex1"
  have "load_keeps P ex1 ?ex2"
    using assms(4) load_keeps_device [OF adds_work [of P Load_stream _ "hx_device ex1"]] by (auto split: option.split)
  note k2 = load_keeps_trans [OF assms(2) this]
  have p2: "hx_load_poisoned ?ex2 = hx_load_poisoned ex1" "get_events ?ex2 p i = get_events ex1 p i" for p i
    by (simp_all add: get_events_def split: option.split)
  obtain d e where rec: "record_event Load_stream (hx_device ?ex2) = (d, e)" by (metis surj_pair)
  note k3 = load_keeps_trans [OF k2 load_keeps_device [OF adds_record' [OF rec]]]
  have so: "\<forall>(p, i, n) \<in> set actives. slot_ok (?ex2\<lparr>hx_device := d\<rparr>) p i" using assms(3) load_keeps_slot [OF k3] by auto
  have en: "ends_recording Load_stream e (hx_device (?ex2\<lparr>hx_device := d\<rparr>))" using ends_recording_record [OF rec] by simp
  note c = load_keeps_trans [OF k3 completion_keeps(1) [OF so en]]
  have R: "events_keep P ex ex' \<and> (hx_load_poisoned ex1 \<longrightarrow> hx_load_poisoned ex') \<and> hx_completions ex' = hx_completions ex \<and>
    ((p, i, n) \<in> set actives \<longrightarrow> le_layer_done_events (get_events ex1 p i) \<noteq> [] \<longrightarrow> j < length (dv_log (hx_device ex')) \<longrightarrow>
      snd (dv_log (hx_device ex') ! j) = Work w \<longrightarrow> hx_load_poisoned ex' \<or> settled (hx_device ex') Load_stream j \<or> covers ex' p i j)"
  proof (cases "actives = []")
    case True
    then have "ex' = ex1" using assms(1) by (simp add: retire_failed_load_def)
    then show ?thesis using True load_keeps_events [OF assms(2)] assms(2) by (simp add: load_keeps_def)
  next
    case False
    note run = assms(1) [unfolded retire_failed_load_def Let_def if_not_P [OF False]]
    show ?thesis
    proof (cases "lo_retirement lo")
      case Retired
      then have ex': "ex' = map_active (set_completion e) actives (?ex2\<lparr>hx_device := d\<rparr>)" using run rec by simp
      have "hx_load_poisoned ex' = hx_load_poisoned ex1" using c k2 p2(1) unfolding ex' by (simp add: load_keeps_def)
      moreover have "covers ex' p i j" if "(p, i, n) \<in> set actives" "le_layer_done_events (get_events ex1 p i) \<noteq> []"
        "j < length (dv_log (hx_device ex'))" "snd (dv_log (hx_device ex') ! j) = Work w"
        unfolding ex'
      proof (rule completion_covers [OF so that(1) _ en])
        show "le_layer_done_events (get_events (?ex2\<lparr>hx_device := d\<rparr>) p i) \<noteq> []" using that(2) p2(2) by simp
        show "Suc j < length (dv_log (hx_device (?ex2\<lparr>hx_device := d\<rparr>)))"
          using record_work [OF en] that(3,4) unfolding ex' by simp
      qed
      moreover have "hx_completions ex' = hx_completions ex" using c unfolding ex' by (simp add: load_keeps_def)
      ultimately show ?thesis using load_keeps_events [OF c] unfolding ex' by blast
    next
      case (Retirement_raised filled synchronized)
      show ?thesis
      proof (cases synchronized)
        case True
        then have ex': "ex' = ?ex2\<lparr>hx_device := synchronize_stream Load_stream (hx_device ?ex2)\<rparr>" using run Retirement_raised by simp
        note k4 = load_keeps_trans [OF k2 load_keeps_device [OF adds_synchronize(2)]]
        have "settled (hx_device ex') Load_stream j" if "j < length (dv_log (hx_device ex'))" "snd (dv_log (hx_device ex') ! j) = Work w"
        proof -
          have "j < length (dv_log (hx_device ?ex2))"
            using that by (auto simp: ex' synchronize_stream_def wait_stream_def record_event_def submit_def nth_append less_Suc_eq split: if_splits)
          from settled_stream [OF this] show ?thesis by (simp add: ex')
        qed
        moreover have "events_keep P ex ex'" using load_keeps_events [OF k4] by (simp add: ex')
        moreover have "hx_completions ex' = hx_completions ex" "hx_load_poisoned ex' = hx_load_poisoned ex1"
          using k4 p2(1) by (simp_all add: ex' load_keeps_def)
        ultimately show ?thesis by blast
      next
        case False
        then have ex': "ex' = ?ex2\<lparr>hx_load_poisoned := True\<rparr>" using run Retirement_raised by simp
        have "same_loads ?ex2 ex'" by (simp add: ex' same_loads_def)
        from events_keep_same [OF load_keeps_events [OF k2] this] show ?thesis using k2 by (simp add: ex' load_keeps_def)
      qed
    qed
  qed
  then show "events_keep P ex ex'" "hx_load_poisoned ex1 \<Longrightarrow> hx_load_poisoned ex'" "hx_completions ex' = hx_completions ex"
    "(p, i, n) \<in> set actives \<Longrightarrow> le_layer_done_events (get_events ex1 p i) \<noteq> [] \<Longrightarrow> j < length (dv_log (hx_device ex')) \<Longrightarrow>
      snd (dv_log (hx_device ex') ! j) = Work w \<Longrightarrow> hx_load_poisoned ex' \<or> settled (hx_device ex') Load_stream j \<or> covers ex' p i j" by blast+
qed

lemma map_active_flags:
  assumes "\<forall>(p, i, n) \<in> set actives. slot_ok ex p i" "(q, k, n) \<in> set actives"
  shows "le_layer_ready_flags (get_events (map_active (\<lambda>ev. ev\<lparr>le_layer_ready_flags := None, le_wait_layer_ready := False\<rparr>) actives ex) q k) = None"
  using assms
proof (induction actives arbitrary: ex n)
  case (Cons x actives)
  obtain p i m where x: "x = (p, i, m)" by (cases x)
  let ?f = "\<lambda>ev. ev\<lparr>le_layer_ready_flags := None, le_wait_layer_ready := False\<rparr>"
  let ?ex = "map_events p i ?f ex"
  have so: "slot_ok ex p i" using Cons.prems(1) x by simp
  have sh: "same_shape ex ?ex" by (rule map_events_shape [OF so]) simp
  have so': "\<forall>(p', i', n) \<in> set actives. slot_ok ?ex p' i'" using Cons.prems(1) same_shape_slot [OF sh] by auto
  show ?case
  proof (cases "\<exists>n. (q, k, n) \<in> set actives")
    case True
    with Cons.IH [OF so'] show ?thesis by (auto simp: x map_active_Cons)
  next
    case False
    then have "q = p" "k = i" using Cons.prems(2) x by auto
    moreover have "get_events (map_active ?f actives ?ex) q k = get_events ?ex q k"
      using False by (intro map_active_other so') auto
    ultimately show ?thesis by (simp add: x map_active_Cons get_events_map [OF so])
  qed
qed simp

text \<open>Loading by layer over all trackers: every layer is fenced by its own event, and the last event of the last tracker
  ends the log.\<close>

lemma all_active_mem: "(p, k, n) \<in> set (all_active ex i) \<longleftrightarrow> p < length (hx_load_trackers ex) \<and> k = i \<and> n = snd (hx_load_trackers ex ! p)"
  by (auto simp: all_active_def)

lemma all_active_shape: "same_shape ex ex' \<Longrightarrow> all_active ex' i = all_active ex i"
  by (simp add: all_active_def same_shape_def)

lemma load_by_layer_fenced:
  assumes load: "load_by_layer lo workspace transfers (all_active ex workspace) ex = (ex', Inr finish)"
    and so: "\<forall>(p, i, n) \<in> set (all_active ex workspace). slot_ok ex p i"
    and p: "p < length (hx_load_trackers ex)" "layer < snd (hx_load_trackers ex ! p)"
  shows "flat_layer ex p layer < length (hx_layer_slices ex)" "le_layer_ready_flags (get_events ex' p workspace) = None"
    "\<exists>j \<ge> length (dv_log (hx_device ex)). layer_fenced ex' p workspace layer (j, Copy_slice workspace (fst (hx_layer_slices ex ! flat_layer ex p layer))
       (snd (hx_layer_slices ex ! flat_layer ex p layer)) transfers)"
proof -
  let ?ex = "map_active (\<lambda>ev. ev\<lparr>le_layer_ready_flags := None, le_wait_layer_ready := False\<rparr>) (all_active ex workspace) ex"
  note k = clear_flags_keeps [OF so, of "load_call workspace transfers"]
  have sl: "hx_layer_slices ?ex = hx_layer_slices ex" using k by (simp add: load_keeps_def same_shape_def)
  have so': "\<forall>(p, i, layer) \<in> set (layer_steps (all_active ex workspace)). slot_ok ?ex p i"
    using so load_keeps_slot [OF k] by (intro layer_steps_slots) auto
  have l: "load_layers lo workspace transfers 0 (layer_steps (all_active ex workspace)) None ?ex = (ex', Inr finish)"
    using load by (simp add: load_by_layer_def)
  note st = all_active_steps [OF p, of workspace]
  have dv: "length (dv_log (hx_device ex)) \<le> length (dv_log (hx_device ?ex))" using load_keeps_length [OF k] .
  from load_layers_fenced [OF l so' st] dv show "flat_layer ex p layer < length (hx_layer_slices ex)"
    "\<exists>j \<ge> length (dv_log (hx_device ex)). layer_fenced ex' p workspace layer (j, Copy_slice workspace (fst (hx_layer_slices ex ! flat_layer ex p layer))
       (snd (hx_layer_slices ex ! flat_layer ex p layer)) transfers)" by (auto simp: sl intro: order_trans)
  have "(p, workspace, snd (hx_load_trackers ex ! p)) \<in> set (all_active ex workspace)" using p(1) by (simp add: all_active_mem)
  from map_active_flags [OF so this] load_layers_flags [OF l so', of p workspace]
  show "le_layer_ready_flags (get_events ex' p workspace) = None" by simp
qed

lemma load_by_layer_covers:
  assumes load: "load_by_layer lo workspace transfers (all_active ex workspace) ex = (ex', Inr finish)"
    and so: "\<forall>(p, i, n) \<in> set (all_active ex workspace). slot_ok ex p i"
    and ok: "hx_load_trackers ex \<noteq> []" "\<forall>p < length (hx_load_trackers ex). length (le_layer_done_events (get_events ex p workspace)) = snd (hx_load_trackers ex ! p) \<and>
       0 < snd (hx_load_trackers ex ! p)"
    and j: "Suc j < length (dv_log (hx_device ex'))"
  shows "\<exists>p < length (hx_load_trackers ex). covers ex' p workspace j"
proof -
  let ?ex = "map_active (\<lambda>ev. ev\<lparr>le_layer_ready_flags := None, le_wait_layer_ready := False\<rparr>) (all_active ex workspace) ex"
  let ?p = "length (hx_load_trackers ex) - 1"
  let ?n = "snd (hx_load_trackers ex ! ?p)"
  note k = clear_flags_keeps [OF so, of "load_call workspace transfers"]
  have so': "\<forall>(p, i, layer) \<in> set (layer_steps (all_active ex workspace)). slot_ok ?ex p i"
    using so load_keeps_slot [OF k] by (intro layer_steps_slots) auto
  have l: "load_layers lo workspace transfers 0 (layer_steps (all_active ex workspace)) None ?ex = (ex', Inr finish)"
    using load by (simp add: load_by_layer_def)
  have p: "?p < length (hx_load_trackers ex)" using ok(1) by simp
  have "all_active ex workspace = map (\<lambda>p. (p, workspace, snd (hx_load_trackers ex ! p))) [0..<?p] @ [(?p, workspace, ?n)]"
    using ok(1) p upt_Suc_append [of 0 ?p] unfolding all_active_def by (cases "length (hx_load_trackers ex)") auto
  moreover obtain m where m: "?n = Suc m" using ok(2) p by (meson gr0_implies_Suc)
  ultimately obtain xs where xs: "layer_steps (all_active ex workspace) = xs @ [(?p, workspace, m)]"
    by (simp add: layer_steps_def)
  obtain e where e: "m < length (le_layer_done_events (get_events ex' ?p workspace))"
    "le_layer_done_events (get_events ex' ?p workspace) ! m = Some e" "ends_recording Load_stream e (hx_device ex')"
    using load_layers_last [OF l [unfolded xs]] so' unfolding xs by blast
  have sh: "same_shape ex ex'" using load_by_layer_keeps [OF load so] by (simp add: load_keeps_def)
  have "(?p, workspace, ?n) \<in> set (all_active ex workspace)" using p by (simp add: all_active_mem)
  with so have "slot_ok ex ?p workspace" by blast
  then have len: "length (le_layer_done_events (get_events ex' ?p workspace)) = Suc m"
    using sh ok(2) p m by (simp add: same_shape_def slot_ok_def)
  have ne: "le_layer_done_events (get_events ex' ?p workspace) \<noteq> []" using len by auto
  have "last (le_layer_done_events (get_events ex' ?p workspace)) = Some e" using e(2) last_conv_nth [OF ne] len by simp
  from covers_record [OF e(3) ne this j] p show ?thesis by blast
qed

end
