(* ===== verification/Executor_Reuse.thy ===== *)
theory Executor_Reuse
  imports Executor_Loads
begin

text \<open>
  The Host cache executor as a running system: the outcome of a whole load, the states reachable by submissions, polls and
  callers, and the guarantees that hold in all of them: a pinned table of rows is refilled only after its readers ran, and
  a consumer of a layer runs only after the layer's copy.
\<close>

section \<open>Outcome of a launched load\<close>

text \<open>A load that launched all its copies: it ends with the recording of its completion, and everything before that is
  behind the last event of one of the trackers.\<close>

lemma loaded_covers:
  assumes load: "(if flags then load_with_flags else load_by_layer) lo workspace transfers (all_active ex workspace) ex = (ex', Inr (Some finish))"
    and so: "\<forall>(p, i, n) \<in> set (all_active ex workspace). slot_ok ex p i"
    and ok: "hx_load_trackers ex \<noteq> []" "\<forall>p < length (hx_load_trackers ex). length (le_layer_done_events (get_events ex p workspace)) = snd (hx_load_trackers ex ! p) \<and>
       0 < snd (hx_load_trackers ex ! p)"
  shows "ends_recording Load_stream finish (hx_device ex') \<and>
    (\<forall>j. Suc j < length (dv_log (hx_device ex')) \<longrightarrow> (\<exists>p < length (hx_load_trackers ex). covers ex' p workspace j))"
proof (cases flags)
  case True
  with load have lf: "load_with_flags lo workspace transfers (all_active ex workspace) ex = (ex', Inr (Some finish))" by simp
  obtain d where e: "ends_recording Load_stream finish (hx_device ex')"
    and ex': "ex' = map_active (set_completion finish) (all_active ex workspace) ((flags_ready workspace (all_active ex workspace) ex)\<lparr>hx_device := d\<rparr>)"
    using load_with_flags_ok(2) [OF lf so refl] by auto
  let ?ex2 = "(flags_ready workspace (all_active ex workspace) ex)\<lparr>hx_device := d\<rparr>"
  have kf: "same_shape ex ?ex2" using flags_ready_keeps [OF so, of no_call] same_shape_trans [OF _ same_shape_device] by (simp add: load_keeps_def)
  have so2: "\<forall>(p, i, n) \<in> set (all_active ex workspace). slot_ok ?ex2 p i" using so same_shape_slot [OF kf] by blast
  have l0: "0 < length (hx_load_trackers ex)" using ok(1) by simp
  have m0: "(0, workspace, snd (hx_load_trackers ex ! 0)) \<in> set (all_active ex workspace)" using l0 by (simp add: all_active_mem)
  have "slot_ok ex 0 workspace" using so m0 by blast
  then have "length (le_layer_done_events (get_events ?ex2 0 workspace)) = length (le_layer_done_events (get_events ex 0 workspace))"
    using kf unfolding same_shape_def slot_ok_def by blast
  then have ne: "le_layer_done_events (get_events ?ex2 0 workspace) \<noteq> []" using ok(2) l0 by (metis length_0_conv less_numeral_extra(3))
  have dv: "hx_device ex' = d" unfolding ex' by simp
  have "covers ex' 0 workspace j" if "Suc j < length (dv_log (hx_device ex'))" for j
    unfolding ex' by (rule completion_covers [OF so2 m0 ne]) (use e that dv in simp_all)
  with e l0 show ?thesis by blast
next
  case False
  with load have lb: "load_by_layer lo workspace transfers (all_active ex workspace) ex = (ex', Inr (Some finish))" by simp
  have lp: "load_layers lo workspace transfers 0 (layer_steps (all_active ex workspace)) None
     (map_active (\<lambda>ev. ev\<lparr>le_layer_ready_flags := None, le_wait_layer_ready := False\<rparr>) (all_active ex workspace) ex) = (ex', Inr (Some finish))"
    using lb by (simp add: load_by_layer_def)
  have "\<forall>(p, i, layer) \<in> set (layer_steps (all_active ex workspace)).
     slot_ok (map_active (\<lambda>ev. ev\<lparr>le_layer_ready_flags := None, le_wait_layer_ready := False\<rparr>) (all_active ex workspace) ex) p i"
    using load_keeps_slot [OF clear_flags_keeps [OF so, of no_call]] so by (intro layer_steps_slots) auto
  from load_layers_finish [OF lp this] have "ends_recording Load_stream finish (hx_device ex')" by auto
  moreover have "\<exists>p < length (hx_load_trackers ex). covers ex' p workspace j" if "Suc j < length (dv_log (hx_device ex'))" for j
    by (rule load_by_layer_covers [OF lb so ok(1) _ that]) (use ok(2) in blast)
  ultimately show ?thesis by blast
qed

text \<open>Filling the workspace is the first thing a launch does; everything after it is a call of the load.\<close>

definition filled :: "nat \<Rightarrow> transfer_row list \<Rightarrow> host_executor \<Rightarrow> host_executor \<Rightarrow> bool" where
  "filled workspace transfers ex ex' \<longleftrightarrow> ex' = ex \<or>
     ex' = ex\<lparr>hx_device := submit Host_thread (Work (Fill_rows (Load_table workspace) transfers)) (hx_device ex)\<rparr>"

lemma prepare_workspace_filled:
  assumes "prepare_workspace lo workspace transfers ex = (ex', r)"
  obtains ex1 where "filled workspace transfers ex ex1" "load_keeps (load_call workspace transfers) ex1 ex'"
proof -
  let ?L = "load_call workspace transfers"
  obtain d1 u where 1: "launch_work (lo_fill lo) Host_thread (Fill_rows (Load_table workspace) transfers) (hx_device ex) = (d1, u)" by (metis surj_pair)
  obtain d2 v where 2: "(if lo_device_tables lo then launch_work (lo_upload lo) Load_stream (Upload_rows (Load_table workspace) transfers) d1 else (d1, Inr ())) = (d2, v)"
    by (rule that [OF prod.collapse [symmetric]])
  obtain d3 w where 3: "(if lo_layer_ready lo then launch_work (lo_flags lo) Load_stream (Zero_flags workspace) d2 else (d2, Inr ())) = (d3, w)"
    by (rule that [OF prod.collapse [symmetric]])
  have f: "filled workspace transfers ex (ex\<lparr>hx_device := d1\<rparr>)"
    using 1 by (cases "lo_fill lo") (auto simp: filled_def split: if_splits)
  have call: "?L Load_stream (Upload_rows (Load_table workspace) transfers)" "?L Load_stream (Zero_flags workspace)" by (simp_all add: load_call_def)
  have 21: "adds ?L d1 d2" using 2 adds_launch [of ?L Load_stream "Upload_rows (Load_table workspace) transfers" "lo_upload lo" d1 d2 v] call(1) by (cases "lo_device_tables lo") simp_all
  have 32: "adds ?L d2 d3" using 3 adds_launch [of ?L Load_stream "Zero_flags workspace" "lo_flags lo" d2 d3 w] call(2) by (cases "lo_layer_ready lo") simp_all
  note run = assms [unfolded prepare_workspace_def 1 2 3 prod.case]
  have "ex' = ex\<lparr>hx_device := d1\<rparr> \<or> ex' = ex\<lparr>hx_device := d2\<rparr> \<or> ex' = ex\<lparr>hx_device := d3\<rparr>"
  proof (cases u)
    case u: (Inr x)
    have "ex' = ex\<lparr>hx_device := d2\<rparr> \<or> ex' = ex\<lparr>hx_device := d3\<rparr>"
      using run u 2 3 by (cases v) (simp_all del: launch_work.simps)
    then show ?thesis by blast
  qed (use run in simp)
  then obtain d where d: "ex' = ex\<lparr>hx_device := d\<rparr>" "adds ?L d1 d" using 21 adds_trans [OF 21 32] adds_refl by metis
  have "load_keeps ?L (ex\<lparr>hx_device := d1\<rparr>) ex'" using load_keeps_device [of ?L "ex\<lparr>hx_device := d1\<rparr>" d] d by simp
  with f show ?thesis by (rule that)
qed

definition launch_call :: "nat \<Rightarrow> transfer_row list \<Rightarrow> stream \<Rightarrow> work \<Rightarrow> bool" where
  "launch_call workspace transfers s w \<longleftrightarrow> load_call workspace transfers s w \<or> (s = Host_thread \<and> w = Fill_rows (Load_table workspace) transfers)"

lemma filled_keeps: "filled workspace transfers ex ex1 \<Longrightarrow> load_keeps (launch_call workspace transfers) ex ex1"
  using load_keeps_device [OF adds_work [of "launch_call workspace transfers" Host_thread "Fill_rows (Load_table workspace) transfers" "hx_device ex"]]
  by (auto simp: filled_def launch_call_def)

lemma events_keep_after:
  assumes "load_keeps P ex ex1" "events_keep P ex1 ex2"
  shows "events_keep P ex ex2"
proof -
  have "same_shape ex ex1" using assms(1) by (simp add: load_keeps_def)
  then show ?thesis using assms same_shape_trans [of ex ex1 ex2] adds_trans [of P "hx_device ex" "hx_device ex1" "hx_device ex2"]
      same_shape_slot [of ex ex1] by (auto simp: load_keeps_def events_keep_def)
qed

lemma events_keep_mono: "events_keep P ex ex' \<Longrightarrow> (\<And>s w. P s w \<Longrightarrow> Q s w) \<Longrightarrow> events_keep Q ex ex'"
  unfolding events_keep_def using adds_mono by blast

text \<open>A failed load, from the state in which its workspace was filled.\<close>

lemma failed_outcome:
  assumes "arm_ok ex a" "same_shape ex ex1" "load_keeps P ex1 ex2" "ex' = retire_failed_load lo (am_active a) flags ex2"
    "\<And>w. flags = Some w \<Longrightarrow> P Load_stream (Fill_flags w)"
  shows "events_keep P ex1 ex'" "hx_load_poisoned ex2 \<Longrightarrow> hx_load_poisoned ex'" "hx_completions ex' = hx_completions ex1"
    "(p, i, n) \<in> set (am_active a) \<Longrightarrow> j < length (dv_log (hx_device ex')) \<Longrightarrow> snd (dv_log (hx_device ex') ! j) = Work w \<Longrightarrow>
      hx_load_poisoned ex' \<or> settled (hx_device ex') Load_stream j \<or> (slot_ok ex' p i \<and> covers ex' p i j)"
proof -
  have so: "\<forall>(p, i, n) \<in> set (am_active a). slot_ok ex1 p i" using arm_okD(4) [OF assms(1)] same_shape_slot [OF assms(2)] by blast
  note R = retire_ok [OF assms(4,3) so assms(5)]
  show "events_keep P ex1 ex'" "hx_load_poisoned ex2 \<Longrightarrow> hx_load_poisoned ex'" "hx_completions ex' = hx_completions ex1" using R(1,2,4) by blast+
  assume m: "(p, i, n) \<in> set (am_active a)" and j: "j < length (dv_log (hx_device ex'))" "snd (dv_log (hx_device ex') ! j) = Work w"
  have sh: "same_shape ex ex2" using same_shape_trans [OF assms(2)] assms(3) by (simp add: load_keeps_def)
  have slot: "slot_ok ex p i" "le_layer_done_events (get_events ex p i) \<noteq> []" using arm_okD(4) [OF assms(1) m] by auto
  then have "length (le_layer_done_events (get_events ex2 p i)) = length (le_layer_done_events (get_events ex p i))"
    using sh by (simp add: same_shape_def slot_ok_def)
  then have ne: "le_layer_done_events (get_events ex2 p i) \<noteq> []" using slot(2) by (metis length_0_conv)
  have "events_keep P ex1 ex'" using R(1) by blast
  then have "same_shape ex1 ex'" by (simp add: events_keep_def)
  then have "slot_ok ex' p i" using slot(1) same_shape_slot [OF assms(2)] same_shape_slot [of ex1 ex'] by simp
  with R(3) [OF _ m ne j] show "hx_load_poisoned ex' \<or> settled (hx_device ex') Load_stream j \<or> (slot_ok ex' p i \<and> covers ex' p i j)" by blast
qed

lemma armed_counts:
  assumes "trackers_ok ex" "arm_ok ex a" "am_active a = all_active ex workspace" "same_shape ex ex2"
  shows "\<forall>p < length (hx_load_trackers ex2). length (le_layer_done_events (get_events ex2 p workspace)) = snd (hx_load_trackers ex2 ! p) \<and>
    0 < snd (hx_load_trackers ex2 ! p)"
proof (intro allI impI)
  fix p assume "p < length (hx_load_trackers ex2)"
  then have p: "p < length (hx_load_trackers ex)" using assms(4) by (simp add: same_shape_def)
  then have "(p, workspace, snd (hx_load_trackers ex ! p)) \<in> set (am_active a)" using assms(3) by (simp add: all_active_mem)
  from arm_okD(4) [OF assms(2) this] have s: "slot_ok ex p workspace" "le_layer_done_events (get_events ex p workspace) \<noteq> []" by auto
  then have "length (le_layer_done_events (get_events ex p workspace)) = snd (hx_load_trackers ex ! p)"
    using assms(1) unfolding trackers_ok_def slot_ok_def by metis
  moreover have "length (le_layer_done_events (get_events ex2 p workspace)) = length (le_layer_done_events (get_events ex p workspace))"
    "snd (hx_load_trackers ex2 ! p) = snd (hx_load_trackers ex ! p)" using assms(4) s(1) by (simp_all add: same_shape_def slot_ok_def)
  ultimately show "length (le_layer_done_events (get_events ex2 p workspace)) = snd (hx_load_trackers ex2 ! p) \<and> 0 < snd (hx_load_trackers ex2 ! p)"
    using s(2) by (metis length_greater_0_conv)
qed

lemma launch_load_outcome:
  assumes ok: "trackers_ok ex" "arm_ok ex a" and act: "am_active a = all_active ex workspace" "hx_load_trackers ex \<noteq> []"
    and run: "launch_load lo batch a workspace = (ex', r)"
  obtains ex1 where "filled workspace (snd batch) (am_exec a) ex1" "events_keep (load_call workspace (snd batch)) ex1 ex'"
    "hx_load_poisoned ex \<Longrightarrow> hx_load_poisoned ex'"
    "\<And>j w. j < length (dv_log (hx_device ex')) \<Longrightarrow> snd (dv_log (hx_device ex') ! j) = Work w \<Longrightarrow>
       hx_load_poisoned ex' \<or> settled (hx_device ex') Load_stream j \<or> (\<exists>p. slot_ok ex' p workspace \<and> covers ex' p workspace j)"
    "case r of Inl e \<Rightarrow> hx_completions ex' = hx_completions ex
     | Inr x \<Rightarrow> x = Some workspace \<and> (\<exists>finish. ends_recording Load_stream finish (hx_device ex') \<and>
         hx_completions ex' = hx_completions ex @ [(finish, \<lparr>ak_kind = Ack_load_back, ak_op_ids = ordered_unique (fst batch)\<rparr>)])"
proof -
  note goal = that
  let ?L = "load_call workspace (snd batch)"
  obtain ex2 u where p: "prepare_workspace lo workspace (snd batch) (am_exec a) = (ex2, u)" by (metis surj_pair)
  obtain ex1 where f: "filled workspace (snd batch) (am_exec a) ex1" and k2: "load_keeps ?L ex1 ex2" by (rule prepare_workspace_filled [OF p])
  have k0: "load_keeps no_call ex (am_exec a)" by (rule arm_okD(1) [OF ok(2)])
  note k1 = filled_keeps [OF f]
  have sh0: "same_shape ex (am_exec a)" and same0: "hx_completions (am_exec a) = hx_completions ex" "hx_load_poisoned (am_exec a) = hx_load_poisoned ex"
    using k0 by (simp_all add: load_keeps_def)
  have sh01: "same_shape (am_exec a) ex1" and same1: "hx_completions ex1 = hx_completions ex" "hx_load_poisoned ex1 = hx_load_poisoned ex"
    using k1 same0 by (simp_all add: load_keeps_def)
  have sh1: "same_shape ex ex1" by (rule same_shape_trans [OF sh0 sh01])
  have sh2: "same_shape ex ex2" using same_shape_trans [OF sh1] k2 by (simp add: load_keeps_def)
  have so2: "\<forall>(p, i, n) \<in> set (am_active a). slot_ok ex2 p i" using arm_okD(4) [OF ok(2)] same_shape_slot [OF sh2] by blast
  have act2: "am_active a = all_active ex2 workspace" using act(1) all_active_shape [OF sh2] by simp
  have m: "(0, workspace, snd (hx_load_trackers ex ! 0)) \<in> set (am_active a)" using act by (simp add: all_active_mem)
  have fail: thesis if "r = Inl e" "ex' = retire_failed_load lo (am_active a) flags ex3" "load_keeps ?L ex1 ex3" "flags \<in> {None, Some workspace}" for e flags ex3
  proof -
    have F: "\<And>w. flags = Some w \<Longrightarrow> ?L Load_stream (Fill_flags w)" using that(4) by (auto simp: load_call_def)
    note o = failed_outcome [OF ok(2) sh1 that(3,2) F]
    have p: "hx_load_poisoned ex \<Longrightarrow> hx_load_poisoned ex3" using that(3) same1(2) by (simp add: load_keeps_def)
    show thesis
    proof (rule goal [OF f])
      show "events_keep ?L ex1 ex'" using o(1) by blast
      show "hx_load_poisoned ex \<Longrightarrow> hx_load_poisoned ex'" using o(2) p by blast
      show "hx_load_poisoned ex' \<or> settled (hx_device ex') Load_stream j \<or> (\<exists>p. slot_ok ex' p workspace \<and> covers ex' p workspace j)"
        if "j < length (dv_log (hx_device ex'))" "snd (dv_log (hx_device ex') ! j) = Work w" for j w using o(4) [OF _ m that] by blast
      show "case r of Inl e \<Rightarrow> hx_completions ex' = hx_completions ex
        | Inr x \<Rightarrow> x = Some workspace \<and> (\<exists>finish. ends_recording Load_stream finish (hx_device ex') \<and>
            hx_completions ex' = hx_completions ex @ [(finish, \<lparr>ak_kind = Ack_load_back, ak_op_ids = ordered_unique (fst batch)\<rparr>)])"
        using o(3) same1(1) that(1) by simp
    qed
  qed
  show thesis
  proof (cases u)
    case (Inl e)
    then have "r = Inl e" "ex' = retire_failed_load lo (am_active a) None ex2" using run p by (simp_all add: launch_load_def failed_load_def)
    then show thesis by (rule fail) (simp_all add: k2)
  next
    case u: (Inr x)
    obtain ex3 v where l: "(if lo_layer_ready lo then load_with_flags else load_by_layer) lo workspace (snd batch) (all_active ex2 workspace) ex2 = (ex3, v)"
      by (metis surj_pair)
    have k3: "load_keeps ?L ex2 ex3"
      using l load_with_flags_ok(1) [of lo workspace "snd batch" _ ex2 ex3 v] load_by_layer_keeps [of lo workspace "snd batch" _ ex2 ex3 v] so2 act2
      by (auto split: if_splits)
    note k = load_keeps_trans [OF k2 k3]
    consider (error) e where "v = Inl e" | (empty) "v = Inr None" | (ended) finish where "v = Inr (Some finish)"
      by (metis sum.exhaust not_None_eq)
    then show thesis
    proof cases
      case error
      then have "r = Inl e" "ex' = retire_failed_load lo (am_active a) (if lo_layer_ready lo then Some workspace else None) ex3"
        using run p u l act2 by (simp_all add: launch_load_def failed_load_def)
      then show thesis by (rule fail) (simp_all add: k)
    next
      case empty
      then have "r = Inl (RuntimeError ''cache transfer layout has no layer consumers'')" "ex' = retire_failed_load lo (am_active a) None ex3"
        using run p u l act2 by (simp_all add: launch_load_def failed_load_def)
      then show thesis by (rule fail) (simp_all add: k)
    next
      case ended
      then have r: "ex' = push_ack finish Ack_load_back (ordered_unique (fst batch)) ex3" "r = Inr (Some workspace)"
        using run p u l act2 by (simp_all add: launch_load_def)
      have ne2: "hx_load_trackers ex2 \<noteq> []" using act(2) sh2 by (auto simp: same_shape_def)
      have P: "\<forall>p < length (hx_load_trackers ex2). length (le_layer_done_events (get_events ex2 p workspace)) = snd (hx_load_trackers ex2 ! p) \<and>
        0 < snd (hx_load_trackers ex2 ! p)" using armed_counts [OF ok act(1) sh2] .
      have fin: "ends_recording Load_stream finish (hx_device ex3)"
        "\<forall>j. Suc j < length (dv_log (hx_device ex3)) \<longrightarrow> (\<exists>p < length (hx_load_trackers ex2). covers ex3 p workspace j)"
        using loaded_covers [OF l [unfolded ended] so2 [unfolded act2] ne2 P] by blast+
      have same: "same_loads ex3 ex'" by (simp add: same_loads_def r(1) push_ack_def)
      show thesis
      proof (rule goal [OF f])
        show "events_keep ?L ex1 ex'" by (rule events_keep_same [OF load_keeps_events [OF k] same])
        show "hx_load_poisoned ex \<Longrightarrow> hx_load_poisoned ex'" using k same1(2) by (simp add: r(1) push_ack_def load_keeps_def)
        show "hx_load_poisoned ex' \<or> settled (hx_device ex') Load_stream j \<or> (\<exists>p. slot_ok ex' p workspace \<and> covers ex' p workspace j)"
          if "j < length (dv_log (hx_device ex'))" "snd (dv_log (hx_device ex') ! j) = Work w" for j w
        proof -
          have "Suc j < length (dv_log (hx_device ex3))" using record_work [OF fin(1)] that by (simp add: r(1))
          with fin(2) obtain p where p: "p < length (hx_load_trackers ex2)" "covers ex3 p workspace j" by blast
          have "(p, workspace, snd (hx_load_trackers ex2 ! p)) \<in> set (am_active a)" using p(1) act2 by (simp add: all_active_mem)
          with so2 have "slot_ok ex2 p workspace" by blast
          then have "slot_ok ex' p workspace" using load_keeps_slot [OF k3] same_shape_slot [OF same_loads_shape [OF same]] by simp
          with p(2) same_loads_covers [OF same] show ?thesis by blast
        qed
        show "case r of Inl e \<Rightarrow> hx_completions ex' = hx_completions ex
          | Inr x \<Rightarrow> x = Some workspace \<and> (\<exists>finish. ends_recording Load_stream finish (hx_device ex') \<and>
              hx_completions ex' = hx_completions ex @ [(finish, \<lparr>ak_kind = Ack_load_back, ak_op_ids = ordered_unique (fst batch)\<rparr>)])"
          using fin(1) k same1(1) by (auto simp: r load_keeps_def)
      qed
    qed
  qed
qed

text \<open>A load call touches nothing, fails while it takes the event sets, or launches on the workspace that all trackers agree on.\<close>

lemma start_loading_cases:
  assumes "trackers_ok ex" "start_loading lo batch prerequisite_stream ex = (ex', r)"
  obtains (idle) "same_loads ex ex'" "hx_load_poisoned ex' = hx_load_poisoned ex" "\<forall>i. r \<noteq> Inr (Some i)"
  | (unarmed) "events_keep no_call ex ex'" "\<not> hx_load_poisoned ex" "\<forall>i. r \<noteq> Inr i"
  | (launched) a workspace where "arm_ok ex a" "am_active a = all_active ex workspace" "hx_load_trackers ex \<noteq> []"
      "\<not> hx_load_poisoned ex" "launch_load lo batch a workspace = (ex', r)"
proof (cases "hx_load_poisoned ex \<or> fst batch = [] \<or> lo_capture_mode lo \<or> snd batch = []")
  case True
  then have "same_loads ex ex' \<and> hx_load_poisoned ex' = hx_load_poisoned ex \<and> (\<forall>i. r \<noteq> Inr (Some i))"
    using assms(2) by (auto simp: start_loading_def same_loads_def split: if_splits)
  then show ?thesis using idle by blast
next
  case False
  let ?a0 = "\<lparr>am_exec = ex, am_active = [], am_load_index = None\<rparr>"
  obtain a u where arm: "arm_trackers prerequisite_stream [0..<length (hx_load_trackers ex)] ?a0 = (a, u)" by (metis surj_pair)
  have a0: "arm_ok ex ?a0" by (simp add: arm_ok_def)
  note o = arm_trackers_ok [OF assms(1) a0 _ arm]
  have ok: "arm_ok ex a" using o by simp
  have fail: thesis if "r = Inl e" "ex' = retire_failed_load lo (am_active a) None (am_exec a)" for e
  proof (rule unarmed)
    show "events_keep no_call ex ex'" by (rule failed_outcome(1) [OF ok same_shape_refl arm_okD(1) [OF ok] that(2)]) simp
  qed (use False that(1) in simp_all)
  show ?thesis
  proof (cases "\<exists>i. u = Inr () \<and> am_load_index a = Some i")
    case True
    then obtain i where i: "u = Inr ()" "am_load_index a = Some i" by blast
    have ne: "hx_load_trackers ex \<noteq> []" using i arm by auto
    have "am_active a = all_active ex i" using o i ne by (auto simp: all_active_def)
    then show ?thesis by (rule launched [OF ok _ ne]) (use False assms(2) arm i in \<open>simp_all add: start_loading_def\<close>)
  next
    case none: False
    show ?thesis
    proof (cases u)
      case (Inl e)
      then show ?thesis using fail [of e] False assms(2) arm by (simp add: start_loading_def failed_load_def)
    next
      case (Inr v)
      then have "am_load_index a = None" using none by (cases "am_load_index a") auto
      then show ?thesis using fail [of "RuntimeError ''cache transfer layout has no layer consumers''"] Inr False assms(2) arm
        by (simp add: start_loading_def failed_load_def)
    qed
  qed
qed

section \<open>Pinned tables\<close>

definition reads_rows :: "row_table \<Rightarrow> work \<Rightarrow> bool" where
  "reads_rows t w = (case w of Upload_rows t' _ \<Rightarrow> t' = t | Copy_slice workspace _ _ _ \<Rightarrow> t = Load_table workspace | _ \<Rightarrow> False)"

definition fills_rows :: "row_table \<Rightarrow> work \<Rightarrow> bool" where
  "fills_rows t w = (case w of Fill_rows t' _ \<Rightarrow> t' = t | _ \<Rightarrow> False)"

text \<open>Work \<open>j\<close> is behind an event the host waited for before call \<open>i\<close>.\<close>

definition guarded :: "work device \<Rightarrow> nat \<Rightarrow> nat \<Rightarrow> bool" where
  "guarded d i j \<longleftrightarrow> (\<exists>r k e. j < r \<and> r < length (dv_log d) \<and> dv_log d ! r = (fst (dv_log d ! j), Record e) \<and>
     k \<le> i \<and> dv_log d ! k = (Host_thread, Wait e))"

text \<open>Whenever the host filled a table, it had waited for all readers of that table.\<close>

definition fills_ok :: "work device \<Rightarrow> bool" where
  "fills_ok d \<longleftrightarrow> (\<forall>i j t v w. i < length (dv_log d) \<longrightarrow> dv_log d ! i = (Host_thread, Work v) \<longrightarrow> fills_rows t v \<longrightarrow>
     j < i \<longrightarrow> snd (dv_log d ! j) = Work w \<longrightarrow> reads_rows t w \<longrightarrow> guarded d i j)"

lemma guarded_mono:
  assumes "guarded d i j" "extends d d'" "i < length (dv_log d)" "j < i"
  shows "guarded d' i j"
proof -
  from assms(1) obtain r k e where e: "j < r" "r < length (dv_log d)" "dv_log d ! r = (fst (dv_log d ! j), Record e)" "k \<le> i"
    "dv_log d ! k = (Host_thread, Wait e)" unfolding guarded_def by blast
  have "dv_log d' ! r = dv_log d ! r" "dv_log d' ! k = dv_log d ! k" "dv_log d' ! j = dv_log d ! j"
    using extends_nth [OF assms(2), of r] extends_nth [OF assms(2), of k] extends_nth [OF assms(2), of j] e assms(3,4) by simp_all
  then show ?thesis unfolding guarded_def using e extends_length [OF assms(2)] by (intro exI [of _ r] exI [of _ k] exI [of _ e]) simp
qed

lemma fills_ok_adds:
  assumes "fills_ok d" "adds P d d'" "\<And>s w t. P s w \<Longrightarrow> \<not> fills_rows t w"
  shows "fills_ok d'"
  unfolding fills_ok_def
proof (intro allI impI)
  fix i j t v w
  assume i: "i < length (dv_log d')" "dv_log d' ! i = (Host_thread, Work v)" "fills_rows t v" and j: "j < i" "snd (dv_log d' ! j) = Work w" "reads_rows t w"
  note x = adds_extends [OF assms(2)]
  have old: "i < length (dv_log d)"
    using adds_nth [OF assms(2) _ i(1), of v] assms(3) i(2,3) by (cases "i < length (dv_log d)") auto
  have "dv_log d ! i = dv_log d' ! i" "dv_log d ! j = dv_log d' ! j" using extends_nth [OF x, of i] extends_nth [OF x, of j] old j(1) by simp_all
  with assms(1) old i j have "guarded d i j" unfolding fills_ok_def by metis
  then show "guarded d' i j" by (rule guarded_mono [OF _ x old j(1)])
qed

lemma fills_ok_fill:
  assumes "fills_ok d" "\<And>j w. j < length (dv_log d) \<Longrightarrow> snd (dv_log d ! j) = Work w \<Longrightarrow> reads_rows t w \<Longrightarrow> settled d (fst (dv_log d ! j)) j"
  shows "fills_ok (submit Host_thread (Work (Fill_rows t rows)) d)" (is "fills_ok ?d'")
  unfolding fills_ok_def
proof (intro allI impI)
  fix i j t' v w
  assume i: "i < length (dv_log ?d')" "dv_log ?d' ! i = (Host_thread, Work v)" "fills_rows t' v" and j: "j < i" "snd (dv_log ?d' ! j) = Work w" "reads_rows t' w"
  have x: "extends d ?d'" by (rule extends_submit)
  show "guarded ?d' i j"
  proof (cases "i < length (dv_log d)")
    case True
    have "dv_log d ! i = dv_log ?d' ! i" "dv_log d ! j = dv_log ?d' ! j" using extends_nth [OF x, of i] extends_nth [OF x, of j] True j(1) by simp_all
    with assms(1) True i j have "guarded d i j" unfolding fills_ok_def by metis
    then show ?thesis by (rule guarded_mono [OF _ x True j(1)])
  next
    case False
    then have e: "i = length (dv_log d)" using i(1) by (simp add: submit_def)
    then have v: "v = Fill_rows t rows" using i(2) by (simp add: submit_def)
    have t: "t' = t" using i(3) v by (simp add: fills_rows_def)
    have jl: "j < length (dv_log d)" using j(1) e by simp
    have at: "dv_log ?d' ! k = dv_log d ! k" if "k < length (dv_log d)" for k by (rule extends_nth [OF x that])
    have "settled d (fst (dv_log d ! j)) j" by (rule assms(2) [OF jl]) (use j(2,3) at [OF jl] t in simp_all)
    then obtain r k e' where "j < r" "r < length (dv_log d)" "dv_log d ! r = (fst (dv_log d ! j), Record e')" "k < length (dv_log d)"
      "dv_log d ! k = (Host_thread, Wait e')" unfolding settled_def by blast
    then show ?thesis unfolding guarded_def using at [OF jl] at [of r] at [of k] e extends_length [OF x]
      by (intro exI [of _ r] exI [of _ k] exI [of _ e']) simp
  qed
qed

text \<open>Uploads of a lane that the host has not waited for are behind the lane's upload event.\<close>

definition lanes_ok :: "host_executor \<Rightarrow> bool" where
  "lanes_ok ex \<longleftrightarrow> (\<forall>j lane w. j < length (dv_log (hx_device ex)) \<longrightarrow> snd (dv_log (hx_device ex) ! j) = Work w \<longrightarrow>
     reads_rows (Lane_table lane) w \<longrightarrow> settled (hx_device ex) (fst (dv_log (hx_device ex) ! j)) j \<or>
     (\<exists>e r. hx_metadata_done ex lane = Some e \<and> j < r \<and> r < length (dv_log (hx_device ex)) \<and>
        dv_log (hx_device ex) ! r = (fst (dv_log (hx_device ex) ! j), Record e)))"

text \<open>Unless the executor is poisoned, readers of a workspace that the host has not waited for are behind the event that a
  tracker synchronises with before it takes that workspace again.\<close>

definition workspaces_ok :: "host_executor \<Rightarrow> bool" where
  "workspaces_ok ex \<longleftrightarrow> \<not> hx_load_poisoned ex \<longrightarrow>
     (\<forall>j workspace w. j < length (dv_log (hx_device ex)) \<longrightarrow> snd (dv_log (hx_device ex) ! j) = Work w \<longrightarrow>
        reads_rows (Load_table workspace) w \<longrightarrow> fst (dv_log (hx_device ex) ! j) = Load_stream \<and>
        (settled (hx_device ex) Load_stream j \<or> (\<exists>p. slot_ok ex p workspace \<and> covers ex p workspace j)))"

definition tables_ok :: "host_executor \<Rightarrow> bool" where
  "tables_ok ex \<longleftrightarrow> trackers_ok ex \<and> device_ok (hx_device ex) \<and> fills_ok (hx_device ex) \<and> lanes_ok ex \<and> workspaces_ok ex"

subsection \<open>Frames\<close>

text \<open>The event sets of the trackers, without their indices.\<close>

definition event_table :: "host_executor \<Rightarrow> (load_events list \<times> nat) list" where
  "event_table ex = map (\<lambda>(tr, n). (lt_event_sets tr, n)) (hx_load_trackers ex)"

lemma event_table_eq:
  assumes "event_table ex' = event_table ex"
  shows "length (hx_load_trackers ex') = length (hx_load_trackers ex)" "slot_ok ex' p i = slot_ok ex p i"
    "p < length (hx_load_trackers ex) \<Longrightarrow> get_events ex' p i = get_events ex p i" "trackers_ok ex' = trackers_ok ex"
proof -
  show len: "length (hx_load_trackers ex') = length (hx_load_trackers ex)"
    using arg_cong [OF assms, of length] by (simp add: event_table_def)
  have at: "lt_event_sets (fst (hx_load_trackers ex' ! p)) = lt_event_sets (fst (hx_load_trackers ex ! p))"
    "snd (hx_load_trackers ex' ! p) = snd (hx_load_trackers ex ! p)" if "p < length (hx_load_trackers ex)" for p
    using arg_cong [OF assms, of "\<lambda>t. t ! p"] that len by (simp_all add: event_table_def split_beta)
  show "slot_ok ex' p i = slot_ok ex p i" using len at by (auto simp: slot_ok_def)
  show "get_events ex' p i = get_events ex p i" if "p < length (hx_load_trackers ex)" for p i using at(1) [OF that] by (simp add: get_events_def)
  then show "trackers_ok ex' = trackers_ok ex" using len at by (simp add: trackers_ok_def)
qed

text \<open>What a step must keep of the events for the readers of workspaces to stay covered.\<close>

definition covers_kept :: "host_executor \<Rightarrow> host_executor \<Rightarrow> bool" where
  "covers_kept ex ex' \<longleftrightarrow> (hx_load_poisoned ex \<longrightarrow> hx_load_poisoned ex') \<and>
     (\<forall>p i j. slot_ok ex p i \<longrightarrow> covers ex p i j \<longrightarrow> slot_ok ex' p i \<and> covers ex' p i j)"

lemma covers_kept_table:
  assumes "event_table ex' = event_table ex" "hx_load_poisoned ex' = hx_load_poisoned ex" "extends (hx_device ex) (hx_device ex')"
  shows "covers_kept ex ex'"
  unfolding covers_kept_def
proof (intro conjI allI impI)
  note g = event_table_eq [OF assms(1)]
  show "hx_load_poisoned ex'" if "hx_load_poisoned ex" using that assms(2) by simp
  show "slot_ok ex' p i" if "slot_ok ex p i" for p i using that g(2) by simp
  show "covers ex' p i j" if "slot_ok ex p i" "covers ex p i j" for p i j
    by (rule covers_mono [OF that(2) assms(3)]) (use that(1) g(3) [of p i] in \<open>simp add: slot_ok_def\<close>)
qed

lemma covers_kept_events:
  assumes "events_keep P ex ex'" "hx_load_poisoned ex \<Longrightarrow> hx_load_poisoned ex'"
  shows "covers_kept ex ex'"
  using assms same_shape_slot [of ex ex'] unfolding covers_kept_def events_keep_def by blast

lemma workspaces_frame:
  assumes ok: "workspaces_ok ex" and x: "extends (hx_device ex) (hx_device ex')" and keep: "covers_kept ex ex'"
    and new: "\<And>j workspace w. \<not> hx_load_poisoned ex' \<Longrightarrow> length (dv_log (hx_device ex)) \<le> j \<Longrightarrow> j < length (dv_log (hx_device ex')) \<Longrightarrow>
      snd (dv_log (hx_device ex') ! j) = Work w \<Longrightarrow> reads_rows (Load_table workspace) w \<Longrightarrow>
      fst (dv_log (hx_device ex') ! j) = Load_stream \<and>
        (settled (hx_device ex') Load_stream j \<or> (\<exists>p. slot_ok ex' p workspace \<and> covers ex' p workspace j))"
  shows "workspaces_ok ex'"
  unfolding workspaces_ok_def
proof (intro allI impI)
  fix j workspace w
  assume p: "\<not> hx_load_poisoned ex'" and j: "j < length (dv_log (hx_device ex'))" "snd (dv_log (hx_device ex') ! j) = Work w"
    and w: "reads_rows (Load_table workspace) w"
  show "fst (dv_log (hx_device ex') ! j) = Load_stream \<and>
    (settled (hx_device ex') Load_stream j \<or> (\<exists>p. slot_ok ex' p workspace \<and> covers ex' p workspace j))"
  proof (cases "j < length (dv_log (hx_device ex))")
    case True
    have np: "\<not> hx_load_poisoned ex" using p keep unfolding covers_kept_def by blast
    note at = extends_nth [OF x True]
    from ok np True j(2) w at have L: "fst (dv_log (hx_device ex') ! j) = Load_stream"
      and "settled (hx_device ex) Load_stream j \<or> (\<exists>p. slot_ok ex p workspace \<and> covers ex p workspace j)"
      unfolding workspaces_ok_def by auto
    then show ?thesis using settled_mono [OF _ x] keep unfolding covers_kept_def by blast
  next
    case False
    then show ?thesis using new [OF p _ j w] by simp
  qed
qed

lemma lanes_frame:
  assumes ok: "lanes_ok ex" and x: "extends (hx_device ex) (hx_device ex')" and m: "hx_metadata_done ex' = hx_metadata_done ex"
    and new: "\<And>j lane w. length (dv_log (hx_device ex)) \<le> j \<Longrightarrow> j < length (dv_log (hx_device ex')) \<Longrightarrow>
      snd (dv_log (hx_device ex') ! j) = Work w \<Longrightarrow> \<not> reads_rows (Lane_table lane) w"
  shows "lanes_ok ex'"
  unfolding lanes_ok_def
proof (intro allI impI)
  fix j lane w
  assume j: "j < length (dv_log (hx_device ex'))" "snd (dv_log (hx_device ex') ! j) = Work w" "reads_rows (Lane_table lane) w"
  have old: "j < length (dv_log (hx_device ex))" using new [OF _ j(1,2)] j(3) by (cases "j < length (dv_log (hx_device ex))") auto
  note at = extends_nth [OF x old]
  from ok old j at consider "settled (hx_device ex) (fst (dv_log (hx_device ex') ! j)) j"
    | e r where "hx_metadata_done ex lane = Some e" "j < r" "r < length (dv_log (hx_device ex))"
        "dv_log (hx_device ex) ! r = (fst (dv_log (hx_device ex') ! j), Record e)" unfolding lanes_ok_def by metis
  then show "settled (hx_device ex') (fst (dv_log (hx_device ex') ! j)) j \<or>
     (\<exists>e r. hx_metadata_done ex' lane = Some e \<and> j < r \<and> r < length (dv_log (hx_device ex')) \<and>
        dv_log (hx_device ex') ! r = (fst (dv_log (hx_device ex') ! j), Record e))"
  proof cases
    case 1
    then show ?thesis using settled_mono [OF _ x] by blast
  next
    case 2
    then show ?thesis using m extends_nth [OF x, of r] extends_length [OF x] by (intro disjI2 exI [of _ e] exI [of _ r]) simp
  qed
qed

text \<open>A step whose calls neither read nor fill a table.\<close>

definition plain_call :: "stream \<Rightarrow> work \<Rightarrow> bool" where
  "plain_call s w \<longleftrightarrow> (\<forall>t. \<not> reads_rows t w \<and> \<not> fills_rows t w)"

lemma plain_step:
  assumes ok: "tables_ok ex" and a: "adds plain_call (hx_device ex) (hx_device ex')" and keep: "covers_kept ex ex'"
    and same: "trackers_ok ex'" "hx_metadata_done ex' = hx_metadata_done ex"
  shows "tables_ok ex'"
proof -
  note x = adds_extends [OF a]
  have new: "\<not> reads_rows t w" if "length (dv_log (hx_device ex)) \<le> j" "j < length (dv_log (hx_device ex'))" "snd (dv_log (hx_device ex') ! j) = Work w" for j w t
    using adds_nth [OF a that] by (simp add: plain_call_def)
  have "lanes_ok ex'" by (rule lanes_frame [OF _ x same(2) new]) (use ok in \<open>simp_all add: tables_ok_def\<close>)
  moreover have "workspaces_ok ex'" by (rule workspaces_frame [OF _ x keep]) (use ok new in \<open>auto simp: tables_ok_def\<close>)
  moreover have "fills_ok (hx_device ex')" by (rule fills_ok_adds [OF _ a]) (use ok in \<open>simp_all add: tables_ok_def plain_call_def\<close>)
  ultimately show ?thesis using ok same(1) adds_ok [OF a] by (simp add: tables_ok_def)
qed

lemma plain_device:
  assumes "tables_ok ex" "adds plain_call (hx_device ex) d"
  shows "tables_ok (ex\<lparr>hx_device := d\<rparr>)"
proof (rule plain_step [OF assms(1)])
  show "covers_kept ex (ex\<lparr>hx_device := d\<rparr>)" by (rule covers_kept_table) (use adds_extends [OF assms(2)] in \<open>simp_all add: event_table_def\<close>)
  show "trackers_ok (ex\<lparr>hx_device := d\<rparr>)" using assms(1) by (simp add: tables_ok_def trackers_ok_def get_events_def)
qed (use assms(2) in simp_all)

text \<open>Steps on other parts of the state.\<close>

lemma tables_ok_same:
  assumes "tables_ok ex" "event_table ex' = event_table ex" "hx_load_poisoned ex' = hx_load_poisoned ex" "hx_device ex' = hx_device ex"
    "hx_metadata_done ex' = hx_metadata_done ex"
  shows "tables_ok ex'"
proof (rule plain_step [OF assms(1)])
  show "covers_kept ex ex'" by (rule covers_kept_table [OF assms(2,3)]) (simp add: assms(4))
  show "trackers_ok ex'" using assms(1) event_table_eq(4) [OF assms(2)] by (simp add: tables_ok_def)
qed (use assms in simp_all)

subsection \<open>Lanes\<close>

text \<open>Once the host has synchronised with a lane's upload event, every upload of the lane is settled.\<close>

lemma lane_settled:
  assumes "lanes_ok ex" "d = synchronize_event (hx_metadata_done ex lane) (hx_device ex)"
    and j: "j < length (dv_log d)" "snd (dv_log d ! j) = Work w" "reads_rows (Lane_table lane) w"
  shows "settled d (fst (dv_log d ! j)) j"
proof -
  have a: "adds no_call (hx_device ex) d" unfolding assms(2) by (rule adds_synchronize(1))
  note x = adds_extends [OF a]
  have old: "j < length (dv_log (hx_device ex))"
    using adds_nth [OF a _ j(1,2)] by (cases "j < length (dv_log (hx_device ex))") (simp_all add: no_call_def)
  note at = extends_nth [OF x old]
  from assms(1) old j at consider "settled (hx_device ex) (fst (dv_log d ! j)) j"
    | e r where "hx_metadata_done ex lane = Some e" "j < r" "r < length (dv_log (hx_device ex))"
        "dv_log (hx_device ex) ! r = (fst (dv_log d ! j), Record e)" unfolding lanes_ok_def by metis
  then show ?thesis
  proof cases
    case 1
    then show ?thesis using settled_mono [OF _ x] by blast
  next
    case 2
    from settled_synchronize [OF 2(2-4)] 2(1) show ?thesis by (simp add: assms(2))
  qed
qed

text \<open>Filling a table whose readers are settled.\<close>

lemma fill_step:
  assumes ok: "tables_ok ex" and set: "\<And>j w. j < length (dv_log (hx_device ex)) \<Longrightarrow> snd (dv_log (hx_device ex) ! j) = Work w \<Longrightarrow>
      reads_rows t w \<Longrightarrow> settled (hx_device ex) (fst (dv_log (hx_device ex) ! j)) j"
    and ex': "ex' = ex\<lparr>hx_device := submit Host_thread (Work (Fill_rows t rows)) (hx_device ex)\<rparr>"
  shows "tables_ok ex'"
proof -
  have a: "adds (\<lambda>s w. w = Fill_rows t rows) (hx_device ex) (hx_device ex')" unfolding ex' by (simp add: adds_work)
  note x = adds_extends [OF a]
  have new: "\<not> reads_rows t' w" if "length (dv_log (hx_device ex)) \<le> j" "j < length (dv_log (hx_device ex'))" "snd (dv_log (hx_device ex') ! j) = Work w" for j w t'
    using adds_nth [OF a that] by (simp add: reads_rows_def)
  have t: "event_table ex' = event_table ex" by (simp add: ex' event_table_def)
  have "lanes_ok ex'" by (rule lanes_frame [OF _ x _ new]) (use ok in \<open>simp_all add: tables_ok_def ex'\<close>)
  moreover have "workspaces_ok ex'"
    by (rule workspaces_frame [OF _ x covers_kept_table [OF t _ x]]) (use ok new in \<open>auto simp: tables_ok_def ex'\<close>)
  moreover have "fills_ok (hx_device ex')" unfolding ex' using fills_ok_fill [OF _ set] ok by (simp add: tables_ok_def)
  ultimately show ?thesis using ok adds_ok [OF a] event_table_eq(4) [OF t] by (simp add: tables_ok_def)
qed

lemma upload_step:
  assumes ok: "tables_ok ex" and set: "\<And>j w. j < length (dv_log (hx_device ex)) \<Longrightarrow> snd (dv_log (hx_device ex) ! j) = Work w \<Longrightarrow>
      reads_rows (Lane_table lane) w \<Longrightarrow> settled (hx_device ex) (fst (dv_log (hx_device ex) ! j)) j"
    and up: "launch_work outcome s (Upload_rows (Lane_table lane) rows) (hx_device ex) = (d1, r)" "record_event s d1 = (d2, e)"
    and ex': "ex' = ex\<lparr>hx_device := d2, hx_metadata_done := (hx_metadata_done ex)(lane := Some e)\<rparr>"
  shows "tables_ok ex'"
proof -
  let ?P = "\<lambda>s' w. s' = s \<and> w = Upload_rows (Lane_table lane) rows"
  have a1: "adds ?P (hx_device ex) d1" by (rule adds_launch [OF _ up(1)]) simp
  have a: "adds ?P (hx_device ex) (hx_device ex')" using adds_trans [OF a1 adds_record' [OF up(2)]] by (simp add: ex')
  note x = adds_extends [OF a]
  have t: "event_table ex' = event_table ex" by (simp add: ex' event_table_def)
  have "workspaces_ok ex'"
  proof (rule workspaces_frame [OF _ x covers_kept_table [OF t _ x]])
    fix j workspace w
    assume "length (dv_log (hx_device ex)) \<le> j" "j < length (dv_log (hx_device ex'))" "snd (dv_log (hx_device ex') ! j) = Work w" "reads_rows (Load_table workspace) w"
    with adds_nth [OF a] show "fst (dv_log (hx_device ex') ! j) = Load_stream \<and>
      (settled (hx_device ex') Load_stream j \<or> (\<exists>p. slot_ok ex' p workspace \<and> covers ex' p workspace j))" by (fastforce simp: reads_rows_def)
  qed (use ok in \<open>simp_all add: tables_ok_def ex'\<close>)
  moreover have "lanes_ok ex'"
    unfolding lanes_ok_def
  proof (intro allI impI)
    fix j lane' w
    assume j: "j < length (dv_log (hx_device ex'))" "snd (dv_log (hx_device ex') ! j) = Work w" "reads_rows (Lane_table lane') w"
    show "settled (hx_device ex') (fst (dv_log (hx_device ex') ! j)) j \<or>
     (\<exists>e r. hx_metadata_done ex' lane' = Some e \<and> j < r \<and> r < length (dv_log (hx_device ex')) \<and>
        dv_log (hx_device ex') ! r = (fst (dv_log (hx_device ex') ! j), Record e))"
    proof (cases "j < length (dv_log (hx_device ex))")
      case old: True
      note at = extends_nth [OF x old]
      show ?thesis
      proof (cases "lane' = lane")
        case True
        then show ?thesis using set [OF old] j at settled_mono [OF _ x] by simp
      next
        case False
        from ok old j at consider "settled (hx_device ex) (fst (dv_log (hx_device ex') ! j)) j"
          | e' r' where "hx_metadata_done ex lane' = Some e'" "j < r'" "r' < length (dv_log (hx_device ex))"
              "dv_log (hx_device ex) ! r' = (fst (dv_log (hx_device ex') ! j), Record e')" unfolding lanes_ok_def tables_ok_def by metis
        then show ?thesis
        proof cases
          case 1
          then show ?thesis using settled_mono [OF _ x] by blast
        next
          case 2
          then show ?thesis using False extends_nth [OF x, of r'] extends_length [OF x]
            by (intro disjI2 exI [of _ e'] exI [of _ r']) (simp add: ex')
        qed
      qed
    next
      case False
      then have new: "fst (dv_log (hx_device ex') ! j) = s" "w = Upload_rows (Lane_table lane) rows" using adds_nth [OF a _ j(1,2)] by simp_all
      then have "lane' = lane" using j(3) by (simp add: reads_rows_def)
      moreover have en: "ends_recording s e (hx_device ex')" using ends_recording_record [OF up(2)] by (simp add: ex')
      obtain r' where r': "length (dv_log (hx_device ex')) = Suc r'" "dv_log (hx_device ex') ! r' = (s, Record e)" using en by (rule ends_recording_nth)
      moreover have "j < r'" using record_work [OF en j(1,2)] r'(1) by simp
      ultimately show ?thesis using new(1) by (intro disjI2 exI [of _ e] exI [of _ r']) (simp add: ex')
    qed
  qed
  moreover have "fills_ok (hx_device ex')" by (rule fills_ok_adds [OF _ a]) (use ok in \<open>simp_all add: tables_ok_def fills_rows_def\<close>)
  ultimately show ?thesis using ok adds_ok [OF a] event_table_eq(4) [OF t] by (simp add: tables_ok_def)
qed

lemma stage_rows_tables:
  assumes "stage_rows la lane transfers s ex = (ex', r)" "tables_ok ex"
  shows "tables_ok ex'"
proof -
  let ?d0 = "synchronize_event (hx_metadata_done ex lane) (hx_device ex)"
  have 0: "tables_ok (ex\<lparr>hx_device := ?d0\<rparr>)" by (rule plain_device [OF assms(2) adds_synchronize(1)])
  have lanes: "lanes_ok ex" using assms(2) by (simp add: tables_ok_def)
  obtain d1 u where 1: "launch_work (la_fill la) Host_thread (Fill_rows (Lane_table lane) transfers) ?d0 = (d1, u)" by (metis surj_pair)
  have d1: "d1 = ?d0 \<or> d1 = submit Host_thread (Work (Fill_rows (Lane_table lane) transfers)) ?d0"
    using 1 by (cases "la_fill la") (auto split: if_splits)
  have set0: "settled ?d0 (fst (dv_log ?d0 ! j)) j" if "j < length (dv_log ?d0)" "snd (dv_log ?d0 ! j) = Work w" "reads_rows (Lane_table lane) w" for j w
    by (rule lane_settled [OF lanes refl that])
  have t1: "tables_ok (ex\<lparr>hx_device := d1\<rparr>)"
    using d1 0 fill_step [OF 0, of "Lane_table lane" "ex\<lparr>hx_device := d1\<rparr>" transfers] set0 by auto
  have set1: "settled d1 (fst (dv_log d1 ! j)) j" if "j < length (dv_log d1)" "snd (dv_log d1 ! j) = Work w" "reads_rows (Lane_table lane) w" for j w
  proof -
    have a: "adds (\<lambda>s w. w = Fill_rows (Lane_table lane) transfers) ?d0 d1" using d1 by (auto simp: adds_work)
    have old: "j < length (dv_log ?d0)" using adds_nth [OF a _ that(1,2)] that(3) by (cases "j < length (dv_log ?d0)") (simp_all add: reads_rows_def)
    note at = extends_nth [OF adds_extends [OF a] old]
    show ?thesis using set0 [OF old] that at settled_mono [OF _ adds_extends [OF a]] by simp
  qed
  obtain d2 v where 2: "launch_work (la_upload la) s (Upload_rows (Lane_table lane) transfers) d1 = (d2, v)" by (metis surj_pair)
  obtain d3 e where 3: "record_event s d2 = (d3, e)" by (metis surj_pair)
  have t3: "tables_ok (ex\<lparr>hx_device := d3, hx_metadata_done := (hx_metadata_done ex)(lane := Some e)\<rparr>)"
    by (rule upload_step [OF t1, of lane "la_upload la" s transfers d2 v d3 e]) (use set1 2 3 in simp_all)
  have "ex' = ex\<lparr>hx_device := d1\<rparr> \<or> ex' = ex\<lparr>hx_device := d3, hx_metadata_done := (hx_metadata_done ex)(lane := Some e)\<rparr>"
    using assms(1) 1 2 3 by (cases u) (auto simp: stage_rows_def split: if_splits)
  with t1 t3 show ?thesis by blast
qed

lemma push_ack_tables: "tables_ok ex \<Longrightarrow> tables_ok (push_ack e kind op_ids ex)"
  by (rule tables_ok_same) (simp_all add: push_ack_def event_table_def)

lemma start_lane_tables:
  assumes "start_lane la lane transfers s p ex = (ex', r)" "tables_ok ex"
  shows "tables_ok ex'"
  using assms(1)
proof (cases rule: start_lane_cases)
  case (1 ex1 ex3 u)
  have t1: "tables_ok ex1" using assms(2) plain_device [OF assms(2) adds_wait_stream] unfolding 1(1) by (simp split: option.split)
  from 1(2) have t3: "tables_ok ex3"
  proof (cases rule: lane_batch_cases)
    case (copied ex2 d)
    have "adds plain_call (hx_device ex2) d"
      by (rule adds_launch [OF _ copied(3)]) (simp add: plain_call_def reads_rows_def fills_rows_def)
    from plain_device [OF stage_rows_tables [OF copied(2) t1] this] copied(4) show ?thesis by simp
  qed (use t1 stage_rows_tables in blast)+
  from 1(3) show ?thesis using t3 plain_device [OF t3 adds_record'] by auto
qed

lemma optional_rows_tables:
  assumes "(if transfers = [] then (ex1, Inr 0) else start_lane la lane transfers s None ex1) = (ex2, r)" "tables_ok ex1"
  shows "tables_ok ex2"
  using assms start_lane_tables [of la lane transfers s None ex1 ex2 r] by (simp split: if_splits)

subsection \<open>Stores\<close>

lemma start_writing_tables:
  assumes "start_writing la lane batch p ex = (ex', r)" "tables_ok ex"
  shows "tables_ok ex'"
  using assms(1)
proof (cases rule: start_writing_cases)
  case (started ex1 e)
  then show ?thesis using push_ack_tables start_lane_tables [OF started(2) assms(2)] by simp
qed (use assms(2) start_lane_tables in blast)+

lemma snapshot_store_tables:
  assumes "start_snapshot_store la exports ops transfers p ex = (ex', r)" "tables_ok ex"
  shows "tables_ok ex'"
  using assms(1)
proof (cases rule: snapshot_store_cases)
  case (1 ex1 ex2 u)
  have "tables_ok ex1" unfolding 1(1) by (rule plain_device [OF assms(2) adds_wait_stream])
  note t2 = optional_rows_tables [OF 1(2) this]
  have a: "adds plain_call (hx_device ex2) d" if "export_slots exports ops (hx_device ex2) = (d, v)" for d v
    by (rule adds_mono [OF export_slots_adds [OF that]]) (auto simp: export_call_def plain_call_def reads_rows_def fills_rows_def)
  have b: "tables_ok (push_ack e k ids (ex2\<lparr>hx_device := d'\<rparr>))"
    if "export_slots exports ops (hx_device ex2) = (d, v)" "record_event Write_stream d = (d', e)" for d d' v e k ids
    by (rule push_ack_tables [OF plain_device [OF t2 adds_trans [OF a [OF that(1)] adds_record' [OF that(2)]]]])
  from 1(3) show ?thesis using t2 plain_device [OF t2 a] b by (elim disjE exE conjE) simp_all
qed

lemma ordered_legs_tables:
  assumes "start_ordered_legs wo wp p ex = (ex', r)" "tables_ok ex"
  shows "tables_ok ex'"
  using assms(1)
proof (cases rule: ordered_legs_cases)
  case writes
  show ?thesis by (rule start_writing_tables [OF writes(1) assms(2)])
next
  case (snapshots ex1 f)
  show ?thesis by (rule snapshot_store_tables [OF snapshots(3) start_writing_tables [OF snapshots(1) assms(2)]])
qed

lemma write_backs_tables:
  assumes "submit_write_backs wo cache_ops p fence_stream ex = (ex', u)" "tables_ok ex"
  shows "tables_ok ex'"
proof (cases "collect_writes ex cache_ops")
  case (Inl e)
  then show ?thesis using assms by (simp add: submit_write_backs_def)
next
  case (Inr wp)
  obtain ex1 v where l: "start_ordered_legs wo wp p ex = (ex1, v)" by (metis surj_pair)
  note t1 = ordered_legs_tables [OF l assms(2)]
  show ?thesis
  proof (cases v)
    case (Inl e)
    obtain d tail where rec: "record_event Write_stream (hx_device ex1) = (d, tail)" by (metis surj_pair)
    have "tables_ok (fence_tail fence_stream ex1)"
      using plain_device [OF t1 adds_trans [OF adds_record' [OF rec] adds_wait]] by (simp add: fence_tail_def rec)
    then show ?thesis using assms(1) Inr l Inl by (simp add: submit_write_backs_def)
  next
    case v: (Inr fence)
    let ?ex = "ex1\<lparr>hx_device := wait_event fence_stream fence (hx_device ex1)\<rparr>"
    obtain ex2 x where s: "start_writing (wo_pinned wo) Pinned_write_lane (wp_pinned wp) p ?ex = (ex2, x)" by (metis surj_pair)
    have "ex' = ex2" using assms(1) Inr l v s by (auto simp: submit_write_backs_def split: sum.splits)
    with start_writing_tables [OF s plain_device [OF t1 adds_wait]] show ?thesis by simp
  qed
qed

subsection \<open>Loads\<close>

text \<open>Once all trackers took a workspace, every reader of its rows is settled.\<close>

lemma armed_settled:
  assumes ok: "workspaces_ok ex" "\<not> hx_load_poisoned ex" "arm_ok ex a" "am_active a = all_active ex workspace"
    and j: "j < length (dv_log (hx_device (am_exec a)))" "snd (dv_log (hx_device (am_exec a)) ! j) = Work w" "reads_rows (Load_table workspace) w"
  shows "settled (hx_device (am_exec a)) (fst (dv_log (hx_device (am_exec a)) ! j)) j"
proof -
  have a: "adds no_call (hx_device ex) (hx_device (am_exec a))" using arm_okD(1) [OF ok(3)] by (simp add: load_keeps_def)
  note x = adds_extends [OF a]
  have old: "j < length (dv_log (hx_device ex))"
    using adds_nth [OF a _ j(1,2)] by (cases "j < length (dv_log (hx_device ex))") (simp_all add: no_call_def)
  note at = extends_nth [OF x old]
  from ok(1,2) old j(2,3) at have s: "fst (dv_log (hx_device (am_exec a)) ! j) = Load_stream"
    and "settled (hx_device ex) Load_stream j \<or> (\<exists>p. slot_ok ex p workspace \<and> covers ex p workspace j)"
    unfolding workspaces_ok_def by auto
  then consider "settled (hx_device ex) Load_stream j" | p where "slot_ok ex p workspace" "covers ex p workspace j" by blast
  then show ?thesis
  proof cases
    case 1
    then show ?thesis using settled_mono [OF _ x] s by simp
  next
    case 2
    from 2(2) obtain e r where e: "last (le_layer_done_events (get_events ex p workspace)) = Some e" "r < length (dv_log (hx_device ex))"
      "dv_log (hx_device ex) ! r = (Load_stream, Record e)" "j < r" unfolding covers_def by blast
    have "(p, workspace, snd (hx_load_trackers ex ! p)) \<in> set (am_active a)" using 2(1) ok(4) by (simp add: all_active_mem slot_ok_def)
    from arm_okD(4) [OF ok(3) this] e(1) obtain k where "k < length (dv_log (hx_device (am_exec a)))"
      "dv_log (hx_device (am_exec a)) ! k = (Host_thread, Wait e)" by (auto simp: waited_def)
    then show ?thesis unfolding settled_def s using e(2-4) extends_nth [OF x e(2)] extends_length [OF x]
      by (intro exI [of _ r] exI [of _ k] exI [of _ e]) simp
  qed
qed

lemma events_tables:
  assumes "tables_ok ex" "events_keep plain_call ex ex'" "hx_load_poisoned ex \<Longrightarrow> hx_load_poisoned ex'"
  shows "tables_ok ex'"
proof (rule plain_step [OF assms(1) _ covers_kept_events [OF assms(2,3)]])
  show "trackers_ok ex'" using assms(1,2) same_shape_trackers [of ex ex'] by (simp add: tables_ok_def events_keep_def)
qed (use assms(2) in \<open>simp_all add: events_keep_def\<close>)

lemma launched_tables:
  assumes ok: "tables_ok ex1" and k: "events_keep (load_call workspace transfers) ex1 ex'" and p: "\<not> hx_load_poisoned ex1"
    and new: "\<And>j w. j < length (dv_log (hx_device ex')) \<Longrightarrow> snd (dv_log (hx_device ex') ! j) = Work w \<Longrightarrow>
       hx_load_poisoned ex' \<or> settled (hx_device ex') Load_stream j \<or> (\<exists>p. slot_ok ex' p workspace \<and> covers ex' p workspace j)"
  shows "tables_ok ex'"
proof -
  have a: "adds (load_call workspace transfers) (hx_device ex1) (hx_device ex')" and m: "hx_metadata_done ex' = hx_metadata_done ex1"
    and sh: "same_shape ex1 ex'" using k by (simp_all add: events_keep_def)
  note x = adds_extends [OF a]
  have lane: "\<not> reads_rows (Lane_table lane) w" and ws: "reads_rows (Load_table i) w \<Longrightarrow> i = workspace" and fill: "\<not> fills_rows t w"
    if "load_call workspace transfers s w" for s w lane i t using that by (auto simp: load_call_def reads_rows_def fills_rows_def)
  have "lanes_ok ex'" by (rule lanes_frame [OF _ x m lane [OF adds_nth [OF a]]]) (use ok in \<open>simp_all add: tables_ok_def\<close>)
  moreover have "workspaces_ok ex'"
  proof (rule workspaces_frame [OF _ x covers_kept_events [OF k]])
    fix j i w
    assume q: "\<not> hx_load_poisoned ex'" and j: "length (dv_log (hx_device ex1)) \<le> j" "j < length (dv_log (hx_device ex'))" "snd (dv_log (hx_device ex') ! j) = Work w"
      and r: "reads_rows (Load_table i) w"
    note c = adds_nth [OF a j]
    have "i = workspace" by (rule ws [OF c r])
    moreover have "fst (dv_log (hx_device ex') ! j) = Load_stream" using c by (simp add: load_call_def)
    ultimately show "fst (dv_log (hx_device ex') ! j) = Load_stream \<and>
        (settled (hx_device ex') Load_stream j \<or> (\<exists>p. slot_ok ex' p i \<and> covers ex' p i j))" using new [OF j(2,3)] q by simp
  qed (use ok p in \<open>simp_all add: tables_ok_def\<close>)
  moreover have "fills_ok (hx_device ex')" by (rule fills_ok_adds [OF _ a fill]) (use ok in \<open>simp_all add: tables_ok_def\<close>)
  moreover have "trackers_ok ex'" using ok same_shape_trackers [OF sh] by (simp add: tables_ok_def)
  ultimately show ?thesis using ok adds_ok [OF a] by (simp add: tables_ok_def)
qed

lemma start_loading_tables:
  assumes ok: "tables_ok ex" and run: "start_loading lo batch prerequisite_stream ex = (ex', r)"
  shows "tables_ok ex'"
proof -
  have tr: "trackers_ok ex" using ok by (simp add: tables_ok_def)
  have plain: "plain_call s w" if "no_call s w" for s w using that by (simp add: no_call_def)
  from tr run show ?thesis
  proof (cases rule: start_loading_cases)
    case idle
    then show ?thesis by (intro tables_ok_same [OF ok]) (simp_all add: same_loads_def event_table_def)
  next
    case unarmed
    show ?thesis by (rule events_tables [OF ok events_keep_mono [OF unarmed(1) plain]]) (use unarmed(2) in simp_all)
  next
    case (launched a workspace)
    have k0: "load_keeps no_call ex (am_exec a)" by (rule arm_okD(1) [OF launched(1)])
    have np: "\<not> hx_load_poisoned (am_exec a)" using k0 launched(4) by (simp add: load_keeps_def)
    have t0: "tables_ok (am_exec a)"
      by (rule events_tables [OF ok events_keep_mono [OF load_keeps_events [OF k0] plain]]) (use launched(4) in simp_all)
    have set: "settled (hx_device (am_exec a)) (fst (dv_log (hx_device (am_exec a)) ! j)) j"
      if "j < length (dv_log (hx_device (am_exec a)))" "snd (dv_log (hx_device (am_exec a)) ! j) = Work w" "reads_rows (Load_table workspace) w" for j w
      by (rule armed_settled [OF _ launched(4,1,2) that]) (use ok in \<open>simp add: tables_ok_def\<close>)
    obtain ex1 where f: "filled workspace (snd batch) (am_exec a) ex1" and k: "events_keep (load_call workspace (snd batch)) ex1 ex'"
      and new: "\<And>j w. j < length (dv_log (hx_device ex')) \<Longrightarrow> snd (dv_log (hx_device ex') ! j) = Work w \<Longrightarrow>
       hx_load_poisoned ex' \<or> settled (hx_device ex') Load_stream j \<or> (\<exists>p. slot_ok ex' p workspace \<and> covers ex' p workspace j)"
      by (rule launch_load_outcome [OF tr launched(1-3,5)]) blast
    have t1: "tables_ok ex1"
    proof (cases "ex1 = am_exec a")
      case False
      with f have "ex1 = (am_exec a)\<lparr>hx_device := submit Host_thread (Work (Fill_rows (Load_table workspace) (snd batch))) (hx_device (am_exec a))\<rparr>"
        by (simp add: filled_def)
      from fill_step [OF t0 _ this] set show ?thesis by blast
    qed (simp add: t0)
    have "\<not> hx_load_poisoned ex1" using filled_keeps [OF f] np by (simp add: load_keeps_def)
    from launched_tables [OF t1 k this new] show ?thesis .
  qed
qed

lemma import_slots_adds: "import_slots outcome ops d = (d', r) \<Longrightarrow> adds plain_call d d'"
proof (induction ops arbitrary: d)
  case (Cons op ops)
  let ?w = "Import_slot (so_request_pool_index op) (so_snapshot_slot op) (so_request_id op)"
  obtain d1 u where l: "launch_work (outcome (so_op_id op)) Load_stream ?w d = (d1, u)" by (metis surj_pair)
  have 1: "adds plain_call d d1" by (rule adds_launch [OF _ l]) (simp add: plain_call_def reads_rows_def fills_rows_def)
  show ?case
  proof (cases u)
    case (Inl e)
    then show ?thesis using Cons.prems l 1 by simp
  next
    case (Inr v)
    then show ?thesis using Cons.prems l by (intro adds_trans [OF 1 Cons.IH]) simp
  qed
qed simp

text \<open>A restore, step by step.\<close>

lemma start_restore_cases:
  assumes "start_restore lo ops rows prerequisite_stream ex = (ex', r)"
  obtains (capture) "ex' = ex"
  | (restored) ex1 ex2 ex3 d4 d5 e u2 u3 u4 where "ex1 = ex\<lparr>hx_device := wait_stream Load_stream prerequisite_stream (hx_device ex)\<rparr>"
      "(if fst rows = [] then (ex1, Inr 0) else start_lane (lo_restore_l2 lo) Restore_l2_lane (fst rows) Load_stream None ex1) = (ex2, u2)"
      "(if snd rows = [] then (ex2, Inr 0) else start_lane (lo_restore_pool lo) Restore_pool_lane (snd rows) Load_stream None ex2) = (ex3, u3)"
      "import_slots (lo_imports lo) ops (hx_device ex3) = (d4, u4)" "record_event Load_stream d4 = (d5, e)"
      "ex' \<in> {ex2, ex3, ex3\<lparr>hx_device := d4\<rparr>, push_ack e Ack_restore (map so_op_id ops) (ex3\<lparr>hx_device := d5\<rparr>)}"
proof (cases "lo_capture_mode lo")
  case True
  then show ?thesis using assms capture by (simp add: start_restore_def)
next
  case False
  let ?ex1 = "ex\<lparr>hx_device := wait_stream Load_stream prerequisite_stream (hx_device ex)\<rparr>"
  obtain ex2 u2 where 2: "(if fst rows = [] then (?ex1, Inr 0) else start_lane (lo_restore_l2 lo) Restore_l2_lane (fst rows) Load_stream None ?ex1) = (ex2, u2)"
    by (rule that [OF prod.collapse [symmetric]])
  obtain ex3 u3 where 3: "(if snd rows = [] then (ex2, Inr 0) else start_lane (lo_restore_pool lo) Restore_pool_lane (snd rows) Load_stream None ex2) = (ex3, u3)"
    by (rule that [OF prod.collapse [symmetric]])
  obtain d4 u4 where 4: "import_slots (lo_imports lo) ops (hx_device ex3) = (d4, u4)" by (metis surj_pair)
  obtain d5 e where 5: "record_event Load_stream d4 = (d5, e)" by (metis surj_pair)
  note run = assms [unfolded start_restore_def Let_def 2 prod.case]
  have "ex' \<in> {ex2, ex3, ex3\<lparr>hx_device := d4\<rparr>, push_ack e Ack_restore (map so_op_id ops) (ex3\<lparr>hx_device := d5\<rparr>)}"
  proof (cases u2)
    case (Inr n)
    note run = run [unfolded Inr sum.case 3 prod.case]
    show ?thesis
    proof (cases u3)
      case (Inr n)
      then show ?thesis using run False 4 5 by (cases u4) simp_all
    qed (use run False in simp)
  qed (use run False in simp)
  from restored [OF refl 2 3 4 5 this] show ?thesis .
qed

lemma start_restore_tables:
  assumes "start_restore lo ops rows prerequisite_stream ex = (ex', r)" "tables_ok ex"
  shows "tables_ok ex'"
  using assms(1)
proof (cases rule: start_restore_cases)
  case capture
  then show ?thesis using assms(2) by simp
next
  case (restored ex1 ex2 ex3 d4 d5 e u2 u3 u4)
  have "tables_ok ex1" unfolding restored(1) by (rule plain_device [OF assms(2) adds_wait_stream])
  note t2 = optional_rows_tables [OF restored(2) this]
  note t3 = optional_rows_tables [OF restored(3) t2]
  note a4 = import_slots_adds [OF restored(4)]
  note t4 = plain_device [OF t3 a4]
  note t5 = push_ack_tables [OF plain_device [OF t3 adds_trans [OF a4 adds_record' [OF restored(5)]]]]
  from restored(6) t2 t3 t4 t5 show ?thesis by (elim insertE emptyE) simp_all
qed

lemma load_consumers_tables: "tables_ok ex \<Longrightarrow> tables_ok (set_load_consumers load_index ex)"
  by (rule tables_ok_same) (simp_all add: set_load_consumers_def event_table_def set_consumer_def split_beta comp_def)

text \<open>A whole load call: the load, then the consumers and the restores.\<close>

lemma submit_load_backs_cases:
  assumes "submit_load_backs lo cache_ops prerequisite_stream ex = (ex', r)"
  obtains (rejected) e where "collect_loads ex cache_ops = Inl e" "ex' = ex" "r = Inl e"
  | (failed) lp e where "collect_loads ex cache_ops = Inr lp" "start_loading lo (lp_loads lp) prerequisite_stream ex = (ex', Inl e)" "r = Inl e"
  | (loaded) lp ex1 load_index where "collect_loads ex cache_ops = Inr lp"
      "start_loading lo (lp_loads lp) prerequisite_stream ex = (ex1, Inr load_index)"
      "(lp_restore_ops lp = [] \<and> ex' = set_load_consumers load_index ex1 \<and> r = Inr ()) \<or>
       start_restore lo (lp_restore_ops lp) (lp_restore_rows lp) prerequisite_stream (set_load_consumers load_index ex1) = (ex', r)"
proof (cases "collect_loads ex cache_ops")
  case (Inl e)
  then have "ex' = ex" "r = Inl e" using assms by (simp_all add: submit_load_backs_def)
  then show ?thesis by (rule rejected [OF Inl])
next
  case lp: (Inr lp)
  obtain ex1 u where l: "start_loading lo (lp_loads lp) prerequisite_stream ex = (ex1, u)" by (metis surj_pair)
  show ?thesis
  proof (cases u)
    case (Inl e)
    then have "ex' = ex1" "r = Inl e" using assms lp l by (simp_all add: submit_load_backs_def)
    then show ?thesis using failed [OF lp, of e] l Inl by blast
  next
    case (Inr i)
    then have "(lp_restore_ops lp = [] \<and> ex' = set_load_consumers i ex1 \<and> r = Inr ()) \<or>
       start_restore lo (lp_restore_ops lp) (lp_restore_rows lp) prerequisite_stream (set_load_consumers i ex1) = (ex', r)"
      using assms lp l by (auto simp: submit_load_backs_def Let_def split: if_splits)
    then show ?thesis by (rule loaded [OF lp l [unfolded Inr]])
  qed
qed

lemma load_backs_tables:
  assumes "submit_load_backs lo cache_ops prerequisite_stream ex = (ex', r)" "tables_ok ex"
  shows "tables_ok ex'"
  using assms(1)
proof (cases rule: submit_load_backs_cases)
  case rejected
  then show ?thesis using assms(2) by simp
next
  case (failed lp e)
  show ?thesis by (rule start_loading_tables [OF assms(2) failed(2)])
next
  case (loaded lp ex1 load_index)
  note t = load_consumers_tables [OF start_loading_tables [OF assms(2) loaded(2)], of load_index]
  from loaded(3) t start_restore_tables [OF _ t] show ?thesis by blast
qed

section \<open>The running system\<close>

text \<open>Work of the callers on their own streams.\<close>

definition caller_call :: "stream \<Rightarrow> work \<Rightarrow> bool" where
  "caller_call s w \<longleftrightarrow> (\<exists>n. s = Caller_stream n) \<and> (case w of Caller_work _ \<Rightarrow> True | Spin_flag _ _ \<Rightarrow> True | _ \<Rightarrow> False)"

text \<open>A new executor: its trackers as built for the consumers of the target and draft pools, and nothing submitted.\<close>

definition new_executor :: "nat list \<Rightarrow> host_executor \<Rightarrow> bool" where
  "new_executor counts ex \<longleftrightarrow> hx_load_trackers ex = map (\<lambda>n. (tracker_init n, n)) counts \<and>
     dv_log (hx_device ex) = [] \<and> hx_metadata_done ex = (\<lambda>_. None) \<and> hx_completions ex = [] \<and> \<not> hx_load_poisoned ex"

text \<open>The executor changes by submitting stores and loads, by polling, by callers' work, waits and recordings, and by shutting down.
  What the device has run does not show in the executor's state: an answer of an event query is an argument of polling.\<close>

inductive reachable :: "host_executor \<Rightarrow> bool" where
  start: "new_executor counts ex \<Longrightarrow> reachable ex"
| write_backs: "reachable ex \<Longrightarrow> submit_write_backs wo cache_ops prerequisite_stream fence_stream ex = (ex', u) \<Longrightarrow> reachable ex'"
| load_backs: "reachable ex \<Longrightarrow> submit_load_backs lo cache_ops prerequisite_stream ex = (ex', r) \<Longrightarrow> reachable ex'"
| poll: "reachable ex \<Longrightarrow> poll_results query ex = (ex', results) \<Longrightarrow> reachable ex'"
| caller: "reachable ex \<Longrightarrow> adds caller_call (hx_device ex) d \<Longrightarrow> reachable (ex\<lparr>hx_device := d\<rparr>)"
| shutdown: "reachable ex \<Longrightarrow> reachable (shutdown streams ex)"

lemma new_executor_tables: "new_executor counts ex \<Longrightarrow> tables_ok ex"
  by (simp add: new_executor_def tables_ok_def trackers_ok_def device_ok_def fills_ok_def lanes_ok_def workspaces_ok_def get_events_def
      tracker_init_def load_events_init_def)

lemma synchronize_streams_adds: "adds P d (fold synchronize_stream streams d)"
proof (induction streams arbitrary: d)
  case (Cons s streams)
  from adds_trans [OF adds_synchronize(2) Cons.IH] show ?case by simp
qed simp

lemma reachable_tables: "reachable ex \<Longrightarrow> tables_ok ex"
proof (induction rule: reachable.induct)
  case (start counts ex)
  then show ?case by (rule new_executor_tables)
next
  case (write_backs ex wo cache_ops prerequisite_stream fence_stream ex' u)
  show ?case by (rule write_backs_tables [OF write_backs.hyps(2) write_backs.IH])
next
  case (load_backs ex lo cache_ops prerequisite_stream ex' r)
  show ?case by (rule load_backs_tables [OF load_backs.hyps(2) load_backs.IH])
next
  case (poll ex query ex' results)
  show ?case by (rule tables_ok_same [OF poll.IH]) (use poll.hyps(2) in \<open>auto simp: poll_results_def event_table_def split: prod.splits\<close>)
next
  case (caller ex d)
  show ?case
    by (rule plain_device [OF caller.IH adds_mono [OF caller.hyps(2)]])
      (auto simp: caller_call_def plain_call_def reads_rows_def fills_rows_def split: work.splits)
next
  case (shutdown ex streams)
  have "tables_ok (ex\<lparr>hx_device := fold synchronize_stream streams (hx_device ex)\<rparr>)"
    by (rule plain_device [OF shutdown.IH synchronize_streams_adds])
  then show ?case by (rule tables_ok_same) (simp_all add: shutdown_def event_table_def)
qed

section \<open>Reuse of pinned tables\<close>

text \<open>C11: in every state the executor can reach through stores, loads, restores, polls, callers' work and shutdowns, the host thread
  fills a pinned table of rows (a lane's or a load workspace's) only after every upload and copy that read the table
  before has run; this holds also after submissions that failed half way, at every moment of a run of the device.\<close>

theorem tables_refilled_safe:
  assumes "reachable ex" and "stream_order (dv_log (hx_device ex)) executed"
    and "i \<in> executed" and "dv_log (hx_device ex) ! i = (Host_thread, Work (Fill_rows t rows))"
    and "j < i" and "snd (dv_log (hx_device ex) ! j) = Work w" and "reads_rows t w"
  shows "j \<in> executed"
proof -
  have ok: "fills_ok (hx_device ex)" "distinct (recordings (dv_log (hx_device ex)))"
    using reachable_tables [OF assms(1)] by (simp_all add: tables_ok_def device_ok_def)
  have "i < length (dv_log (hx_device ex))" using assms(2,3) by (auto simp: stream_order_def)
  with ok(1) assms(4-7) have "guarded (hx_device ex) i j" unfolding fills_ok_def by (simp add: fills_rows_def)
  then obtain r k e where "j < r" "r < length (dv_log (hx_device ex))" "dv_log (hx_device ex) ! r = (fst (dv_log (hx_device ex) ! j), Record e)"
    "k \<le> i" "dv_log (hx_device ex) ! k = (Host_thread, Wait e)" unfolding guarded_def by blast
  with fence_order [OF assms(2) ok(2) _ refl _ _ _ _ _ assms(3)] assms(4) show ?thesis by simp
qed

section \<open>Consumers of a load\<close>

text \<open>A load that launched without ready flags, layer by layer.\<close>

lemma launched_layers:
  assumes "trackers_ok ex" "start_loading lo batch prerequisite_stream ex = (ex', Inr (Some workspace))" "\<not> lo_layer_ready lo"
    and p: "p < length (hx_load_trackers ex)" "layer < snd (hx_load_trackers ex ! p)"
  shows "flat_layer ex p layer < length (hx_layer_slices ex)" "le_layer_ready_flags (get_events ex' p workspace) = None"
    "slot_ok ex' p workspace"
    "\<exists>j \<ge> length (dv_log (hx_device ex)). layer_fenced ex' p workspace layer
       (j, Copy_slice workspace (fst (hx_layer_slices ex ! flat_layer ex p layer)) (snd (hx_layer_slices ex ! flat_layer ex p layer)) (snd batch))"
proof -
  obtain a w where a: "arm_ok ex a" "am_active a = all_active ex w" "hx_load_trackers ex \<noteq> []"
    and run: "launch_load lo batch a w = (ex', Inr (Some workspace))"
    using assms(1,2) by (cases rule: start_loading_cases) auto
  have w: "w = workspace" by (rule launch_load_outcome [OF assms(1) a run]) simp
  obtain ex2 v where pr: "prepare_workspace lo workspace (snd batch) (am_exec a) = (ex2, v)" by (metis surj_pair)
  obtain ex1 where f: "filled workspace (snd batch) (am_exec a) ex1" and k2: "load_keeps (load_call workspace (snd batch)) ex1 ex2"
    by (rule prepare_workspace_filled [OF pr])
  note k0 = arm_okD(1) [OF a(1)] and k1 = filled_keeps [OF f]
  have sh: "same_shape ex (am_exec a)" "same_shape (am_exec a) ex1" "same_shape ex1 ex2" using k0 k1 k2 by (simp_all add: load_keeps_def)
  have sh2: "same_shape ex ex2" by (rule same_shape_trans [OF sh(1) same_shape_trans [OF sh(2,3)]])
  have act: "am_active a = all_active ex2 workspace" using a(2) w all_active_shape [OF sh2] by simp
  have len: "length (hx_load_trackers ex2) = length (hx_load_trackers ex)" "hx_layer_slices ex2 = hx_layer_slices ex"
    using sh2 by (simp_all add: same_shape_def)
  have snd2: "snd (hx_load_trackers ex2 ! q) = snd (hx_load_trackers ex ! q)" if "q < length (hx_load_trackers ex)" for q
    using sh2 that by (simp add: same_shape_def)
  have cnt: "map snd (hx_load_trackers ex2) = map snd (hx_load_trackers ex)" using len(1) snd2 by (intro nth_equalityI) simp_all
  then have flat: "flat_layer ex2 p layer = flat_layer ex p layer" by (simp add: flat_layer_def)
  have so: "\<forall>(p, i, n) \<in> set (all_active ex2 workspace). slot_ok ex2 p i"
    using arm_okD(4) [OF a(1)] same_shape_slot [OF sh2] act by auto
  obtain ex3 finish where l: "load_by_layer lo workspace (snd batch) (all_active ex2 workspace) ex2 = (ex3, Inr finish)"
    and ex3: "\<exists>e ids. ex' = push_ack e Ack_load_back ids ex3"
    using run assms(3) w act pr by (auto simp: launch_load_def failed_load_def split: option.splits sum.splits prod.splits)
  have same: "same_loads ex3 ex'" using ex3 by (auto simp: same_loads_def push_ack_def)
  have p2: "p < length (hx_load_trackers ex2)" "layer < snd (hx_load_trackers ex2 ! p)" using p len(1) snd2 by simp_all
  note F = load_by_layer_fenced [OF l so p2, unfolded flat len(2)]
  show "flat_layer ex p layer < length (hx_layer_slices ex)" by (rule F(1))
  show "le_layer_ready_flags (get_events ex' p workspace) = None" using F(2) same by (simp add: get_events_def same_loads_def)
  have "(p, workspace, snd (hx_load_trackers ex2 ! p)) \<in> set (all_active ex2 workspace)" using p2 by (simp add: all_active_mem)
  with so have "slot_ok ex2 p workspace" by blast
  then show "slot_ok ex' p workspace"
    using load_keeps_slot [OF load_by_layer_keeps [OF l so]] same_shape_slot [OF same_loads_shape [OF same]] by simp
  have "length (dv_log (hx_device ex)) \<le> length (dv_log (hx_device ex2))"
    using load_keeps_length [OF k0] load_keeps_length [OF k1] load_keeps_length [OF k2] by simp
  with F(3) same_loads_fenced [OF same]
  show "\<exists>j \<ge> length (dv_log (hx_device ex)). layer_fenced ex' p workspace layer
       (j, Copy_slice workspace (fst (hx_layer_slices ex ! flat_layer ex p layer)) (snd (hx_layer_slices ex ! flat_layer ex p layer)) (snd batch))"
    by (meson order_trans)
qed

lemma loading_index:
  assumes "start_loading lo batch prerequisite_stream ex = (ex', Inr load_index)" "trackers_ok ex" "fst batch \<noteq> []" "snd batch \<noteq> []"
  obtains workspace where "load_index = Some workspace"
  using assms(2,1)
proof (cases rule: start_loading_cases)
  case idle
  then show ?thesis using assms that by (cases load_index) (auto simp: start_loading_def launch_load_def failed_load_def
    split: if_splits prod.splits sum.splits option.splits)
next
  case (launched a workspace)
  have "load_index = Some workspace" by (rule launch_load_outcome [OF assms(2) launched(1-3,5)]) simp
  then show ?thesis by (rule that)
qed auto

text \<open>A tracker that consumes one load without ready flags waits for the layer's event.\<close>

lemma tracker_wait_event:
  assumes "lt_consumer_indices tr = [int i]" "i < length (lt_event_sets tr)" "le_layer_ready_flags (lt_event_sets tr ! i) = None"
    "layer < length (le_layer_done_events (lt_event_sets tr ! i))"
  shows "tracker_wait current (int layer) tr d = (wait_event current (le_layer_done_events (lt_event_sets tr ! i) ! layer) d, Inr ())"
  using assms by (simp add: tracker_wait_def wait_for_layer_def list_at_def)

text \<open>A restore after the load leaves the trackers alone.\<close>

lemma start_restore_keeps:
  assumes "start_restore lo ops rows prerequisite_stream ex = (ex', r)"
  shows "extends (hx_device ex) (hx_device ex') \<and> hx_load_trackers ex' = hx_load_trackers ex"
  using assms
proof (cases rule: start_restore_cases)
  case (restored ex1 ex2 ex3 d4 d5 e u2 u3 u4)
  have x1: "extends (hx_device ex) (hx_device ex1)" unfolding restored(1) using adds_extends [OF adds_wait_stream] by simp
  note x2 = extends_trans [OF x1 adds_extends [OF optional_rows(1) [OF restored(2)]]]
  note x3 = extends_trans [OF x2 adds_extends [OF optional_rows(1) [OF restored(3)]]]
  note x4 = extends_trans [OF x3 adds_extends [OF import_slots_adds [OF restored(4)]]]
  note x5 = extends_trans [OF x4 adds_extends [OF adds_record' [OF restored(5)]]]
  have t: "hx_load_trackers ex2 = hx_load_trackers ex" "hx_load_trackers ex3 = hx_load_trackers ex"
    using submitsD(2) [OF optional_rows(2) [OF restored(2)]] submitsD(2) [OF optional_rows(2) [OF restored(3)]] restored(1) by simp_all
  show ?thesis using restored(6) x2 x3 x4 x5 t by (elim insertE emptyE) (simp_all add: push_ack_def)
qed simp

text \<open>C12: after a load that signals by events, a forward that waits for a layer of the target or the draft tracker does so
  without error, and whatever its stream runs after the wait runs after the copy of exactly that layer's slice of the
  geometry for the collected rows, submitted by this load.\<close>

theorem load_layer_fenced:
  assumes "reachable ex" and "submit_load_backs lo cache_ops prerequisite_stream ex = (ex', Inr ())"
    and "collect_loads ex cache_ops = Inr lp" and "fst (lp_loads lp) \<noteq> []" and "snd (lp_loads lp) \<noteq> []" and "\<not> lo_layer_ready lo"
    and "p < length (hx_load_trackers ex)" and "layer < snd (hx_load_trackers ex ! p)"
    and "extends (hx_device ex') d0" and "tracker_wait current (int layer) (fst (hx_load_trackers ex' ! p)) d0 = (d1, u)"
    and "extends d1 d" and "device_ok d" and "stream_order (dv_log d) executed"
    and "length (dv_log d1) \<le> i" and "i \<in> executed" and "fst (dv_log d ! i) = current"
  shows "u = Inr () \<and> flat_layer ex p layer < length (hx_layer_slices ex) \<and>
    (\<exists>j \<in> executed. length (dv_log (hx_device ex)) \<le> j \<and> (\<exists>workspace. dv_log d ! j =
       (Load_stream, Work (Copy_slice workspace (fst (hx_layer_slices ex ! flat_layer ex p layer))
          (snd (hx_layer_slices ex ! flat_layer ex p layer)) (snd (lp_loads lp))))))"
proof -
  have ok: "trackers_ok ex" using reachable_tables [OF assms(1)] by (simp add: tables_ok_def)
  obtain ex1 load_index where l: "start_loading lo (lp_loads lp) prerequisite_stream ex = (ex1, Inr load_index)"
    and t: "hx_load_trackers ex' = hx_load_trackers (set_load_consumers load_index ex1)" and x0: "extends (hx_device ex1) (hx_device ex')"
    using assms(2)
  proof (cases rule: submit_load_backs_cases)
    case (loaded lp' ex1 load_index)
    have "hx_device (set_load_consumers load_index ex1) = hx_device ex1" by (simp add: set_load_consumers_def)
    then show thesis using loaded assms(3) start_restore_keeps by (intro that [of ex1 load_index]) fastforce+
  qed simp_all
  obtain workspace where w: "load_index = Some workspace" by (rule loading_index [OF l ok assms(4,5)])
  let ?w = "Copy_slice workspace (fst (hx_layer_slices ex ! flat_layer ex p layer)) (snd (hx_layer_slices ex ! flat_layer ex p layer)) (snd (lp_loads lp))"
  note L = launched_layers [OF ok l [unfolded w] assms(6-8)]
  from L(4) obtain j where j: "length (dv_log (hx_device ex)) \<le> j" "layer_fenced ex1 p workspace layer (j, ?w)" by blast
  from j(2) obtain e q where e: "layer < length (le_layer_done_events (get_events ex1 p workspace))"
    "le_layer_done_events (get_events ex1 p workspace) ! layer = Some e" "q < length (dv_log (hx_device ex1))"
    "dv_log (hx_device ex1) ! q = (Load_stream, Record e)" "j < q" "dv_log (hx_device ex1) ! j = (Load_stream, Work ?w)"
    unfolding layer_fenced_def by auto
  let ?tr = "fst (hx_load_trackers ex' ! p)"
  have p: "p < length (hx_load_trackers ex1)" "workspace < length (lt_event_sets (fst (hx_load_trackers ex1 ! p)))"
    using L(3) by (simp_all add: slot_ok_def)
  have tr: "?tr = set_consumer (int workspace) (fst (hx_load_trackers ex1 ! p))"
    using t w p(1) by (simp add: set_load_consumers_def split_beta)
  have wait: "tracker_wait current (int layer) ?tr d0 = (submit current (Wait e) d0, Inr ())"
    using tracker_wait_event [of ?tr workspace layer current d0] tr p(2) L(2) e(1,2)
    by (simp add: set_consumer_def get_events_def wait_event_def)
  then have d1: "d1 = submit current (Wait e) d0" "u = Inr ()" using assms(10) by simp_all
  have x1: "extends (hx_device ex1) d0" by (rule extends_trans [OF x0 assms(9)])
  have x: "extends (hx_device ex1) d" using extends_trans [OF x1 extends_trans [OF _ assms(11)]] extends_submit(2) d1(1) by blast
  have at: "dv_log d ! q = (Load_stream, Record e)" "dv_log d ! j = (Load_stream, Work ?w)" "q < length (dv_log d)"
    using extends_nth [OF x, of q] extends_nth [OF x, of j] extends_length [OF x] e(3-6) by simp_all
  have "dv_log d ! length (dv_log d0) = (current, Wait e)" using extends_nth [OF assms(11), of "length (dv_log d0)"] by (simp add: d1(1) submit_def)
  moreover have "length (dv_log d0) \<le> i" using assms(14) by (simp add: d1(1) submit_def)
  ultimately have "j \<in> executed"
    using fence_order [OF assms(13) _ e(5) _ at(3,1) _ _ assms(16,15)] assms(12) at(2) by (simp add: device_ok_def)
  then show ?thesis using d1(2) L(1) j(1) at(2) by blast
qed

section \<open>An example\<close>

text \<open>Loads of one page, one after the other; the fourth takes the workspace of the first again.\<close>

definition demo_outcomes :: load_outcomes where
  "demo_outcomes = \<lparr>lo_capture_mode = False, lo_fill = Launched, lo_device_tables = True, lo_upload = Launched, lo_layer_ready = False,
     lo_flags = Launched, lo_copy = (\<lambda>_. Launched), lo_retirement = Retired, lo_restore_l2 = demo_lane, lo_restore_pool = demo_lane,
     lo_imports = (\<lambda>_. Launched)\<rparr>"

definition demo_load :: "host_executor \<Rightarrow> host_executor \<times> unit result" where
  "demo_load ex = submit_load_backs demo_outcomes [Load_back_op demo_batch] (Caller_stream 0) ex"

definition demo_reloaded :: host_executor where
  "demo_reloaded = fst (demo_load (fst (demo_load (fst (demo_load (fst (demo_load demo_executor)))))))"

lemma demo_reachable: "reachable demo_executor" "reachable demo_reloaded"
proof -
  show 0: "reachable demo_executor" by (rule start [of "[1]"]) (simp add: new_executor_def demo_executor_def)
  have s: "reachable (fst (demo_load ex))" if "reachable ex" for ex
    by (rule load_backs [OF that, of demo_outcomes "[Load_back_op demo_batch]" "Caller_stream 0" _ "snd (demo_load ex)"]) (simp add: demo_load_def)
  show "reachable demo_reloaded" unfolding demo_reloaded_def by (intro s 0)
qed

lemma demo_reloaded_log: "dv_log (hx_device demo_reloaded) =
   [(Caller_stream 0, Record 0), (Load_stream, Wait 0), (Host_thread, Work (Fill_rows (Load_table 0) [(0, 2, 3)])),
    (Load_stream, Work (Upload_rows (Load_table 0) [(0, 2, 3)])), (Load_stream, Work (Copy_slice 0 0 4 [(0, 2, 3)])), (Load_stream, Record 1),
    (Caller_stream 0, Record 2), (Load_stream, Wait 2), (Host_thread, Work (Fill_rows (Load_table 1) [(0, 2, 3)])),
    (Load_stream, Work (Upload_rows (Load_table 1) [(0, 2, 3)])), (Load_stream, Work (Copy_slice 1 0 4 [(0, 2, 3)])), (Load_stream, Record 3),
    (Caller_stream 0, Record 4), (Load_stream, Wait 4), (Host_thread, Work (Fill_rows (Load_table 2) [(0, 2, 3)])),
    (Load_stream, Work (Upload_rows (Load_table 2) [(0, 2, 3)])), (Load_stream, Work (Copy_slice 2 0 4 [(0, 2, 3)])), (Load_stream, Record 5),
    (Host_thread, Wait 1),
    (Caller_stream 0, Record 6), (Load_stream, Wait 6), (Host_thread, Work (Fill_rows (Load_table 0) [(0, 2, 3)])),
    (Load_stream, Work (Upload_rows (Load_table 0) [(0, 2, 3)])), (Load_stream, Work (Copy_slice 0 0 4 [(0, 2, 3)])), (Load_stream, Record 7)]"
  by code_simp

theorem tables_refilled_safe_witness:
  "dv_log (hx_device demo_reloaded) ! 21 = (Host_thread, Work (Fill_rows (Load_table 0) [(0, 2, 3)])) \<and>
   snd (dv_log (hx_device demo_reloaded) ! 4) = Work (Copy_slice 0 0 4 [(0, 2, 3)]) \<and> (4 :: nat) \<in> {..<25}"
proof -
  have at: "dv_log (hx_device demo_reloaded) ! 21 = (Host_thread, Work (Fill_rows (Load_table 0) [(0, 2, 3)]))"
    "snd (dv_log (hx_device demo_reloaded) ! 4) = Work (Copy_slice 0 0 4 [(0, 2, 3)])" "length (dv_log (hx_device demo_reloaded)) = 25"
    by (simp_all add: demo_reloaded_log)
  have "stream_order (dv_log (hx_device demo_reloaded)) {..<length (dv_log (hx_device demo_reloaded))}"
    by (rule stream_order_complete) (simp add: demo_reloaded_log recordings_def)
  then have order: "stream_order (dv_log (hx_device demo_reloaded)) {..<25}" by (simp add: at(3))
  have "4 \<in> {..<25 :: nat}"
    by (rule tables_refilled_safe [OF demo_reachable(2) order _ at(1) _ at(2)]) (simp_all add: reads_rows_def)
  with at show ?thesis by simp
qed

definition demo_forward :: "work device" where
  "demo_forward = submit (Caller_stream 0) (Work (Caller_work 0))
     (fst (tracker_wait (Caller_stream 0) 0 (fst (hx_load_trackers (fst (demo_load demo_executor)) ! 0)) (hx_device (fst (demo_load demo_executor)))))"

lemma demo_forward_log: "dv_log demo_forward =
   [(Caller_stream 0, Record 0), (Load_stream, Wait 0), (Host_thread, Work (Fill_rows (Load_table 0) [(0, 2, 3)])),
    (Load_stream, Work (Upload_rows (Load_table 0) [(0, 2, 3)])), (Load_stream, Work (Copy_slice 0 0 4 [(0, 2, 3)])), (Load_stream, Record 1),
    (Caller_stream 0, Wait 1), (Caller_stream 0, Work (Caller_work 0))]"
  by code_simp

theorem load_layer_fenced_witness: "\<exists>j < 8. \<exists>workspace. dv_log demo_forward ! j = (Load_stream, Work (Copy_slice workspace 0 4 [(0, 2, 3)]))"
proof -
  let ?ex = "fst (demo_load demo_executor)"
  let ?t = "tracker_wait (Caller_stream 0) (int 0) (fst (hx_load_trackers ?ex ! 0)) (hx_device ?ex)"
  have lp: "collect_loads demo_executor [Load_back_op demo_batch] = Inr \<lparr>lp_loads = ([7], [(0, 2, 3)]), lp_restore_ops = [], lp_restore_rows = ([], [])\<rparr>"
    by code_simp
  have "snd (demo_load demo_executor) = Inr ()" by code_simp
  then have run: "submit_load_backs demo_outcomes [Load_back_op demo_batch] (Caller_stream 0) demo_executor = (?ex, Inr ())"
    by (metis demo_load_def prod.collapse)
  have tr: "0 < length (hx_load_trackers demo_executor)" "0 < snd (hx_load_trackers demo_executor ! 0)" by (simp_all add: demo_executor_def)
  have x: "extends (fst ?t) demo_forward" by (simp add: demo_forward_def extends_submit)
  have ok: "device_ok demo_forward" by code_simp
  have "stream_order (dv_log demo_forward) {..<length (dv_log demo_forward)}"
    by (rule stream_order_complete) (simp add: demo_forward_log recordings_def)
  moreover have "length (dv_log demo_forward) = 8" by (simp add: demo_forward_log)
  ultimately have order: "stream_order (dv_log demo_forward) {..<8}" by simp
  have at: "length (dv_log (fst ?t)) \<le> 7" "fst (dv_log demo_forward ! 7) = Caller_stream 0" by code_simp+
  have f: "fst (hx_layer_slices demo_executor ! flat_layer demo_executor 0 0) = 0" "snd (hx_layer_slices demo_executor ! flat_layer demo_executor 0 0) = 4"
    by code_simp+
  from load_layer_fenced [OF demo_reachable(1) run lp _ _ _ tr extends_refl prod.collapse [symmetric] x ok order at(1) _ at(2)]
  show ?thesis by (auto simp: f demo_outcomes_def)
qed

end
