(* ===== verification/Embedding_Cache.thy ===== *)
theory Embedding_Cache
  imports TS_Prelude
begin

text \<open>
  The vision-embedding cache of the encode stage, \<^verbatim>\<open>runtime/cache/embedding_cache.py\<close>: the
  bytes-bounded LRU cache \<open>EmbeddingCache\<close> and the two-tier \<open>TieredEmbeddingCache\<close> over a
  Device tier and a Host tier. An ordered dict is an association list, oldest entry first.
  The eviction hook acts on an environment that the loop threads through, so the hook of
  the upper tier can update the lower one while the upper tier is being trimmed. The two
  classes share one contract, the locale \<open>embedding_store\<close>, interpreted on both.
\<close>

section \<open>The single-tier cache\<close>

type_synonym ('k, 'v) entries = "('k \<times> 'v \<times> int) list"

record ('k, 'v) embedding_cache =
  ec_capacity_bytes :: int
  ec_store :: "('k, 'v) entries"
  ec_cur_bytes :: int
  ec_hits :: int
  ec_misses :: int

type_synonym ('k, 'v, 'e) evict_hook = "'k \<Rightarrow> 'v \<Rightarrow> int \<Rightarrow> 'e \<Rightarrow> 'e"

definition ec_init :: "int \<Rightarrow> ('k, 'v) embedding_cache result" where
  "ec_init capacity =
     raise_if (capacity < 0) (ValueError ''capacity_bytes must be >= 0'')
       (Inr \<lparr>ec_capacity_bytes = capacity, ec_store = [], ec_cur_bytes = 0, ec_hits = 0, ec_misses = 0\<rparr>)"

definition ec_get :: "'k \<Rightarrow> ('k, 'v) embedding_cache \<Rightarrow> ('k, 'v) embedding_cache \<times> 'v option" where
  "ec_get key c =
     (case map_of (ec_store c) key of
        None \<Rightarrow> (c\<lparr>ec_misses := ec_misses c + 1\<rparr>, None)
      | Some entry \<Rightarrow>
          (c\<lparr>ec_store := AList.delete key (ec_store c) @ [(key, entry)], ec_hits := ec_hits c + 1\<rparr>,
           Some (fst entry)))"

fun evict_loop ::
  "('k, 'v, 'e) evict_hook option \<Rightarrow> int \<Rightarrow> ('k, 'v) entries \<Rightarrow> int \<Rightarrow> 'e
    \<Rightarrow> ('k, 'v) entries \<times> int \<times> 'e" where
  "evict_loop on_evict capacity [] cur env = ([], cur, env)"
| "evict_loop on_evict capacity ((key, value, nbytes) # rest) cur env =
     (if cur > capacity
      then evict_loop on_evict capacity rest (cur - nbytes)
             (case on_evict of None \<Rightarrow> env | Some f \<Rightarrow> f key value nbytes env)
      else ((key, value, nbytes) # rest, cur, env))"

definition ec_evict ::
  "('k, 'v, 'e) evict_hook option \<Rightarrow> ('k, 'v) embedding_cache \<Rightarrow> 'e \<Rightarrow> ('k, 'v) embedding_cache \<times> 'e" where
  "ec_evict on_evict c env =
     (case evict_loop on_evict (ec_capacity_bytes c) (ec_store c) (ec_cur_bytes c) env of
        (store, cur, env') \<Rightarrow> (c\<lparr>ec_store := store, ec_cur_bytes := cur\<rparr>, env'))"

definition ec_pop :: "'k \<Rightarrow> ('k, 'v) embedding_cache \<Rightarrow> ('k, 'v) embedding_cache \<times> ('v \<times> int) option" where
  "ec_pop key c =
     (case map_of (ec_store c) key of
        None \<Rightarrow> (c, None)
      | Some entry \<Rightarrow>
          (c\<lparr>ec_store := AList.delete key (ec_store c), ec_cur_bytes := ec_cur_bytes c - snd entry\<rparr>,
           Some entry))"

definition ec_put ::
  "('k, 'v, 'e) evict_hook option \<Rightarrow> 'k \<Rightarrow> 'v \<Rightarrow> int \<Rightarrow> ('k, 'v) embedding_cache \<Rightarrow> 'e
    \<Rightarrow> (('k, 'v) embedding_cache \<times> 'e) \<times> unit result" where
  "ec_put on_evict key value nbytes c env =
     (if nbytes < 0 then ((c, env), Inl (ValueError ''nbytes must be >= 0''))
      else if nbytes > ec_capacity_bytes c then ((c, env), Inr ())
      else
        let c1 = fst (ec_pop key c);
            c2 = c1\<lparr>ec_store := ec_store c1 @ [(key, value, nbytes)], ec_cur_bytes := ec_cur_bytes c1 + nbytes\<rparr>
        in (ec_evict on_evict c2 env, Inr ()))"

definition ec_contains :: "'k \<Rightarrow> ('k, 'v) embedding_cache \<Rightarrow> bool" where
  "ec_contains key c \<longleftrightarrow> map_of (ec_store c) key \<noteq> None"

definition ec_len :: "('k, 'v) embedding_cache \<Rightarrow> int" where
  "ec_len c = int (length (ec_store c))"

section \<open>Copies between Host and Device\<close>

text \<open>
  A cache value is a bare tensor or a \<open>(main, deepstack)\<close> tuple whose halves may be None.
  The tensor copies \<open>t.cpu()\<close> and \<open>t.to(device)\<close> are parameters.
\<close>

datatype 't embedding = Bare 't | Halves "'t option list"

fun embedding_to_host :: "('t \<Rightarrow> 't) \<Rightarrow> 't embedding \<Rightarrow> 't embedding" where
  "embedding_to_host cpu (Halves ts) = Halves (map (map_option cpu) ts)"
| "embedding_to_host cpu (Bare t) = Bare (cpu t)"

fun embedding_to_device :: "('d \<Rightarrow> 't \<Rightarrow> 't) \<Rightarrow> 't embedding \<Rightarrow> 'd \<Rightarrow> 't embedding" where
  "embedding_to_device to_dev (Halves ts) device = Halves (map (map_option (to_dev device)) ts)"
| "embedding_to_device to_dev (Bare t) device = Bare (to_dev device t)"

section \<open>The two-tier cache\<close>

record ('k, 'v) tiered_cache =
  tc_l1 :: "('k, 'v) embedding_cache"
  tc_l2 :: "('k, 'v) embedding_cache"
  tc_l1_hits :: int
  tc_l2_hits :: int
  tc_misses :: int
  tc_promotions :: int
  tc_demotions :: int

definition tc_init :: "int \<Rightarrow> int \<Rightarrow> ('k, 'v) tiered_cache result" where
  "tc_init l1_capacity l2_capacity =
     bindE (ec_init l1_capacity) (\<lambda>l1. bindE (ec_init l2_capacity) (\<lambda>l2.
       Inr \<lparr>tc_l1 = l1, tc_l2 = l2, tc_l1_hits = 0, tc_l2_hits = 0, tc_misses = 0,
            tc_promotions = 0, tc_demotions = 0\<rparr>))"

definition tc_demote :: "('v \<Rightarrow> 'v) \<Rightarrow> ('k, 'v, ('k, 'v) tiered_cache) evict_hook" where
  "tc_demote to_host key value nbytes t =
     (if nbytes > ec_capacity_bytes (tc_l2 t) then t
      else
        let l2 = fst (fst (ec_put None key (to_host value) nbytes (tc_l2 t) ()))
        in t\<lparr>tc_l2 := l2,
             tc_demotions := tc_demotions t + (if ec_contains key l2 then 1 else 0)\<rparr>)"

text \<open>\<open>self.l1.put(...)\<close> with the demotion hook; the hook updates the other fields only.\<close>

definition tc_l1_put ::
  "('v \<Rightarrow> 'v) \<Rightarrow> 'k \<Rightarrow> 'v \<Rightarrow> int \<Rightarrow> ('k, 'v) tiered_cache \<Rightarrow> ('k, 'v) tiered_cache \<times> unit result" where
  "tc_l1_put to_host key value nbytes t =
     (case ec_put (Some (tc_demote to_host)) key value nbytes (tc_l1 t) t of
        ((l1, t'), r) \<Rightarrow> (t'\<lparr>tc_l1 := l1\<rparr>, r))"

definition tc_get ::
  "('v \<Rightarrow> 'v) \<Rightarrow> ('v \<Rightarrow> 'v) \<Rightarrow> 'k \<Rightarrow> ('k, 'v) tiered_cache
    \<Rightarrow> ('k, 'v) tiered_cache \<times> 'v option result" where
  "tc_get to_host to_device key t =
     (case ec_get key (tc_l1 t) of
        (l1, Some value) \<Rightarrow> (t\<lparr>tc_l1 := l1, tc_l1_hits := tc_l1_hits t + 1\<rparr>, Inr (Some value))
      | (l1, None) \<Rightarrow>
          (case ec_pop key (tc_l2 t) of
             (l2, None) \<Rightarrow> (t\<lparr>tc_l1 := l1, tc_l2 := l2, tc_misses := tc_misses t + 1\<rparr>, Inr None)
           | (l2, Some (host_value, nbytes)) \<Rightarrow>
               let device_value = to_device host_value;
                   t1 = t\<lparr>tc_l1 := l1, tc_l2 := l2, tc_l2_hits := tc_l2_hits t + 1,
                          tc_promotions := tc_promotions t + 1\<rparr>
               in case tc_l1_put to_host key device_value nbytes t1 of
                    (t2, Inl e) \<Rightarrow> (t2, Inl e)
                  | (t2, Inr _) \<Rightarrow> (t2, Inr (Some device_value))))"

definition tc_put ::
  "('v \<Rightarrow> 'v) \<Rightarrow> 'k \<Rightarrow> 'v \<Rightarrow> int \<Rightarrow> ('k, 'v) tiered_cache \<Rightarrow> ('k, 'v) tiered_cache \<times> unit result" where
  "tc_put to_host key value nbytes t =
     tc_l1_put to_host key value nbytes (t\<lparr>tc_l2 := fst (ec_pop key (tc_l2 t))\<rparr>)"

definition tc_hits :: "('k, 'v) tiered_cache \<Rightarrow> int" where
  "tc_hits t = tc_l1_hits t + tc_l2_hits t"

definition tc_contains :: "'k \<Rightarrow> ('k, 'v) tiered_cache \<Rightarrow> bool" where
  "tc_contains key t \<longleftrightarrow> ec_contains key (tc_l1 t) \<or> ec_contains key (tc_l2 t)"

definition tc_len :: "('k, 'v) tiered_cache \<Rightarrow> int" where
  "tc_len t = ec_len (tc_l1 t) + ec_len (tc_l2 t)"

section \<open>Invariants\<close>

definition entry_bytes :: "('k, 'v) entries \<Rightarrow> int" where
  "entry_bytes xs = sum_list (map (snd \<circ> snd) xs)"

definition entries_ok :: "('k, 'v) entries \<Rightarrow> bool" where
  "entries_ok xs \<longleftrightarrow> distinct (map fst xs) \<and> list_all (\<lambda>(_, _, n). 0 \<le> n) xs"

definition cache_ok :: "('k, 'v) embedding_cache \<Rightarrow> bool" where
  "cache_ok c \<longleftrightarrow> entries_ok (ec_store c) \<and> ec_cur_bytes c = entry_bytes (ec_store c) \<and>
     ec_cur_bytes c \<le> ec_capacity_bytes c"

text \<open>The tiers hold disjoint keys, an entry of the lower tier fits the upper one, and the counters
  add up: every promotion is a hit of the lower tier, and promotes an entry that was demoted.\<close>

definition tiers_ok :: "('k, 'v) entries \<Rightarrow> int \<Rightarrow> ('k, 'v) tiered_cache \<Rightarrow> bool" where
  "tiers_ok upper capacity t \<longleftrightarrow> entries_ok upper \<and> cache_ok (tc_l2 t) \<and>
     fst ` set upper \<inter> fst ` set (ec_store (tc_l2 t)) = {} \<and>
     list_all (\<lambda>(_, _, n). n \<le> capacity) upper \<and>
     list_all (\<lambda>(_, _, n). n \<le> capacity) (ec_store (tc_l2 t)) \<and>
     tc_promotions t + ec_len (tc_l2 t) \<le> tc_demotions t"

definition tiered_ok :: "('k, 'v) tiered_cache \<Rightarrow> bool" where
  "tiered_ok t \<longleftrightarrow> cache_ok (tc_l1 t) \<and> tiers_ok (ec_store (tc_l1 t)) (ec_capacity_bytes (tc_l1 t)) t \<and>
     tc_promotions t = tc_l2_hits t \<and> ec_hits (tc_l1 t) = tc_l1_hits t \<and>
     ec_misses (tc_l1 t) = tc_l2_hits t + tc_misses t"

section \<open>Lemmas on ordered dicts\<close>

lemma entry_bytes_simps [simp]:
  "entry_bytes [] = 0" "entry_bytes (x # xs) = snd (snd x) + entry_bytes xs"
  "entry_bytes (xs @ ys) = entry_bytes xs + entry_bytes ys"
  by (simp_all add: entry_bytes_def)

lemma entry_bytes_nonneg: "entries_ok xs \<Longrightarrow> 0 \<le> entry_bytes xs"
  by (induction xs) (auto simp: entries_ok_def)

lemma entries_ok_Cons:
  "entries_ok ((k, v, n) # xs) \<longleftrightarrow> k \<notin> fst ` set xs \<and> 0 \<le> n \<and> entries_ok xs"
  by (auto simp: entries_ok_def)

lemma delete_set: "x \<in> set (AList.delete k xs) \<longleftrightarrow> x \<in> set xs \<and> fst x \<noteq> k"
  by (auto simp: AList.delete_eq)

lemma entries_ok_delete: "entries_ok xs \<Longrightarrow> entries_ok (AList.delete k xs)"
  by (auto simp: entries_ok_def list_all_iff distinct_delete delete_set)

lemma entries_ok_snoc:
  "entries_ok (xs @ [(k, v, n)]) \<longleftrightarrow> entries_ok xs \<and> k \<notin> fst ` set xs \<and> 0 \<le> n"
  by (auto simp: entries_ok_def)

lemma entries_ok_drop: "entries_ok xs \<Longrightarrow> entries_ok (drop m xs)"
  by (auto simp: entries_ok_def list_all_iff drop_map [symmetric] dest: in_set_dropD)

lemma keys_delete: "fst ` set (AList.delete k xs) = fst ` set xs - {k}"
  by (auto simp: delete_set)

lemma entry_bytes_delete:
  "distinct (map fst xs) \<Longrightarrow> map_of xs k = Some e \<Longrightarrow> entry_bytes (AList.delete k xs) = entry_bytes xs - snd e"
proof (induction xs)
  case (Cons x xs)
  show ?case
  proof (cases "fst x = k")
    case True
    with Cons.prems have "k \<notin> fst ` set xs" by auto
    with True Cons.prems show ?thesis by (cases x) (auto simp: delete_id)
  next
    case False
    with Cons show ?thesis by (cases x) auto
  qed
qed simp

lemma delete_absent: "map_of xs k = None \<Longrightarrow> AList.delete k xs = xs"
  by (simp add: map_of_eq_None_iff delete_id)

lemma map_of_drop: "distinct (map fst xs) \<Longrightarrow> map_of (drop m xs) k = Some e \<Longrightarrow> map_of xs k = Some e"
  by (meson in_set_dropD map_of_SomeD map_of_is_SomeI)

lemma map_of_snoc: "map_of (xs @ [(k, e)]) k' = (case map_of xs k' of Some x \<Rightarrow> Some x | None \<Rightarrow> if k' = k then Some e else None)"
  by (simp add: map_of_append map_add_def split: option.split)

section \<open>Operations of the single tier\<close>

lemma length_delete:
  "distinct (map fst xs) \<Longrightarrow> map_of xs k = Some e \<Longrightarrow> Suc (length (AList.delete k xs)) = length xs"
proof (induction xs)
  case (Cons x xs)
  show ?case
  proof (cases "fst x = k")
    case True
    with Cons.prems have "k \<notin> fst ` set xs" by auto
    with True show ?thesis by (cases x) auto
  next
    case False
    with Cons show ?thesis by (cases x) auto
  qed
qed simp

lemma stored_nonneg:
  assumes "cache_ok c" "map_of (ec_store c) k = Some e"
  shows "0 \<le> snd e"
  using assms(1) map_of_SomeD [OF assms(2)] by (auto simp: cache_ok_def entries_ok_def list_all_iff)

lemma cache_okD:
  assumes "cache_ok c"
  shows "entries_ok (ec_store c)" "distinct (map fst (ec_store c))"
    "ec_cur_bytes c = entry_bytes (ec_store c)" "ec_cur_bytes c \<le> ec_capacity_bytes c"
  using assms by (simp_all add: cache_ok_def entries_ok_def)

lemma ec_pop_eq:
  assumes "cache_ok c"
  shows "ec_pop k c = (c\<lparr>ec_store := AList.delete k (ec_store c),
     ec_cur_bytes := entry_bytes (AList.delete k (ec_store c))\<rparr>, map_of (ec_store c) k)"
proof (cases "map_of (ec_store c) k")
  case None
  then show ?thesis using cache_okD(3) [OF assms] by (simp add: ec_pop_def delete_absent)
next
  case (Some e)
  then show ?thesis
    using cache_okD(3) [OF assms] entry_bytes_delete [OF cache_okD(2) [OF assms] Some] by (simp add: ec_pop_def)
qed

lemma ec_pop_capacity: "ec_capacity_bytes (fst (ec_pop k c)) = ec_capacity_bytes c"
  by (simp add: ec_pop_def split: option.split)

lemma entry_bytes_delete_le:
  assumes "entries_ok xs"
  shows "entry_bytes (AList.delete k xs) \<le> entry_bytes xs"
proof (cases "map_of xs k")
  case (Some e)
  have "0 \<le> snd e" using assms map_of_SomeD [OF Some] by (auto simp: entries_ok_def list_all_iff)
  then show ?thesis using entry_bytes_delete [OF _ Some] assms by (simp add: entries_ok_def)
qed (simp add: delete_absent)

lemma cache_ok_pop: "cache_ok c \<Longrightarrow> cache_ok (fst (ec_pop k c))"
  using entry_bytes_delete_le [of "ec_store c" k] by (simp add: ec_pop_eq) (simp add: cache_ok_def entries_ok_delete)

lemma ec_get_hit:
  assumes "cache_ok c" and e: "map_of (ec_store c) k = Some e"
  shows "cache_ok (fst (ec_get k c))" "map_of (ec_store (fst (ec_get k c))) = map_of (ec_store c)"
    "set (ec_store (fst (ec_get k c))) = set (ec_store c)"
proof -
  note d = cache_okD [OF assms(1)]
  have st: "ec_store (fst (ec_get k c)) = AList.delete k (ec_store c) @ [(k, e)]" by (simp add: ec_get_def e)
  have "entries_ok (AList.delete k (ec_store c) @ [(k, fst e, snd e)])"
    unfolding entries_ok_snoc using entries_ok_delete [OF d(1), of k] stored_nonneg [OF assms] by (simp add: keys_delete)
  moreover have "entry_bytes (AList.delete k (ec_store c) @ [(k, e)]) = entry_bytes (ec_store c)"
    using entry_bytes_delete [OF d(2) e] by simp
  ultimately show "cache_ok (fst (ec_get k c))" using d(3,4) st by (simp add: cache_ok_def) (simp add: ec_get_def e)
  show "map_of (ec_store (fst (ec_get k c))) = map_of (ec_store c)"
    unfolding st using e by (auto simp: fun_eq_iff map_add_def delete_conv' split: option.split)
  have u: "(k, x) \<in> set (ec_store c) \<longleftrightarrow> x = e" for x
    using map_of_eq_Some_iff [OF d(2), of k x] e by auto
  have "p \<in> set (ec_store (fst (ec_get k c))) \<longleftrightarrow> p \<in> set (ec_store c)" for p
    unfolding st by (cases p, cases "fst p = k") (simp_all add: delete_set u)
  then show "set (ec_store (fst (ec_get k c))) = set (ec_store c)" by (rule set_eqI)
qed

lemma ec_get_miss:
  "map_of (ec_store c) k = None \<Longrightarrow> ec_get k c = (c\<lparr>ec_misses := ec_misses c + 1\<rparr>, None)"
  by (simp add: ec_get_def)

text \<open>The eviction loop drops the shortest prefix of oldest entries after which the rest fits, and
  calls the hook on exactly the dropped entries, oldest first.\<close>

definition fire_hook :: "('k, 'v, 'e) evict_hook option \<Rightarrow> 'k \<times> 'v \<times> int \<Rightarrow> 'e \<Rightarrow> 'e" where
  "fire_hook on_evict = (\<lambda>(k, v, n) env. case on_evict of None \<Rightarrow> env | Some f \<Rightarrow> f k v n env)"

lemma evict_loop_spec:
  assumes "n \<le> capacity"
  shows "\<exists>m \<le> length xs. evict_loop on_evict capacity (xs @ [(k, v, n)]) (entry_bytes (xs @ [(k, v, n)])) env =
      (drop m xs @ [(k, v, n)], entry_bytes (drop m xs @ [(k, v, n)]), fold (fire_hook on_evict) (take m xs) env) \<and>
    entry_bytes (drop m xs @ [(k, v, n)]) \<le> capacity \<and>
    (\<forall>j < m. capacity < entry_bytes (drop j xs @ [(k, v, n)]))"
proof (induction xs arbitrary: env)
  case Nil
  then show ?case using assms by simp
next
  case (Cons x xs)
  obtain k' v' n' where x: "x = (k', v', n')" by (cases x)
  show ?case
  proof (cases "entry_bytes ((x # xs) @ [(k, v, n)]) \<le> capacity")
    case True
    then show ?thesis by (intro exI [of _ 0]) (simp add: x)
  next
    case False
    from Cons.IH [of "fire_hook on_evict x env"] obtain m where m: "m \<le> length xs"
      "evict_loop on_evict capacity (xs @ [(k, v, n)]) (entry_bytes (xs @ [(k, v, n)])) (fire_hook on_evict x env) =
        (drop m xs @ [(k, v, n)], entry_bytes (drop m xs @ [(k, v, n)]),
         fold (fire_hook on_evict) (take m xs) (fire_hook on_evict x env))"
      "entry_bytes (drop m xs @ [(k, v, n)]) \<le> capacity"
      "\<forall>j < m. capacity < entry_bytes (drop j xs @ [(k, v, n)])" by blast
    have "\<forall>j < Suc m. capacity < entry_bytes (drop j (x # xs) @ [(k, v, n)])"
    proof (intro allI impI)
      fix j assume "j < Suc m"
      then show "capacity < entry_bytes (drop j (x # xs) @ [(k, v, n)])"
        using m(4) False by (cases j) auto
    qed
    with m False show ?thesis by (intro exI [of _ "Suc m"]) (simp add: x fire_hook_def)
  qed
qed

lemma ec_put_evict:
  assumes "cache_ok c" "0 \<le> n" "n \<le> ec_capacity_bytes c"
  shows "ec_put on_evict k v n c env =
    (case evict_loop on_evict (ec_capacity_bytes c) (AList.delete k (ec_store c) @ [(k, v, n)])
        (entry_bytes (AList.delete k (ec_store c) @ [(k, v, n)])) env of
      (store, cur, env') \<Rightarrow> ((c\<lparr>ec_store := store, ec_cur_bytes := cur\<rparr>, env'), Inr ()))"
  using assms(2,3) by (simp add: ec_put_def Let_def ec_pop_eq [OF assms(1)] ec_evict_def split: prod.split)

lemma ec_put_spec:
  assumes "cache_ok c" "0 \<le> n" "n \<le> ec_capacity_bytes c"
  obtains m where "m \<le> length (AList.delete k (ec_store c))"
    "ec_put on_evict k v n c env =
      ((c\<lparr>ec_store := drop m (AList.delete k (ec_store c)) @ [(k, v, n)],
          ec_cur_bytes := entry_bytes (drop m (AList.delete k (ec_store c)) @ [(k, v, n)])\<rparr>,
        fold (fire_hook on_evict) (take m (AList.delete k (ec_store c))) env), Inr ())"
    "entry_bytes (drop m (AList.delete k (ec_store c)) @ [(k, v, n)]) \<le> ec_capacity_bytes c"
    "\<forall>j < m. ec_capacity_bytes c < entry_bytes (drop j (AList.delete k (ec_store c)) @ [(k, v, n)])"
  using evict_loop_spec [OF assms(3), of "AList.delete k (ec_store c)" on_evict k v env] ec_put_evict [OF assms, of on_evict k v env]
  by auto

lemma put_entries_ok:
  "entries_ok xs \<Longrightarrow> 0 \<le> n \<Longrightarrow> entries_ok (drop m (AList.delete k xs) @ [(k, v, n)])"
  unfolding entries_ok_snoc
  by (auto simp: entries_ok_drop entries_ok_delete delete_set dest!: in_set_dropD)

lemma cache_ok_put:
  assumes "cache_ok c"
  shows "cache_ok (fst (fst (ec_put on_evict k v n c env)))"
proof (cases "0 \<le> n \<and> n \<le> ec_capacity_bytes c")
  case True
  then obtain m where "ec_put on_evict k v n c env =
      ((c\<lparr>ec_store := drop m (AList.delete k (ec_store c)) @ [(k, v, n)],
          ec_cur_bytes := entry_bytes (drop m (AList.delete k (ec_store c)) @ [(k, v, n)])\<rparr>,
        fold (fire_hook on_evict) (take m (AList.delete k (ec_store c))) env), Inr ())"
    "entry_bytes (drop m (AList.delete k (ec_store c)) @ [(k, v, n)]) \<le> ec_capacity_bytes c"
    by (elim conjE) (rule ec_put_spec [OF assms, where on_evict = on_evict and k = k and v = v and env = env])
  moreover have "entries_ok (drop m (AList.delete k (ec_store c)) @ [(k, v, n)])"
    using True by (intro put_entries_ok cache_okD assms) simp
  ultimately show ?thesis by (simp add: cache_ok_def)
next
  case False
  then show ?thesis using assms by (auto simp: ec_put_def)
qed

lemma map_of_put:
  assumes "distinct (map fst xs)"
  shows "map_of (drop m (AList.delete k xs) @ [(k, e)]) k = Some e"
    and "k' \<noteq> k \<Longrightarrow> map_of (drop m (AList.delete k xs) @ [(k, e)]) k' = Some x \<Longrightarrow> map_of xs k' = Some x"
proof -
  have "k \<notin> fst ` set (drop m (AList.delete k xs))" by (auto simp: delete_set dest!: in_set_dropD)
  then show "map_of (drop m (AList.delete k xs) @ [(k, e)]) k = Some e"
    unfolding map_of_snoc by (simp add: map_of_eq_None_iff [THEN iffD2])
  assume "k' \<noteq> k" "map_of (drop m (AList.delete k xs) @ [(k, e)]) k' = Some x"
  then have "map_of (drop m (AList.delete k xs)) k' = Some x" unfolding map_of_snoc by (auto split: option.splits)
  then have "map_of (AList.delete k xs) k' = Some x" by (rule map_of_drop [OF distinct_delete [OF assms]])
  then show "map_of xs k' = Some x" using \<open>k' \<noteq> k\<close> by simp
qed

section \<open>Operations of the two tiers\<close>

text \<open>What a lookup finds in the upper entries, or through a copy from the lower tier, and the values
  a value may turn into by trips through the Host.\<close>

definition tier_view :: "('v \<Rightarrow> 'v) \<Rightarrow> ('k, 'v) entries \<Rightarrow> ('k, 'v) tiered_cache \<Rightarrow> 'k \<Rightarrow> 'v option" where
  "tier_view to_device upper t k =
     (case map_of upper k of Some e \<Rightarrow> Some (fst e) | None \<Rightarrow> map_option (to_device \<circ> fst) (map_of (ec_store (tc_l2 t)) k))"

definition host_trips :: "('v \<Rightarrow> 'v) \<Rightarrow> ('v \<Rightarrow> 'v) \<Rightarrow> 'v \<Rightarrow> 'v \<Rightarrow> bool" where
  "host_trips to_host to_device v w \<longleftrightarrow> (\<exists>i. w = ((to_device \<circ> to_host) ^^ i) v)"

lemma host_trips_refl: "host_trips h d v v"
  unfolding host_trips_def by (rule exI [of _ 0]) simp

lemma host_trips_once: "host_trips h d v (d (h v))"
  unfolding host_trips_def by (rule exI [of _ 1]) simp

lemma host_trips_trans: "host_trips h d u v \<Longrightarrow> host_trips h d v w \<Longrightarrow> host_trips h d u w"
proof -
  assume "host_trips h d u v" "host_trips h d v w"
  then obtain i j where "v = ((d \<circ> h) ^^ i) u" "w = ((d \<circ> h) ^^ j) v" unfolding host_trips_def by blast
  then have "w = ((d \<circ> h) ^^ (j + i)) u" by (simp only: funpow_add comp_apply)
  then show ?thesis unfolding host_trips_def by blast
qed

lemma host_trips_id: "(\<forall>v. d (h v) = v) \<Longrightarrow> host_trips h d v w \<Longrightarrow> w = v"
proof -
  assume "\<forall>v. d (h v) = v" "host_trips h d v w"
  then have "d \<circ> h = id" by auto
  with \<open>host_trips h d v w\<close> show ?thesis by (auto simp: host_trips_def)
qed

text \<open>The view after a step holds only values of the view before it, up to trips through the Host.\<close>

definition view_refines :: "('v \<Rightarrow> 'v) \<Rightarrow> ('v \<Rightarrow> 'v) \<Rightarrow> ('k \<Rightarrow> 'v option) \<Rightarrow> ('k \<Rightarrow> 'v option) \<Rightarrow> bool" where
  "view_refines h d old new \<longleftrightarrow> (\<forall>k w. new k = Some w \<longrightarrow> (\<exists>u. old k = Some u \<and> host_trips h d u w))"

lemma view_refines_trans: "view_refines h d f g \<Longrightarrow> view_refines h d g k \<Longrightarrow> view_refines h d f k"
  unfolding view_refines_def using host_trips_trans by meson

text \<open>The fields a demotion leaves alone.\<close>

definition same_upper :: "('k, 'v) tiered_cache \<Rightarrow> ('k, 'v) tiered_cache \<Rightarrow> bool" where
  "same_upper t t' \<longleftrightarrow> tc_l1 t' = tc_l1 t \<and> tc_l1_hits t' = tc_l1_hits t \<and> tc_l2_hits t' = tc_l2_hits t \<and>
     tc_misses t' = tc_misses t \<and> tc_promotions t' = tc_promotions t \<and>
     ec_capacity_bytes (tc_l2 t') = ec_capacity_bytes (tc_l2 t)"

lemma tiers_okD:
  assumes "tiers_ok upper cap t"
  shows "entries_ok upper" "cache_ok (tc_l2 t)" "fst ` set upper \<inter> fst ` set (ec_store (tc_l2 t)) = {}"
    "list_all (\<lambda>(_, _, n). n \<le> cap) upper" "list_all (\<lambda>(_, _, n). n \<le> cap) (ec_store (tc_l2 t))"
    "tc_promotions t + ec_len (tc_l2 t) \<le> tc_demotions t"
  using assms by (simp_all add: tiers_ok_def)

lemma tiers_ok_tl: "tiers_ok (x # xs) cap t \<Longrightarrow> tiers_ok xs cap t"
  by (cases x) (auto simp: tiers_ok_def entries_ok_Cons)

lemma demote_put:
  assumes "cache_ok l2" "k \<notin> fst ` set (ec_store l2)" "0 \<le> n" "n \<le> ec_capacity_bytes l2"
  obtains m where "fst (fst (ec_put None k v n l2 ())) =
      l2\<lparr>ec_store := drop m (ec_store l2) @ [(k, v, n)],
         ec_cur_bytes := entry_bytes (drop m (ec_store l2) @ [(k, v, n)])\<rparr>"
proof -
  have d: "AList.delete k (ec_store l2) = ec_store l2" using assms(2) by simp
  show ?thesis
    by (rule ec_put_spec [OF assms(1,3,4), where on_evict = None and k = k and v = v and env = "()"])
      (use that in \<open>simp add: d\<close>)
qed

lemma demote_step:
  assumes ok: "tiers_ok ((k, v, n) # xs) cap t"
  shows "tiers_ok xs cap (tc_demote h k v n t)" "same_upper t (tc_demote h k v n t)"
    "view_refines h d (tier_view d ((k, v, n) # xs) t) (tier_view d xs (tc_demote h k v n t))"
proof -
  note D = tiers_okD [OF ok]
  have k: "k \<notin> fst ` set xs" "k \<notin> fst ` set (ec_store (tc_l2 t))" "0 \<le> n" "n \<le> cap"
    using D(1,3,4) by (auto simp: entries_ok_Cons)
  have none: "map_of xs k = None" "map_of (ec_store (tc_l2 t)) k = None" using k by (simp_all add: map_of_eq_None_iff)
  have "tiers_ok xs cap (tc_demote h k v n t) \<and> same_upper t (tc_demote h k v n t) \<and>
    view_refines h d (tier_view d ((k, v, n) # xs) t) (tier_view d xs (tc_demote h k v n t))"
  proof (cases "n > ec_capacity_bytes (tc_l2 t)")
    case True
    then have t: "tc_demote h k v n t = t" by (simp add: tc_demote_def)
    have "tier_view d xs t k' = Some w \<Longrightarrow> tier_view d ((k, v, n) # xs) t k' = Some w" for k' w
      using none by (auto simp: tier_view_def)
    then show ?thesis unfolding t view_refines_def
      using tiers_ok_tl [OF ok] host_trips_refl [of h d] by (auto simp: same_upper_def)
  next
    case False
    then have n: "n \<le> ec_capacity_bytes (tc_l2 t)" by simp
    obtain m where m: "fst (fst (ec_put None k (h v) n (tc_l2 t) ())) = (tc_l2 t)\<lparr>
        ec_store := drop m (ec_store (tc_l2 t)) @ [(k, h v, n)],
        ec_cur_bytes := entry_bytes (drop m (ec_store (tc_l2 t)) @ [(k, h v, n)])\<rparr>" (is "?put = ?l2")
      by (rule demote_put [OF D(2) k(2,3) n])
    have "ec_contains k ?l2" unfolding ec_contains_def map_of_eq_None_iff by simp
    then have t: "tc_demote h k v n t = t\<lparr>tc_l2 := ?l2, tc_demotions := tc_demotions t + 1\<rparr>"
      using False by (simp add: tc_demote_def m)
    have "cache_ok ?l2" using cache_ok_put [OF D(2), of None k "h v" n "()"] unfolding m .
    moreover have "fst ` set xs \<inter> fst ` set (ec_store ?l2) = {}"
      using D(3) k(1) by (auto dest!: in_set_dropD)
    moreover have "list_all (\<lambda>(_, _, n). n \<le> cap) (ec_store ?l2)"
      using D(5) k(4) by (auto simp: list_all_iff dest!: in_set_dropD)
    moreover have "ec_len ?l2 \<le> ec_len (tc_l2 t) + 1" by (simp add: ec_len_def)
    ultimately have "tiers_ok xs cap (tc_demote h k v n t)"
      using D(4,6) D(1) unfolding t by (simp add: tiers_ok_def entries_ok_Cons)
    moreover have "same_upper t (tc_demote h k v n t)" by (simp add: t same_upper_def)
    moreover have "\<exists>u. tier_view d ((k, v, n) # xs) t k' = Some u \<and> host_trips h d u w"
      if w: "tier_view d xs (tc_demote h k v n t) k' = Some w" for k' w
    proof (cases "k' = k")
      case True
      have "map_of (drop m (ec_store (tc_l2 t))) k = None"
        using k(2) by (auto simp: map_of_eq_None_iff dest!: in_set_dropD)
      then have "w = d (h v)" using w True none(1) by (simp add: tier_view_def t map_add_def)
      then show ?thesis using True host_trips_once by (simp add: tier_view_def)
    next
      case False
      have "tier_view d ((k, v, n) # xs) t k' = Some w"
      proof (cases "map_of xs k'")
        case None
        with w False obtain e where e: "map_of (drop m (ec_store (tc_l2 t))) k' = Some e" "w = d (fst e)"
          by (auto simp: tier_view_def t map_add_def split: option.splits)
        from map_of_drop [OF cache_okD(2) [OF D(2)] e(1)] show ?thesis using None False e(2) by (simp add: tier_view_def)
      next
        case (Some e)
        then show ?thesis using w False by (simp add: tier_view_def)
      qed
      then show ?thesis by (intro exI [of _ w] conjI host_trips_refl)
    qed
    ultimately show ?thesis unfolding view_refines_def by blast
  qed
  then show "tiers_ok xs cap (tc_demote h k v n t)" "same_upper t (tc_demote h k v n t)"
    "view_refines h d (tier_view d ((k, v, n) # xs) t) (tier_view d xs (tc_demote h k v n t))" by blast+
qed

lemma evict_demote:
  assumes "tiers_ok xs cap t" "evict_loop (Some (tc_demote h)) c xs cur t = (ys, cur', t')"
  shows "tiers_ok ys cap t' \<and> same_upper t t' \<and> view_refines h d (tier_view d xs t) (tier_view d ys t')"
  using assms
proof (induction xs arbitrary: cur t)
  case Nil
  then show ?case using host_trips_refl by (auto simp: same_upper_def view_refines_def)
next
  case (Cons x xs)
  obtain k v n where x: "x = (k, v, n)" by (cases x)
  show ?case
  proof (cases "cur > c")
    case True
    note S = demote_step(1,2) [OF Cons.prems(1) [unfolded x], of h]
    note V = demote_step(3) [OF Cons.prems(1) [unfolded x], of h d]
    have "evict_loop (Some (tc_demote h)) c xs (cur - n) (tc_demote h k v n t) = (ys, cur', t')"
      using Cons.prems(2) True by (simp add: x)
    note I = Cons.IH [OF S(1) this]
    have "same_upper t t'" using S(2) I by (simp add: same_upper_def)
    with I view_refines_trans [OF V] show ?thesis unfolding x by blast
  next
    case False
    then have "ys = x # xs" "t' = t" using Cons.prems(2) by (simp_all add: x)
    with Cons.prems(1) host_trips_refl [of h d] show ?thesis by (auto simp: same_upper_def view_refines_def)
  qed
qed

text \<open>The tiers between the operations, with the entry a \<open>put\<close> is about to insert.\<close>

lemma tiers_ok_insert:
  assumes "tiers_ok xs cap t" "k \<notin> fst ` set (ec_store (tc_l2 t))" "0 \<le> n" "n \<le> cap"
  shows "tiers_ok (AList.delete k xs @ [(k, v, n)]) cap t"
proof -
  note D = tiers_okD [OF assms(1)]
  have "entries_ok (AList.delete k xs @ [(k, v, n)])"
    using put_entries_ok [OF D(1) assms(3), of 0 k v] by simp
  moreover have "fst ` set (AList.delete k xs @ [(k, v, n)]) \<inter> fst ` set (ec_store (tc_l2 t)) = {}"
    using D(3) assms(2) by (auto simp: keys_delete)
  moreover have "list_all (\<lambda>(_, _, n). n \<le> cap) (AList.delete k xs @ [(k, v, n)])"
    using D(4) assms(4) by (simp add: list_all_iff delete_set)
  ultimately show ?thesis using D(2,5,6) by (simp add: tiers_ok_def)
qed

lemma tier_view_insert:
  "tier_view d (AList.delete k xs @ [(k, v, n)]) t = (tier_view d xs t)(k \<mapsto> v)"
  by (auto simp: fun_eq_iff tier_view_def map_add_def delete_conv' split: option.split)

lemma tier_view_cong: "ec_store (tc_l2 t') = ec_store (tc_l2 t) \<Longrightarrow> tier_view d xs t' = tier_view d xs t"
  by (simp add: tier_view_def fun_eq_iff split: option.split)

lemma tc_l1_put_ok:
  assumes ok: "cache_ok (tc_l1 t)" "tiers_ok (ec_store (tc_l1 t)) (ec_capacity_bytes (tc_l1 t)) t"
    and k: "k \<notin> fst ` set (ec_store (tc_l2 t))" and n: "0 \<le> n" "n \<le> ec_capacity_bytes (tc_l1 t)"
  obtains t' l1 where "tc_l1_put h k v n t = (t'\<lparr>tc_l1 := l1\<rparr>, Inr ())" "same_upper t t'" "cache_ok l1"
    "tiers_ok (ec_store l1) (ec_capacity_bytes (tc_l1 t)) t'"
    "ec_capacity_bytes l1 = ec_capacity_bytes (tc_l1 t)" "ec_hits l1 = ec_hits (tc_l1 t)" "ec_misses l1 = ec_misses (tc_l1 t)"
    "map_of (ec_store l1) k = Some (v, n)"
    "view_refines h d ((tier_view d (ec_store (tc_l1 t)) t)(k \<mapsto> v)) (tier_view d (ec_store l1) t')"
proof -
  let ?xs = "AList.delete k (ec_store (tc_l1 t)) @ [(k, v, n)]" and ?c = "tc_l1 t"
  let ?f = "Some (tc_demote h)"
  obtain m where put: "ec_put ?f k v n ?c t = ((?c\<lparr>ec_store := drop m (AList.delete k (ec_store ?c)) @ [(k, v, n)],
        ec_cur_bytes := entry_bytes (drop m (AList.delete k (ec_store ?c)) @ [(k, v, n)])\<rparr>,
        fold (fire_hook ?f) (take m (AList.delete k (ec_store ?c))) t), Inr ())"
    by (rule ec_put_spec [OF ok(1) n, where on_evict = ?f and k = k and v = v and env = t])
  let ?t' = "fold (fire_hook ?f) (take m (AList.delete k (ec_store ?c))) t"
  let ?l1 = "?c\<lparr>ec_store := drop m (AList.delete k (ec_store ?c)) @ [(k, v, n)],
        ec_cur_bytes := entry_bytes (drop m (AList.delete k (ec_store ?c)) @ [(k, v, n)])\<rparr>"
  obtain ys cur t' where e: "evict_loop ?f (ec_capacity_bytes ?c) ?xs (entry_bytes ?xs) t = (ys, cur, t')"
    by (metis prod_cases3)
  have "(?c\<lparr>ec_store := ys, ec_cur_bytes := cur\<rparr>, t') = (?l1, ?t')"
    using put unfolding ec_put_evict [OF ok(1) n] e prod.case by (rule prod.inject [THEN iffD1, THEN conjunct1])
  then have "ec_store (?c\<lparr>ec_store := ys, ec_cur_bytes := cur\<rparr>) = ec_store ?l1" and t': "t' = ?t'"
    unfolding prod.inject by (simp_all only:)
  then have s: "ys = ec_store ?l1" "t' = ?t'" by simp_all
  have I: "tiers_ok ys (ec_capacity_bytes ?c) t' \<and> same_upper t t' \<and> view_refines h d (tier_view d ?xs t) (tier_view d ys t')"
    by (rule evict_demote [OF tiers_ok_insert [OF ok(2) k n] e])
  show ?thesis
  proof (rule that [of ?l1 t'])
    show "tc_l1_put h k v n t = (t'\<lparr>tc_l1 := ?l1\<rparr>, Inr ())" unfolding tc_l1_put_def put s(2) by simp
    show "cache_ok ?l1" using cache_ok_put [OF ok(1), of ?f k v n t] unfolding put by simp
    show "map_of (ec_store ?l1) k = Some (v, n)" using map_of_put(1) [OF cache_okD(2) [OF ok(1)]] by simp
    show "view_refines h d ((tier_view d (ec_store ?c) t)(k \<mapsto> v)) (tier_view d (ec_store ?l1) t')"
      using I unfolding tier_view_insert s(1) by blast
  qed (use I s in simp_all)
qed

lemma tiered_okD:
  assumes "tiered_ok t"
  shows "cache_ok (tc_l1 t)" "tiers_ok (ec_store (tc_l1 t)) (ec_capacity_bytes (tc_l1 t)) t"
    "tc_promotions t = tc_l2_hits t" "ec_hits (tc_l1 t) = tc_l1_hits t" "ec_misses (tc_l1 t) = tc_l2_hits t + tc_misses t"
  using assms by (simp_all add: tiered_ok_def)

abbreviation tc_lookup :: "('v \<Rightarrow> 'v) \<Rightarrow> ('k, 'v) tiered_cache \<Rightarrow> 'k \<Rightarrow> 'v option" where
  "tc_lookup d t \<equiv> tier_view d (ec_store (tc_l1 t)) t"

abbreviation tc_fits :: "('k, 'v) tiered_cache \<Rightarrow> int \<Rightarrow> bool" where
  "tc_fits t n \<equiv> 0 \<le> n \<and> n \<le> ec_capacity_bytes (tc_l1 t)"

text \<open>Dropping the stale copy of the lower tier.\<close>

lemma drop_lower:
  assumes "tiers_ok xs cap t"
  shows "tiers_ok xs cap (t\<lparr>tc_l2 := fst (ec_pop k (tc_l2 t))\<rparr>)"
    "view_refines h d (tier_view d xs t) (tier_view d xs (t\<lparr>tc_l2 := fst (ec_pop k (tc_l2 t))\<rparr>))"
    "k \<notin> fst ` set (ec_store (fst (ec_pop k (tc_l2 t))))"
proof -
  note D = tiers_okD [OF assms]
  have p: "ec_store (fst (ec_pop k (tc_l2 t))) = AList.delete k (ec_store (tc_l2 t))" by (simp add: ec_pop_eq [OF D(2)])
  have "list_all (\<lambda>(_, _, n). n \<le> cap) (AList.delete k (ec_store (tc_l2 t)))"
    using D(5) by (auto simp: list_all_iff delete_set)
  moreover have "fst ` set xs \<inter> (fst ` set (ec_store (tc_l2 t)) - {k}) = {}" using D(3) by blast
  moreover have "ec_len (fst (ec_pop k (tc_l2 t))) \<le> ec_len (tc_l2 t)" by (simp add: ec_len_def p length_delete_le)
  ultimately show "tiers_ok xs cap (t\<lparr>tc_l2 := fst (ec_pop k (tc_l2 t))\<rparr>)"
    using D(1,4,6) cache_ok_pop [OF D(2), of k] by (simp add: tiers_ok_def p keys_delete)
  have "tier_view d xs (t\<lparr>tc_l2 := fst (ec_pop k (tc_l2 t))\<rparr>) k' = Some w \<Longrightarrow> tier_view d xs t k' = Some w" for k' w
    by (auto simp: tier_view_def p delete_conv' split: option.splits if_splits)
  then show "view_refines h d (tier_view d xs t) (tier_view d xs (t\<lparr>tc_l2 := fst (ec_pop k (tc_l2 t))\<rparr>))"
    unfolding view_refines_def using host_trips_refl by meson
  show "k \<notin> fst ` set (ec_store (fst (ec_pop k (tc_l2 t))))" unfolding p keys_delete by simp
qed

lemma tc_put_rejected:
  assumes "tiered_ok t" "\<not> tc_fits t n"
  shows "fst (tc_put h k v n t) = t\<lparr>tc_l2 := fst (ec_pop k (tc_l2 t))\<rparr>"
    "snd (tc_put h k v n t) = (if n < 0 then Inl (ValueError ''nbytes must be >= 0'') else Inr ())"
  using assms(2) by (auto simp: tc_put_def tc_l1_put_def ec_put_def)

text \<open>Every \<open>put\<close> keeps the invariant; one that fits makes its value visible, and the other keys keep
  their values or lose them.\<close>

lemma tc_put_ok:
  assumes "tiered_ok t"
  shows "tiered_ok (fst (tc_put h k v n t)) \<and> ec_capacity_bytes (tc_l1 (fst (tc_put h k v n t))) = ec_capacity_bytes (tc_l1 t) \<and>
    ec_capacity_bytes (tc_l2 (fst (tc_put h k v n t))) = ec_capacity_bytes (tc_l2 t) \<and>
    tc_hits (fst (tc_put h k v n t)) + tc_misses (fst (tc_put h k v n t)) = tc_hits t + tc_misses t \<and>
    (if tc_fits t n
     then tc_lookup d (fst (tc_put h k v n t)) k = Some v \<and> snd (tc_put h k v n t) = Inr () \<and>
       view_refines h d ((tc_lookup d t)(k \<mapsto> v)) (tc_lookup d (fst (tc_put h k v n t)))
     else view_refines h d (tc_lookup d t) (tc_lookup d (fst (tc_put h k v n t))))"
proof -
  note D = tiered_okD [OF assms]
  let ?t = "t\<lparr>tc_l2 := fst (ec_pop k (tc_l2 t))\<rparr>"
  note L = drop_lower(1,3) [OF D(2), of k] and V = drop_lower(2) [OF D(2), of h d k]
  show ?thesis
  proof (cases "tc_fits t n")
    case True
    have k: "k \<notin> fst ` set (ec_store (tc_l2 ?t))" using L(2) by simp
    have n: "0 \<le> n" "n \<le> ec_capacity_bytes (tc_l1 ?t)" using True by simp_all
    have ok: "cache_ok (tc_l1 ?t)" "tiers_ok (ec_store (tc_l1 ?t)) (ec_capacity_bytes (tc_l1 ?t)) ?t" using D(1) L(1) by simp_all
    obtain t' l1 where p: "tc_l1_put h k v n ?t = (t'\<lparr>tc_l1 := l1\<rparr>, Inr ())" and s: "same_upper ?t t'" and c: "cache_ok l1"
      and o: "tiers_ok (ec_store l1) (ec_capacity_bytes (tc_l1 ?t)) t'"
      and f: "ec_capacity_bytes l1 = ec_capacity_bytes (tc_l1 ?t)" "ec_hits l1 = ec_hits (tc_l1 ?t)" "ec_misses l1 = ec_misses (tc_l1 ?t)"
      and m: "map_of (ec_store l1) k = Some (v, n)"
      and w: "view_refines h d ((tier_view d (ec_store (tc_l1 ?t)) ?t)(k \<mapsto> v)) (tier_view d (ec_store l1) t')"
      by (rule tc_l1_put_ok [OF ok k n, where h = h and v = v and d = d])
    have q: "tc_put h k v n t = (t'\<lparr>tc_l1 := l1\<rparr>, Inr ())" using p by (simp add: tc_put_def)
    have vw: "tier_view d (ec_store l1) (t'\<lparr>tc_l1 := l1\<rparr>) = tier_view d (ec_store l1) t'"
      by (rule tier_view_cong) simp
    have "view_refines h d ((tc_lookup d t)(k \<mapsto> v)) ((tc_lookup d ?t)(k \<mapsto> v))"
      using V host_trips_refl [of h d] by (simp add: view_refines_def)
    from view_refines_trans [OF this] w
    have "view_refines h d ((tc_lookup d t)(k \<mapsto> v)) (tier_view d (ec_store l1) t')" by simp
    moreover have "tiered_ok (t'\<lparr>tc_l1 := l1\<rparr>)"
      using c o f s D by (simp add: tiered_ok_def tiers_ok_def same_upper_def)
    moreover have "tier_view d (ec_store l1) t' k = Some v" by (simp add: tier_view_def m)
    moreover have "ec_capacity_bytes (tc_l2 t') = ec_capacity_bytes (tc_l2 t)" "tc_hits t' + tc_misses t' = tc_hits t + tc_misses t"
      using s by (simp_all add: same_upper_def ec_pop_capacity tc_hits_def)
    ultimately show ?thesis using True f unfolding q by (simp add: vw tc_hits_def)
  next
    case False
    have "tiered_ok ?t" using D L(1) by (simp add: tiered_ok_def)
    moreover have "tier_view d (ec_store (tc_l1 t)) t = tc_lookup d t" ..
    ultimately show ?thesis using False V unfolding tc_put_rejected(1) [OF assms False]
      by (auto simp: ec_pop_capacity tc_hits_def)
  qed
qed

text \<open>A \<open>get\<close> never raises, answers the view, and keeps the invariant on its three branches.\<close>

definition get_keeps where
  "get_keeps h d k t \<longleftrightarrow> snd (tc_get h d k t) = Inr (tc_lookup d t k) \<and> tiered_ok (fst (tc_get h d k t)) \<and>
     ec_capacity_bytes (tc_l1 (fst (tc_get h d k t))) = ec_capacity_bytes (tc_l1 t) \<and>
     ec_capacity_bytes (tc_l2 (fst (tc_get h d k t))) = ec_capacity_bytes (tc_l2 t) \<and>
     tc_hits (fst (tc_get h d k t)) + tc_misses (fst (tc_get h d k t)) = tc_hits t + tc_misses t + 1 \<and>
     view_refines h d (tc_lookup d t) (tc_lookup d (fst (tc_get h d k t)))"

lemma view_refines_refl: "view_refines h d f f"
  unfolding view_refines_def using host_trips_refl by meson

lemma tc_get_hit:
  assumes "tiered_ok t" and e: "map_of (ec_store (tc_l1 t)) k = Some e"
  shows "get_keeps h d k t"
proof -
  note D = tiered_okD [OF assms(1)] and G = ec_get_hit [OF tiered_okD(1) [OF assms(1)] e]
  obtain c where c: "ec_get k (tc_l1 t) = (c, Some (fst e))" and hits: "ec_hits c = ec_hits (tc_l1 t) + 1"
    "ec_misses c = ec_misses (tc_l1 t)" "ec_capacity_bytes c = ec_capacity_bytes (tc_l1 t)"
    by (simp add: ec_get_def e)
  have G': "cache_ok c" "map_of (ec_store c) = map_of (ec_store (tc_l1 t))" "set (ec_store c) = set (ec_store (tc_l1 t))"
    using G by (simp_all add: c)
  let ?t = "t\<lparr>tc_l1 := c, tc_l1_hits := tc_l1_hits t + 1\<rparr>"
  have g: "tc_get h d k t = (?t, Inr (Some (fst e)))" by (simp add: tc_get_def c)
  have "tiers_ok (ec_store c) (ec_capacity_bytes c) ?t"
    using D(2) cache_okD(1) [OF G'(1)] hits(3) by (simp add: tiers_ok_def list_all_iff G'(3) ec_len_def)
  then have "tiered_ok ?t" using D G'(1) hits by (simp add: tiered_ok_def)
  moreover have "tc_lookup d ?t = tc_lookup d t" by (simp add: fun_eq_iff tier_view_def G'(2) split: option.split)
  ultimately show ?thesis
    unfolding get_keeps_def g using hits(3) e view_refines_refl by (simp add: tier_view_def tc_hits_def)
qed

lemma tc_get_miss:
  assumes "tiered_ok t" "map_of (ec_store (tc_l1 t)) k = None" "map_of (ec_store (tc_l2 t)) k = None"
  shows "get_keeps h d k t"
proof -
  note D = tiered_okD [OF assms(1)]
  let ?t = "t\<lparr>tc_l1 := (tc_l1 t)\<lparr>ec_misses := ec_misses (tc_l1 t) + 1\<rparr>, tc_l2 := tc_l2 t, tc_misses := tc_misses t + 1\<rparr>"
  have g: "tc_get h d k t = (?t, Inr None)" using assms(2,3) by (simp add: tc_get_def ec_get_def ec_pop_def)
  have "tiered_ok ?t" using D by (simp add: tiered_ok_def tiers_ok_def cache_ok_def)
  moreover have "tc_lookup d ?t = tc_lookup d t" by (simp add: fun_eq_iff tier_view_def split: option.split)
  ultimately show ?thesis
    unfolding get_keeps_def g using assms(2,3) view_refines_refl by (simp add: tier_view_def tc_hits_def)
qed

lemma tiers_ok_promote:
  assumes "tiers_ok xs cap t" "map_of (ec_store (tc_l2 t)) k = Some e"
  shows "tiers_ok xs cap (t\<lparr>tc_l2 := fst (ec_pop k (tc_l2 t)), tc_promotions := tc_promotions t + 1\<rparr>)"
proof -
  note D = tiers_okD [OF assms(1)]
  have "ec_len (fst (ec_pop k (tc_l2 t))) + 1 = ec_len (tc_l2 t)"
    using length_delete [OF cache_okD(2) [OF D(2)] assms(2)] by (simp add: ec_len_def ec_pop_eq [OF D(2)])
  then show ?thesis using drop_lower(1) [OF assms(1), of k] D(6) by (simp add: tiers_ok_def)
qed

lemma tc_get_promote:
  assumes "tiered_ok t" and none: "map_of (ec_store (tc_l1 t)) k = None" and e: "map_of (ec_store (tc_l2 t)) k = Some (v, n)"
  shows "get_keeps h d k t"
proof -
  note D = tiered_okD [OF assms(1)] and T = tiers_okD [OF tiered_okD(2) [OF assms(1)]]
  let ?c = "(tc_l1 t)\<lparr>ec_misses := ec_misses (tc_l1 t) + 1\<rparr>"
  define l2 where "l2 = fst (ec_pop k (tc_l2 t))"
  note l2 = l2_def [symmetric]
  let ?t = "t\<lparr>tc_l1 := ?c, tc_l2 := l2, tc_l2_hits := tc_l2_hits t + 1, tc_promotions := tc_promotions t + 1\<rparr>"
  have pop: "ec_pop k (tc_l2 t) = (l2, Some (v, n))" using e by (simp add: l2_def ec_pop_eq [OF T(2)])
  have n: "0 \<le> n" "n \<le> ec_capacity_bytes (tc_l1 ?t)"
    using stored_nonneg [OF T(2) e] T(5) map_of_SomeD [OF e] by (auto simp: list_all_iff)
  have ok: "cache_ok (tc_l1 ?t)" "tiers_ok (ec_store (tc_l1 ?t)) (ec_capacity_bytes (tc_l1 ?t)) ?t"
    using D(1) tiers_ok_promote [OF D(2) e, unfolded l2] by (simp_all add: cache_ok_def tiers_ok_def)
  have k: "k \<notin> fst ` set (ec_store (tc_l2 ?t))" using drop_lower(3) [OF D(2), of k, unfolded l2] by simp
  obtain t' l1 where p: "tc_l1_put h k (d v) n ?t = (t'\<lparr>tc_l1 := l1\<rparr>, Inr ())" and s: "same_upper ?t t'" and c: "cache_ok l1"
    and o: "tiers_ok (ec_store l1) (ec_capacity_bytes (tc_l1 ?t)) t'"
    and f: "ec_capacity_bytes l1 = ec_capacity_bytes (tc_l1 ?t)" "ec_hits l1 = ec_hits (tc_l1 ?t)" "ec_misses l1 = ec_misses (tc_l1 ?t)"
    and w: "view_refines h d ((tier_view d (ec_store (tc_l1 ?t)) ?t)(k \<mapsto> d v)) (tier_view d (ec_store l1) t')"
    by (rule tc_l1_put_ok [OF ok k n, where h = h and v = "d v" and d = d])
  have g: "tc_get h d k t = (t'\<lparr>tc_l1 := l1\<rparr>, Inr (Some (d v)))"
    using p by (simp add: tc_get_def ec_get_miss [OF none] pop Let_def)
  have look: "tc_lookup d t k = Some (d v)" using none e by (simp add: tier_view_def)
  have "tier_view d (ec_store (tc_l1 t)) ?t = tier_view d (ec_store (tc_l1 t)) (t\<lparr>tc_l2 := l2\<rparr>)"
    by (rule tier_view_cong) simp
  then have "view_refines h d (tc_lookup d t) ((tier_view d (ec_store (tc_l1 ?t)) ?t)(k \<mapsto> d v))"
    using drop_lower(2) [OF D(2), of h d k, unfolded l2] look host_trips_refl [of h d] by (simp add: view_refines_def)
  from view_refines_trans [OF this w]
  have "view_refines h d (tc_lookup d t) (tier_view d (ec_store l1) t')" .
  moreover have "tier_view d (ec_store l1) (t'\<lparr>tc_l1 := l1\<rparr>) = tier_view d (ec_store l1) t'" by (rule tier_view_cong) simp
  moreover have "tiered_ok (t'\<lparr>tc_l1 := l1\<rparr>)" using c o f s D by (simp add: tiered_ok_def tiers_ok_def same_upper_def)
  moreover have "ec_capacity_bytes (tc_l2 t') = ec_capacity_bytes (tc_l2 t)" "tc_hits t' + tc_misses t' = tc_hits t + tc_misses t + 1"
    using s ec_pop_capacity [of k "tc_l2 t", unfolded l2] by (simp_all add: same_upper_def tc_hits_def)
  ultimately show ?thesis unfolding get_keeps_def g using look f(1) by (simp add: tc_hits_def)
qed

lemma tc_get_ok:
  assumes "tiered_ok t"
  shows "get_keeps h d k t"
proof (cases "map_of (ec_store (tc_l1 t)) k")
  case None
  show ?thesis
  proof (cases "map_of (ec_store (tc_l2 t)) k")
    case (Some e)
    then show ?thesis by (cases e) (simp add: tc_get_promote [OF assms None])
  qed (rule tc_get_miss [OF assms None])
qed (rule tc_get_hit [OF assms])

section \<open>The shared contract\<close>

text \<open>Histories of cache operations, and the value the last accepted \<open>put\<close> of a key gave it.\<close>

datatype ('k, 'v) cache_op = Get 'k | Put 'k 'v int

fun run_ops :: "('k \<Rightarrow> 's \<Rightarrow> 's \<times> 'v option result) \<Rightarrow> ('k \<Rightarrow> 'v \<Rightarrow> int \<Rightarrow> 's \<Rightarrow> 's \<times> unit result)
    \<Rightarrow> ('k, 'v) cache_op list \<Rightarrow> 's \<Rightarrow> 's" where
  "run_ops get put [] s = s"
| "run_ops get put (Get k # ops) s = run_ops get put ops (fst (get k s))"
| "run_ops get put (Put k v n # ops) s = run_ops get put ops (fst (put k v n s))"

fun last_put :: "(int \<Rightarrow> bool) \<Rightarrow> ('k, 'v) cache_op list \<Rightarrow> ('k \<Rightarrow> 'v option) \<Rightarrow> 'k \<Rightarrow> 'v option" where
  "last_put fits [] m = m"
| "last_put fits (Get k # ops) m = last_put fits ops m"
| "last_put fits (Put k v n # ops) m = last_put fits ops (if fits n then m(k \<mapsto> v) else m)"

lemma run_ops_append: "run_ops get put (xs @ ys) s = run_ops get put ys (run_ops get put xs s)"
proof (induction xs arbitrary: s)
  case (Cons x xs)
  then show ?case by (cases x) simp_all
qed simp

lemma last_put_snoc: "last_put fits (ops @ [Put k v n]) m = (if fits n then (last_put fits ops m)(k \<mapsto> v) else last_put fits ops m)"
  by (induction fits ops m rule: last_put.induct) simp_all

text \<open>The contract both caches offer: a \<open>get\<close> answers the view, and no operation makes a value visible
  that the view before it or the operation itself did not have, up to \<open>same\<close>.\<close>

locale embedding_store =
  fixes get :: "'k \<Rightarrow> 's \<Rightarrow> 's \<times> 'v option result"
    and put :: "'k \<Rightarrow> 'v \<Rightarrow> int \<Rightarrow> 's \<Rightarrow> 's \<times> unit result"
    and inv :: "'s \<Rightarrow> bool" and lookup :: "'s \<Rightarrow> 'k \<Rightarrow> 'v option" and fits :: "'s \<Rightarrow> int \<Rightarrow> bool"
    and same :: "'v \<Rightarrow> 'v \<Rightarrow> bool"
  assumes same_refl: "same v v" and same_trans: "same u v \<Longrightarrow> same v w \<Longrightarrow> same u w"
    and get_result: "inv s \<Longrightarrow> snd (get k s) = Inr (lookup s k)"
    and get_inv: "inv s \<Longrightarrow> inv (fst (get k s)) \<and> fits (fst (get k s)) = fits s"
    and get_view: "inv s \<Longrightarrow> lookup (fst (get k s)) k' = Some w \<Longrightarrow> \<exists>u. lookup s k' = Some u \<and> same u w"
    and put_inv: "inv s \<Longrightarrow> inv (fst (put k v n s)) \<and> fits (fst (put k v n s)) = fits s"
    and put_stores: "inv s \<Longrightarrow> fits s n \<Longrightarrow> lookup (fst (put k v n s)) k = Some v"
    and put_view: "inv s \<Longrightarrow> lookup (fst (put k v n s)) k' = Some w \<Longrightarrow>
      \<exists>u. (if fits s n then (lookup s)(k \<mapsto> v) else lookup s) k' = Some u \<and> same u w"
begin

lemma run_inv: "inv s \<Longrightarrow> inv (run_ops get put ops s) \<and> fits (run_ops get put ops s) = fits s"
proof (induction ops arbitrary: s)
  case (Cons x ops)
  then show ?case by (cases x) (simp_all add: get_inv put_inv)
qed simp

lemma run_view:
  assumes "inv s" and "\<forall>k v. lookup s k = Some v \<longrightarrow> (\<exists>u. m k = Some u \<and> same u v)"
    and "lookup (run_ops get put ops s) k = Some v"
  shows "\<exists>u. last_put (fits s) ops m k = Some u \<and> same u v"
  using assms
proof (induction ops arbitrary: s m)
  case (Cons x ops)
  show ?case
  proof (cases x)
    case (Get k')
    have "\<forall>k v. lookup (fst (get k' s)) k = Some v \<longrightarrow> (\<exists>u. m k = Some u \<and> same u v)"
      using get_view [OF Cons.prems(1)] Cons.prems(2) same_trans by meson
    with Cons.IH [of "fst (get k' s)" m] Cons.prems(3) Get get_inv [OF Cons.prems(1), of k'] show ?thesis by simp
  next
    case (Put k' v' n)
    let ?m = "if fits s n then m(k' \<mapsto> v') else m"
    have "\<exists>u. ?m k = Some u \<and> same u v" if l: "lookup (fst (put k' v' n s)) k = Some v" for k v
    proof -
      obtain u where u: "(if fits s n then (lookup s)(k' \<mapsto> v') else lookup s) k = Some u" "same u v"
        using put_view [OF Cons.prems(1) l] by blast
      show ?thesis
      proof (cases "fits s n \<and> k = k'")
        case True
        with u show ?thesis by simp
      next
        case False
        with u have "lookup s k = Some u" by (auto split: if_splits)
        then obtain u' where "m k = Some u'" "same u' u" using Cons.prems(2) by blast
        with False u(2) same_trans show ?thesis by (auto split: if_splits)
      qed
    qed
    then have "\<forall>k v. lookup (fst (put k' v' n s)) k = Some v \<longrightarrow> (\<exists>u. ?m k = Some u \<and> same u v)" by blast
    with Cons.IH [of "fst (put k' v' n s)" ?m] Cons.prems(3) Put put_inv [OF Cons.prems(1), of k' v' n] show ?thesis by simp
  qed
qed simp

lemma run_coherent:
  assumes "inv s" "\<forall>k. lookup s k = None" and "snd (get k (run_ops get put ops s)) = Inr (Some v)"
  shows "\<exists>u. last_put (fits s) ops (\<lambda>_. None) k = Some u \<and> same u v"
  using run_view [OF assms(1), of "\<lambda>_. None" ops k v] assms get_result [of "run_ops get put ops s" k] run_inv [OF assms(1), of ops]
  by simp

lemma run_fresh:
  assumes "inv s" "fits s n"
  shows "snd (get k (run_ops get put (ops @ [Put k v n]) s)) = Inr (Some v)"
proof -
  let ?s = "run_ops get put ops s"
  have i: "inv ?s" "fits ?s n" using run_inv [OF assms(1), of ops] assms(2) by simp_all
  have "lookup (fst (put k v n ?s)) k = Some v" by (rule put_stores [OF i])
  with get_result [of "fst (put k v n ?s)" k] put_inv [OF i(1), of k v n] show ?thesis by (simp add: run_ops_append)
qed

end

interpretation tiered: embedding_store "tc_get h d" "tc_put h" tiered_ok "tc_lookup d" tc_fits "host_trips h d"
  for h d :: "'v \<Rightarrow> 'v"
proof (unfold_locales)
  fix u v w :: 'v and t :: "('k, 'v) tiered_cache" and k k' n
  show "host_trips h d v v" by (rule host_trips_refl)
  show "host_trips h d u v \<Longrightarrow> host_trips h d v w \<Longrightarrow> host_trips h d u w" by (rule host_trips_trans)
  assume t: "tiered_ok t"
  note g = tc_get_ok [OF t, of h d k, unfolded get_keeps_def] and p = tc_put_ok [OF t, of h k v n d]
  show "snd (tc_get h d k t) = Inr (tc_lookup d t k)"
    "tiered_ok (fst (tc_get h d k t)) \<and> tc_fits (fst (tc_get h d k t)) = tc_fits t" using g by auto
  show "tc_lookup d (fst (tc_get h d k t)) k' = Some w \<Longrightarrow> \<exists>u. tc_lookup d t k' = Some u \<and> host_trips h d u w"
    using g unfolding view_refines_def by blast
  show "tiered_ok (fst (tc_put h k v n t)) \<and> tc_fits (fst (tc_put h k v n t)) = tc_fits t" using p by auto
  show "tc_fits t n \<Longrightarrow> tc_lookup d (fst (tc_put h k v n t)) k = Some v" using p by auto
  show "tc_lookup d (fst (tc_put h k v n t)) k' = Some w \<Longrightarrow>
      \<exists>u. (if tc_fits t n then (tc_lookup d t)(k \<mapsto> v) else tc_lookup d t) k' = Some u \<and> host_trips h d u w"
    using p unfolding view_refines_def by (cases "tc_fits t n") auto
qed

definition plain_get :: "'k \<Rightarrow> ('k, 'v) embedding_cache \<Rightarrow> ('k, 'v) embedding_cache \<times> 'v option result" where
  "plain_get k c = (fst (ec_get k c), Inr (snd (ec_get k c)))"

definition plain_put :: "'k \<Rightarrow> 'v \<Rightarrow> int \<Rightarrow> ('k, 'v) embedding_cache \<Rightarrow> ('k, 'v) embedding_cache \<times> unit result" where
  "plain_put k v n c = (fst (fst (ec_put None k v n c ())), snd (ec_put None k v n c ()))"

definition plain_lookup :: "('k, 'v) embedding_cache \<Rightarrow> 'k \<Rightarrow> 'v option" where
  "plain_lookup c k = map_option fst (map_of (ec_store c) k)"

definition plain_fits :: "('k, 'v) embedding_cache \<Rightarrow> int \<Rightarrow> bool" where
  "plain_fits c n \<longleftrightarrow> 0 \<le> n \<and> n \<le> ec_capacity_bytes c"

lemma plain_get_ok:
  assumes "cache_ok c"
  shows "snd (plain_get k c) = Inr (plain_lookup c k)" "cache_ok (fst (plain_get k c))"
    "ec_capacity_bytes (fst (plain_get k c)) = ec_capacity_bytes c" "plain_lookup (fst (plain_get k c)) = plain_lookup c"
proof -
  have "snd (plain_get k c) = Inr (plain_lookup c k) \<and> cache_ok (fst (plain_get k c)) \<and>
    ec_capacity_bytes (fst (plain_get k c)) = ec_capacity_bytes c \<and> plain_lookup (fst (plain_get k c)) = plain_lookup c"
  proof (cases "map_of (ec_store c) k")
    case None
    then show ?thesis using assms by (simp add: plain_get_def ec_get_def plain_lookup_def cache_ok_def fun_eq_iff)
  next
    case (Some e)
    have "ec_capacity_bytes (fst (ec_get k c)) = ec_capacity_bytes c" "snd (ec_get k c) = Some (fst e)"
      using Some by (simp_all add: ec_get_def)
    with ec_get_hit [OF assms Some] Some show ?thesis by (simp add: plain_get_def plain_lookup_def fun_eq_iff)
  qed
  then show "snd (plain_get k c) = Inr (plain_lookup c k)" "cache_ok (fst (plain_get k c))"
    "ec_capacity_bytes (fst (plain_get k c)) = ec_capacity_bytes c" "plain_lookup (fst (plain_get k c)) = plain_lookup c"
    by blast+
qed

lemma plain_put_fits:
  assumes "cache_ok c" "plain_fits c n"
  shows "ec_capacity_bytes (fst (plain_put k v n c)) = ec_capacity_bytes c" "plain_lookup (fst (plain_put k v n c)) k = Some v"
    "k' \<noteq> k \<Longrightarrow> plain_lookup (fst (plain_put k v n c)) k' = Some w \<Longrightarrow> plain_lookup c k' = Some w"
proof -
  let ?d = "AList.delete k (ec_store c)"
  have n: "0 \<le> n" "n \<le> ec_capacity_bytes c" using assms(2) by (simp_all add: plain_fits_def)
  obtain m where "ec_put None k v n c () = ((c\<lparr>ec_store := drop m ?d @ [(k, v, n)],
      ec_cur_bytes := entry_bytes (drop m ?d @ [(k, v, n)])\<rparr>, fold (fire_hook None) (take m ?d) ()), Inr ())"
    by (rule ec_put_spec [OF assms(1) n, where on_evict = None and k = k and v = v and env = "()"])
  then have c: "fst (plain_put k v n c) = c\<lparr>ec_store := drop m ?d @ [(k, v, n)],
      ec_cur_bytes := entry_bytes (drop m ?d @ [(k, v, n)])\<rparr>" by (simp add: plain_put_def)
  note P = map_of_put [OF cache_okD(2) [OF assms(1)], where m = m and k = k and e = "(v, n)"]
  show "ec_capacity_bytes (fst (plain_put k v n c)) = ec_capacity_bytes c" by (simp add: c)
  show "plain_lookup (fst (plain_put k v n c)) k = Some v" using P(1) by (simp add: c plain_lookup_def del: map_of_append)
  show "k' \<noteq> k \<Longrightarrow> plain_lookup (fst (plain_put k v n c)) k' = Some w \<Longrightarrow> plain_lookup c k' = Some w"
    using P(2) by (auto simp: c plain_lookup_def simp del: map_of_append)
qed

lemma plain_put_rejected: "\<not> plain_fits c n \<Longrightarrow> fst (plain_put k v n c) = c"
  by (auto simp: plain_put_def ec_put_def plain_fits_def)

interpretation single: embedding_store plain_get plain_put cache_ok plain_lookup plain_fits "(=)"
proof (unfold_locales)
  fix c :: "('k, 'v) embedding_cache" and k k' :: 'k and v w :: 'v and n
  assume c: "cache_ok c"
  note g = plain_get_ok [OF c, of k]
  show "snd (plain_get k c) = Inr (plain_lookup c k)" by (rule g)
  show "cache_ok (fst (plain_get k c)) \<and> plain_fits (fst (plain_get k c)) = plain_fits c"
    using g(2,3) by (simp add: plain_fits_def fun_eq_iff)
  show "plain_lookup (fst (plain_get k c)) k' = Some w \<Longrightarrow> \<exists>u. plain_lookup c k' = Some u \<and> u = w" using g(4) by simp
  have "cache_ok (fst (plain_put k v n c))" using cache_ok_put [OF c] by (simp add: plain_put_def)
  moreover have "plain_fits (fst (plain_put k v n c)) = plain_fits c"
    using plain_put_fits(1) [OF c, of n k v] plain_put_rejected [of c n k v]
    by (cases "plain_fits c n") (simp_all add: plain_fits_def [abs_def] fun_eq_iff)
  ultimately show "cache_ok (fst (plain_put k v n c)) \<and> plain_fits (fst (plain_put k v n c)) = plain_fits c" by blast
  show "plain_fits c n \<Longrightarrow> plain_lookup (fst (plain_put k v n c)) k = Some v" by (rule plain_put_fits(2) [OF c])
  show "plain_lookup (fst (plain_put k v n c)) k' = Some w \<Longrightarrow>
      \<exists>u. (if plain_fits c n then (plain_lookup c)(k \<mapsto> v) else plain_lookup c) k' = Some u \<and> u = w"
    using plain_put_fits(2) [OF c, of n k v] plain_put_fits(3) [OF c, where k = k and v = v and n = n and k' = k' and w = w]
      plain_put_rejected [of c n k v]
    by (cases "plain_fits c n"; cases "k' = k") auto
qed simp_all

section \<open>The caches behave\<close>

fun count_gets :: "('k, 'v) cache_op list \<Rightarrow> int" where
  "count_gets [] = 0"
| "count_gets (Get k # ops) = 1 + count_gets ops"
| "count_gets (Put k v n # ops) = count_gets ops"

lemma run_tiered:
  assumes "tiered_ok t"
  shows "let t' = run_ops (tc_get h d) (tc_put h) ops t in
    tiered_ok t' \<and> ec_capacity_bytes (tc_l1 t') = ec_capacity_bytes (tc_l1 t) \<and>
    ec_capacity_bytes (tc_l2 t') = ec_capacity_bytes (tc_l2 t) \<and>
    tc_hits t' + tc_misses t' = tc_hits t + tc_misses t + count_gets ops"
  using assms
proof (induction ops arbitrary: t)
  case (Cons x ops)
  show ?case
  proof (cases x)
    case (Get k)
    with Cons.IH [of "fst (tc_get h d k t)"] tc_get_ok [OF Cons.prems, of h d k] show ?thesis
      by (simp add: get_keeps_def Let_def)
  next
    case (Put k v n)
    with Cons.IH [of "fst (tc_put h k v n t)"] tc_put_ok [OF Cons.prems, of h k v n] show ?thesis by (simp add: Let_def)
  qed
qed simp

lemma tc_init_ok:
  assumes "tc_init c1 c2 = Inr t"
  shows "tiered_ok t" "ec_capacity_bytes (tc_l1 t) = c1" "ec_capacity_bytes (tc_l2 t) = c2"
    "tc_hits t + tc_misses t = 0" "\<forall>k. tc_lookup d t k = None"
  using assms by (auto simp: tc_init_def ec_init_def result_simps tiered_ok_def tiers_ok_def cache_ok_def entries_ok_def
      ec_len_def tc_hits_def tier_view_def)

text \<open>C16: in every state of the two-tier embedding cache that gets and puts reach from the empty
  cache, both tiers account their bytes exactly and stay within their capacities, no key lives
  in both tiers, hits and misses add up to the gets made, and every promoted entry was demoted
  before.\<close>

theorem tiered_cache_well_formed:
  assumes "tc_init c1 c2 = Inr t0" and "t = run_ops (tc_get to_host to_device) (tc_put to_host) ops t0"
  shows "tiered_ok t \<and>
    ec_cur_bytes (tc_l1 t) = sum_list (map (snd \<circ> snd) (ec_store (tc_l1 t))) \<and> ec_cur_bytes (tc_l1 t) \<in> {0..c1} \<and>
    ec_cur_bytes (tc_l2 t) = sum_list (map (snd \<circ> snd) (ec_store (tc_l2 t))) \<and> ec_cur_bytes (tc_l2 t) \<in> {0..c2} \<and>
    (\<forall>k. \<not> (ec_contains k (tc_l1 t) \<and> ec_contains k (tc_l2 t))) \<and>
    tc_hits t + tc_misses t = count_gets ops \<and> tc_promotions t + ec_len (tc_l2 t) \<le> tc_demotions t"
proof -
  have R: "tiered_ok t" "ec_capacity_bytes (tc_l1 t) = c1" "ec_capacity_bytes (tc_l2 t) = c2" "tc_hits t + tc_misses t = count_gets ops"
    using run_tiered [OF tc_init_ok(1) [OF assms(1)], of to_host to_device ops] tc_init_ok(2,3,4) [OF assms(1)]
    by (simp_all add: assms(2) Let_def)
  note T = tiers_okD [OF tiered_okD(2) [OF R(1)]]
  note c1 = cache_okD [OF tiered_okD(1) [OF R(1)]] and c2 = cache_okD [OF T(2)]
  have "\<not> (ec_contains k (tc_l1 t) \<and> ec_contains k (tc_l2 t))" for k
    using T(3) by (auto simp: ec_contains_def dest!: map_of_SomeD) (metis IntI emptyE fst_conv imageI)
  moreover have "ec_cur_bytes (tc_l1 t) \<in> {0..c1}" "ec_cur_bytes (tc_l2 t) \<in> {0..c2}"
    using c1 c2 entry_bytes_nonneg R(2,3) by auto
  ultimately show ?thesis using R(1,4) T(6) c1(3) c2(3) by (simp add: entry_bytes_def)
qed

lemma host_copy_id:
  "(\<forall>x. to_dev device (cpu x) = x) \<Longrightarrow> embedding_to_device to_dev (embedding_to_host cpu v) device = v"
  by (cases v) (simp_all add: option.map_comp comp_def option.map_ident)

lemma tc_contains_lookup: "tc_contains k t \<longleftrightarrow> tc_lookup d t k \<noteq> None"
  by (auto simp: tc_contains_def ec_contains_def tier_view_def split: option.splits)

text \<open>C15: when the tensor copies between Device and Host preserve their contents, a get of the two-tier
  cache never raises, answers exactly when the key is in a tier, and answers the value of the
  last put of that key whose size the upper tier accepts; a get right after such a put hits.\<close>

theorem tiered_cache_coherent:
  assumes "tc_init c1 c2 = Inr t0" and "\<forall>x. to_dev device (cpu x) = x"
    and "to_host = embedding_to_host cpu" and "to_device = (\<lambda>v. embedding_to_device to_dev v device)"
    and "t = run_ops (tc_get to_host to_device) (tc_put to_host) ops t0"
  shows "\<exists>r. snd (tc_get to_host to_device k t) = Inr r \<and> (r \<noteq> None \<longleftrightarrow> tc_contains k t) \<and>
    (r = None \<or> r = last_put (\<lambda>n. 0 \<le> n \<and> n \<le> c1) ops (\<lambda>_. None) k) \<and>
    (\<forall>ops' v n. ops = ops' @ [Put k v n] \<and> 0 \<le> n \<and> n \<le> c1 \<longrightarrow> r = Some v)"
proof -
  note I = tc_init_ok [OF assms(1)]
  have fits: "tc_fits t0 = (\<lambda>n. 0 \<le> n \<and> n \<le> c1)" using I(2) by simp
  have ok: "tiered_ok t" using tiered.run_inv [OF I(1), of to_host to_device ops] by (simp add: assms(5))
  have g: "snd (tc_get to_host to_device k t) = Inr (tc_lookup to_device t k)" by (rule tiered.get_result [OF ok])
  have "v = u" if "host_trips to_host to_device u v" for u v
    by (rule host_trips_id [OF _ that]) (use assms(2) in \<open>simp add: assms(3,4) host_copy_id\<close>)
  then have "tc_lookup to_device t k = last_put (\<lambda>n. 0 \<le> n \<and> n \<le> c1) ops (\<lambda>_. None) k"
    if "tc_lookup to_device t k = Some v" for v
    using tiered.run_coherent [OF I(1,5), of to_host to_device k ops v, folded assms(5)] g that fits by auto
  moreover have "tc_lookup to_device t k = Some v" if "ops = ops' @ [Put k v n]" "0 \<le> n" "n \<le> c1" for ops' v n
    using tiered.run_fresh [OF I(1), of n to_host to_device k ops' v] that g I(2) by (simp add: assms(5))
  ultimately show ?thesis using g tc_contains_lookup [of k t to_device] by (cases "tc_lookup to_device t k") auto
qed

text \<open>C17: a put whose size fits makes its entry the newest, evicts the shortest prefix of the oldest other
  entries after which the cache fits its capacity, and calls the eviction hook on exactly the
  evicted entries, oldest first.\<close>

theorem embedding_put_lru:
  assumes "cache_ok c" "0 \<le> nbytes" "nbytes \<le> ec_capacity_bytes c"
    and "others = AList.delete key (ec_store c)"
  shows "\<exists>m \<le> length others. \<exists>c'.
     ec_put (Some hook) key value nbytes c env =
       ((c', fold (\<lambda>(k, v, n). hook k v n) (take m others) env), Inr ()) \<and>
     ec_store c' = drop m others @ [(key, value, nbytes)] \<and> cache_ok c' \<and>
     (\<forall>j < m. ec_capacity_bytes c < nbytes + sum_list (map (snd \<circ> snd) (drop j others)))"
proof -
  obtain m where m: "m \<le> length others" "ec_put (Some hook) key value nbytes c env =
      ((c\<lparr>ec_store := drop m others @ [(key, value, nbytes)],
          ec_cur_bytes := entry_bytes (drop m others @ [(key, value, nbytes)])\<rparr>,
        fold (fire_hook (Some hook)) (take m others) env), Inr ())"
    "\<forall>j < m. ec_capacity_bytes c < entry_bytes (drop j others @ [(key, value, nbytes)])"
    unfolding assms(4) by (rule ec_put_spec [OF assms(1-3), where on_evict = "Some hook" and k = key and v = "value" and env = env])
  have "fire_hook (Some hook) = (\<lambda>(k, v, n). hook k v n)" by (simp add: fire_hook_def fun_eq_iff)
  with m cache_ok_put [OF assms(1), of "Some hook" key "value" nbytes env] show ?thesis
    by (intro exI [of _ m] conjI exI [of _ "fst (fst (ec_put (Some hook) key value nbytes c env))"])
      (simp_all add: entry_bytes_def add.commute)
qed

section \<open>A concrete run\<close>

text \<open>Tensors are integers, and Host copies are marked by adding 1000.\<close>

definition demo_cpu :: "int \<Rightarrow> int" where
  "demo_cpu x = x + 1000"

definition demo_to_dev :: "unit \<Rightarrow> int \<Rightarrow> int" where
  "demo_to_dev device x = x - 1000"

definition demo_cache_ops :: "(string, int embedding) cache_op list" where
  "demo_cache_ops = [Put ''a'' (Halves [Some 1, None]) 6, Put ''b'' (Bare 2) 5, Get ''a'', Put ''c'' (Bare 3) 20]"

definition demo_cache :: "(string, int embedding) tiered_cache" where
  "demo_cache = run_ops (tc_get (embedding_to_host demo_cpu) (\<lambda>v. embedding_to_device demo_to_dev v ()))
     (tc_put (embedding_to_host demo_cpu)) demo_cache_ops
     \<lparr>tc_l1 = \<lparr>ec_capacity_bytes = 10, ec_store = [], ec_cur_bytes = 0, ec_hits = 0, ec_misses = 0\<rparr>,
      tc_l2 = \<lparr>ec_capacity_bytes = 10, ec_store = [], ec_cur_bytes = 0, ec_hits = 0, ec_misses = 0\<rparr>,
      tc_l1_hits = 0, tc_l2_hits = 0, tc_misses = 0, tc_promotions = 0, tc_demotions = 0\<rparr>"

lemma demo_init:
  "tc_init 10 10 = Inr \<lparr>tc_l1 = \<lparr>ec_capacity_bytes = 10, ec_store = [], ec_cur_bytes = 0, ec_hits = 0, ec_misses = 0\<rparr>,
      tc_l2 = \<lparr>ec_capacity_bytes = 10, ec_store = [], ec_cur_bytes = 0, ec_hits = 0, ec_misses = 0\<rparr>,
      tc_l1_hits = 0, tc_l2_hits = 0, tc_misses = 0, tc_promotions = 0, tc_demotions = 0\<rparr>"
  by (simp add: tc_init_def ec_init_def)

theorem tiered_cache_well_formed_witness:
  "tiered_ok demo_cache \<and> tc_promotions demo_cache = 1 \<and> tc_demotions demo_cache = 2 \<and>
     tc_hits demo_cache + tc_misses demo_cache = count_gets demo_cache_ops"
proof -
  have "tc_promotions demo_cache = 1 \<and> tc_demotions demo_cache = 2" by code_simp
  with tiered_cache_well_formed [OF demo_init demo_cache_def] show ?thesis by blast
qed

theorem tiered_cache_coherent_witness:
  "snd (tc_get (embedding_to_host demo_cpu) (\<lambda>v. embedding_to_device demo_to_dev v ()) ''b'' demo_cache) = Inr (Some (Bare 2)) \<and>
   last_put (\<lambda>n. 0 \<le> n \<and> n \<le> 10) demo_cache_ops (\<lambda>_. None) ''b'' = Some (Bare 2)"
proof -
  have "\<forall>x. demo_to_dev () (demo_cpu x) = x" by (simp add: demo_to_dev_def demo_cpu_def)
  note C = tiered_cache_coherent [OF demo_init this refl refl demo_cache_def, of "''b''"]
  have "tc_contains ''b'' demo_cache" by code_simp
  moreover have "last_put (\<lambda>n. 0 \<le> n \<and> n \<le> 10) demo_cache_ops (\<lambda>_. None) ''b'' = Some (Bare 2)"
    by (simp add: demo_cache_ops_def)
  ultimately show ?thesis using C by auto
qed

definition demo_entries :: "(string, int) entries" where
  "demo_entries = [(''a'', 1, 6), (''b'', 2, 5)]"

definition demo_plain :: "(string, int) embedding_cache" where
  "demo_plain = \<lparr>ec_capacity_bytes = 12, ec_store = demo_entries, ec_cur_bytes = 11, ec_hits = 0, ec_misses = 0\<rparr>"

theorem embedding_put_lru_witness:
  "\<exists>m \<le> length demo_entries. \<exists>c'. ec_put (Some (\<lambda>k v n env. env @ [k])) ''c'' 3 7 demo_plain [] =
     ((c', fold (\<lambda>(k, v, n) env. env @ [k]) (take m demo_entries) []), Inr ()) \<and>
     ec_store c' = drop m demo_entries @ [(''c'', 3, 7)] \<and> cache_ok c' \<and>
     (\<forall>j < m. 12 < 7 + sum_list (map (snd \<circ> snd) (drop j demo_entries)))"
proof -
  have "cache_ok demo_plain" by (simp add: cache_ok_def entries_ok_def demo_plain_def demo_entries_def)
  moreover have "demo_entries = AList.delete ''c'' (ec_store demo_plain)" by (simp add: demo_plain_def demo_entries_def)
  moreover have "ec_capacity_bytes demo_plain = 12" by (simp add: demo_plain_def)
  ultimately show ?thesis
    using embedding_put_lru [of demo_plain 7 demo_entries "''c''" "\<lambda>k v n env. env @ [k]" 3 "[]"] by simp
qed

end
