(* ===== verification/Spec2Isabelle.thy ===== *)
theory Spec2Isabelle
  imports Layer_Groups Page_Rows Transfer_Lane Transfer_Owners Executor_Reuse Embedding_Cache
begin

text \<open>
  Verification of the key-value cache of the tokenspeed runtime: how cache memory is planned, how
  scheduler block ids become local pages, and how cache blocks move between Device and pinned Host memory.
  Paths are under \<^verbatim>\<open>src/python/tokenspeed/runtime\<close> unless they name the kernel package.

  \<^bold>\<open>The program's parts.\<close> A model declares cache groups (\<^verbatim>\<open>kv_cache/recipes/spec.py\<close>: which layers share a
  page table, how long their pages live). The planner (\<^verbatim>\<open>kv_cache/recipes/plan.py\<close>) searches a packing of
  the groups' pages into one least-common-multiple (LCM) block, lays out planes and fields, and binds the layout to
  one arena. The scheduler hands out virtual block ids; \<^verbatim>\<open>cache_runtime.py\<close>, \<^verbatim>\<open>virtual_blocks.py\<close> and
  \<^verbatim>\<open>dcp/placement.py\<close> (with its Triton kernels) translate them for one context-parallel rank. For Host offload, a
  plan is viewed as a transfer layout (\<^verbatim>\<open>cache/transfer/layout.py\<close>), Host memory is laid out in compact blocks
  (\<^verbatim>\<open>cache/host_storage.py\<close>), rows of a transfer are filtered by owner (\<^verbatim>\<open>cache/transfer/ownership.py\<close>), staged
  on a lane (\<^verbatim>\<open>cache/transfer/lanes.py\<close>) and copied by a DMA or a Triton transport (\<^verbatim>\<open>ops/kvcache\<close> of the kernel
  package). The Host cache executor (\<^verbatim>\<open>cache/l2\<close>) turns the scheduler's cache operations into such copies on device
  streams, orders them with events and acknowledges them. The embedding cache (\<^verbatim>\<open>cache/embedding_cache.py\<close>) is a
  separate bytes-bounded store of vision embeddings in two tiers.

  \<^bold>\<open>Theories.\<close>
  \<^item> \<^theory_text>\<open>TS_Prelude\<close>: exceptions as values (\<open>py_error\<close>, \<open>result\<close>, \<open>bindE\<close>, \<open>raise_if\<close>, \<open>mapE\<close>, \<open>foldE\<close>), dictionaries as
    association lists, ceiling division, alignment and bit length, with their lemmas.
  \<^item> \<^theory_text>\<open>Machine_Numbers\<close>: signed 32-bit wrap-around (\<open>wrap32\<close>) and Python floats (\<open>double\<close> rounds a rational to 53 bits,
    ties to even; \<open>py_float\<close> adds the infinities and NaN), with the error bound of a rounding.
  \<^item> \<^theory_text>\<open>Group_Spec\<close>, \<^theory_text>\<open>Layer_Groups\<close>: \<^verbatim>\<open>spec.py\<close>. The first has one group's declaration, its checks, page
    arithmetic and capture width; the second the grouping of layers, recurrent state groups and slab sizes.
  \<^item> \<^theory_text>\<open>Memory_Plan\<close>, \<^theory_text>\<open>Packing_Solver\<close>, \<^theory_text>\<open>Pack\<close>, \<^theory_text>\<open>Plan_Geometry\<close>: \<^verbatim>\<open>plan.py\<close>. Records and field offsets; the
    packing search; \<open>pack\<close> from a declaration to a layout; the byte geometry of a bound plan and of its layer windows.
    The lemmas show that the search is sound and complete, that a layout is well formed and honours its declaration, and
    that live pages of all groups stay inside the arena and apart.
  \<^item> \<^theory_text>\<open>Byte_Regions\<close>: the locale of a region layout over byte memory; the plan and the Host storage interpret it.
  \<^item> \<^theory_text>\<open>Block_Placement\<close>, \<^theory_text>\<open>Page_Compaction\<close>, \<^theory_text>\<open>Page_Rows\<close>: \<^verbatim>\<open>cache_runtime.py\<close>, \<^verbatim>\<open>virtual_blocks.py\<close>,
    \<^verbatim>\<open>dcp/placement.py\<close> and \<^verbatim>\<open>triton_cache_placement.py\<close>. The locale of block ownership is interpreted on the cyclic
    placement; an accepted contract places every scheduler block; the three implementations of page compaction agree
    (the Triton kernel on tables that fit in 32 bits), and rows and visible lengths count what is owned.
  \<^item> \<^theory_text>\<open>Transfer_Layout\<close>, \<^theory_text>\<open>Host_Transfer\<close>, \<^theory_text>\<open>Transfer_Kernel\<close>, \<^theory_text>\<open>Transfer_Lane\<close>: \<^verbatim>\<open>layout.py\<close>,
    \<^verbatim>\<open>host_storage.py\<close>, \<^verbatim>\<open>host_transfer.py\<close>, \<^verbatim>\<open>triton.py\<close> and the data side of \<^verbatim>\<open>lanes.py\<close>. Views address the plan's own
    bytes, Host blocks are disjoint, the tables of a transfer are those of the last load, the Triton kernel computes what the DMA transport does
    under every interleaving of its programs, releases a layer only when it is complete, stays in bounds and finishes, and
    a write-back followed by a load restores the blocks.
  \<^item> \<^theory_text>\<open>Transfer_Owners\<close>: \<^verbatim>\<open>ownership.py\<close>, the completion queue and the pinned sizes of \<^verbatim>\<open>lanes.py\<close>.
  \<^item> \<^theory_text>\<open>Stream_Order\<close>: the log of stream calls, with the submitting thread as one more stream, and what a device
    promises about it.
  \<^item> \<^theory_text>\<open>Layerwise_Load\<close>, \<^theory_text>\<open>Cache_Executor\<close>: \<^verbatim>\<open>layerwise_load.py\<close>, \<^verbatim>\<open>cache/transfer/ops.py\<close> and \<^verbatim>\<open>executor.py\<close>.
    The executor's state is a record; every method that changes it is a function from state to state and result.
  \<^item> \<^theory_text>\<open>Executor_Order\<close>, \<^theory_text>\<open>Executor_Loads\<close>, \<^theory_text>\<open>Executor_Reuse\<close>: stores are fenced and acknowledged after their copies,
    a layer's consumers wait for its copy, and tables are refilled only after their readers, in every reachable state.
  \<^item> \<^theory_text>\<open>Embedding_Cache\<close>: both caches as implementations of one locale of stores; least-recently-used eviction,
    exclusive tiers and coherence.

  \<^bold>\<open>Conventions.\<close> Python integers are \<open>int\<close>, strings \<open>string\<close>, dictionaries association lists in insertion order.
  An exception is the left value of a result; an operation that changes state and may raise returns the state beside the
  result. Message texts are shortened to a fixed string, and log output is left out. Where a kernel computes in 32-bit
  integers, the results are wrapped; byte offsets and slots are computed in 64 bits by the code and are \<open>int\<close> here. Float
  expressions round after every operation; the range of the exponent is not bounded.

  \<^bold>\<open>Bounds.\<close> No fuel is used. Loops over collections are structural recursion. The walk up the solver's
  union-find forest may loop on an arbitrary forest, so it is a \<open>while_option\<close> whose divergence is the value \<open>Loops\<close>;
  the solver is proved never to return it. A Triton launch is a step relation over its programs, whose runs are proved
  no longer than the number of instructions left; a step is one copy or one arrival at a layer counter, and steps of
  different programs interleave in one order that all of them see, so the acquire and release fences of the kernel are
  taken to do what they are for.

  \<^bold>\<open>Parameters and hypotheses.\<close> Device and Host memory are byte maps. What a stream and an event guarantee is the
  predicate \<open>stream_order\<close> over the executed calls of a log. Whether a call into a transport, an exporter or the driver
  returns or raises is an argument of the operation that makes it; recording an event and waiting for it do not raise. The tensor copies of the embedding cache are
  functions, with the preservation of contents as a hypothesis where a property needs it.

  \<^bold>\<open>Not modelled.\<close> The sizing of the Host tiers (\<^verbatim>\<open>cache/l2/sizing.py\<close> and the constructor of the executor) computes
  in floating point and asks the operating system for memory. The remote tier (\<^verbatim>\<open>cache/l3\<close>) and disaggregated serving are
  network I/O. Attention backends, layers, models, sampling and the other kernels are floating-point tensor code; the
  arena and the pools only form tensor views at the planned offsets. The engine, the Rust front end, the C++ scheduler and
  the process groups are concurrent services; what they send, block ids and plans, are arguments here.
\<close>

end
